(* ===== verification/Prelude.thy ===== *)
theory Prelude
  imports Main "HOL-Library.Word"
begin

text \<open>
  What every component of the development shares.

  \<^item> A C function that may stop the process (an \<open>assert\<close>, a call of \<open>exit\<close>, a memory access
    outside the mapped memory) is a function from a state to either the reason it stopped or
    its result with the new state: \<open>('s, 'a) prog\<close>.  \<open>ret\<close>, \<open>bnd\<close>, \<open>stop\<close>, \<open>gets\<close>, \<open>upd\<close> and
    \<open>check\<close> build such functions and \<open>for_each\<close> is a counted loop over them.
  \<^item> \<open>triple P m Q E\<close>: started in a state that satisfies \<open>P\<close>, the function \<open>m\<close> either returns
    with \<open>Q\<close> or stops for a reason that satisfies \<open>E\<close>; one rule per building block, collected
    in \<open>triple_rules\<close>.
  \<^item> Little-endian byte strings of words, and the first index of a list with a property, which
    the allocators of several components search for.
\<close>

unbundle bit_operations_syntax

named_theorems triple_rules "rules for triples of the building blocks of programs"
named_theorems prog_simps "evaluation of the building blocks of programs"

section \<open>Programs that may stop\<close>

text \<open>
  Why a process stops: a memory access that faults, behaviour the C standard leaves undefined
  (an array index outside the array), a failed assertion (abort), a call of \<open>exit\<close> with its
  status, or waiting for something that cannot happen (a mutex that nobody will unlock).
\<close>

datatype stop = Fault | Undefined | Assertion | Exit int | Blocked

type_synonym ('s, 'a) prog = "'s \<Rightarrow> stop + ('a \<times> 's)"

definition ret :: "'a \<Rightarrow> ('s, 'a) prog" where
  "ret x = (\<lambda>s. Inr (x, s))"

definition bnd :: "('s, 'a) prog \<Rightarrow> ('a \<Rightarrow> ('s, 'b) prog) \<Rightarrow> ('s, 'b) prog" where
  "bnd m f = (\<lambda>s. case m s of Inl e \<Rightarrow> Inl e | Inr (x, s') \<Rightarrow> f x s')"

definition seq :: "('s, unit) prog \<Rightarrow> ('s, 'b) prog \<Rightarrow> ('s, 'b) prog" where
  "seq m k = bnd m (\<lambda>_. k)"

definition stop :: "stop \<Rightarrow> ('s, 'a) prog" where
  "stop e = (\<lambda>s. Inl e)"

definition gets :: "('s \<Rightarrow> 'a) \<Rightarrow> ('s, 'a) prog" where
  "gets f = (\<lambda>s. Inr (f s, s))"

definition upd :: "('s \<Rightarrow> 's) \<Rightarrow> ('s, unit) prog" where
  "upd f = (\<lambda>s. Inr ((), f s))"

text \<open>\<open>check e p\<close> goes on where \<open>p\<close> holds of the state and stops with \<open>e\<close> elsewhere.\<close>

definition check :: "stop \<Rightarrow> ('s \<Rightarrow> bool) \<Rightarrow> ('s, unit) prog" where
  "check e p = (\<lambda>s. if p s then Inr ((), s) else Inl e)"

definition skip :: "('s, unit) prog" where
  "skip = ret ()"

text \<open>A function of the state's data alone, used as a program.\<close>

definition lift :: "('s \<Rightarrow> stop + 'a) \<Rightarrow> ('s, 'a) prog" where
  "lift f = (\<lambda>s. case f s of Inl e \<Rightarrow> Inl e | Inr x \<Rightarrow> Inr (x, s))"

text \<open>The loop \<open>for (i = a; i < b; i++) body(i)\<close> is \<open>for_each body [a..<b]\<close>.\<close>

primrec for_each :: "('i \<Rightarrow> ('s, unit) prog) \<Rightarrow> 'i list \<Rightarrow> ('s, unit) prog" where
  "for_each body [] = skip"
| "for_each body (i # is) = seq (body i) (for_each body is)"

lemma ret_apply [simp, prog_simps]: "ret x s = Inr (x, s)"
  by (simp add: ret_def)

lemma stop_apply [simp, prog_simps]: "stop e s = Inl e"
  by (simp add: stop_def)

lemma gets_apply [simp, prog_simps]: "gets f s = Inr (f s, s)"
  by (simp add: gets_def)

lemma upd_apply [simp, prog_simps]: "upd f s = Inr ((), f s)"
  by (simp add: upd_def)

lemma skip_apply [simp, prog_simps]: "skip s = Inr ((), s)"
  by (simp add: skip_def)

lemma check_apply [simp, prog_simps]: "check e p s = (if p s then Inr ((), s) else Inl e)"
  by (simp add: check_def)

lemma lift_apply [prog_simps]: "lift f s = (case f s of Inl e \<Rightarrow> Inl e | Inr x \<Rightarrow> Inr (x, s))"
  by (simp add: lift_def)

lemma bnd_Inr [simp]: "m s = Inr (x, s') \<Longrightarrow> bnd m f s = f x s'"
  by (simp add: bnd_def)

lemma bnd_Inl [simp]: "m s = Inl e \<Longrightarrow> bnd m f s = Inl e"
  by (simp add: bnd_def)

lemma bnd_apply [prog_simps]:
  "bnd m f s = (case m s of Inl e \<Rightarrow> Inl e | Inr (x, s') \<Rightarrow> f x s')"
  by (simp add: bnd_def)

lemma seq_apply [prog_simps]:
  "seq m k s = (case m s of Inl e \<Rightarrow> Inl e | Inr (_, s') \<Rightarrow> k s')"
  by (simp add: seq_def bnd_def)

lemma seq_Inr [simp]: "m s = Inr (x, s') \<Longrightarrow> seq m k s = k s'"
  by (simp add: seq_def)

lemma seq_Inl [simp]: "m s = Inl e \<Longrightarrow> seq m k s = Inl e"
  by (simp add: seq_def)

lemma bnd_ret [simp]: "bnd (ret x) f = f x"
  by (simp add: fun_eq_iff)

lemma bnd_eq_Inr:
  "bnd m f s = Inr r \<longleftrightarrow> (\<exists>x s'. m s = Inr (x, s') \<and> f x s' = Inr r)"
  by (auto simp: bnd_def split: sum.splits)

lemma seq_eq_Inr:
  "seq m k s = Inr r \<longleftrightarrow> (\<exists>s'. m s = Inr ((), s') \<and> k s' = Inr r)"
  by (auto simp: seq_def bnd_eq_Inr)

lemma for_each_append:
  "for_each body (is @ js) s = seq (for_each body is) (for_each body js) s"
  by (induction "is" arbitrary: s) (auto simp: prog_simps split: sum.splits)

text \<open>A loop all of whose iterations leave the state alone leaves the state alone.\<close>

lemma for_each_skip:
  "(\<And>i. i \<in> set is \<Longrightarrow> body i s = Inr ((), s)) \<Longrightarrow> for_each body is s = Inr ((), s)"
  by (induction "is") auto

section \<open>Triples\<close>

definition triple ::
  "('s \<Rightarrow> bool) \<Rightarrow> ('s, 'a) prog \<Rightarrow> ('a \<Rightarrow> 's \<Rightarrow> bool) \<Rightarrow> (stop \<Rightarrow> bool) \<Rightarrow> bool" where
  "triple P m Q E \<longleftrightarrow> (\<forall>s. P s \<longrightarrow> (case m s of Inl e \<Rightarrow> E e | Inr (x, s') \<Rightarrow> Q x s'))"

lemma tripleI:
  "(\<And>s. P s \<Longrightarrow> (case m s of Inl e \<Rightarrow> E e | Inr (x, s') \<Rightarrow> Q x s')) \<Longrightarrow> triple P m Q E"
  by (simp add: triple_def)

lemma tripleD_Inr: "triple P m Q E \<Longrightarrow> P s \<Longrightarrow> m s = Inr (x, s') \<Longrightarrow> Q x s'"
  by (force simp: triple_def)

lemma tripleD_Inl: "triple P m Q E \<Longrightarrow> P s \<Longrightarrow> m s = Inl e \<Longrightarrow> E e"
  by (force simp: triple_def)

lemma triple_cases:
  assumes "triple P m Q E" "P s"
  obtains (ok) x s' where "m s = Inr (x, s')" "Q x s'" | (stopped) e where "m s = Inl e" "E e"
proof (cases "m s")
  case (Inl e)
  with assms show ?thesis by (auto intro: stopped tripleD_Inl)
next
  case (Inr r)
  with assms show ?thesis by (cases r) (auto intro: ok tripleD_Inr)
qed

text \<open>A function that cannot stop returns.\<close>

lemma triple_total:
  assumes "triple P m Q (\<lambda>_. False)" "P s"
  obtains x s' where "m s = Inr (x, s')" "Q x s'"
  using assms by (auto elim: triple_cases)

lemma triple_conseq:
  assumes "triple P' m Q' E'"
    and "\<And>s. P s \<Longrightarrow> P' s" and "\<And>x s. Q' x s \<Longrightarrow> Q x s" and "\<And>e. E' e \<Longrightarrow> E e"
  shows "triple P m Q E"
  using assms by (force simp: triple_def split: sum.splits)

lemma triple_ret [triple_rules]: "triple (Q x) (ret x) Q E"
  by (simp add: triple_def)

lemma triple_stop [triple_rules]: "E e \<Longrightarrow> triple P (stop e) Q E"
  by (simp add: triple_def)

lemma triple_gets [triple_rules]: "triple (\<lambda>s. Q (f s) s) (gets f) Q E"
  by (simp add: triple_def)

lemma triple_upd [triple_rules]: "triple (\<lambda>s. Q () (f s)) (upd f) Q E"
  by (simp add: triple_def)

lemma triple_skip [triple_rules]: "triple (Q ()) skip Q E"
  by (simp add: triple_def)

lemma triple_check: "triple (\<lambda>s. (p s \<longrightarrow> Q () s) \<and> (\<not> p s \<longrightarrow> E e)) (check e p) Q E"
  by (simp add: triple_def)

lemma triple_bnd:
  assumes "triple P m R E" and "\<And>x. triple (R x) (f x) Q E"
  shows "triple P (bnd m f) Q E"
  using assms by (force simp: triple_def bnd_def split: sum.splits)

lemma triple_seq:
  assumes "triple P m (\<lambda>_. R) E" and "triple R k Q E"
  shows "triple P (seq m k) Q E"
  unfolding seq_def by (rule triple_bnd [OF assms(1)]) (use assms(2) in simp)

lemma triple_if:
  assumes "b \<Longrightarrow> triple P m Q E" and "\<not> b \<Longrightarrow> triple P k Q E"
  shows "triple P (if b then m else k) Q E"
  using assms by simp

text \<open>The invariant rule of the counted loop: \<open>I i\<close> holds before iteration \<open>i\<close>.\<close>

lemma triple_for_upt:
  assumes "\<And>i. i < n \<Longrightarrow> triple (I i) (body i) (\<lambda>_. I (Suc i)) E"
  shows "triple (I 0) (for_each body [0..<n]) (\<lambda>_. I n) E"
  using assms
proof (induction n)
  case 0
  then show ?case by (simp add: triple_def)
next
  case (Suc n)
  have step: "triple (I n) (for_each body [n]) (\<lambda>_. I (Suc n)) E"
    using Suc.prems [of n] by (force simp: triple_def prog_simps split: sum.splits)
  have "triple (I 0) (for_each body [0..<n]) (\<lambda>_. I n) E"
    using Suc by simp
  then have "triple (I 0) (seq (for_each body [0..<n]) (for_each body [n])) (\<lambda>_. I (Suc n)) E"
    using step by (rule triple_seq)
  moreover have "for_each body [0..<Suc n] = seq (for_each body [0..<n]) (for_each body [n])"
    by (simp add: fun_eq_iff for_each_append)
  ultimately show ?case by simp
qed

text \<open>What every iteration keeps, the loop keeps.\<close>

lemma triple_for_each:
  "(\<And>i. i \<in> set is \<Longrightarrow> triple I (body i) (\<lambda>_. I) E) \<Longrightarrow> triple I (for_each body is) (\<lambda>_. I) E"
proof (induction "is")
  case Nil
  then show ?case by (simp add: triple_def)
next
  case (Cons i "is")
  then have "triple I (body i) (\<lambda>_. I) E" "triple I (for_each body is) (\<lambda>_. I) E" by simp_all
  then show ?case unfolding for_each.simps by (rule triple_seq)
qed

text \<open>Two bodies that agree wherever the invariant holds make the same loop.\<close>

lemma for_each_upt_cong:
  assumes "\<And>i. i < n \<Longrightarrow> triple (I i) (body i) (\<lambda>_. I (Suc i)) E"
    and "\<And>i s. i < n \<Longrightarrow> I i s \<Longrightarrow> body' i s = body i s"
    and "I 0 s"
  shows "for_each body' [0..<n] s = for_each body [0..<n] s"
  using assms
proof (induction n)
  case 0
  then show ?case by simp
next
  case (Suc n)
  then have IH: "for_each body' [0..<n] s = for_each body [0..<n] s" by simp
  have inv: "triple (I 0) (for_each body [0..<n]) (\<lambda>_. I n) E"
    using Suc.prems(1) by (intro triple_for_upt) simp
  have "seq (for_each body' [0..<n]) (for_each body' [n]) s
      = seq (for_each body [0..<n]) (for_each body [n]) s"
    using inv Suc.prems(3)
  proof (cases rule: triple_cases)
    case (ok u s')
    then show ?thesis using IH Suc.prems(2) [of n s'] by (simp add: seq_apply)
  next
    case (stopped e)
    then show ?thesis using IH by simp
  qed
  then show ?case by (simp add: for_each_append)
qed

section \<open>Words and bytes\<close>

type_synonym u8 = "8 word"
type_synonym u16 = "16 word"
type_synonym u32 = "32 word"
type_synonym u64 = "64 word"

lemma unat_of_nat_small: "n < 2 ^ LENGTH('a) \<Longrightarrow> unat (of_nat n :: 'a::len word) = n"
  by (simp add: unat_of_nat)

lemma not_bit_above: "unat (w :: 'a::len word) < 2 ^ n \<Longrightarrow> n \<le> k \<Longrightarrow> \<not> bit w k"
proof -
  assume less: "unat w < 2 ^ n" and le: "n \<le> k"
  have "(2::nat) ^ n \<le> 2 ^ k" using le by (rule power_increasing) simp
  then have "unat w < 2 ^ k" using less by (rule order.strict_trans2 [rotated])
  then have "unat w div 2 ^ k = 0" by simp
  then have "\<not> bit (unat w) k" by (simp add: bit_iff_odd)
  then show ?thesis by (simp add: bit_unsigned_iff)
qed

lemma not_bit_below: "unat (w :: 'a::len word) mod 2 ^ n = 0 \<Longrightarrow> k < n \<Longrightarrow> \<not> bit w k"
proof -
  assume zero: "unat w mod 2 ^ n = 0" and less: "k < n"
  have "\<not> bit (take_bit n (unat w)) k" using zero by (simp add: take_bit_eq_mod)
  then show ?thesis using less by (simp add: bit_take_bit_iff bit_unsigned_iff)
qed

lemma unat_diff_swap:
  fixes a b :: "'a::len word"
  assumes "a \<noteq> b"
  shows "unat (a - b) + unat (b - a) = 2 ^ LENGTH('a)"
proof -
  have ne: "unat a \<noteq> unat b" using assms by (metis unsigned_word_eqI)
  have a: "unat a < 2 ^ LENGTH('a)" and b: "unat b < 2 ^ LENGTH('a)" by simp_all
  show ?thesis
  proof (cases "unat a \<le> unat b")
    case True
    then have "unat (b - a) = unat b - unat a"
      and "unat (a - b) = unat a + 2 ^ LENGTH('a) - unat b"
      using ne by (simp_all add: unat_sub_if')
    then show ?thesis using True b by linarith
  next
    case False
    then have "unat (a - b) = unat a - unat b"
      and "unat (b - a) = unat b + 2 ^ LENGTH('a) - unat a"
      by (simp_all add: unat_sub_if')
    then show ?thesis using False a by linarith
  qed
qed

text \<open>Little-endian reading and writing of a word as bytes.\<close>

definition word_of_bytes :: "u8 list \<Rightarrow> 'a::len word" where
  "word_of_bytes bs = foldr (\<lambda>b acc. ucast b OR push_bit 8 acc) bs 0"

definition bytes_of_word :: "nat \<Rightarrow> 'a::len word \<Rightarrow> u8 list" where
  "bytes_of_word n w = map (\<lambda>i. ucast (drop_bit (8 * i) w)) [0..<n]"

lemma length_bytes_of_word [simp]: "length (bytes_of_word n w) = n"
  by (simp add: bytes_of_word_def)

lemma bit_word_of_bytes:
  "bit (word_of_bytes bs :: 'a::len word) n \<longleftrightarrow>
     n < LENGTH('a) \<and> n div 8 < length bs \<and> bit (bs ! (n div 8)) (n mod 8)"
proof (induction bs arbitrary: n)
  case Nil
  then show ?case by (simp add: word_of_bytes_def)
next
  case (Cons b bs)
  have fold: "word_of_bytes (b # bs) = (ucast b OR push_bit 8 (word_of_bytes bs) :: 'a word)"
    by (simp add: word_of_bytes_def)
  show ?case
  proof (cases "n < 8")
    case True
    then show ?thesis
      by (auto simp: fold bit_simps)
  next
    case False
    then have "n div 8 = Suc ((n - 8) div 8)" and "n mod 8 = (n - 8) mod 8"
      by (simp_all add: le_div_geq le_mod_geq)
    moreover have "\<not> bit b n"
      using False bit_imp_le_length [of b n] by auto
    ultimately show ?thesis
      using False by (auto simp: fold bit_simps Cons.IH)
  qed
qed

lemma word_of_bytes_of_word:
  assumes "8 * n = LENGTH('a)"
  shows "word_of_bytes (bytes_of_word n w) = (w :: 'a::len word)"
proof (rule bit_word_eqI)
  fix k assume k: "k < LENGTH('a)"
  then have "k div 8 < n" using assms by auto
  then show "bit (word_of_bytes (bytes_of_word n w) :: 'a word) k = bit w k"
    using k by (simp add: bit_word_of_bytes bytes_of_word_def bit_simps)
qed

lemma word_of_bytes_zero: "(\<And>b. b \<in> set bs \<Longrightarrow> b = 0) \<Longrightarrow> word_of_bytes bs = 0"
  by (rule bit_word_eqI) (metis bit_word_of_bytes bit_0_eq bot_apply bot_bool_def nth_mem)

section \<open>The first index with a property\<close>

text \<open>The scan \<open>for (i = 0; i < n; i++) if (p(i)) ...\<close> with an early return.\<close>

fun first_index :: "('a \<Rightarrow> bool) \<Rightarrow> 'a list \<Rightarrow> nat option" where
  "first_index p [] = None"
| "first_index p (x # xs) = (if p x then Some 0 else map_option Suc (first_index p xs))"

lemma first_index_None_iff: "first_index p xs = None \<longleftrightarrow> (\<forall>x \<in> set xs. \<not> p x)"
  by (induction xs) auto

lemma first_index_SomeD:
  "first_index p xs = Some i \<Longrightarrow> i < length xs \<and> p (xs ! i) \<and> (\<forall>j < i. \<not> p (xs ! j))"
proof (induction xs arbitrary: i)
  case Nil
  then show ?case by simp
next
  case (Cons x xs)
  then show ?case
    by (force split: if_splits simp: less_Suc_eq_0_disj nth_Cons')
qed

lemma first_index_SomeI:
  "i < length xs \<Longrightarrow> p (xs ! i) \<Longrightarrow> (\<forall>j < i. \<not> p (xs ! j)) \<Longrightarrow> first_index p xs = Some i"
proof (induction xs arbitrary: i)
  case Nil
  then show ?case by simp
next
  case (Cons x xs)
  show ?case
  proof (cases i)
    case 0
    with Cons.prems show ?thesis by simp
  next
    case (Suc k)
    with Cons.prems have "first_index p xs = Some k"
      by (intro Cons.IH) auto
    with Suc Cons.prems show ?thesis by auto
  qed
qed

end
