(* ===== verification/Vms_Memory.thy ===== *)
theory Vms_Memory
  imports Prelude
begin

text \<open>
  The state of the virtual memory simulator (\<open>vms/\<close>) and its physical memory.

  The C code keeps its state in the file-level variables of \<open>pages.c\<close> (\<open>base_pointer\<close>,
  \<open>allocated\<close>, \<open>used_pages\<close>), \<open>mmu.c\<close> (\<open>root_page_table\<close>) and \<open>vms.c\<close> (\<open>ref_num\<close>); the record
  \<open>vms\<close> has one field for each, the memory itself, one byte for every 64-bit address, and
  \<open>errno\<close>, which \<open>exit(errno)\<close> reads.  The only memory the simulator owns is the mapping of
  \<open>MAX_PAGES\<close> pages that \<open>vms_init\<close> obtains; an access that is not wholly inside it is a
  \<open>Fault\<close>.  Addresses wrap at 64 bits, as pointers converted to \<open>uint64_t\<close> do.
\<close>

type_synonym addr = u64

abbreviation PAGE_SIZE :: nat where "PAGE_SIZE \<equiv> 4096"
abbreviation MAX_PAGES :: nat where "MAX_PAGES \<equiv> 256"
abbreviation NUM_PTE_ENTRIES :: nat where "NUM_PTE_ENTRIES \<equiv> 512"

record vms =
  base_pointer :: addr
  allocated :: "int list"
  used_pages :: int
  root_page_table :: addr
  ref_num :: "int list"
  memory :: "addr \<Rightarrow> u8"
  errno :: int

type_synonym 'a vm = "(vms, 'a) prog"

section \<open>Bytes\<close>

definition mapped :: "vms \<Rightarrow> addr \<Rightarrow> nat \<Rightarrow> bool" where
  "mapped s a n \<longleftrightarrow>
     base_pointer s \<noteq> 0 \<and> unat (a - base_pointer s) + n \<le> MAX_PAGES * PAGE_SIZE"

definition load_bytes :: "(addr \<Rightarrow> u8) \<Rightarrow> addr \<Rightarrow> nat \<Rightarrow> u8 list" where
  "load_bytes m a n = map (\<lambda>i. m (a + of_nat i)) [0..<n]"

definition store_bytes :: "(addr \<Rightarrow> u8) \<Rightarrow> addr \<Rightarrow> u8 list \<Rightarrow> (addr \<Rightarrow> u8)" where
  "store_bytes m a bs =
     (\<lambda>c. if unat (c - a) < length bs then bs ! unat (c - a) else m c)"

text \<open>Two byte ranges that do not meet, modulo \<open>2 ^ 64\<close>.\<close>

definition apart :: "addr \<Rightarrow> nat \<Rightarrow> addr \<Rightarrow> nat \<Rightarrow> bool" where
  "apart a n b k \<longleftrightarrow> n \<le> unat (b - a) \<and> k \<le> unat (a - b)"

lemma apart_sym: "apart a n b k \<Longrightarrow> apart b k a n"
  by (simp add: apart_def)

lemma length_load_bytes [simp]: "length (load_bytes m a n) = n"
  by (simp add: load_bytes_def)

lemma nth_load_bytes [simp]: "i < n \<Longrightarrow> load_bytes m a n ! i = m (a + of_nat i)"
  by (simp add: load_bytes_def)

lemma store_bytes_in:
  "i < length bs \<Longrightarrow> length bs \<le> 2 ^ 64 \<Longrightarrow> store_bytes m a bs (a + of_nat i) = bs ! i"
  by (simp add: store_bytes_def unat_of_nat)

lemma store_bytes_out:
  "length bs \<le> unat (c - a) \<Longrightarrow> store_bytes m a bs c = m c"
  by (simp add: store_bytes_def)

lemma load_store_bytes_same:
  "length bs \<le> 2 ^ 64 \<Longrightarrow> load_bytes (store_bytes m a bs) a (length bs) = bs"
  by (rule nth_equalityI) (simp_all add: store_bytes_in)

lemma apart_out:
  assumes "apart a n b k" and "i < k"
  shows "n \<le> unat (b + of_nat i - a)"
proof -
  have "unat (b - a) + i < 2 ^ 64" if "b \<noteq> a"
    using assms unat_diff_swap [OF that] by (simp add: apart_def)
  moreover have "b \<noteq> a" using assms by (auto simp: apart_def)
  ultimately have "unat ((b - a) + of_nat i) = unat (b - a) + i"
    by (simp add: unat_word_ariths unat_of_nat)
  then have "n \<le> unat ((b - a) + of_nat i)" using assms by (simp add: apart_def)
  moreover have "b + of_nat i - a = (b - a) + of_nat i" by simp
  ultimately show ?thesis by (simp only:)
qed

lemma load_store_bytes_apart:
  "apart a (length bs) b k \<Longrightarrow> load_bytes (store_bytes m a bs) b k = load_bytes m b k"
  by (rule nth_equalityI) (simp_all add: store_bytes_out apart_out)

section \<open>Typed accesses\<close>

text \<open>\<open>rd64\<close> and \<open>rd32\<close> read the memory as \<open>*(uint64_t*)\<close> and \<open>*(int*)\<close> do.\<close>

definition rd64 :: "vms \<Rightarrow> addr \<Rightarrow> u64" where
  "rd64 s a = word_of_bytes (load_bytes (memory s) a 8)"

definition wr64 :: "addr \<Rightarrow> u64 \<Rightarrow> vms \<Rightarrow> vms" where
  "wr64 a v s = s\<lparr>memory := store_bytes (memory s) a (bytes_of_word 8 v)\<rparr>"

definition rd32 :: "vms \<Rightarrow> addr \<Rightarrow> u32" where
  "rd32 s a = word_of_bytes (load_bytes (memory s) a 4)"

definition wr32 :: "addr \<Rightarrow> u32 \<Rightarrow> vms \<Rightarrow> vms" where
  "wr32 a v s = s\<lparr>memory := store_bytes (memory s) a (bytes_of_word 4 v)\<rparr>"

definition load64 :: "addr \<Rightarrow> u64 vm" where
  "load64 a = seq (check Fault (\<lambda>s. mapped s a 8)) (gets (\<lambda>s. rd64 s a))"

definition store64 :: "addr \<Rightarrow> u64 \<Rightarrow> unit vm" where
  "store64 a v = seq (check Fault (\<lambda>s. mapped s a 8)) (upd (wr64 a v))"

definition load32 :: "addr \<Rightarrow> u32 vm" where
  "load32 a = seq (check Fault (\<lambda>s. mapped s a 4)) (gets (\<lambda>s. rd32 s a))"

definition store32 :: "addr \<Rightarrow> u32 \<Rightarrow> unit vm" where
  "store32 a v = seq (check Fault (\<lambda>s. mapped s a 4)) (upd (wr32 a v))"

text \<open>\<open>memset(a, 0, n)\<close>, and \<open>memcpy\<close>, which is undefined on ranges that overlap.\<close>

definition memset_zero :: "addr \<Rightarrow> nat \<Rightarrow> unit vm" where
  "memset_zero a n = seq (check Fault (\<lambda>s. mapped s a n))
     (upd (\<lambda>s. s\<lparr>memory := store_bytes (memory s) a (replicate n 0)\<rparr>))"

definition memcpy :: "addr \<Rightarrow> addr \<Rightarrow> nat \<Rightarrow> unit vm" where
  "memcpy dst src n =
     seq (check Fault (\<lambda>s. mapped s dst n \<and> mapped s src n))
    (seq (check Undefined (\<lambda>_. apart dst n src n))
         (upd (\<lambda>s. s\<lparr>memory := store_bytes (memory s) dst (load_bytes (memory s) src n)\<rparr>)))"

lemma wr64_fields [simp]:
  "base_pointer (wr64 a v s) = base_pointer s" "allocated (wr64 a v s) = allocated s"
  "used_pages (wr64 a v s) = used_pages s" "root_page_table (wr64 a v s) = root_page_table s"
  "ref_num (wr64 a v s) = ref_num s" "errno (wr64 a v s) = errno s"
  by (simp_all add: wr64_def)

lemma wr32_fields [simp]:
  "base_pointer (wr32 a v s) = base_pointer s" "allocated (wr32 a v s) = allocated s"
  "used_pages (wr32 a v s) = used_pages s" "root_page_table (wr32 a v s) = root_page_table s"
  "ref_num (wr32 a v s) = ref_num s" "errno (wr32 a v s) = errno s"
  by (simp_all add: wr32_def)

lemma mapped_memory_update [simp]: "mapped (s\<lparr>memory := m\<rparr>) = mapped s"
  by (simp add: mapped_def fun_eq_iff)

lemma mapped_wr64 [simp]: "mapped (wr64 a v s) = mapped s"
  by (simp add: wr64_def)

lemma mapped_wr32 [simp]: "mapped (wr32 a v s) = mapped s"
  by (simp add: wr32_def)

lemma load64_apply [prog_simps]:
  "load64 a s = (if mapped s a 8 then Inr (rd64 s a, s) else Inl Fault)"
  by (simp add: load64_def prog_simps)

lemma store64_apply [prog_simps]:
  "store64 a v s = (if mapped s a 8 then Inr ((), wr64 a v s) else Inl Fault)"
  by (simp add: store64_def prog_simps)

lemma load32_apply [prog_simps]:
  "load32 a s = (if mapped s a 4 then Inr (rd32 s a, s) else Inl Fault)"
  by (simp add: load32_def prog_simps)

lemma store32_apply [prog_simps]:
  "store32 a v s = (if mapped s a 4 then Inr ((), wr32 a v s) else Inl Fault)"
  by (simp add: store32_def prog_simps)

section \<open>The interface of a typed memory cell\<close>

text \<open>
  What the code relies on when it reads and writes through a pointer of some type: an access
  inside the mapping succeeds, a read leaves the state alone and returns what was last
  written, and a write is not seen by a read of a range apart from it.
\<close>

locale typed_cell =
  fixes width :: nat
    and load :: "addr \<Rightarrow> 'w vm"
    and store :: "addr \<Rightarrow> 'w \<Rightarrow> unit vm"
    and rd :: "vms \<Rightarrow> addr \<Rightarrow> 'w"
    and wr :: "addr \<Rightarrow> 'w \<Rightarrow> vms \<Rightarrow> vms"
  assumes load_eq: "load a s = (if mapped s a width then Inr (rd s a, s) else Inl Fault)"
    and store_eq: "store a v s = (if mapped s a width then Inr ((), wr a v s) else Inl Fault)"
    and mapped_wr: "mapped (wr a v s) = mapped s"
    and rd_wr_same: "rd (wr a v s) a = v"
    and rd_wr_apart: "apart a width b width \<Longrightarrow> rd (wr a v s) b = rd s b"
begin

lemma load_after_store: "store a v s = Inr (u, s') \<Longrightarrow> load a s' = Inr (v, s')"
  by (auto simp: load_eq store_eq mapped_wr rd_wr_same split: if_splits)

lemma load_after_store_apart:
  "store a v s = Inr (u, s') \<Longrightarrow> apart a width b width \<Longrightarrow>
     map_sum id fst (load b s') = map_sum id fst (load b s)"
  by (auto simp: load_eq store_eq mapped_wr rd_wr_apart split: if_splits)

lemma read_modify_write:
  "bnd (load a) (\<lambda>v. store a (f v)) s =
     (if mapped s a width then Inr ((), wr a (f (rd s a)) s) else Inl Fault)"
  by (simp add: bnd_def load_eq store_eq)

lemma load_after_read_modify_write:
  "bnd (load a) (\<lambda>v. store a (f v)) s = Inr (u, s') \<Longrightarrow> load a s' = Inr (f (rd s a), s')"
  by (auto simp: read_modify_write load_eq mapped_wr rd_wr_same split: if_splits)

end

lemma rd64_wr64_same [simp]: "rd64 (wr64 a v s) a = v"
  using load_store_bytes_same [of "bytes_of_word 8 v" "memory s" a]
  by (simp add: rd64_def wr64_def word_of_bytes_of_word)

lemma rd64_wr64_apart: "apart a 8 b 8 \<Longrightarrow> rd64 (wr64 a v s) b = rd64 s b"
  by (simp add: rd64_def wr64_def load_store_bytes_apart)

lemma rd32_wr32_same [simp]: "rd32 (wr32 a v s) a = v"
  using load_store_bytes_same [of "bytes_of_word 4 v" "memory s" a]
  by (simp add: rd32_def wr32_def word_of_bytes_of_word)

lemma rd32_wr32_apart: "apart a 4 b 4 \<Longrightarrow> rd32 (wr32 a v s) b = rd32 s b"
  by (simp add: rd32_def wr32_def load_store_bytes_apart)

lemma rd64_wr32_apart: "apart a 4 b 8 \<Longrightarrow> rd64 (wr32 a v s) b = rd64 s b"
  by (simp add: rd64_def wr32_def load_store_bytes_apart)

interpretation pte_cell: typed_cell 8 load64 store64 rd64 wr64
  by unfold_locales (simp_all add: load64_apply store64_apply rd64_wr64_apart)

interpretation int_cell: typed_cell 4 load32 store32 rd32 wr32
  by unfold_locales (simp_all add: load32_apply store32_apply rd32_wr32_apart)

section \<open>Pages of the mapping\<close>

text \<open>The address of byte \<open>o\<close> of page \<open>p\<close> of the mapping.\<close>

definition at :: "vms \<Rightarrow> nat \<Rightarrow> nat \<Rightarrow> addr" where
  "at s p off = base_pointer s + of_nat (p * PAGE_SIZE + off)"

definition byte :: "vms \<Rightarrow> nat \<Rightarrow> nat \<Rightarrow> u8" where
  "byte s p off = memory s (at s p off)"

lemma unat_at_diff:
  "p < MAX_PAGES \<Longrightarrow> off < PAGE_SIZE \<Longrightarrow> unat (at s p off - base_pointer s) = p * PAGE_SIZE + off"
  unfolding at_def add_diff_cancel_left' by (rule unat_of_nat_small) simp

lemma at_add: "at s p off + of_nat i = at s p (off + i)"
  by (simp add: at_def algebra_simps)

lemma at_apart_offset:
  assumes "0 < n" and "k + n \<le> k'" and "k' < 2 ^ 20" and "w \<le> 2 ^ 20"
  shows "apart (base + of_nat k :: addr) n (base + of_nat k') w"
proof -
  let ?a = "base + of_nat k :: addr" and ?b = "base + of_nat k' :: addr"
  have le: "k \<le> k'" using assms by simp
  have diff: "?b - ?a = of_nat (k' - k)"
    using le by (simp add: of_nat_diff)
  have d: "unat (?b - ?a) = k' - k"
    unfolding diff by (rule unat_of_nat_small) (use assms in simp)
  have "w \<le> unat (?a - ?b)" if "k < k'"
  proof -
    have "?a \<noteq> ?b" using d that by auto
    then have "unat (?a - ?b) + unat (?b - ?a) = 2 ^ 64"
      using unat_diff_swap [of ?a ?b] by simp
    then show ?thesis using assms d by simp
  qed
  moreover have "n \<le> unat (?b - ?a)" unfolding d using assms by simp
  ultimately show ?thesis
    using assms le by (cases "k < k'") (auto simp: apart_def)
qed

end
