(* ===== verification/Vms_Pte.thy ===== *)
theory Vms_Pte
  imports Vms_Memory
begin

text \<open>
  Page table entries (\<open>vms/src/pte.c\<close>).

  An entry is a 64-bit word: the page number (PPN) in bits 10 to 53 and the flags custom (8),
  write (2), read (1) and valid (0).  Each C function takes a pointer to the entry, so its
  model reads and writes eight bytes of memory; the value it computes is a function of the
  word (\<open>set_flag\<close>, \<open>clear_flag\<close>, \<open>test_flag\<close>, \<open>get_ppn\<close>, \<open>set_ppn\<close>), and the lemmas are
  about those.  Locale \<open>entry_flag\<close> states what the users of an entry rely on from one flag;
  it is interpreted for the four flags.
\<close>

named_theorems pte_simps "flags and page number of an entry after an update"

text \<open>\<open>1 << k\<close>.\<close>

definition BIT :: "nat \<Rightarrow> u64" where
  "BIT k = push_bit k 1"

definition PTE_CUSTOM :: u64 where "PTE_CUSTOM = BIT 8"
definition PTE_WRITE :: u64 where "PTE_WRITE = BIT 2"
definition PTE_READ :: u64 where "PTE_READ = BIT 1"
definition PTE_VALID :: u64 where "PTE_VALID = BIT 0"
abbreviation PTE_PPN_START_BIT :: nat where "PTE_PPN_START_BIT \<equiv> 10"

lemmas pte_flag_defs = PTE_CUSTOM_def PTE_WRITE_def PTE_READ_def PTE_VALID_def

section \<open>The value of an entry\<close>

definition clear_flag :: "u64 \<Rightarrow> u64 \<Rightarrow> u64" where
  "clear_flag flag e = e AND NOT flag"

definition set_flag :: "u64 \<Rightarrow> u64 \<Rightarrow> u64" where
  "set_flag flag e = e OR flag"

definition test_flag :: "u64 \<Rightarrow> u64 \<Rightarrow> bool" where
  "test_flag flag e \<longleftrightarrow> e AND flag \<noteq> 0"

definition get_ppn :: "u64 \<Rightarrow> u64" where
  "get_ppn e =
     (let mask = drop_bit PTE_PPN_START_BIT (push_bit 20 (NOT 0))
      in drop_bit PTE_PPN_START_BIT (e AND mask))"

definition set_ppn :: "u64 \<Rightarrow> u64 \<Rightarrow> u64" where
  "set_ppn e ppn =
     (let mask = NOT (drop_bit PTE_PPN_START_BIT (push_bit 20 (NOT 0)));
          e' = e AND mask;
          ppn' = drop_bit PTE_PPN_START_BIT (push_bit 20 ppn)
      in e' OR ppn')"

abbreviation valid :: "u64 \<Rightarrow> bool" where "valid \<equiv> test_flag PTE_VALID"
abbreviation readable :: "u64 \<Rightarrow> bool" where "readable \<equiv> test_flag PTE_READ"
abbreviation writable :: "u64 \<Rightarrow> bool" where "writable \<equiv> test_flag PTE_WRITE"
abbreviation custom :: "u64 \<Rightarrow> bool" where "custom \<equiv> test_flag PTE_CUSTOM"

lemma test_flag_bit [simp]: "test_flag (BIT k) e \<longleftrightarrow> bit e k"
  by (simp add: test_flag_def BIT_def bit_iff_and_push_bit_not_eq_0)

lemma bit_set_flag: "bit (set_flag (BIT k) e) n \<longleftrightarrow> bit e n \<or> n = k \<and> k < 64"
  by (auto simp: set_flag_def BIT_def bit_simps)

lemma bit_clear_flag: "bit (clear_flag (BIT k) e) n \<longleftrightarrow> bit e n \<and> n \<noteq> k"
  by (auto simp: clear_flag_def BIT_def bit_simps dest: bit_imp_le_length)

lemma bit_get_ppn: "bit (get_ppn e) n \<longleftrightarrow> n < 44 \<and> bit e (n + 10)"
  by (auto simp: get_ppn_def bit_simps add.commute)

lemma bit_set_ppn:
  "bit (set_ppn e ppn) n \<longleftrightarrow> (if 10 \<le> n \<and> n < 54 then bit ppn (n - 10) else bit e n)"
  by (auto simp: set_ppn_def bit_simps dest: bit_imp_le_length)

lemma bit_zero_word [simp]: "\<not> bit (0 :: u64) n"
  by simp

lemma get_ppn_set_flag [pte_simps]:
  "k < 10 \<Longrightarrow> get_ppn (set_flag (BIT k) e) = get_ppn e"
  by (rule bit_word_eqI) (simp add: bit_get_ppn bit_set_flag)

lemma get_ppn_clear_flag [pte_simps]:
  "k < 10 \<Longrightarrow> get_ppn (clear_flag (BIT k) e) = get_ppn e"
  by (rule bit_word_eqI) (simp add: bit_get_ppn bit_clear_flag)

lemma get_ppn_set_ppn: "get_ppn (set_ppn e ppn) = take_bit 44 ppn"
  by (rule bit_word_eqI) (auto simp: bit_get_ppn bit_set_ppn bit_simps)

lemma flag_set_ppn [pte_simps]:
  "k < 10 \<Longrightarrow> test_flag (BIT k) (set_ppn e ppn) = test_flag (BIT k) e"
  by (simp add: bit_set_ppn)

lemma get_ppn_less: "unat (get_ppn e) < 2 ^ 44"
proof -
  have "get_ppn e = take_bit 44 (get_ppn e)"
    by (rule bit_word_eqI) (auto simp: bit_get_ppn bit_simps)
  also have "unat \<dots> < 2 ^ 44" 
    using take_bit_nat_less_exp [of 44 "unat (get_ppn e)"] by (simp add: unsigned_take_bit_eq)
  finally show ?thesis .
qed

lemma entry_zero [simp]: "\<not> test_flag f 0" "get_ppn 0 = 0"
  by (simp_all add: test_flag_def get_ppn_def)

section \<open>The functions of pte.c\<close>

text \<open>The read-modify-write \<open>*entry = f( *entry)\<close>, and a test of \<open>*entry\<close>.\<close>

definition modify64 :: "(u64 \<Rightarrow> u64) \<Rightarrow> addr \<Rightarrow> unit vm" where
  "modify64 f entry = bnd (load64 entry) (\<lambda>e. store64 entry (f e))"

definition read64 :: "(u64 \<Rightarrow> 'a) \<Rightarrow> addr \<Rightarrow> 'a vm" where
  "read64 f entry = bnd (load64 entry) (\<lambda>e. ret (f e))"

definition vms_pte_valid_clear :: "addr \<Rightarrow> unit vm" where
  "vms_pte_valid_clear entry = modify64 (clear_flag PTE_VALID) entry"

definition vms_pte_valid_set :: "addr \<Rightarrow> unit vm" where
  "vms_pte_valid_set entry = modify64 (set_flag PTE_VALID) entry"

definition vms_pte_valid :: "addr \<Rightarrow> bool vm" where
  "vms_pte_valid entry = read64 (test_flag PTE_VALID) entry"

definition vms_pte_read_clear :: "addr \<Rightarrow> unit vm" where
  "vms_pte_read_clear entry = modify64 (clear_flag PTE_READ) entry"

definition vms_pte_read_set :: "addr \<Rightarrow> unit vm" where
  "vms_pte_read_set entry = modify64 (set_flag PTE_READ) entry"

definition vms_pte_read :: "addr \<Rightarrow> bool vm" where
  "vms_pte_read entry = read64 (test_flag PTE_READ) entry"

definition vms_pte_write_clear :: "addr \<Rightarrow> unit vm" where
  "vms_pte_write_clear entry = modify64 (clear_flag PTE_WRITE) entry"

definition vms_pte_write_set :: "addr \<Rightarrow> unit vm" where
  "vms_pte_write_set entry = modify64 (set_flag PTE_WRITE) entry"

definition vms_pte_write :: "addr \<Rightarrow> bool vm" where
  "vms_pte_write entry = read64 (test_flag PTE_WRITE) entry"

definition vms_pte_custom_clear :: "addr \<Rightarrow> unit vm" where
  "vms_pte_custom_clear entry = modify64 (clear_flag PTE_CUSTOM) entry"

definition vms_pte_custom_set :: "addr \<Rightarrow> unit vm" where
  "vms_pte_custom_set entry = modify64 (set_flag PTE_CUSTOM) entry"

definition vms_pte_custom :: "addr \<Rightarrow> bool vm" where
  "vms_pte_custom entry = read64 (test_flag PTE_CUSTOM) entry"

definition vms_pte_get_ppn :: "addr \<Rightarrow> u64 vm" where
  "vms_pte_get_ppn entry = read64 get_ppn entry"

definition vms_pte_set_ppn :: "addr \<Rightarrow> u64 \<Rightarrow> unit vm" where
  "vms_pte_set_ppn entry ppn = modify64 (\<lambda>e. set_ppn e ppn) entry"

lemmas vms_pte_defs =
  vms_pte_valid_clear_def vms_pte_valid_set_def vms_pte_valid_def
  vms_pte_read_clear_def vms_pte_read_set_def vms_pte_read_def
  vms_pte_write_clear_def vms_pte_write_set_def vms_pte_write_def
  vms_pte_custom_clear_def vms_pte_custom_set_def vms_pte_custom_def
  vms_pte_get_ppn_def vms_pte_set_ppn_def

lemma modify64_apply [prog_simps]:
  "modify64 f a s =
     (if mapped s a 8 then Inr ((), wr64 a (f (rd64 s a)) s) else Inl Fault)"
  unfolding modify64_def by (rule pte_cell.read_modify_write)

lemma read64_apply [prog_simps]:
  "read64 f a s = (if mapped s a 8 then Inr (f (rd64 s a), s) else Inl Fault)"
  by (simp add: read64_def prog_simps)

section \<open>What a flag promises\<close>

text \<open>
  The contract of one flag: setting and clearing it decide its own test, and neither touches
  the page number or any flag at another bit.
\<close>

locale entry_flag =
  fixes k :: nat and flag :: u64
  assumes flag_eq: "flag = BIT k" and k_less: "k < 10"
begin

lemma test_set [simp]: "test_flag flag (set_flag flag e)"
  using k_less by (simp add: flag_eq bit_set_flag)

lemma test_clear [simp]: "\<not> test_flag flag (clear_flag flag e)"
  by (simp add: flag_eq bit_clear_flag)

lemma ppn_set [simp]: "get_ppn (set_flag flag e) = get_ppn e"
  using k_less by (simp add: flag_eq get_ppn_set_flag)

lemma ppn_clear [simp]: "get_ppn (clear_flag flag e) = get_ppn e"
  using k_less by (simp add: flag_eq get_ppn_clear_flag)

lemma test_set_ppn [simp]: "test_flag flag (set_ppn e ppn) = test_flag flag e"
  using k_less flag_set_ppn [of k e ppn] by (simp add: flag_eq)

lemma set_other: "j \<noteq> k \<Longrightarrow> bit (set_flag flag e) j = bit e j"
  by (simp add: flag_eq bit_set_flag)

lemma clear_other: "j \<noteq> k \<Longrightarrow> bit (clear_flag flag e) j = bit e j"
  by (simp add: flag_eq bit_clear_flag)

lemma set_clear_idem: "test_flag flag e \<Longrightarrow> set_flag flag (clear_flag flag e) = e"
  using k_less
  by (intro bit_word_eqI) (auto simp: flag_eq bit_set_flag bit_clear_flag)

text \<open>The pointer functions: a test after a set or a clear of the same entry.\<close>

lemma read_after_set:
  "modify64 (set_flag flag) a s = Inr (u, s') \<Longrightarrow> read64 (test_flag flag) a s' = Inr (True, s')"
  by (auto simp: prog_simps split: if_splits)

lemma read_after_clear:
  "modify64 (clear_flag flag) a s = Inr (u, s') \<Longrightarrow>
     read64 (test_flag flag) a s' = Inr (False, s')"
  by (auto simp: prog_simps split: if_splits)

end

interpretation valid_flag: entry_flag 0 PTE_VALID
  by unfold_locales (simp_all add: PTE_VALID_def)

interpretation read_flag: entry_flag 1 PTE_READ
  by unfold_locales (simp_all add: PTE_READ_def)

interpretation write_flag: entry_flag 2 PTE_WRITE
  by unfold_locales (simp_all add: PTE_WRITE_def)

interpretation custom_flag: entry_flag 8 PTE_CUSTOM
  by unfold_locales (simp_all add: PTE_CUSTOM_def)

text \<open>The flags do not disturb each other.\<close>

lemma flags_independent [simp]:
  "valid (set_flag PTE_READ e) = valid e" "valid (clear_flag PTE_READ e) = valid e"
  "valid (set_flag PTE_WRITE e) = valid e" "valid (clear_flag PTE_WRITE e) = valid e"
  "valid (set_flag PTE_CUSTOM e) = valid e" "valid (clear_flag PTE_CUSTOM e) = valid e"
  "readable (set_flag PTE_VALID e) = readable e" "readable (clear_flag PTE_VALID e) = readable e"
  "readable (set_flag PTE_WRITE e) = readable e" "readable (clear_flag PTE_WRITE e) = readable e"
  "readable (set_flag PTE_CUSTOM e) = readable e" "readable (clear_flag PTE_CUSTOM e) = readable e"
  "writable (set_flag PTE_VALID e) = writable e" "writable (clear_flag PTE_VALID e) = writable e"
  "writable (set_flag PTE_READ e) = writable e" "writable (clear_flag PTE_READ e) = writable e"
  "writable (set_flag PTE_CUSTOM e) = writable e" "writable (clear_flag PTE_CUSTOM e) = writable e"
  "custom (set_flag PTE_VALID e) = custom e" "custom (clear_flag PTE_VALID e) = custom e"
  "custom (set_flag PTE_READ e) = custom e" "custom (clear_flag PTE_READ e) = custom e"
  "custom (set_flag PTE_WRITE e) = custom e" "custom (clear_flag PTE_WRITE e) = custom e"
  unfolding pte_flag_defs by (simp_all add: bit_set_flag bit_clear_flag)

end
