(* ===== verification/Vms_Pages.thy ===== *)
theory Vms_Pages
  imports Vms_Pte
begin

text \<open>
  The page allocator (\<open>vms/src/pages.c\<close>) and the address arithmetic of page tables
  (\<open>vms/src/page_table.c\<close>).

  \<open>pages_inv\<close> is the allocator's invariant: the flags are 0 or 1, the counter counts them, the
  mapping is page aligned and lies where a page number fits an entry, and every free page is
  all zero, which the page tables built by the forks rely on.  Locale \<open>page_allocator\<close> is the
  contract its clients use.
\<close>

definition ENOMEM :: int where "ENOMEM = 12"
definition EFAULT :: int where "EFAULT = 14"

section \<open>The functions of pages.c\<close>

definition vms_initial :: "(addr \<Rightarrow> u8) \<Rightarrow> int \<Rightarrow> vms" where
  "vms_initial m err =
     \<lparr>base_pointer = 0, allocated = replicate MAX_PAGES 0, used_pages = 0,
      root_page_table = 0, ref_num = replicate MAX_PAGES 0, memory = m, errno = err\<rparr>"

definition vms_get_page_pointer :: "vms \<Rightarrow> int \<Rightarrow> addr" where
  "vms_get_page_pointer s index = base_pointer s + of_int (index * int PAGE_SIZE)"

text \<open>The quotient is a \<open>uint64_t\<close>, returned as an \<open>int\<close>: its low 32 bits, signed.\<close>

definition vms_get_page_index :: "vms \<Rightarrow> addr \<Rightarrow> int" where
  "vms_get_page_index s pointer =
     sint (ucast ((pointer - base_pointer s) div of_nat PAGE_SIZE) :: u32)"

definition check_page_aligned :: "addr \<Rightarrow> unit vm" where
  "check_page_aligned pointer = check Assertion (\<lambda>_. pointer mod of_nat PAGE_SIZE = 0)"

text \<open>
  \<open>sysconf(_SC_PAGE_SIZE)\<close> and \<open>mmap\<close> are the kernel's: their results are arguments, \<open>Inl err\<close>
  for a failed \<open>mmap\<close> that set \<open>errno\<close>, \<open>Inr a\<close> for a fresh mapping at \<open>a\<close>, which is
  initialised to zero (\<open>MAP_ANONYMOUS\<close>).
\<close>

definition vms_init :: "int \<Rightarrow> int + addr \<Rightarrow> unit vm" where
  "vms_init page_size mmap_result =
     seq (check Assertion (\<lambda>_. page_size = int PAGE_SIZE))
     (case mmap_result of
        Inl err \<Rightarrow> stop (Exit err)
      | Inr a \<Rightarrow>
          seq (upd (\<lambda>s. s\<lparr>base_pointer := a,
                 memory := (\<lambda>c. if unat (c - a) < MAX_PAGES * PAGE_SIZE then 0 else memory s c)\<rparr>))
              (check_page_aligned a))"

function new_page_from :: "nat \<Rightarrow> addr vm" where
  "new_page_from i =
     (if i < MAX_PAGES
      then (\<lambda>s. if allocated s ! i = 0
                then Inr (vms_get_page_pointer s (int i),
                          s\<lparr>allocated := (allocated s)[i := 1], used_pages := used_pages s + 1\<rparr>)
                else new_page_from (Suc i) s)
      else stop (Exit ENOMEM))"
  by pat_completeness auto
termination
  by (relation "measure (\<lambda>i. MAX_PAGES - i)") auto

declare new_page_from.simps [simp del]

definition vms_new_page :: "addr vm" where
  "vms_new_page = new_page_from 0"

definition vms_free_page :: "addr \<Rightarrow> unit vm" where
  "vms_free_page pointer =
     seq (check_page_aligned pointer)
    (bnd (gets (\<lambda>s. vms_get_page_index s pointer)) (\<lambda>i.
     seq (check Undefined (\<lambda>_. 0 \<le> i \<and> i < int MAX_PAGES))
    (seq (check Assertion (\<lambda>s. allocated s ! nat i \<noteq> 0))
    (seq (upd (\<lambda>s. s\<lparr>allocated := (allocated s)[nat i := 0]\<rparr>))
    (seq (memset_zero pointer PAGE_SIZE)
         (upd (\<lambda>s. s\<lparr>used_pages := used_pages s - 1\<rparr>)))))))"

definition vms_get_used_pages :: "int vm" where
  "vms_get_used_pages = gets used_pages"

section \<open>The functions of page\_table.c\<close>

text \<open>\<open>start_bit\<close> is a \<open>uint8_t\<close>; the callers pass the levels 0, 1 and 2.\<close>

definition vms_page_table_index :: "addr \<Rightarrow> nat \<Rightarrow> u16" where
  "vms_page_table_index virtual_address level =
     (let start_bit = (9 * level + 12) mod 256;
          mask = push_bit start_bit (0x1FF :: u64)
      in ucast (drop_bit start_bit (mask AND virtual_address)))"

definition vms_page_table_pte_entry_from_index :: "addr \<Rightarrow> int \<Rightarrow> addr" where
  "vms_page_table_pte_entry_from_index page_table index = page_table + of_int (8 * index)"

definition vms_page_table_pte_entry :: "addr \<Rightarrow> addr \<Rightarrow> nat \<Rightarrow> addr" where
  "vms_page_table_pte_entry page_table virtual_address level =
     (let index = vms_page_table_index virtual_address level
      in vms_page_table_pte_entry_from_index page_table (int (unat index)))"

definition vms_ppn_to_page :: "u64 \<Rightarrow> addr" where
  "vms_ppn_to_page ppn = push_bit 12 ppn"

definition vms_page_to_ppn :: "addr \<Rightarrow> u64 vm" where
  "vms_page_to_ppn pointer =
     seq (check_page_aligned pointer)
    (seq (check Assertion (\<lambda>_. pointer AND 0xF000000000000000 = 0))
         (ret (drop_bit 12 pointer)))"

section \<open>Page numbers and addresses\<close>

text \<open>
  A mapping the kernel may return: not at address 0, page aligned, and below \<open>2 ^ 56\<close>, where
  the 44 bits of an entry's page number can name every page (user space of x86-64 ends at
  \<open>2 ^ 47\<close>).
\<close>

definition good_base :: "addr \<Rightarrow> bool" where
  "good_base b \<longleftrightarrow> b \<noteq> 0 \<and> unat b mod PAGE_SIZE = 0 \<and> unat b + MAX_PAGES * PAGE_SIZE \<le> 2 ^ 56"

definition alloc :: "vms \<Rightarrow> nat set" where
  "alloc s = {p. p < MAX_PAGES \<and> allocated s ! p \<noteq> 0}"

lemma unat_at:
  assumes "good_base (base_pointer s)" and "p < MAX_PAGES" and "off < PAGE_SIZE"
  shows "unat (at s p off) = unat (base_pointer s) + p * PAGE_SIZE + off"
proof -
  have small: "p * PAGE_SIZE + off < 2 ^ 20" using assms by simp
  have "unat (base_pointer s) + (p * PAGE_SIZE + off) < 2 ^ 64"
    using assms(1) small by (simp add: good_base_def)
  moreover have v: "unat (of_nat (p * PAGE_SIZE + off) :: addr) = p * PAGE_SIZE + off"
    by (rule unat_of_nat_small) (use small in simp)
  ultimately have "unat (base_pointer s) + unat (of_nat (p * PAGE_SIZE + off) :: addr) < 2 ^ LENGTH(64)"
    by simp
  then have "unat (at s p off) = unat (base_pointer s) + unat (of_nat (p * PAGE_SIZE + off) :: addr)"
    unfolding at_def by (rule unat_add_lem [THEN iffD1])
  then show ?thesis by (simp only: v add.assoc)
qed

lemma at_page_aligned:
  assumes "good_base (base_pointer s)" and "p < MAX_PAGES"
  shows "unat (at s p 0) mod PAGE_SIZE = 0"
  using assms unat_at [of s p 0] by (simp add: good_base_def)

lemma at_less: "good_base (base_pointer s) \<Longrightarrow> p < MAX_PAGES \<Longrightarrow> unat (at s p 0) < 2 ^ 56"
  using unat_at [of s p 0] by (simp add: good_base_def)

lemma aligned_word_iff: "(a :: addr) mod of_nat PAGE_SIZE = 0 \<longleftrightarrow> unat a mod PAGE_SIZE = 0"
proof -
  have "unat (a mod 4096) = unat a mod 4096" by (simp add: unat_mod_distrib)
  then show ?thesis
    by (simp add: unsigned_word_eqI) (metis unat_0 unsigned_0 unsigned_word_eqI)
qed

lemma page_index_at:
  assumes "p < MAX_PAGES" and "off < PAGE_SIZE"
  shows "vms_get_page_index s (at s p off) = int p"
proof -
  have "unat ((at s p off - base_pointer s) div 4096) = p"
    using assms unat_at_diff [of p off s] by (simp add: unat_div_distrib)
  then have "(at s p off - base_pointer s) div 4096 = of_nat p"
    by (metis of_nat_unat ucast_id)
  then have "ucast ((at s p off - base_pointer s) div 4096) = (of_nat p :: u32)"
    using assms by (simp add: unsigned_of_nat take_bit_nat_eq_self)
  then show ?thesis
    using assms by (simp add: vms_get_page_index_def signed_of_nat signed_take_bit_int_eq_self)
qed

lemma page_pointer_at: "vms_get_page_pointer s (int p) = at s p 0"
  by (simp add: vms_get_page_pointer_def at_def)

lemma at_inject:
  assumes "p < MAX_PAGES" "q < MAX_PAGES"
  shows "at s p 0 = at s q 0 \<longleftrightarrow> p = q"
  using assms by (metis page_index_at of_nat_eq_iff zero_less_numeral)

section \<open>Virtual addresses\<close>

abbreviation vpn :: "addr \<Rightarrow> nat \<Rightarrow> nat" where
  "vpn va level \<equiv> unat (vms_page_table_index va level)"

lemma page_table_index_bits:
  assumes "level \<le> 2"
  shows "vms_page_table_index va level = ucast (take_bit 9 (drop_bit (9 * level + 12) va))"
proof -
  have sb: "(9 * level + 12) mod 256 = 9 * level + 12" using assms by simp
  have m: "(0x1FF :: u64) = mask 9" by (simp add: mask_eq_exp_minus_1)
  show ?thesis
    unfolding vms_page_table_index_def Let_def sb m
    by (rule bit_word_eqI) (use assms in \<open>auto simp: bit_simps\<close>)
qed

lemma unat_ucast_take_bit_9: "unat (ucast (take_bit 9 (w :: u64)) :: u16) = take_bit 9 (unat w)"
  by (simp add: unsigned_ucast_eq unsigned_take_bit_eq take_bit_take_bit)

lemma vpn_eq:
  assumes "level \<le> 2"
  shows "vpn va level = unat va div 2 ^ (9 * level + 12) mod 512"
  unfolding page_table_index_bits [OF assms] unat_ucast_take_bit_9 unat_drop_bit_eq
  by (simp add: drop_bit_eq_div take_bit_eq_mod)

lemma vpn_less [simp]: "level \<le> 2 \<Longrightarrow> vpn va level < NUM_PTE_ENTRIES"
  by (simp add: vpn_eq)

lemma entry_from_index_at:
  "vms_page_table_pte_entry_from_index (at s p 0) (int i) = at s p (8 * i)"
  by (simp add: vms_page_table_pte_entry_from_index_def at_def)

lemma pte_entry_at: "vms_page_table_pte_entry (at s p 0) va level = at s p (8 * vpn va level)"
  unfolding vms_page_table_pte_entry_def Let_def by (rule entry_from_index_at)

lemma and_high_bits_zero: "unat a < 2 ^ n \<Longrightarrow> (a :: u64) AND push_bit n w = 0"
  by (rule bit_word_eqI) (auto simp: bit_simps not_bit_above)

lemma page_to_ppn_ok:
  assumes "unat a mod PAGE_SIZE = 0" and "unat a < 2 ^ 60"
  shows "vms_page_to_ppn a s = Inr (drop_bit 12 a, s)"
proof -
  have "a AND 0xF000000000000000 = 0"
    using and_high_bits_zero [OF assms(2), of 15] by simp
  then show ?thesis
    using assms aligned_word_iff [of a]
    by (simp add: vms_page_to_ppn_def check_page_aligned_def prog_simps)
qed

lemma ppn_to_page_of_ppn:
  assumes "unat a mod PAGE_SIZE = 0" and "unat a < 2 ^ 56"
  shows "vms_ppn_to_page (take_bit 44 (drop_bit 12 a)) = a"
proof (rule bit_word_eqI)
  fix n assume n: "n < LENGTH(64)"
  show "bit (vms_ppn_to_page (take_bit 44 (drop_bit 12 a))) n = bit a n"
  proof (cases "12 \<le> n \<and> n < 56")
    case True
    then show ?thesis using n by (auto simp: vms_ppn_to_page_def bit_simps)
  next
    case False
    then have "\<not> bit a n"
      using not_bit_above [OF assms(2), of n] not_bit_below [of a 12 n] assms(1) by fastforce
    then show ?thesis using False by (auto simp: vms_ppn_to_page_def bit_simps)
  qed
qed

text \<open>The page an entry refers to, as the code computes it.\<close>

abbreviation entry_page :: "u64 \<Rightarrow> addr" where
  "entry_page e \<equiv> vms_ppn_to_page (get_ppn e)"

lemma entry_page_set_ppn:
  "good_base (base_pointer s) \<Longrightarrow> p < MAX_PAGES \<Longrightarrow>
     entry_page (set_ppn e (drop_bit 12 (at s p 0))) = at s p 0"
  unfolding get_ppn_set_ppn
  by (rule ppn_to_page_of_ppn) (simp_all only: at_page_aligned at_less)

lemma page_to_ppn_at:
  assumes "good_base (base_pointer s)" and "p < MAX_PAGES"
  shows "vms_page_to_ppn (at s p 0) s' = Inr (drop_bit 12 (at s p 0), s')"
  using at_less [OF assms] by (intro page_to_ppn_ok at_page_aligned assms) simp

section \<open>The allocator's invariant and contract\<close>

definition pages_inv :: "vms \<Rightarrow> bool" where
  "pages_inv s \<longleftrightarrow>
     good_base (base_pointer s) \<and> length (allocated s) = MAX_PAGES \<and>
     set (allocated s) \<subseteq> {0, 1} \<and> used_pages s = int (card (alloc s)) \<and>
     length (ref_num s) = MAX_PAGES \<and>
     (\<forall>p < MAX_PAGES. p \<notin> alloc s \<longrightarrow> (\<forall>off < PAGE_SIZE. byte s p off = 0))"

definition only_allocates :: "vms \<Rightarrow> vms \<Rightarrow> bool" where
  "only_allocates s s' \<longleftrightarrow>
     memory s' = memory s \<and> base_pointer s' = base_pointer s \<and>
     root_page_table s' = root_page_table s \<and> ref_num s' = ref_num s \<and> errno s' = errno s"

lemma only_allocates_fields:
  assumes "only_allocates s s'"
  shows "memory s' = memory s" "base_pointer s' = base_pointer s"
    "root_page_table s' = root_page_table s" "ref_num s' = ref_num s" "errno s' = errno s"
  using assms by (simp_all add: only_allocates_def)

lemma only_allocates_view:
  assumes "only_allocates s s'"
  shows "at s' p off = at s p off" "byte s' p off = byte s p off" "rd64 s' a = rd64 s a"
    "rd32 s' a = rd32 s a" "mapped s' a n = mapped s a n"
    "vms_get_page_index s' a = vms_get_page_index s a"
  using only_allocates_fields [OF assms]
  by (simp_all add: at_def byte_def rd64_def rd32_def mapped_def vms_get_page_index_def)

text \<open>
  What the clients of \<open>vms_new_page\<close> and \<open>vms_free_page\<close> rely on: a new page is the lowest
  one that was free, it is all zero, and nothing but the allocator's own tables changes.
\<close>

locale page_allocator =
  fixes new_page :: "addr vm" and free_page :: "addr \<Rightarrow> unit vm" and inv :: "vms \<Rightarrow> bool"
  assumes new_page_ok:
      "inv s \<Longrightarrow> alloc s \<noteq> {..<MAX_PAGES} \<Longrightarrow>
       \<exists>p s'. new_page s = Inr (at s p 0, s') \<and> p < MAX_PAGES \<and> p \<notin> alloc s \<and>
         (\<forall>q < p. q \<in> alloc s) \<and> alloc s' = insert p (alloc s) \<and> inv s' \<and>
         only_allocates s s' \<and> used_pages s' = used_pages s + 1"
    and new_page_full:
      "inv s \<Longrightarrow> alloc s = {..<MAX_PAGES} \<Longrightarrow> new_page s = Inl (Exit ENOMEM)"
    and fresh_zero:
      "inv s \<Longrightarrow> p < MAX_PAGES \<Longrightarrow> p \<notin> alloc s \<Longrightarrow> off < PAGE_SIZE \<Longrightarrow> byte s p off = 0"
    and free_page_ok:
      "inv s \<Longrightarrow> p \<in> alloc s \<Longrightarrow>
       \<exists>s'. free_page (at s p 0) s = Inr ((), s') \<and> alloc s' = alloc s - {p} \<and> inv s' \<and>
         base_pointer s' = base_pointer s \<and> root_page_table s' = root_page_table s \<and>
         ref_num s' = ref_num s \<and> used_pages s' = used_pages s - 1 \<and>
         (\<forall>q < MAX_PAGES. \<forall>off < PAGE_SIZE. q \<noteq> p \<longrightarrow> byte s' q off = byte s q off)"
    and free_page_twice:
      "inv s \<Longrightarrow> p < MAX_PAGES \<Longrightarrow> p \<notin> alloc s \<Longrightarrow> free_page (at s p 0) s = Inl Assertion"
begin

lemma new_page_cases:
  assumes "inv s"
  obtains (full) "alloc s = {..<MAX_PAGES}" "new_page s = Inl (Exit ENOMEM)"
    | (ok) p s' where "new_page s = Inr (at s p 0, s')" "p < MAX_PAGES" "p \<notin> alloc s"
        "alloc s' = insert p (alloc s)" "inv s'"
        "\<forall>q < p. q \<in> alloc s" "only_allocates s s'" "used_pages s' = used_pages s + 1"
proof (cases "alloc s = {..<MAX_PAGES}")
  case True
  then show ?thesis using assms by (intro full new_page_full)
next
  case False
  from new_page_ok [OF assms this] show ?thesis by (elim exE conjE) (rule ok)
qed

lemma new_page_InrD:
  assumes "inv s" and "new_page s = Inr (a, s')"
  shows "\<exists>p. a = at s p 0 \<and> p < MAX_PAGES \<and> p \<notin> alloc s \<and> alloc s' = insert p (alloc s) \<and> inv s' \<and>
           (\<forall>q < p. q \<in> alloc s) \<and> only_allocates s s' \<and> used_pages s' = used_pages s + 1"
  using assms(1)
proof (cases rule: new_page_cases)
  case full
  with assms(2) show ?thesis by simp
next
  case (ok p s'')
  moreover from ok(1) assms(2) have "a = at s p 0" and "s' = s''" by simp_all
  ultimately show ?thesis by blast
qed

lemma new_page_InlD:
  assumes "inv s" and "new_page s = Inl e"
  shows "e = Exit ENOMEM"
  using assms(1)
proof (cases rule: new_page_cases)
  case full
  with assms(2) show ?thesis by simp
next
  case (ok p s'')
  with assms(2) show ?thesis by simp
qed

text \<open>Two pages allocated one after the other are different.\<close>

lemma new_pages_distinct:
  assumes "inv s" and "new_page s = Inr (a, s1)" and "new_page s1 = Inr (b, s2)"
  shows "a \<noteq> b"
proof -
  obtain p where p: "a = at s p 0" "p < MAX_PAGES" "alloc s1 = insert p (alloc s)" "inv s1"
      "only_allocates s s1"
    using new_page_InrD [OF assms(1,2)] by blast
  obtain q where q: "b = at s1 q 0" "q < MAX_PAGES" "q \<notin> alloc s1"
    using new_page_InrD [OF p(4) assms(3)] by blast
  then have "b = at s q 0" using q only_allocates_view(1) [OF p(5)] by simp
  then show ?thesis using p q at_inject [of p q s] by auto
qed

text \<open>Freeing the page just allocated gives back the same set of pages.\<close>

lemma new_then_free:
  assumes "inv s" and "new_page s = Inr (a, s1)"
  shows "\<exists>s2. free_page a s1 = Inr ((), s2) \<and> alloc s2 = alloc s \<and> inv s2"
proof -
  obtain p where p: "a = at s p 0" "p < MAX_PAGES" "p \<notin> alloc s"
      "alloc s1 = insert p (alloc s)" "inv s1"
      "only_allocates s s1"
    using new_page_InrD [OF assms] by blast
  then have "a = at s1 p 0" using only_allocates_view(1) [OF p(6)] by simp
  then show ?thesis using free_page_ok [of s1 p] p by auto
qed

end

section \<open>The code's allocator keeps the contract\<close>

lemma new_page_from_eq:
  assumes "length (allocated s) = MAX_PAGES" and "i \<le> MAX_PAGES"
  shows "new_page_from i s =
    (case first_index (\<lambda>x. x = 0) (drop i (allocated s)) of
       None \<Rightarrow> Inl (Exit ENOMEM)
     | Some k \<Rightarrow> Inr (at s (i + k) 0,
         s\<lparr>allocated := (allocated s)[i + k := 1], used_pages := used_pages s + 1\<rparr>))"
  using assms
proof (induction i rule: new_page_from.induct)
  case (1 i)
  show ?case
  proof (cases "i < MAX_PAGES")
    case False
    with "1.prems" show ?thesis by (subst new_page_from.simps) simp
  next
    case True
    then have d: "drop i (allocated s) = allocated s ! i # drop (Suc i) (allocated s)"
      using "1.prems" by (simp add: Cons_nth_drop_Suc)
    show ?thesis
    proof (cases "allocated s ! i = 0")
      case zero: True
      with True show ?thesis
        by (subst new_page_from.simps) (simp add: d page_pointer_at)
    next
      case False
      then have "new_page_from i s = new_page_from (Suc i) s"
        using True by (simp add: new_page_from.simps [of i])
      also have "\<dots> = (case first_index (\<lambda>x. x = 0) (drop (Suc i) (allocated s)) of
           None \<Rightarrow> Inl (Exit ENOMEM)
         | Some k \<Rightarrow> Inr (at s (Suc i + k) 0,
             s\<lparr>allocated := (allocated s)[Suc i + k := 1], used_pages := used_pages s + 1\<rparr>))"
        using True "1.prems" by (intro "1.IH" [OF True False]) simp_all
      finally show ?thesis
        using False by (simp add: d split: option.split)
    qed
  qed
qed

lemma vms_new_page_eq:
  "length (allocated s) = MAX_PAGES \<Longrightarrow> vms_new_page s =
    (case first_index (\<lambda>x. x = 0) (allocated s) of
       None \<Rightarrow> Inl (Exit ENOMEM)
     | Some p \<Rightarrow> Inr (at s p 0,
         s\<lparr>allocated := (allocated s)[p := 1], used_pages := used_pages s + 1\<rparr>))"
  using new_page_from_eq [of s 0] by (simp add: vms_new_page_def cong: option.case_cong)

lemma alloc_subset: "alloc s \<subseteq> {..<MAX_PAGES}"
  by (auto simp: alloc_def)

lemma alloc_less: "p \<in> alloc s \<Longrightarrow> p < MAX_PAGES"
  by (simp add: alloc_def)

lemma finite_alloc [simp]: "finite (alloc s)"
  using alloc_subset by (rule finite_subset) simp

lemma alloc_set:
  "length (allocated s) = MAX_PAGES \<Longrightarrow> p < MAX_PAGES \<Longrightarrow> v \<noteq> 0 \<Longrightarrow>
     alloc (s\<lparr>allocated := (allocated s)[p := v], used_pages := u\<rparr>) = insert p (alloc s)"
  by (auto simp: alloc_def nth_list_update)

lemma alloc_clear:
  "length (allocated s) = MAX_PAGES \<Longrightarrow> p < MAX_PAGES \<Longrightarrow>
     alloc (s\<lparr>allocated := (allocated s)[p := 0], used_pages := u, memory := m\<rparr>) = alloc s - {p}"
  by (auto simp: alloc_def nth_list_update split: if_splits)

lemma byte_at_apart:
  assumes "q \<noteq> p" "q < MAX_PAGES" "p < MAX_PAGES" "off < PAGE_SIZE"
  shows "PAGE_SIZE \<le> unat (at s q off - at s p 0)"
proof (cases "p < q")
  case True
  then have "apart (base_pointer s + of_nat (p * PAGE_SIZE + 0)) PAGE_SIZE
      (base_pointer s + of_nat (q * PAGE_SIZE + off)) 1"
    by (intro at_apart_offset) (use assms in auto)
  then show ?thesis by (simp add: apart_def at_def)
next
  case False
  then have "apart (base_pointer s + of_nat (q * PAGE_SIZE + off)) 1
      (base_pointer s + of_nat (p * PAGE_SIZE + 0)) PAGE_SIZE"
    by (intro at_apart_offset) (use assms in auto)
  then show ?thesis by (simp add: apart_def at_def)
qed

lemma mapped_page: "good_base (base_pointer s) \<Longrightarrow> p < MAX_PAGES \<Longrightarrow> off + n \<le> PAGE_SIZE \<Longrightarrow>
    off < PAGE_SIZE \<Longrightarrow> mapped s (at s p off) n"
  by (simp add: mapped_def unat_at_diff good_base_def)

lemma vms_new_page_ok:
  assumes inv: "pages_inv s" and room: "alloc s \<noteq> {..<MAX_PAGES}"
  shows "\<exists>p s'. vms_new_page s = Inr (at s p 0, s') \<and> p < MAX_PAGES \<and> p \<notin> alloc s \<and>
      (\<forall>q < p. q \<in> alloc s) \<and> alloc s' = insert p (alloc s) \<and> pages_inv s' \<and>
      only_allocates s s' \<and> used_pages s' = used_pages s + 1"
proof -
  have len: "length (allocated s) = MAX_PAGES" using inv by (simp add: pages_inv_def)
  have "\<exists>p. first_index (\<lambda>x. x = 0) (allocated s) = Some p"
  proof (rule ccontr)
    assume "\<nexists>p. first_index (\<lambda>x. x = 0) (allocated s) = Some p"
    then have "\<forall>x \<in> set (allocated s). x \<noteq> 0" by (simp add: not_Some_eq first_index_None_iff)
    then have "alloc s = {..<MAX_PAGES}" using len by (auto simp: alloc_def)
    with room show False by simp
  qed
  then obtain p where p: "first_index (\<lambda>x. x = 0) (allocated s) = Some p" ..
  let ?s = "s\<lparr>allocated := (allocated s)[p := 1], used_pages := used_pages s + 1\<rparr>"
  have new: "vms_new_page s = Inr (at s p 0, ?s)"
    using vms_new_page_eq [OF len] p by simp
  have pp: "p < MAX_PAGES" "p \<notin> alloc s" "\<forall>q < p. q \<in> alloc s"
    using first_index_SomeD [OF p] len by (auto simp: alloc_def)
  have al: "alloc ?s = insert p (alloc s)" using len pp(1) by (rule alloc_set) simp
  have only: "only_allocates s ?s" by (simp add: only_allocates_def)
  have set1: "set ((allocated s)[p := 1]) \<subseteq> {0, 1}"
    using inv set_update_subset_insert [of "allocated s" p 1] by (auto simp: pages_inv_def)
  have "pages_inv ?s"
    using inv set1 pp(2) unfolding pages_inv_def al only_allocates_view [OF only] by simp
  moreover have "used_pages ?s = used_pages s + 1" by simp
  ultimately show ?thesis using new pp al only by blast
qed

lemma vms_new_page_full:
  assumes "pages_inv s" and "alloc s = {..<MAX_PAGES}"
  shows "vms_new_page s = Inl (Exit ENOMEM)"
proof -
  have len: "length (allocated s) = MAX_PAGES" using assms(1) by (simp add: pages_inv_def)
  have "x \<noteq> 0" if "x \<in> set (allocated s)" for x
    using that assms(2) len by (fastforce simp: alloc_def in_set_conv_nth)
  then have "first_index (\<lambda>x. x = 0) (allocated s) = None"
    by (simp add: first_index_None_iff)
  then show ?thesis using vms_new_page_eq [OF len] by simp
qed

lemma vms_free_page_eq:
  assumes "pages_inv s" and "p < MAX_PAGES"
  shows "vms_free_page (at s p 0) s =
    (if p \<in> alloc s
     then Inr ((), s\<lparr>allocated := (allocated s)[p := 0], used_pages := used_pages s - 1,
            memory := store_bytes (memory s) (at s p 0) (replicate PAGE_SIZE 0)\<rparr>)
     else Inl Assertion)"
proof -
  have base: "good_base (base_pointer s)" using assms by (simp add: pages_inv_def)
  have "mapped s (at s p 0) PAGE_SIZE" by (rule mapped_page) (use base assms in simp_all)
  then have m: "mapped (s\<lparr>allocated := al\<rparr>) (at s p 0) PAGE_SIZE" for al
    by (simp add: mapped_def)
  show ?thesis
    using page_index_at [of p 0 s] at_page_aligned [OF base assms(2)] aligned_word_iff [of "at s p 0"] m
    by (simp add: vms_free_page_def check_page_aligned_def memset_zero_def prog_simps assms(2) alloc_def)
qed

lemma vms_free_page_ok:
  assumes inv: "pages_inv s" and p: "p \<in> alloc s"
  shows "\<exists>s'. vms_free_page (at s p 0) s = Inr ((), s') \<and> alloc s' = alloc s - {p} \<and> pages_inv s' \<and>
      base_pointer s' = base_pointer s \<and> root_page_table s' = root_page_table s \<and>
      ref_num s' = ref_num s \<and> used_pages s' = used_pages s - 1 \<and>
      (\<forall>q < MAX_PAGES. \<forall>off < PAGE_SIZE. q \<noteq> p \<longrightarrow> byte s' q off = byte s q off)"
proof -
  let ?m = "store_bytes (memory s) (at s p 0) (replicate PAGE_SIZE 0)"
  let ?s = "s\<lparr>allocated := (allocated s)[p := 0], used_pages := used_pages s - 1, memory := ?m\<rparr>"
  have pm: "p < MAX_PAGES" using p alloc_subset by auto
  have len: "length (allocated s) = MAX_PAGES" using inv by (simp add: pages_inv_def)
  have al: "alloc ?s = alloc s - {p}" using len pm by (rule alloc_clear)
  have other: "byte ?s q off = byte s q off"
    if "q < MAX_PAGES" "off < PAGE_SIZE" "q \<noteq> p" for q off
    using byte_at_apart [OF that(3,1) pm that(2)]
    by (simp add: byte_def at_def store_bytes_out)
  have zero: "byte ?s p off = 0" if "off < PAGE_SIZE" for off
    using that store_bytes_in [of off "replicate PAGE_SIZE 0" "memory s" "at s p 0"]
    by (simp add: byte_def at_add) (simp add: at_def)
  have set0: "set ((allocated s)[p := 0]) \<subseteq> {0, 1}"
    using inv set_update_subset_insert [of "allocated s" p 0] by (auto simp: pages_inv_def)
  have card: "card (alloc s - {p}) = card (alloc s) - 1" and pos: "0 < card (alloc s)"
    using p by (simp_all add: card_gt_0_iff) blast
  have "pages_inv ?s"
    unfolding pages_inv_def al
  proof (intro conjI allI impI)
    fix q off
    assume "q < MAX_PAGES" "q \<notin> alloc s - {p}" "off < PAGE_SIZE"
    then show "byte ?s q off = 0"
      using inv zero other by (cases "q = p") (simp_all add: pages_inv_def)
  qed (use inv set0 card pos in \<open>simp_all add: pages_inv_def\<close>)
  then show ?thesis
    using vms_free_page_eq [OF inv pm] p al other by (intro exI [of _ ?s] conjI) simp_all
qed

interpretation pages: page_allocator vms_new_page vms_free_page pages_inv
proof
  fix s assume "pages_inv s" "alloc s \<noteq> {..<MAX_PAGES}"
  then show "\<exists>p s'. vms_new_page s = Inr (at s p 0, s') \<and> p < MAX_PAGES \<and> p \<notin> alloc s \<and>
      (\<forall>q < p. q \<in> alloc s) \<and> alloc s' = insert p (alloc s) \<and> pages_inv s' \<and>
      only_allocates s s' \<and> used_pages s' = used_pages s + 1"
    by (rule vms_new_page_ok)
qed (use vms_new_page_full vms_free_page_ok vms_free_page_eq in \<open>simp_all add: pages_inv_def\<close>)

end
