(* ===== verification/Vms_Mmu.thy ===== *)
theory Vms_Mmu
  imports Vms_Pages
begin

text \<open>
  The memory management unit (\<open>vms/src/mmu.c\<close>) and the page fault handler it calls
  (\<open>page_fault_handler\<close> of \<open>vms/src/vms.c\<close>).

  \<open>mmu\<close> walks the three levels from the root page table; at an entry that faults it calls the
  handler once and looks again, and a second fault at the same level ends the process with
  \<open>EFAULT\<close>.  \<open>walk\<close> is the path through tables without faults, as a pure function of the state, and
  \<open>resolve\<close> the specification of the whole: level by level, with one repair for each.  \<open>maps\<close> is the view by page numbers that the theorems about address
  spaces use.
\<close>

section \<open>The page fault handler\<close>

text \<open>\<open>ref_num[idx]\<close>: undefined outside the array.\<close>

definition ref_get :: "int \<Rightarrow> int vm" where
  "ref_get idx = seq (check Undefined (\<lambda>_. 0 \<le> idx \<and> idx < int MAX_PAGES))
     (gets (\<lambda>s. ref_num s ! nat idx))"

definition ref_add :: "int \<Rightarrow> int \<Rightarrow> unit vm" where
  "ref_add idx d = seq (check Undefined (\<lambda>_. 0 \<le> idx \<and> idx < int MAX_PAGES))
     (upd (\<lambda>s. s\<lparr>ref_num := (ref_num s)[nat idx := ref_num s ! nat idx + d]\<rparr>))"

text \<open>\<open>if (vms_pte_custom(entry)) { write_set; custom_clear; }\<close>\<close>

definition restore_write :: "addr \<Rightarrow> unit vm" where
  "restore_write entry =
     bnd (vms_pte_custom entry) (\<lambda>c.
       if c then seq (vms_pte_write_set entry) (vms_pte_custom_clear entry) else skip)"

definition page_fault_handler :: "addr \<Rightarrow> nat \<Rightarrow> addr \<Rightarrow> unit vm" where
  "page_fault_handler virtual_address level page_table =
     (let entry = vms_page_table_pte_entry page_table virtual_address level in
      bnd (vms_pte_valid entry) (\<lambda>v.
      if \<not> v then skip else
      bnd (vms_pte_write entry) (\<lambda>w.
      if w then skip else
      bnd (vms_pte_get_ppn entry) (\<lambda>ppn.
      bnd (gets (\<lambda>s. vms_get_page_index s (vms_ppn_to_page ppn))) (\<lambda>idx.
      bnd (ref_get idx) (\<lambda>n.
      if n \<le> 0 then skip
      else if n = 1 then restore_write entry
      else
        bnd vms_new_page (\<lambda>dst_page_p.
        bnd (vms_pte_get_ppn entry) (\<lambda>src_ppn.
        let src_page_p = vms_ppn_to_page src_ppn in
        bnd (vms_page_to_ppn dst_page_p) (\<lambda>dst_ppn.
        seq (vms_pte_set_ppn entry dst_ppn)
       (seq (restore_write entry)
       (seq (memcpy dst_page_p src_page_p PAGE_SIZE)
       (seq (bnd (gets (\<lambda>s. vms_get_page_index s src_page_p)) (\<lambda>i. ref_add i (- 1)))
            (bnd (gets (\<lambda>s. vms_get_page_index s dst_page_p)) (\<lambda>i. ref_add i 1))))))))))))))"

section \<open>The functions of mmu.c\<close>

abbreviation MMU_LEVELS :: nat where "MMU_LEVELS \<equiv> 3"

definition should_generate_fault :: "nat \<Rightarrow> addr \<Rightarrow> bool vm" where
  "should_generate_fault level entry =
     bnd (vms_pte_valid entry) (\<lambda>v.
     if \<not> v then ret True
     else bnd (if level \<noteq> 0
               then bnd (vms_pte_read entry) (\<lambda>r. if r then ret True else vms_pte_write entry)
               else ret False) (\<lambda>b.
     if b then ret True
     else bnd (if level = 0
               then bnd (vms_pte_read entry) (\<lambda>r.
                      if r then ret False
                      else bnd (vms_pte_write entry) (\<lambda>w. ret (\<not> w)))
               else ret False) ret))"

definition vms_get_root_page_table :: "addr vm" where
  "vms_get_root_page_table = gets root_page_table"

definition vms_set_root_page_table :: "addr \<Rightarrow> unit vm" where
  "vms_set_root_page_table page_table =
     seq (check_page_aligned page_table) (upd (\<lambda>s. s\<lparr>root_page_table := page_table\<rparr>))"

text \<open>What \<open>print_fatal_page_fault\<close> prints, before its caller ends the process.\<close>

record fault_report =
  report_address :: addr
  report_table :: addr
  report_level :: nat
  report_ppn :: u64
  report_flags :: string

definition flags_text :: "u64 \<Rightarrow> string" where
  "flags_text e =
     (if custom e then ''C'' else ''-'') @ (if writable e then ''W'' else ''-'') @
     (if readable e then ''R'' else ''-'') @ (if valid e then ''V'' else ''-'')"

definition print_fatal_page_fault :: "addr \<Rightarrow> nat \<Rightarrow> addr \<Rightarrow> fault_report vm" where
  "print_fatal_page_fault virtual_address level page_table =
     (let entry = vms_page_table_pte_entry page_table virtual_address level in
      read64 (\<lambda>e. \<lparr>report_address = virtual_address, report_table = page_table,
        report_level = level, report_ppn = get_ppn e, report_flags = flags_text e\<rparr>) entry)"

definition fatal_fault :: "addr \<Rightarrow> nat \<Rightarrow> addr \<Rightarrow> 'a vm" where
  "fatal_fault virtual_address level page_table =
     bnd (print_fatal_page_fault virtual_address level page_table) (\<lambda>_. stop (Exit EFAULT))"

function mmu_from :: "addr \<Rightarrow> nat \<Rightarrow> bool \<Rightarrow> addr \<Rightarrow> addr vm" where
  "mmu_from virtual_address level faulted page_table =
     (let entry = vms_page_table_pte_entry page_table virtual_address level in
      bnd (should_generate_fault level entry) (\<lambda>fault.
      if fault
      then (if \<not> faulted
            then seq (page_fault_handler virtual_address level page_table)
                     (mmu_from virtual_address level True page_table)
            else fatal_fault virtual_address level page_table)
      else if level \<noteq> 0
      then bnd (vms_pte_get_ppn entry) (\<lambda>ppn.
             mmu_from virtual_address (level - 1) False (vms_ppn_to_page ppn))
      else ret entry))"
  by pat_completeness auto
termination
  by (relation "measure (\<lambda>(va, level, faulted, table). 2 * level + (if faulted then 0 else 1))") auto

declare mmu_from.simps [simp del]

definition mmu :: "addr \<Rightarrow> addr vm" where
  "mmu virtual_address =
     bnd (gets root_page_table) (mmu_from virtual_address (MMU_LEVELS - 1) False)"

definition translate_address :: "addr \<Rightarrow> addr \<Rightarrow> addr vm" where
  "translate_address virtual_address entry =
     bnd (vms_pte_get_ppn entry) (\<lambda>ppn. ret (vms_ppn_to_page ppn OR (virtual_address AND 0xFFF)))"

definition get_base_page :: "addr \<Rightarrow> addr" where
  "get_base_page entry = entry AND NOT 0xFFF"

text \<open>The permission check that \<open>vms_write\<close> and \<open>vms_read\<close> share, for the flag \<open>allowed\<close>.\<close>

definition demand :: "(addr \<Rightarrow> bool vm) \<Rightarrow> addr \<Rightarrow> addr \<Rightarrow> unit vm" where
  "demand allowed virtual_address entry =
     bnd (allowed entry) (\<lambda>b.
     if b then skip
     else let l0 = get_base_page entry in
       seq (page_fault_handler virtual_address 0 l0)
      (bnd (allowed entry) (\<lambda>b'. if b' then skip else fatal_fault virtual_address 0 l0)))"

definition vms_write :: "addr \<Rightarrow> u32 \<Rightarrow> unit vm" where
  "vms_write virtual_address value =
     bnd (mmu virtual_address) (\<lambda>entry.
     seq (demand vms_pte_write virtual_address entry)
    (bnd (translate_address virtual_address entry) (\<lambda>pointer. store32 pointer value)))"

definition vms_read :: "addr \<Rightarrow> u32 vm" where
  "vms_read virtual_address =
     bnd (mmu virtual_address) (\<lambda>entry.
     seq (demand vms_pte_read virtual_address entry)
    (bnd (translate_address virtual_address entry) (\<lambda>pointer. load32 pointer)))"

section \<open>The walk as a function of the state\<close>

definition faults :: "nat \<Rightarrow> u64 \<Rightarrow> bool" where
  "faults level e \<longleftrightarrow> \<not> valid e \<or> level \<noteq> 0 \<and> (readable e \<or> writable e) \<or>
     level = 0 \<and> \<not> readable e \<and> \<not> writable e"

datatype walk_result = Leaf addr | Bad nat addr | Wild

fun walk :: "vms \<Rightarrow> addr \<Rightarrow> nat \<Rightarrow> addr \<Rightarrow> walk_result" where
  "walk s va level table =
     (let entry = vms_page_table_pte_entry table va level in
      if \<not> mapped s entry 8 then Wild
      else if faults level (rd64 s entry) then Bad level table
      else case level of
          0 \<Rightarrow> Leaf entry
        | Suc l \<Rightarrow> walk s va l (entry_page (rd64 s entry)))"

declare walk.simps [simp del]

lemmas pte_prog_simps = vms_pte_defs prog_simps

lemma should_generate_fault_apply [prog_simps]:
  "should_generate_fault level entry s =
     (if mapped s entry 8 then Inr (faults level (rd64 s entry), s) else Inl Fault)"
  by (simp add: should_generate_fault_def faults_def pte_prog_simps)

lemma fatal_fault_apply:
  "fatal_fault va level table s =
     (if mapped s (vms_page_table_pte_entry table va level) 8 then Inl (Exit EFAULT) else Inl Fault)"
  by (simp add: fatal_fault_def print_fatal_page_fault_def prog_simps Let_def)

text \<open>From any level, the loop follows the walk up to its first fault.\<close>

lemma mmu_from_walk:
  "mmu_from va level False table s =
     (case walk s va level table of
        Leaf entry \<Rightarrow> Inr (entry, s)
      | Wild \<Rightarrow> Inl Fault
      | Bad l t \<Rightarrow> seq (page_fault_handler va l t) (mmu_from va l True t) s)"
proof (induction level arbitrary: table)
  case 0
  show ?case
    by (subst mmu_from.simps, subst walk.simps) (simp add: Let_def prog_simps)
next
  case (Suc level)
  show ?case
    by (subst mmu_from.simps, subst walk.simps)
      (simp add: Let_def prog_simps vms_pte_get_ppn_def Suc.IH)
qed

lemma mmu_walk:
  "mmu va s =
     (case walk s va 2 (root_page_table s) of
        Leaf entry \<Rightarrow> Inr (entry, s)
      | Wild \<Rightarrow> Inl Fault
      | Bad l t \<Rightarrow> seq (page_fault_handler va l t) (mmu_from va l True t) s)"
  by (simp add: mmu_def prog_simps mmu_from_walk)

section \<open>The walk with its repairs\<close>

text \<open>
  What the hardware is meant to do, without the loop of \<open>mmu\<close> and its flag.  An entry that
  faults is \<open>settled\<close> by one call of the handler; it is fatal when the entry still faults
  afterwards.  \<open>resolve\<close> settles one entry in each level, top down, and each of them has its own
  call of the handler, whatever the levels above needed.
\<close>

definition settled :: "addr \<Rightarrow> nat \<Rightarrow> addr \<Rightarrow> addr vm" where
  "settled va level table s =
     (let entry = vms_page_table_pte_entry table va level in
      if \<not> mapped s entry 8 then Inl Fault
      else if \<not> faults level (rd64 s entry) then Inr (entry, s)
      else case page_fault_handler va level table s of
          Inl e \<Rightarrow> Inl e
        | Inr (_, s') \<Rightarrow>
            if \<not> mapped s' entry 8 then Inl Fault
            else if faults level (rd64 s' entry) then Inl (Exit EFAULT)
            else Inr (entry, s'))"

primrec resolve :: "addr \<Rightarrow> nat \<Rightarrow> addr \<Rightarrow> addr vm" where
  "resolve va 0 table s = settled va 0 table s"
| "resolve va (Suc level) table s =
     (case settled va (Suc level) table s of
        Inl e \<Rightarrow> Inl e
      | Inr (entry, s') \<Rightarrow> resolve va level (entry_page (rd64 s' entry)) s')"

lemma settled_mapped:
  "settled va level table s = Inr (entry, s') \<Longrightarrow> mapped s' entry 8"
  by (auto simp: settled_def Let_def split: if_splits sum.splits)

text \<open>One round of the loop settles one entry, and the flag is false again when the next begins.\<close>

lemma mmu_from_no_fault:
  assumes "mapped s entry 8" "\<not> faults level (rd64 s entry)"
    and "entry = vms_page_table_pte_entry table va level"
  shows "mmu_from va level faulted table s =
     (if level = 0 then Inr (entry, s)
      else mmu_from va (level - 1) False (entry_page (rd64 s entry)) s)"
  using assms by (subst mmu_from.simps) (simp add: Let_def prog_simps vms_pte_get_ppn_def)

lemma mmu_from_settled:
  "mmu_from va level False table s =
     (case settled va level table s of
        Inl e \<Rightarrow> Inl e
      | Inr (entry, s') \<Rightarrow>
          if level = 0 then Inr (entry, s')
          else mmu_from va (level - 1) False (entry_page (rd64 s' entry)) s')"
proof -
  let ?entry = "vms_page_table_pte_entry table va level"
  consider "\<not> mapped s ?entry 8" | "mapped s ?entry 8" "\<not> faults level (rd64 s ?entry)"
    | "mapped s ?entry 8" "faults level (rd64 s ?entry)" by blast
  then show ?thesis
  proof cases
    case 1
    then show ?thesis by (subst mmu_from.simps) (simp add: settled_def Let_def prog_simps)
  next
    case 2
    then show ?thesis using mmu_from_no_fault [OF 2 refl, of False] by (simp add: settled_def Let_def)
  next
    case 3
    have once: "mmu_from va level False table s =
        seq (page_fault_handler va level table) (mmu_from va level True table) s"
      using 3 by (subst mmu_from.simps) (simp add: Let_def prog_simps)
    have again: "mmu_from va level True table s' =
        (if \<not> mapped s' ?entry 8 then Inl Fault
         else if faults level (rd64 s' ?entry) then Inl (Exit EFAULT)
         else if level = 0 then Inr (?entry, s')
         else mmu_from va (level - 1) False (entry_page (rd64 s' ?entry)) s')" for s'
    proof (cases "mapped s' ?entry 8 \<and> \<not> faults level (rd64 s' ?entry)")
      case True
      then show ?thesis using mmu_from_no_fault [of s' ?entry level table va True] by simp
    next
      case False
      then show ?thesis
        by (subst mmu_from.simps) (auto simp: Let_def prog_simps fatal_fault_apply)
    qed
    show ?thesis using 3
      by (cases "page_fault_handler va level table s") (auto simp: once again settled_def Let_def seq_apply)
  qed
qed

lemma mmu_from_resolve: "mmu_from va level False table s = resolve va level table s"
proof (induction level arbitrary: table s)
  case 0
  then show ?case by (simp add: mmu_from_settled split: sum.splits)
next
  case (Suc level)
  then show ?case by (simp add: mmu_from_settled [of va "Suc level"] split: sum.splits)
qed

end
