(* ===== verification/Vms_Space.thy ===== *)
theory Vms_Space
  imports Vms_Mmu
begin

text \<open>
  Address spaces by page number: \<open>pte s p i\<close> is entry \<open>i\<close> of the table in page \<open>p\<close>, and
  \<open>maps s r va t1 t0 p\<close> says that the tables \<open>r\<close>, \<open>t1\<close>, \<open>t0\<close> lead from the virtual address to
  page \<open>p\<close> without a fault.  On a mapped address \<open>vms_read\<close> and \<open>vms_write\<close> are one access to
  the page; the frame lemmas say which entries and bytes an update of memory leaves alone.
\<close>

definition pte :: "vms \<Rightarrow> nat \<Rightarrow> nat \<Rightarrow> u64" where
  "pte s p i = rd64 s (at s p (8 * i))"

abbreviation offset :: "addr \<Rightarrow> nat" where
  "offset va \<equiv> unat va mod PAGE_SIZE"

section \<open>Frame lemmas\<close>

definition same_page :: "vms \<Rightarrow> vms \<Rightarrow> nat \<Rightarrow> bool" where
  "same_page s s' p \<longleftrightarrow> (\<forall>off < PAGE_SIZE. byte s' p off = byte s p off)"

lemma same_page_refl [simp]: "same_page s s p"
  by (simp add: same_page_def)

lemma same_page_trans: "same_page s s' p \<Longrightarrow> same_page s' s'' p \<Longrightarrow> same_page s s'' p"
  by (simp add: same_page_def)

lemma pte_bytes: "pte s p i = word_of_bytes (map (\<lambda>k. byte s p (8 * i + k)) [0..<8])"
  by (simp add: pte_def rd64_def load_bytes_def byte_def at_add)

lemma rd32_bytes: "rd32 s (at s p off) = word_of_bytes (map (\<lambda>k. byte s p (off + k)) [0..<4])"
  by (simp add: rd32_def load_bytes_def byte_def at_add)

lemma rd32_page_cong:
  assumes "\<forall>k < PAGE_SIZE. byte s' q k = byte s p k" and "off + 4 \<le> PAGE_SIZE"
  shows "rd32 s' (at s' q off) = rd32 s (at s p off)"
  unfolding rd32_bytes using assms by (intro arg_cong [where f = word_of_bytes] map_cong) auto

lemma same_page_pte: "same_page s s' p \<Longrightarrow> i < NUM_PTE_ENTRIES \<Longrightarrow> pte s' p i = pte s p i"
  unfolding pte_bytes same_page_def by (intro arg_cong [where f = word_of_bytes] map_cong) auto

lemma at_base: "base_pointer s' = base_pointer s \<Longrightarrow> at s' = at s"
  by (simp add: at_def fun_eq_iff)

lemma at_wr64 [simp]: "at (wr64 a v s) = at s"
  by (rule at_base) simp

lemma at_wr32 [simp]: "at (wr32 a v s) = at s"
  by (rule at_base) simp

text \<open>Two ranges of the mapping that do not meet.\<close>

lemma at_apart:
  assumes "p < MAX_PAGES" "q < MAX_PAGES" "0 < n" "0 < k"
    and "off + n \<le> PAGE_SIZE" "off' + k \<le> PAGE_SIZE"
    and "p \<noteq> q \<or> off + n \<le> off' \<or> off' + k \<le> off"
  shows "apart (at s p off) n (at s q off') k"
proof -
  consider "p * PAGE_SIZE + off + n \<le> q * PAGE_SIZE + off'"
    | "q * PAGE_SIZE + off' + k \<le> p * PAGE_SIZE + off"
    using assms by (cases p q rule: linorder_cases) fastforce+
  then show ?thesis
  proof cases
    case 1
    then show ?thesis
      unfolding at_def by (intro at_apart_offset) (use assms in auto)
  next
    case 2
    then show ?thesis
      unfolding at_def by (intro apart_sym [OF at_apart_offset]) (use assms in auto)
  qed
qed

lemma byte_store:
  assumes "p < MAX_PAGES" "q < MAX_PAGES" "off < PAGE_SIZE" "off' + length bs \<le> PAGE_SIZE"
    and "p \<noteq> q \<or> off < off' \<or> off' + length bs \<le> off"
  shows "store_bytes m (at s q off') bs (at s p off) = m (at s p off)"
proof (cases "bs = []")
  case True
  then show ?thesis by (simp add: store_bytes_def)
next
  case False
  have "apart (at s q off') (length bs) (at s p off) 1"
    by (rule at_apart) (use assms False in auto)
  then show ?thesis by (simp add: apart_def store_bytes_out)
qed

lemma byte_wr64:
  assumes "p < MAX_PAGES" "q < MAX_PAGES" "off < PAGE_SIZE" "i < NUM_PTE_ENTRIES"
    and "p \<noteq> q \<or> off < 8 * i \<or> 8 * i + 8 \<le> off"
  shows "byte (wr64 (at s q (8 * i)) v s) p off = byte s p off"
  using byte_store [of p q off "8 * i" "bytes_of_word 8 v" "memory s" s] assms
  by (simp add: byte_def) (simp add: wr64_def)

lemma byte_wr32:
  assumes "p < MAX_PAGES" "q < MAX_PAGES" "off < PAGE_SIZE" "off' + 4 \<le> PAGE_SIZE"
    and "p \<noteq> q \<or> off < off' \<or> off' + 4 \<le> off"
  shows "byte (wr32 (at s q off') v s) p off = byte s p off"
  using byte_store [of p q off off' "bytes_of_word 4 v" "memory s" s] assms
  by (simp add: byte_def) (simp add: wr32_def)

lemma pte_wr64_same [simp]: "pte (wr64 (at s p (8 * i)) v s) p i = v"
  by (simp add: pte_def)

lemma pte_wr64_other:
  assumes "p < MAX_PAGES" "q < MAX_PAGES" "i < NUM_PTE_ENTRIES" "j < NUM_PTE_ENTRIES"
    and "p \<noteq> q \<or> i \<noteq> j"
  shows "pte (wr64 (at s q (8 * j)) v s) p i = pte s p i"
proof -
  have "apart (at s q (8 * j)) 8 (at s p (8 * i)) 8"
    by (rule at_apart) (use assms in auto)
  then show ?thesis by (simp add: pte_def rd64_wr64_apart)
qed

lemma same_page_wr64:
  "p < MAX_PAGES \<Longrightarrow> q < MAX_PAGES \<Longrightarrow> i < NUM_PTE_ENTRIES \<Longrightarrow> p \<noteq> q \<Longrightarrow>
     same_page s (wr64 (at s q (8 * i)) v s) p"
  by (simp add: same_page_def byte_wr64)

lemma same_page_wr32:
  "p < MAX_PAGES \<Longrightarrow> q < MAX_PAGES \<Longrightarrow> off + 4 \<le> PAGE_SIZE \<Longrightarrow> p \<noteq> q \<Longrightarrow>
     same_page s (wr32 (at s q off) v s) p"
  by (simp add: same_page_def byte_wr32)

lemma wr64_wr64 [simp]: "wr64 a v (wr64 a u s) = wr64 a v s"
  by (simp add: wr64_def store_bytes_def fun_eq_iff)

lemma wr32_wr32 [simp]: "wr32 a v (wr32 a u s) = wr32 a v s"
  by (simp add: wr32_def store_bytes_def fun_eq_iff)

text \<open>Copying a whole page.\<close>

definition copy_page :: "nat \<Rightarrow> nat \<Rightarrow> vms \<Rightarrow> vms" where
  "copy_page d p s =
     s\<lparr>memory := store_bytes (memory s) (at s d 0) (load_bytes (memory s) (at s p 0) PAGE_SIZE)\<rparr>"

lemma copy_page_fields [simp]:
  "base_pointer (copy_page d p s) = base_pointer s" "allocated (copy_page d p s) = allocated s"
  "used_pages (copy_page d p s) = used_pages s" "errno (copy_page d p s) = errno s"
  "root_page_table (copy_page d p s) = root_page_table s" "ref_num (copy_page d p s) = ref_num s"
  by (simp_all add: copy_page_def)

lemma at_copy_page [simp]: "at (copy_page d p s) = at s"
  by (rule at_base) simp

lemma byte_copy_page:
  assumes "off < PAGE_SIZE"
  shows "byte (copy_page d p s) d off = byte s p off"
  using assms store_bytes_in [of off "load_bytes (memory s) (at s p 0) PAGE_SIZE" "memory s" "at s d 0"]
  by (simp add: byte_def at_add) (simp add: copy_page_def)

lemma same_page_copy_page:
  assumes "q < MAX_PAGES" "d < MAX_PAGES" "q \<noteq> d"
  shows "same_page s (copy_page d p s) q"
proof -
  have "byte (copy_page d p s) q off = byte s q off" if "off < PAGE_SIZE" for off
    using byte_store [of q d off 0 "load_bytes (memory s) (at s p 0) PAGE_SIZE" "memory s" s]
      that assms by (simp add: byte_def) (simp add: copy_page_def)
  then show ?thesis by (simp add: same_page_def)
qed

lemma memcpy_page:
  assumes "good_base (base_pointer s)" "d < MAX_PAGES" "p < MAX_PAGES" "d \<noteq> p"
  shows "memcpy (at s d 0) (at s p 0) PAGE_SIZE s = Inr ((), copy_page d p s)"
proof -
  have "apart (at s d 0) PAGE_SIZE (at s p 0) PAGE_SIZE"
    by (rule at_apart) (use assms in auto)
  moreover have "mapped s (at s d 0) PAGE_SIZE" "mapped s (at s p 0) PAGE_SIZE"
    by (rule mapped_page; use assms in simp)+
  ultimately show ?thesis
    by (simp add: memcpy_def prog_simps copy_page_def)
qed

section \<open>Addresses inside a page\<close>

lemma mapped_pte: "good_base (base_pointer s) \<Longrightarrow> p < MAX_PAGES \<Longrightarrow> i < NUM_PTE_ENTRIES \<Longrightarrow>
    mapped s (at s p (8 * i)) 8"
  by (rule mapped_page) auto

lemma page_offset_or:
  assumes "unat (x :: addr) mod PAGE_SIZE = 0" and "k < PAGE_SIZE"
  shows "x + of_nat k = x OR of_nat k" and "(x + of_nat k) AND NOT 0xFFF = x"
proof -
  have m: "(0xFFF :: addr) = mask 12" by (simp add: mask_eq_exp_minus_1)
  have lo: "\<not> bit x n" if "n < 12" for n
    using not_bit_below [of x 12 n] assms(1) that by simp
  have hi: "\<not> bit (of_nat k :: addr) n" if "12 \<le> n" for n
    using not_bit_above [of "of_nat k :: addr" 12 n] assms(2) that
    by (simp add: unat_of_nat_small)
  have "x AND of_nat k = 0"
    by (rule bit_word_eqI) (metis bit_and_iff bit_zero_word hi lo not_le)
  then show eq: "x + of_nat k = x OR of_nat k"
    by (rule disjunctive_add_eq_or)
  show "(x + of_nat k) AND NOT 0xFFF = x"
    unfolding eq m
  proof (rule bit_word_eqI)
    fix n assume "n < LENGTH(64)"
    then show "bit ((x OR of_nat k) AND NOT (mask 12)) n = bit x n"
      using lo [of n] hi [of n] by (cases "n < 12") (auto simp: bit_simps)
  qed
qed

lemma get_base_page_at:
  "good_base (base_pointer s) \<Longrightarrow> p < MAX_PAGES \<Longrightarrow> off < PAGE_SIZE \<Longrightarrow>
     get_base_page (at s p off) = at s p 0"
  using page_offset_or(2) [OF at_page_aligned [of s p], of off]
  by (simp add: get_base_page_def at_add)

lemma translate_at:
  assumes "good_base (base_pointer s)" "p < MAX_PAGES"
  shows "at s p 0 OR (va AND 0xFFF) = at s p (offset va)"
proof -
  have m: "(0xFFF :: addr) = mask 12" by (simp add: mask_eq_exp_minus_1)
  have "unat (take_bit 12 va) = offset va"
    by (simp add: take_bit_eq_mod unat_mod_distrib)
  then have "va AND 0xFFF = of_nat (offset va)"
    unfolding m by (metis take_bit_eq_mask of_nat_unat ucast_id)
  then show ?thesis
    using page_offset_or(1) [OF at_page_aligned [OF assms], of "offset va"]
    by (simp add: at_add)
qed

section \<open>Mapped virtual addresses\<close>

definition maps :: "vms \<Rightarrow> nat \<Rightarrow> addr \<Rightarrow> nat \<Rightarrow> nat \<Rightarrow> nat \<Rightarrow> bool" where
  "maps s r va t1 t0 p \<longleftrightarrow>
     r < MAX_PAGES \<and> t1 < MAX_PAGES \<and> t0 < MAX_PAGES \<and> p < MAX_PAGES \<and>
     \<not> faults 2 (pte s r (vpn va 2)) \<and> entry_page (pte s r (vpn va 2)) = at s t1 0 \<and>
     \<not> faults 1 (pte s t1 (vpn va 1)) \<and> entry_page (pte s t1 (vpn va 1)) = at s t0 0 \<and>
     \<not> faults 0 (pte s t0 (vpn va 0)) \<and> entry_page (pte s t0 (vpn va 0)) = at s p 0"

lemma walk_at:
  assumes "good_base (base_pointer s)" "p < MAX_PAGES" "level \<le> 2"
  shows "walk s va level (at s p 0) =
    (if faults level (pte s p (vpn va level)) then Bad level (at s p 0)
     else case level of
         0 \<Rightarrow> Leaf (at s p (8 * vpn va level))
       | Suc l \<Rightarrow> walk s va l (entry_page (pte s p (vpn va level))))"
  using mapped_pte [OF assms(1,2) vpn_less [OF assms(3)]]
  by (subst walk.simps) (simp add: pte_entry_at Let_def pte_def split: nat.split)

lemma maps_walk:
  assumes "good_base (base_pointer s)" and "maps s r va t1 t0 p"
  shows "walk s va 2 (at s r 0) = Leaf (at s t0 (8 * vpn va 0))"
  using assms by (simp add: maps_def walk_at numeral_2_eq_2)

lemma maps_mmu:
  assumes "good_base (base_pointer s)" and "root_page_table s = at s r 0" and "maps s r va t1 t0 p"
  shows "mmu va s = Inr (at s t0 (8 * vpn va 0), s)"
  using maps_walk [OF assms(1,3)] by (simp add: mmu_walk assms(2))

lemma maps_translate:
  assumes "good_base (base_pointer s)" and "maps s r va t1 t0 p"
  shows "translate_address va (at s t0 (8 * vpn va 0)) s = Inr (at s p (offset va), s)"
  using assms mapped_pte [of s t0 "vpn va 0"] translate_at [of s p va]
  by (simp add: translate_address_def pte_prog_simps maps_def flip: pte_def)

lemma vms_read_maps:
  assumes base: "good_base (base_pointer s)" and root: "root_page_table s = at s r 0"
    and maps: "maps s r va t1 t0 p" and "readable (pte s t0 (vpn va 0))" "offset va + 4 \<le> PAGE_SIZE"
  shows "vms_read va s = Inr (rd32 s (at s p (offset va)), s)"
proof -
  have "p < MAX_PAGES" "t0 < MAX_PAGES" using maps by (simp_all add: maps_def)
  then have "mapped s (at s p (offset va)) 4" "mapped s (at s t0 (8 * vpn va 0)) 8"
    using base assms(5) by (auto intro: mapped_page mapped_pte)
  then show ?thesis
    using assms(4) maps_mmu [OF base root maps] maps_translate [OF base maps]
    by (simp add: vms_read_def demand_def pte_prog_simps flip: pte_def)
qed

lemma vms_write_maps:
  assumes base: "good_base (base_pointer s)" and root: "root_page_table s = at s r 0"
    and maps: "maps s r va t1 t0 p" and "writable (pte s t0 (vpn va 0))" "offset va + 4 \<le> PAGE_SIZE"
  shows "vms_write va v s = Inr ((), wr32 (at s p (offset va)) v s)"
proof -
  have "p < MAX_PAGES" "t0 < MAX_PAGES" using maps by (simp_all add: maps_def)
  then have "mapped s (at s p (offset va)) 4" "mapped s (at s t0 (8 * vpn va 0)) 8"
    using base assms(5) by (auto intro: mapped_page mapped_pte)
  then show ?thesis
    using assms(4) maps_mmu [OF base root maps] maps_translate [OF base maps]
    by (simp add: vms_write_def demand_def pte_prog_simps flip: pte_def)
qed

text \<open>
  A value that does not end in its page: its last bytes are written into the next page of the mapping,
  whatever that page is used for and whichever process it belongs to.
\<close>

lemma write_crosses_page:
  assumes base: "good_base (base_pointer s)" and root: "root_page_table s = at s r 0"
    and maps: "maps s r va t1 t0 p" and "writable (pte s t0 (vpn va 0))"
    and cross: "i < 4" "PAGE_SIZE \<le> offset va + i" and next_page: "Suc p < MAX_PAGES"
  shows "\<exists>s'. vms_write va v s = Inr ((), s') \<and>
    byte s' (Suc p) (offset va + i - PAGE_SIZE) = bytes_of_word 4 v ! i"
proof -
  have p: "p < MAX_PAGES" "t0 < MAX_PAGES" using maps by (simp_all add: maps_def)
  have off: "offset va < PAGE_SIZE" by simp
  have "p * PAGE_SIZE + offset va + 4 \<le> Suc (Suc p) * PAGE_SIZE" using off by simp
  also have "\<dots> \<le> MAX_PAGES * PAGE_SIZE" using next_page by (intro mult_le_mono1) simp
  finally have "mapped s (at s p (offset va)) 4"
    using base unat_at_diff [OF p(1) off, of s] by (simp add: mapped_def good_base_def)
  moreover have "mapped s (at s t0 (8 * vpn va 0)) 8" using base p(2) by (auto intro: mapped_pte)
  ultimately have run: "vms_write va v s = Inr ((), wr32 (at s p (offset va)) v s)"
    using assms(4) maps_mmu [OF base root maps] maps_translate [OF base maps]
    by (simp add: vms_write_def demand_def pte_prog_simps flip: pte_def)
  have idx: "Suc p * PAGE_SIZE + (offset va + i - PAGE_SIZE) = p * PAGE_SIZE + (offset va + i)"
    using cross(2) by simp
  have place: "at s (Suc p) (offset va + i - PAGE_SIZE) = at s p (offset va) + of_nat i"
    unfolding at_add unfolding at_def idx by (rule refl)
  have "byte (wr32 a v s) q o' = store_bytes (memory s) a (bytes_of_word 4 v) (at s q o')" for a q o'
    by (simp add: byte_def wr32_def at_def)
  then have "byte (wr32 (at s p (offset va)) v s) (Suc p) (offset va + i - PAGE_SIZE) = bytes_of_word 4 v ! i"
    using store_bytes_in [of i "bytes_of_word 4 v" "memory s" "at s p (offset va)"] cross(1) by (simp only: place) simp
  then show ?thesis using run by blast
qed

lemma maps_cong:
  assumes "base_pointer s' = base_pointer s"
    and "same_page s s' r" "same_page s s' t1" "same_page s s' t0"
  shows "maps s' r va t1 t0 p \<longleftrightarrow> maps s r va t1 t0 p"
  by (simp add: maps_def at_base [OF assms(1)] same_page_pte [OF assms(2)]
      same_page_pte [OF assms(3)] same_page_pte [OF assms(4)])

lemma maps_wr32:
  assumes "maps s r va t1 t0 p" "q < MAX_PAGES" "q \<notin> {r, t1, t0}" "off + 4 \<le> PAGE_SIZE"
  shows "maps (wr32 (at s q off) v s) r va t1 t0 p"
  using assms by (subst maps_cong [where s = s]) (auto intro!: same_page_wr32 simp: maps_def)

text \<open>
  What \<open>vms_write\<close> stores at a mapped address is what \<open>vms_read\<close> returns there.
\<close>

theorem write_read_same:
  assumes base: "good_base (base_pointer s)" and root: "root_page_table s = at s r 0"
    and maps: "maps s r va t1 t0 p" and apart: "p \<notin> {r, t1, t0}"
    and flags: "readable (pte s t0 (vpn va 0))" "writable (pte s t0 (vpn va 0))"
    and off: "offset va + 4 \<le> PAGE_SIZE"
  shows "\<exists>s'. vms_write va v s = Inr ((), s') \<and> vms_read va s' = Inr (v, s')"
proof -
  let ?s = "wr32 (at s p (offset va)) v s"
  have p: "p < MAX_PAGES" using maps by (simp add: maps_def)
  have maps': "maps ?s r va t1 t0 p" using maps p apart off by (rule maps_wr32)
  have "same_page s ?s t0"
    using maps apart off by (intro same_page_wr32) (auto simp: maps_def)
  then have "readable (pte ?s t0 (vpn va 0))" using flags by (simp add: same_page_pte)
  then have "vms_read va ?s = Inr (rd32 ?s (at ?s p (offset va)), ?s)"
    using base root off by (intro vms_read_maps [OF _ _ maps']) simp_all
  then show ?thesis
    using vms_write_maps [OF base root maps flags(2) off] by simp
qed

end
