(* ===== verification/Vms_Copy.thy ===== *)
theory Vms_Copy
  imports Vms_Space
begin

text \<open>
  What the two ways of copying an address space share: \<open>error_handler\<close> and \<open>entry_copy\<close> of
  \<open>vms/src/vms.c\<close>, the loop over one table (\<open>copy_table\<close>, of which the loops of \<open>vms_fork_copy\<close>
  and of \<open>vms_fork_copy_on_write\<close> are instances), and the contract \<open>copier\<close> of a function that
  copies the page below an entry.  One proof (\<open>copier_copy_table\<close>) lifts the contract from a
  level to the next.
\<close>

section \<open>The functions of vms.c\<close>

definition error_handler :: "int \<Rightarrow> unit vm" where
  "error_handler num = (if num \<le> 0 then bnd (gets errno) (\<lambda>e. stop (Exit e)) else skip)"

definition entry_copy :: "addr \<Rightarrow> addr \<Rightarrow> addr \<Rightarrow> unit vm" where
  "entry_copy src dst pointer =
     seq (bnd (vms_page_to_ppn pointer) (vms_pte_set_ppn dst))
    (seq (bnd (vms_pte_custom src) (\<lambda>b.
            if b then vms_pte_custom_set dst else vms_pte_custom_clear dst))
    (seq (bnd (vms_pte_write src) (\<lambda>b.
            if b then vms_pte_write_set dst else vms_pte_write_clear dst))
    (seq (bnd (vms_pte_read src) (\<lambda>b.
            if b then vms_pte_read_set dst else vms_pte_read_clear dst))
         (bnd (vms_pte_valid src) (\<lambda>b.
            if b then vms_pte_valid_set dst else vms_pte_valid_clear dst)))))"

section \<open>Copying one entry\<close>

definition copy_flag :: "u64 \<Rightarrow> u64 \<Rightarrow> u64 \<Rightarrow> u64" where
  "copy_flag f src dst = (if test_flag f src then set_flag f dst else clear_flag f dst)"

definition copied_entry :: "u64 \<Rightarrow> u64 \<Rightarrow> u64 \<Rightarrow> u64" where
  "copied_entry src dst ppn =
     copy_flag PTE_VALID src (copy_flag PTE_READ src (copy_flag PTE_WRITE src
       (copy_flag PTE_CUSTOM src (set_ppn dst ppn))))"

definition same_flags :: "u64 \<Rightarrow> u64 \<Rightarrow> bool" where
  "same_flags e e' \<longleftrightarrow> (valid e' \<longleftrightarrow> valid e) \<and> (readable e' \<longleftrightarrow> readable e) \<and>
     (writable e' \<longleftrightarrow> writable e) \<and> (custom e' \<longleftrightarrow> custom e)"

lemma same_flags_copied_entry: "same_flags src (copied_entry src dst ppn)"
  by (simp add: same_flags_def copied_entry_def copy_flag_def)

lemma ppn_copied_entry: "get_ppn (copied_entry src dst ppn) = get_ppn (set_ppn dst ppn)"
  by (simp add: copied_entry_def copy_flag_def)

lemma same_flags_faults: "same_flags e e' \<Longrightarrow> faults level e' = faults level e"
  by (simp add: same_flags_def faults_def)

lemma entry_copy_apply:
  assumes "mapped s src 8" "mapped s dst 8" "apart dst 8 src 8"
    and "vms_page_to_ppn pointer s = Inr (ppn, s)"
  shows "entry_copy src dst pointer s =
    Inr ((), wr64 dst (copied_entry (rd64 s src) (rd64 s dst) ppn) s)"
  using assms
  by (simp add: entry_copy_def copied_entry_def copy_flag_def pte_prog_simps rd64_wr64_apart)

section \<open>One table\<close>

definition copy_table :: "(addr \<Rightarrow> addr \<Rightarrow> unit vm) \<Rightarrow> addr \<Rightarrow> addr \<Rightarrow> unit vm" where
  "copy_table below src dst =
     for_each (\<lambda>i.
       let src_entry = vms_page_table_pte_entry_from_index src (int i);
           dst_entry = vms_page_table_pte_entry_from_index dst (int i)
       in bnd (vms_pte_valid src_entry) (\<lambda>v.
          if \<not> v then skip
          else bnd vms_new_page (\<lambda>page.
               seq (entry_copy src_entry dst_entry page)
              (bnd (vms_pte_get_ppn src_entry) (\<lambda>ppn.
               below (vms_ppn_to_page ppn) page)))))
       [0..<NUM_PTE_ENTRIES]"

text \<open>The page that an entry refers to, and what is right about it in a page table.\<close>

definition kid :: "vms \<Rightarrow> nat \<Rightarrow> nat \<Rightarrow> nat" where
  "kid s t i = nat (vms_get_page_index s (entry_page (pte s t i)))"

definition linked :: "vms \<Rightarrow> nat \<Rightarrow> nat \<Rightarrow> bool" where
  "linked s t i \<longleftrightarrow> kid s t i \<in> alloc s \<and> entry_page (pte s t i) = at s (kid s t i) 0"

lemma kidI: "entry_page (pte s t i) = at s c 0 \<Longrightarrow> c < MAX_PAGES \<Longrightarrow> kid s t i = c"
  using page_index_at [of c 0 s] by (simp add: kid_def)

definition data_wf :: "vms \<Rightarrow> nat \<Rightarrow> bool" where
  "data_wf s p \<longleftrightarrow> p \<in> alloc s"

definition table_wf :: "nat set \<Rightarrow> (vms \<Rightarrow> nat \<Rightarrow> bool) \<Rightarrow> vms \<Rightarrow> nat \<Rightarrow> bool" where
  "table_wf L W s t \<longleftrightarrow> t \<in> alloc s \<and> t \<notin> L \<and>
     (\<forall>i < NUM_PTE_ENTRIES. valid (pte s t i) \<longrightarrow> linked s t i \<and> W s (kid s t i))"

text \<open>
  \<open>l0_wf\<close>, \<open>l1_wf\<close> and \<open>tree_wf\<close>: every valid entry refers to an allocated page.  The set \<open>L\<close>
  of pages that are not tables of the level is empty here; for a copy on write it is the set of
  the innermost tables, which that function changes.
\<close>

abbreviation l0_wf :: "vms \<Rightarrow> nat \<Rightarrow> bool" where "l0_wf \<equiv> table_wf {} data_wf"
abbreviation l1_wf :: "vms \<Rightarrow> nat \<Rightarrow> bool" where "l1_wf \<equiv> table_wf {} l0_wf"
abbreviation tree_wf :: "vms \<Rightarrow> nat \<Rightarrow> bool" where "tree_wf \<equiv> table_wf {} l1_wf"

text \<open>The number of pages below a table.\<close>

definition weight :: "(vms \<Rightarrow> nat \<Rightarrow> nat) \<Rightarrow> vms \<Rightarrow> nat \<Rightarrow> nat \<Rightarrow> nat" where
  "weight N s t i = (if valid (pte s t i) then Suc (N s (kid s t i)) else 0)"

definition table_size :: "(vms \<Rightarrow> nat \<Rightarrow> nat) \<Rightarrow> vms \<Rightarrow> nat \<Rightarrow> nat" where
  "table_size N s t = (\<Sum>i < NUM_PTE_ENTRIES. weight N s t i)"

abbreviation data_size :: "vms \<Rightarrow> nat \<Rightarrow> nat" where "data_size \<equiv> \<lambda>s p. 0"
abbreviation l0_size :: "vms \<Rightarrow> nat \<Rightarrow> nat" where "l0_size \<equiv> table_size data_size"
abbreviation l1_size :: "vms \<Rightarrow> nat \<Rightarrow> nat" where "l1_size \<equiv> table_size l0_size"
abbreviation tree_size :: "vms \<Rightarrow> nat \<Rightarrow> nat" where "tree_size \<equiv> table_size l1_size"

text \<open>
  \<open>p'\<close> of \<open>s'\<close> is a copy of \<open>p\<close> of \<open>s\<close> made of pages outside \<open>A\<close>: the same bytes for a page
  of data; for a table, the same flags at every valid entry, copies below, and zero elsewhere.
\<close>

definition data_copy :: "nat set \<Rightarrow> vms \<Rightarrow> nat \<Rightarrow> vms \<Rightarrow> nat \<Rightarrow> bool" where
  "data_copy A s p s' p' \<longleftrightarrow>
     p' \<in> alloc s' \<and> p' \<notin> A \<and> (\<forall>off < PAGE_SIZE. byte s' p' off = byte s p off)"

definition entry_copied ::
  "(nat set \<Rightarrow> vms \<Rightarrow> nat \<Rightarrow> vms \<Rightarrow> nat \<Rightarrow> bool) \<Rightarrow> nat set \<Rightarrow> vms \<Rightarrow> nat \<Rightarrow> vms \<Rightarrow> nat \<Rightarrow> nat \<Rightarrow> bool" where
  "entry_copied C A s t s' t' i \<longleftrightarrow>
     (if valid (pte s t i)
      then same_flags (pte s t i) (pte s' t' i) \<and> linked s' t' i \<and>
           C (insert t' A) s (kid s t i) s' (kid s' t' i)
      else pte s' t' i = 0)"

text \<open>
  The pages of a table and of what is below it, and that what is below two of its entries does
  not meet.
\<close>

definition self_page :: "vms \<Rightarrow> nat \<Rightarrow> nat set" where
  "self_page s p = {p}"

definition valid_entries :: "vms \<Rightarrow> nat \<Rightarrow> nat set" where
  "valid_entries s t = {i. i < NUM_PTE_ENTRIES \<and> valid (pte s t i)}"

definition table_pages :: "(vms \<Rightarrow> nat \<Rightarrow> nat set) \<Rightarrow> vms \<Rightarrow> nat \<Rightarrow> nat set" where
  "table_pages F s t = insert t (\<Union>i \<in> valid_entries s t. F s (kid s t i))"

definition kids_apart :: "(vms \<Rightarrow> nat \<Rightarrow> nat set) \<Rightarrow> vms \<Rightarrow> nat \<Rightarrow> nat set \<Rightarrow> bool" where
  "kids_apart F s t I \<longleftrightarrow> (\<forall>i \<in> I. \<forall>j \<in> I. i \<noteq> j \<longrightarrow> F s (kid s t i) \<inter> F s (kid s t j) = {})"

definition table_copy ::
  "(nat set \<Rightarrow> vms \<Rightarrow> nat \<Rightarrow> vms \<Rightarrow> nat \<Rightarrow> bool) \<Rightarrow> (vms \<Rightarrow> nat \<Rightarrow> nat set) \<Rightarrow>
     nat set \<Rightarrow> vms \<Rightarrow> nat \<Rightarrow> vms \<Rightarrow> nat \<Rightarrow> bool" where
  "table_copy C F A s t s' t' \<longleftrightarrow> t' \<in> alloc s' \<and> t' \<notin> A \<and>
     (\<forall>i < NUM_PTE_ENTRIES. entry_copied C A s t s' t' i) \<and> kids_apart F s' t' (valid_entries s t)"

abbreviation l0_pages :: "vms \<Rightarrow> nat \<Rightarrow> nat set" where
  "l0_pages \<equiv> table_pages self_page"
abbreviation l1_pages :: "vms \<Rightarrow> nat \<Rightarrow> nat set" where
  "l1_pages \<equiv> table_pages l0_pages"
abbreviation l0_copy :: "nat set \<Rightarrow> vms \<Rightarrow> nat \<Rightarrow> vms \<Rightarrow> nat \<Rightarrow> bool" where
  "l0_copy \<equiv> table_copy data_copy self_page"
abbreviation l1_copy :: "nat set \<Rightarrow> vms \<Rightarrow> nat \<Rightarrow> vms \<Rightarrow> nat \<Rightarrow> bool" where
  "l1_copy \<equiv> table_copy l0_copy l0_pages"
abbreviation tree_copy :: "nat set \<Rightarrow> vms \<Rightarrow> nat \<Rightarrow> vms \<Rightarrow> nat \<Rightarrow> bool" where
  "tree_copy \<equiv> table_copy l1_copy l1_pages"

section \<open>States that only grow\<close>

text \<open>From \<open>s\<close> to \<open>s'\<close> no allocated page outside \<open>D\<close> was written or freed.\<close>

definition grows :: "nat set \<Rightarrow> vms \<Rightarrow> vms \<Rightarrow> bool" where
  "grows D s s' \<longleftrightarrow> pages_inv s' \<and> base_pointer s' = base_pointer s \<and>
     root_page_table s' = root_page_table s \<and> errno s' = errno s \<and>
     alloc s \<subseteq> alloc s' \<and> (\<forall>q \<in> alloc s - D. same_page s s' q)"

lemma grows_refl: "pages_inv s \<Longrightarrow> grows D s s"
  by (simp add: grows_def)

lemma grows_trans:
  assumes "grows D s s'" and "grows D' s' s''" and "D' \<inter> alloc s \<subseteq> D"
  shows "grows D s s''"
proof -
  have "same_page s s'' q" if "q \<in> alloc s - D" for q
  proof (rule same_page_trans)
    show "same_page s s' q" using assms(1) that by (simp add: grows_def)
    show "same_page s' s'' q" using assms that by (auto simp: grows_def)
  qed
  then show ?thesis using assms by (auto simp: grows_def)
qed

lemma grows_weaken: "grows D s s' \<Longrightarrow> D \<subseteq> D' \<Longrightarrow> grows D' s s'"
  by (auto simp: grows_def)

lemma grows_at: "grows D s s' \<Longrightarrow> at s' = at s"
  by (rule at_base) (simp add: grows_def)

lemma grows_pte:
  "grows D s s' \<Longrightarrow> q \<in> alloc s \<Longrightarrow> q \<notin> D \<Longrightarrow> i < NUM_PTE_ENTRIES \<Longrightarrow> pte s' q i = pte s q i"
  by (rule same_page_pte) (auto simp: grows_def)

lemma grows_new_page:
  "alloc s' = insert d (alloc s) \<Longrightarrow> pages_inv s' \<Longrightarrow> only_allocates s s' \<Longrightarrow> grows D s s'"
  using only_allocates_view [of s s'] only_allocates_fields [of s s']
  by (auto simp: grows_def same_page_def)

lemma pages_inv_update:
  assumes "pages_inv s" "base_pointer s' = base_pointer s" "allocated s' = allocated s"
    "used_pages s' = used_pages s" "length (ref_num s') = length (ref_num s)"
    and "\<And>q. q < MAX_PAGES \<Longrightarrow> q \<notin> alloc s \<Longrightarrow> same_page s s' q"
  shows "pages_inv s'"
proof -
  have "alloc s' = alloc s" using assms(3) by (simp add: alloc_def)
  then show ?thesis using assms by (simp add: pages_inv_def same_page_def)
qed

lemma grows_wr64:
  assumes "pages_inv s" "d \<in> alloc s" "i < NUM_PTE_ENTRIES"
  shows "grows {d} s (wr64 (at s d (8 * i)) v s)"
proof -
  let ?s = "wr64 (at s d (8 * i)) v s"
  have "same_page s ?s q" if "q < MAX_PAGES" "q \<noteq> d" for q
    using that assms by (intro same_page_wr64) (auto dest: alloc_less)
  moreover from this have "pages_inv ?s"
    using assms by (intro pages_inv_update [OF assms(1)]) auto
  ultimately show ?thesis by (simp add: grows_def alloc_def)
qed

lemma grows_copy_page:
  assumes "pages_inv s" "d \<in> alloc s"
  shows "grows {d} s (copy_page d p s)"
proof -
  have "same_page s (copy_page d p s) q" if "q < MAX_PAGES" "q \<noteq> d" for q
    using that assms by (intro same_page_copy_page) (auto dest: alloc_less)
  moreover from this have "pages_inv (copy_page d p s)"
    using assms by (intro pages_inv_update [OF assms(1)]) auto
  ultimately show ?thesis by (simp add: grows_def alloc_def)
qed

text \<open>
  A step of a copy: like \<open>grows\<close>, but it may change the pages in \<open>L\<close> too, in the way \<open>J\<close> allows.
\<close>

definition step :: "nat set \<Rightarrow> (vms \<Rightarrow> vms \<Rightarrow> bool) \<Rightarrow> nat set \<Rightarrow> vms \<Rightarrow> vms \<Rightarrow> bool" where
  "step L J D s s' \<longleftrightarrow> grows (D \<union> L) s s' \<and> J s s'"

lemma step_grows: "step L J D s s' \<Longrightarrow> grows (D \<union> L) s s'"
  by (simp add: step_def)

lemmas step_at = grows_at [OF step_grows]

lemma step_pte:
  "step L J D s s' \<Longrightarrow> q \<in> alloc s \<Longrightarrow> q \<notin> D \<Longrightarrow> q \<notin> L \<Longrightarrow> i < NUM_PTE_ENTRIES \<Longrightarrow>
     pte s' q i = pte s q i"
  by (rule grows_pte [of "D \<union> L"]) (auto simp: step_def)

lemma step_alloc: "step L J D s s' \<Longrightarrow> q \<in> alloc s \<Longrightarrow> q \<in> alloc s'"
  by (auto simp: step_def grows_def)

lemma step_inv: "step L J D s s' \<Longrightarrow> pages_inv s'"
  by (simp add: step_def grows_def)

section \<open>One level copies if the level below does\<close>

definition copy_inv ::
  "nat set \<Rightarrow> (vms \<Rightarrow> vms \<Rightarrow> bool) \<Rightarrow>
     (nat set \<Rightarrow> vms \<Rightarrow> nat \<Rightarrow> vms \<Rightarrow> nat \<Rightarrow> bool) \<Rightarrow> (vms \<Rightarrow> nat \<Rightarrow> nat set) \<Rightarrow>
     (vms \<Rightarrow> nat \<Rightarrow> nat) \<Rightarrow> nat set \<Rightarrow>
     vms \<Rightarrow> nat \<Rightarrow> vms \<Rightarrow> nat \<Rightarrow> nat \<Rightarrow> vms \<Rightarrow> bool" where
  "copy_inv L J C F N A s0 p s d n s' \<longleftrightarrow> step L J {d} s s' \<and>
     (\<forall>i < n. entry_copied C A s0 p s' d i) \<and> kids_apart F s' d (valid_entries s0 p \<inter> {..<n}) \<and>
     (\<forall>i. n \<le> i \<and> i < NUM_PTE_ENTRIES \<longrightarrow> pte s' d i = 0) \<and>
     card (alloc s') = card (alloc s) + (\<Sum>i < n. weight N s0 p i)"

text \<open>
  Before copying from \<open>p\<close>, part of the tree of the state \<open>s0\<close>, into the fresh zero page \<open>d\<close>.
\<close>

definition copy_pre ::
  "nat set \<Rightarrow> (vms \<Rightarrow> vms \<Rightarrow> bool) \<Rightarrow> (vms \<Rightarrow> nat \<Rightarrow> bool) \<Rightarrow> nat set \<Rightarrow> vms \<Rightarrow> nat \<Rightarrow> vms \<Rightarrow> nat \<Rightarrow> bool" where
  "copy_pre L J W A s0 p s d \<longleftrightarrow> pages_inv s \<and> step L J {} s0 s \<and> W s0 p \<and> p \<in> alloc s0 \<and>
     L \<subseteq> alloc s0 \<and> L \<subseteq> A \<and> d \<in> alloc s \<and> d \<notin> alloc s0 \<and> A \<subseteq> alloc s \<and> d \<notin> A \<and>
     (\<forall>off < PAGE_SIZE. byte s d off = 0)"

definition copy_post ::
  "nat set \<Rightarrow> (vms \<Rightarrow> vms \<Rightarrow> bool) \<Rightarrow>
     (nat set \<Rightarrow> vms \<Rightarrow> nat \<Rightarrow> vms \<Rightarrow> nat \<Rightarrow> bool) \<Rightarrow> (vms \<Rightarrow> nat \<Rightarrow> nat) \<Rightarrow> nat set \<Rightarrow>
     vms \<Rightarrow> nat \<Rightarrow> vms \<Rightarrow> nat \<Rightarrow> vms \<Rightarrow> bool" where
  "copy_post L J C N A s0 p s d s' \<longleftrightarrow>
     step L J {d} s s' \<and> C A s0 p s' d \<and> card (alloc s') = card (alloc s) + N s0 p"

definition copy_fails :: "(vms \<Rightarrow> nat \<Rightarrow> nat) \<Rightarrow> vms \<Rightarrow> nat \<Rightarrow> vms \<Rightarrow> stop \<Rightarrow> bool" where
  "copy_fails N s0 p s e \<longleftrightarrow> e = Exit ENOMEM \<and> MAX_PAGES < card (alloc s) + N s0 p"

lemma table_copy_valid: "table_copy C F A s t s' t' \<Longrightarrow> valid_entries s' t' = valid_entries s t"
  by (auto simp: table_copy_def entry_copied_def valid_entries_def same_flags_def split: if_splits)

text \<open>The body of the loop in \<^const>\<open>copy_table\<close>.\<close>

abbreviation copy_body :: "(addr \<Rightarrow> addr \<Rightarrow> unit vm) \<Rightarrow> addr \<Rightarrow> addr \<Rightarrow> nat \<Rightarrow> unit vm" where
  "copy_body f src dst n \<equiv>
    (let src_entry = vms_page_table_pte_entry_from_index src (int n);
         dst_entry = vms_page_table_pte_entry_from_index dst (int n)
     in bnd (vms_pte_valid src_entry) (\<lambda>v.
        if \<not> v then skip
        else bnd vms_new_page (\<lambda>page.
             seq (entry_copy src_entry dst_entry page)
            (bnd (vms_pte_get_ppn src_entry) (\<lambda>ppn.
             f (vms_ppn_to_page ppn) page)))))"

locale copier =
  fixes L :: "nat set"
    and J :: "vms \<Rightarrow> vms \<Rightarrow> bool"
    and below :: "addr \<Rightarrow> addr \<Rightarrow> unit vm"
    and W :: "vms \<Rightarrow> nat \<Rightarrow> bool"
    and C :: "nat set \<Rightarrow> vms \<Rightarrow> nat \<Rightarrow> vms \<Rightarrow> nat \<Rightarrow> bool"
    and F :: "vms \<Rightarrow> nat \<Rightarrow> nat set"
    and N :: "vms \<Rightarrow> nat \<Rightarrow> nat"
  assumes copies: "copy_pre L J W A s0 p s d \<Longrightarrow>
      triple (\<lambda>t. t = s) (below (at s p 0) (at s d 0)) (\<lambda>_. copy_post L J C N A s0 p s d)
        (copy_fails N s0 p s)"
    and J_grows: "grows D s s' \<Longrightarrow> ref_num s' = ref_num s \<Longrightarrow> D \<inter> L = {} \<Longrightarrow> L \<subseteq> alloc s \<Longrightarrow> J s s'"
    and J_trans: "J s s' \<Longrightarrow> J s' s'' \<Longrightarrow> J s s''"
    and C_stable: "C A s p s' p' \<Longrightarrow> step L J D s' s'' \<Longrightarrow> D \<subseteq> A \<Longrightarrow> L \<subseteq> A \<Longrightarrow> C A s p s'' p'"
    and C_mono: "C A s p s' p' \<Longrightarrow> B \<subseteq> A \<Longrightarrow> C B s p s' p'"
    and C_pages: "C A s p s' p' \<Longrightarrow> F s' p' \<subseteq> alloc s' - A"
    and F_stable: "C A s p s' p' \<Longrightarrow> step L J D s' s'' \<Longrightarrow> D \<subseteq> A \<Longrightarrow> L \<subseteq> A \<Longrightarrow> F s'' p' = F s' p'"
    and W_alloc: "W s p \<Longrightarrow> p \<in> alloc s"
begin

lemma step_trans:
  assumes "step L J D s s'" and "step L J D' s' s''" and "D' \<inter> alloc s \<subseteq> D"
  shows "step L J D s s''"
  using assms grows_trans [of "D \<union> L" s s' "D' \<union> L" s''] J_trans [of s s' s'']
  by (auto simp: step_def)

lemma step_of_grows:
  "grows D s s' \<Longrightarrow> ref_num s' = ref_num s \<Longrightarrow> D \<inter> L = {} \<Longrightarrow> L \<subseteq> alloc s \<Longrightarrow> step L J D s s'"
  by (auto simp: step_def intro: J_grows grows_weaken)

lemma entry_copied_stable:
  assumes "entry_copied C A s t s' t' i" and "step L J D s' s''" and "D \<subseteq> insert t' A" and "L \<subseteq> A"
    and "pte s'' t' i = pte s' t' i"
  shows "entry_copied C A s t s'' t' i"
proof -
  have g: "grows (D \<union> L) s' s''" using assms(2) by (rule step_grows)
  have kid: "kid s'' t' i = kid s' t' i"
    using g assms(5) by (simp add: kid_def vms_get_page_index_def grows_def)
  have "linked s' t' i \<Longrightarrow> linked s'' t' i"
    using g assms(5) grows_at [OF g] by (auto simp: linked_def kid grows_def)
  then show ?thesis
    using assms(1,4,5) C_stable [OF _ assms(2,3)] subset_insertI2 [OF assms(4)]
    by (auto simp: entry_copied_def kid)
qed

lemma kids_apart_stable:
  assumes copied: "\<And>i. i \<in> I \<Longrightarrow> entry_copied C A s t s' t' i \<and> valid (pte s t i)"
    and step: "step L J D s' s''" "D \<subseteq> insert t' A" "L \<subseteq> A"
    and pte: "\<And>i. i \<in> I \<Longrightarrow> pte s'' t' i = pte s' t' i"
  shows "i \<in> I \<Longrightarrow> F s'' (kid s'' t' i) = F s' (kid s' t' i) \<and> F s' (kid s' t' i) \<subseteq> alloc s'"
    and "kids_apart F s' t' I \<Longrightarrow> kids_apart F s'' t' I"
proof -
  have same: "F s'' (kid s'' t' i) = F s' (kid s' t' i) \<and> F s' (kid s' t' i) \<subseteq> alloc s'" if "i \<in> I" for i
  proof -
    have "kid s'' t' i = kid s' t' i"
      using pte [OF that] step_grows [OF step(1)] by (simp add: kid_def vms_get_page_index_def grows_def)
    moreover have C: "C (insert t' A) s (kid s t i) s' (kid s' t' i)"
      using copied [OF that] by (simp add: entry_copied_def)
    ultimately show ?thesis
      using F_stable [OF C step(1,2) subset_insertI2 [OF step(3)]] C_pages [OF C] by auto
  qed
  then show "i \<in> I \<Longrightarrow> F s'' (kid s'' t' i) = F s' (kid s' t' i) \<and> F s' (kid s' t' i) \<subseteq> alloc s'"
    and "kids_apart F s' t' I \<Longrightarrow> kids_apart F s'' t' I" by (auto simp: kids_apart_def)
qed

lemma kids_apart_insert: "kids_apart F s t (insert n I) \<longleftrightarrow>
  kids_apart F s t I \<and> (\<forall>i \<in> I - {n}. F s (kid s t i) \<inter> F s (kid s t n) = {})"
  unfolding kids_apart_def by blast

text \<open>What holds in every round of the loop.\<close>

lemma copy_round:
  assumes pre: "copy_pre L J (table_wf L W) A s0 p s d" and inv: "copy_inv L J C F N A s0 p s d n sn"
  shows "step L J {} s0 sn" "pages_inv sn" "alloc s0 \<subseteq> alloc sn" "d \<in> alloc sn" "d \<notin> alloc s0" "insert d A \<subseteq> alloc sn"
    "d \<notin> L" "L \<subseteq> alloc sn" "L \<subseteq> A" "L \<subseteq> alloc s0" "table_wf L W s0 p"
proof -
  have pre': "step L J {} s0 s" "d \<in> alloc s" "d \<notin> alloc s0" "A \<subseteq> alloc s" "L \<subseteq> alloc s0" "L \<subseteq> A" "table_wf L W s0 p"
    using pre by (simp_all add: copy_pre_def)
  have step: "step L J {d} s sn" using inv by (simp add: copy_inv_def)
  show g: "step L J {} s0 sn" using pre'(1,3) step by (auto intro: step_trans)
  show "pages_inv sn" using step by (rule step_inv)
  show "alloc s0 \<subseteq> alloc sn" "d \<in> alloc sn" "insert d A \<subseteq> alloc sn"
    using pre' step_alloc [OF g] step_alloc [OF step] by auto
  then show "L \<subseteq> alloc sn" "d \<notin> L" using pre' by auto
  show "d \<notin> alloc s0" "L \<subseteq> A" "L \<subseteq> alloc s0" "table_wf L W s0 p" by (fact pre')+
qed

text \<open>A new page \<open>d'\<close> and the copied entry \<open>n\<close> that refers to it.\<close>

lemma entry_step:
  assumes dn: "d \<in> alloc sn" "d \<notin> L" "L \<subseteq> alloc sn" "pages_inv sn" and n: "n < NUM_PTE_ENTRIES"
    and new: "vms_new_page sn = Inr (at sn d' 0, s1)" "d' < MAX_PAGES" "d' \<notin> alloc sn"
      "alloc s1 = insert d' (alloc sn)" "pages_inv s1" "only_allocates sn s1"
    and s2: "s2 = wr64 (at sn d (8 * n)) e s1"
  shows "step L J {d} sn s2" "alloc s2 = insert d' (alloc sn)" "off < PAGE_SIZE \<Longrightarrow> byte s2 d' off = 0"
    and "i < NUM_PTE_ENTRIES \<Longrightarrow> pte s2 d i = (if i = n then e else pte sn d i)"
proof -
  have g1: "grows {} sn s1" using new(4-6) by (rule grows_new_page)
  have at1: "at s1 = at sn" using g1 by (rule grows_at)
  have d1: "d \<in> alloc s1" "d' \<noteq> d" "d < MAX_PAGES" using dn(1) new(3,4) by (auto dest: alloc_less)
  have g2: "grows {d} s1 s2" unfolding s2 at1 [symmetric] using new(5) d1(1) n by (rule grows_wr64)
  have "alloc s2 = alloc s1" by (simp add: s2 alloc_def)
  then show "alloc s2 = insert d' (alloc sn)" using new(4) by simp
  have "grows {d} sn s2" using grows_weaken [OF g1, of "{d}"] g2 by (auto intro: grows_trans)
  moreover have "ref_num s2 = ref_num sn" by (simp add: s2 only_allocates_fields [OF new(6)])
  ultimately show "step L J {d} sn s2" using dn(2,3) by (intro step_of_grows) auto
  show "byte s2 d' off = 0" if "off < PAGE_SIZE"
  proof -
    have "byte s1 d' off = 0"
      using pages.fresh_zero [of sn d' off] new(2,3) dn(4) that only_allocates_view(2) [OF new(6)] by simp
    then show ?thesis unfolding s2 at1 [symmetric] using byte_wr64 [of d' d off n s1] new(2) that n d1 by simp
  qed
  show "pte s2 d i = (if i = n then e else pte sn d i)" if "i < NUM_PTE_ENTRIES"
    unfolding s2 at1 [symmetric]
    using pte_wr64_other [of d d i n s1] grows_pte [OF g1 dn(1)] that d1(3) n by simp
qed

lemma copy_entry_pre:
  assumes pre: "copy_pre L J (table_wf L W) A s0 p s d" and inv: "copy_inv L J C F N A s0 p s d n sn"
    and n: "n < NUM_PTE_ENTRIES" and v: "valid (pte s0 p n)"
    and new: "vms_new_page sn = Inr (at sn d' 0, s1)" "d' < MAX_PAGES" "d' \<notin> alloc sn"
      "alloc s1 = insert d' (alloc sn)" "pages_inv s1" "only_allocates sn s1"
    and s2: "s2 = wr64 (at sn d (8 * n)) e s1"
  shows "copy_pre L J W (alloc sn) s0 (kid s0 p n) s2 d'"
proof -
  note r = copy_round [OF pre inv]
  note e = entry_step [OF r(4,7,8,2) n new s2]
  have "step L J {} s0 s2" using r(1) e(1) r(5) by (auto intro: step_trans)
  moreover have "linked s0 p n" "W s0 (kid s0 p n)" using r(11) n v by (simp_all add: table_wf_def)
  ultimately show ?thesis
    using new(3) r e(2,3) step_inv [OF e(1)] by (auto simp: copy_pre_def linked_def)
qed

text \<open>When the copy of the page below is made, the new entry is right, and the others are as they were.\<close>

lemma copy_entry_ready:
  assumes e: "alloc s2 = insert d' (alloc sn)" "d' \<notin> alloc sn" "d' < MAX_PAGES"
      "\<And>i. i < NUM_PTE_ENTRIES \<Longrightarrow> pte s2 d i = (if i = n then copied_entry (pte s0 p n) 0 (drop_bit 12 (at sn d' 0)) else pte sn d i)"
    and step: "step L J {d} sn s2" "step L J {d'} s2 s3"
    and d: "d \<in> alloc sn" "d \<notin> L" and n: "n < NUM_PTE_ENTRIES" and base: "good_base (base_pointer sn)"
  shows "step L J {d} sn s3" "linked s3 d n" "kid s3 d n = d'" "same_flags (pte s0 p n) (pte s3 d n)"
    and "i < NUM_PTE_ENTRIES \<Longrightarrow> i \<noteq> n \<Longrightarrow> pte s3 d i = pte sn d i"
proof -
  show g: "step L J {d} sn s3" using step e(2) by (auto intro: step_trans)
  have keep: "pte s3 d i = pte s2 d i" if "i < NUM_PTE_ENTRIES" for i
    using d e(1,2) that by (intro step_pte [OF step(2)]) auto
  show "i < NUM_PTE_ENTRIES \<Longrightarrow> i \<noteq> n \<Longrightarrow> pte s3 d i = pte sn d i" using keep e(4) by simp
  have new: "pte s3 d n = copied_entry (pte s0 p n) 0 (drop_bit 12 (at sn d' 0))"
    using keep [OF n] e(4) [OF n] by simp
  then show "same_flags (pte s0 p n) (pte s3 d n)" by (simp add: same_flags_copied_entry)
  have page: "entry_page (pte s3 d n) = at s3 d' 0"
    unfolding new step_at [OF g] using entry_page_set_ppn [OF base e(3)] by (simp add: ppn_copied_entry)
  then show kid: "kid s3 d n = d'" using e(3) by (rule kidI)
  have "d' \<in> alloc s3" using step_alloc [OF step(2)] e(1) by simp
  then show "linked s3 d n" using page kid by (simp add: linked_def)
qed

lemma copy_entry_post:
  assumes pre: "copy_pre L J (table_wf L W) A s0 p s d" and inv: "copy_inv L J C F N A s0 p s d n sn"
    and n: "n < NUM_PTE_ENTRIES" and v: "valid (pte s0 p n)"
    and e: "alloc s2 = insert d' (alloc sn)" "d' \<notin> alloc sn"
    and ready: "step L J {d} sn s3" "linked s3 d n" "kid s3 d n = d'" "same_flags (pte s0 p n) (pte s3 d n)"
      "\<And>i. i < NUM_PTE_ENTRIES \<Longrightarrow> i \<noteq> n \<Longrightarrow> pte s3 d i = pte sn d i"
    and post: "copy_post L J C N (alloc sn) s0 (kid s0 p n) s2 d' s3"
  shows "copy_inv L J C F N A s0 p s d (Suc n) s3"
proof -
  note r = copy_round [OF pre inv]
  have inv': "step L J {d} s sn" "\<forall>i < n. entry_copied C A s0 p sn d i"
      "\<forall>i. n \<le> i \<and> i < NUM_PTE_ENTRIES \<longrightarrow> pte sn d i = 0"
      "card (alloc sn) = card (alloc s) + (\<Sum>i < n. weight N s0 p i)"
      "kids_apart F sn d (valid_entries s0 p \<inter> {..<n})"
    using inv by (simp_all add: copy_inv_def)
  have C3: "C (alloc sn) s0 (kid s0 p n) s3 d'" and card3: "card (alloc s3) = card (alloc s2) + N s0 (kid s0 p n)"
    using post by (simp_all add: copy_post_def)
  let ?I = "valid_entries s0 p \<inter> {..<n}"
  have old: "entry_copied C A s0 p sn d i \<and> valid (pte s0 p i)" "pte s3 d i = pte sn d i" if "i \<in> ?I" for i
    using that inv'(2) ready(5) [of i] n by (auto simp: valid_entries_def)
  have LA: "L \<subseteq> A" by (fact r(9))
  note stable = kids_apart_stable [OF _ ready(1), of ?I A s0 p d]
  have "F s3 (kid s3 d i) \<inter> F s3 d' = {}" if "i \<in> ?I" for i
    using stable(1) [OF old(1) _ LA old(2) that] C_pages [OF C3] by auto
  moreover have "valid_entries s0 p \<inter> {..<Suc n} = insert n ?I" using v n by (auto simp: valid_entries_def)
  ultimately have apart: "kids_apart F s3 d (valid_entries s0 p \<inter> {..<Suc n})"
    using stable(2) [OF old(1) _ LA old(2) inv'(5)] by (simp add: kids_apart_insert ready(3))
  have "entry_copied C A s0 p s3 d n"
    using v ready(2-4) C_mono [OF C3 r(6)] by (simp add: entry_copied_def)
  moreover have "entry_copied C A s0 p s3 d i" if "i < n" for i
  proof (rule entry_copied_stable [OF _ ready(1)])
    show "entry_copied C A s0 p sn d i" using inv'(2) that by blast
    show "pte s3 d i = pte sn d i" using ready(5) [of i] that n by simp
  qed (use r(9) in simp_all)
  ultimately have copied: "\<forall>i < Suc n. entry_copied C A s0 p s3 d i" by (simp add: less_Suc_eq)
  have "step L J {d} s s3" using inv'(1) ready(1) by (auto intro: step_trans)
  moreover have "card (alloc s3) = card (alloc s) + (\<Sum>i < Suc n. weight N s0 p i)"
    using card3 e inv'(4) v by (simp add: weight_def)
  moreover have "pte s3 d i = 0" if "Suc n \<le> i" "i < NUM_PTE_ENTRIES" for i
    using ready(5) [of i] inv'(3) that by simp
  ultimately show ?thesis using apart copied by (simp add: copy_inv_def)
qed

lemma copy_valid_entry:
  assumes pre: "copy_pre L J (table_wf L W) A s0 p s d" and inv: "copy_inv L J C F N A s0 p s d n sn"
    and n: "n < NUM_PTE_ENTRIES" and v: "valid (pte s0 p n)"
    and new: "vms_new_page sn = Inr (at sn d' 0, s1)" "d' < MAX_PAGES" "d' \<notin> alloc sn"
      "alloc s1 = insert d' (alloc sn)" "pages_inv s1" "only_allocates sn s1"
    and s2: "s2 = wr64 (at sn d (8 * n)) (copied_entry (pte s0 p n) 0 (drop_bit 12 (at sn d' 0))) s1"
    and post: "copy_post L J C N (alloc sn) s0 (kid s0 p n) s2 d' s3"
  shows "copy_inv L J C F N A s0 p s d (Suc n) s3"
proof -
  note r = copy_round [OF pre inv]
  note e = entry_step [OF r(4,7,8,2) n new s2]
  have g3: "step L J {d'} s2 s3" using post by (simp add: copy_post_def)
  have base: "good_base (base_pointer sn)" using r(2) by (simp add: pages_inv_def)
  note ready = copy_entry_ready [OF e(2) new(3,2) e(4) e(1) g3 r(4,7) n base]
  show ?thesis by (rule copy_entry_post [OF pre inv n v e(2) new(3) ready post])
qed

text \<open>The loop body at the addresses it is used with.\<close>

lemma sum_weight_le: "n < NUM_PTE_ENTRIES \<Longrightarrow> (\<Sum>i < Suc n. weight N s0 p i) \<le> table_size N s0 p"
  unfolding table_size_def by (rule sum_mono2) auto

lemma copy_round_reads:
  assumes pre: "copy_pre L J (table_wf L W) A s0 p s d" and inv: "copy_inv L J C F N A s0 p s d n sn"
    and n: "n < NUM_PTE_ENTRIES"
  shows "at s = at sn" "at s0 = at sn" "apart (at sn d (8 * n)) 8 (at sn p (8 * n)) 8"
    "mapped sn (at sn p (8 * n)) 8" "mapped sn (at sn d (8 * n)) 8"
    "rd64 sn (at sn p (8 * n)) = pte s0 p n" "rd64 sn (at sn d (8 * n)) = 0"
proof -
  note r = copy_round [OF pre inv]
  have p: "p \<in> alloc s0" "p \<notin> L" using pre r(11) by (simp_all add: copy_pre_def table_wf_def)
  have g: "step L J {d} s sn" and zero: "pte sn d n = 0" using inv n by (simp_all add: copy_inv_def)
  show at: "at s = at sn" "at s0 = at sn" using step_at [OF g] step_at [OF r(1)] by simp_all
  have lt: "p < MAX_PAGES" "d < MAX_PAGES" using p(1) r(4) by (auto dest: alloc_less)
  have base: "good_base (base_pointer sn)" using r(2) by (simp add: pages_inv_def)
  show "mapped sn (at sn p (8 * n)) 8" "mapped sn (at sn d (8 * n)) 8"
    using mapped_pte [OF base _ n] lt by auto
  show "apart (at sn d (8 * n)) 8 (at sn p (8 * n)) 8" using lt p(1) r(5) n by (intro at_apart) auto
  have "pte sn p n = pte s0 p n" using p(2) n by (intro step_pte [OF r(1) p(1)]) auto
  then show "rd64 sn (at sn p (8 * n)) = pte s0 p n" "rd64 sn (at sn d (8 * n)) = 0"
    using zero by (simp_all add: pte_def)
qed

text \<open>What the body of the loop computes at an entry that is valid when a page is free, when none is
  free, and at an entry that is not valid.\<close>

lemma copy_body_valid:
  assumes pre: "copy_pre L J (table_wf L W) A s0 p s d" and inv: "copy_inv L J C F N A s0 p s d n sn"
    and n: "n < NUM_PTE_ENTRIES" and v: "valid (pte s0 p n)"
    and new: "vms_new_page sn = Inr (at sn d' 0, s1)" "d' < MAX_PAGES" "only_allocates sn s1"
  shows "copy_body below (at s p 0) (at s d 0) n sn = below (at sn (kid s0 p n) 0) (at sn d' 0)
    (wr64 (at sn d (8 * n)) (copied_entry (pte s0 p n) 0 (drop_bit 12 (at sn d' 0))) s1)"
    (is "_ = below _ _ ?s2")
proof -
  note reads = copy_round_reads [OF pre inv n]
  note view = only_allocates_view [OF new(3)]
  have base: "good_base (base_pointer sn)" using copy_round(2) [OF pre inv] by (simp add: pages_inv_def)
  have "entry_copy (at sn p (8 * n)) (at sn d (8 * n)) (at sn d' 0) s1 = Inr ((), ?s2)"
    using entry_copy_apply [OF _ _ reads(3) page_to_ppn_at [OF base new(2)], of s1] reads(4-7) by (simp add: view)
  moreover have "vms_pte_get_ppn (at sn p (8 * n)) ?s2 = Inr (get_ppn (pte s0 p n), ?s2)"
    using reads(3-6) by (simp add: pte_prog_simps view rd64_wr64_apart)
  moreover have "entry_page (pte s0 p n) = at sn (kid s0 p n) 0"
    using copy_round(11) [OF pre inv] n v by (simp add: table_wf_def linked_def reads(2))
  moreover have "vms_pte_valid (at sn p (8 * n)) sn = Inr (True, sn)"
    using reads(4,6) v by (simp add: pte_prog_simps)
  ultimately show ?thesis using new(1) by (simp add: Let_def reads(1) entry_from_index_at)
qed

lemma copy_body_full:
  assumes pre: "copy_pre L J (table_wf L W) A s0 p s d" and inv: "copy_inv L J C F N A s0 p s d n sn"
    and n: "n < NUM_PTE_ENTRIES" and v: "valid (pte s0 p n)" and full: "vms_new_page sn = Inl e"
  shows "copy_body below (at s p 0) (at s d 0) n sn = Inl e"
  using copy_round_reads [OF pre inv n] v full by (simp add: Let_def entry_from_index_at pte_prog_simps)

lemma copy_body_invalid:
  assumes pre: "copy_pre L J (table_wf L W) A s0 p s d" and inv: "copy_inv L J C F N A s0 p s d n sn"
    and n: "n < NUM_PTE_ENTRIES" and v: "\<not> valid (pte s0 p n)"
  shows "copy_body below (at s p 0) (at s d 0) n sn = Inr ((), sn)"
    and "copy_inv L J C F N A s0 p s d (Suc n) sn"
proof -
  show "copy_body below (at s p 0) (at s d 0) n sn = Inr ((), sn)"
    using copy_round_reads [OF pre inv n] v by (simp add: Let_def entry_from_index_at pte_prog_simps)
  have "pte sn d n = 0" using inv n by (simp add: copy_inv_def)
  moreover have "valid_entries s0 p \<inter> {..<Suc n} = valid_entries s0 p \<inter> {..<n}"
    using v by (auto simp: valid_entries_def less_Suc_eq)
  ultimately show "copy_inv L J C F N A s0 p s d (Suc n) sn"
    using inv v by (auto simp: copy_inv_def entry_copied_def weight_def less_Suc_eq)
qed

lemma copy_step:
  assumes pre: "copy_pre L J (table_wf L W) A s0 p s d" and n: "n < NUM_PTE_ENTRIES"
  shows "triple (copy_inv L J C F N A s0 p s d n) (copy_body below (at s p 0) (at s d 0) n)
    (\<lambda>_. copy_inv L J C F N A s0 p s d (Suc n)) (copy_fails (table_size N) s0 p s)"
proof (rule tripleI)
  fix sn assume inv: "copy_inv L J C F N A s0 p s d n sn"
  have pinv: "pages_inv sn" using pre inv by (rule copy_round)
  have card: "card (alloc sn) = card (alloc s) + (\<Sum>i < n. weight N s0 p i)"
    using inv by (simp add: copy_inv_def)
  show "case copy_body below (at s p 0) (at s d 0) n sn of Inl e \<Rightarrow> copy_fails (table_size N) s0 p s e
      | Inr (u, s') \<Rightarrow> copy_inv L J C F N A s0 p s d (Suc n) s'"
  proof (cases "valid (pte s0 p n)")
    case False
    show ?thesis using copy_body_invalid [OF pre inv n False] by simp
  next
    case True
    have le: "(\<Sum>i < n. weight N s0 p i) + Suc (N s0 (kid s0 p n)) \<le> table_size N s0 p"
      using sum_weight_le [OF n, of s0 p] True by (simp add: weight_def)
    from pinv show ?thesis
    proof (cases rule: pages.new_page_cases)
      case full
      then show ?thesis
        using copy_body_full [OF pre inv n True full(2)] card le by (simp add: copy_fails_def)
    next
      case (ok d' s1)
      note new = ok(1-5,7)
      let ?s2 = "wr64 (at sn d (8 * n)) (copied_entry (pte s0 p n) 0 (drop_bit 12 (at sn d' 0))) s1"
      note body = copy_body_valid [OF pre inv n True ok(1,2,7)]
      have at1: "at s1 = at sn" using only_allocates_view [OF ok(7)] by (simp add: fun_eq_iff)
      have card2: "card (alloc ?s2) = Suc (card (alloc sn))" using ok(3,4) by (simp add: alloc_def)
      have tr: "triple (\<lambda>t. t = ?s2) (below (at ?s2 (kid s0 p n) 0) (at ?s2 d' 0))
          (\<lambda>_. copy_post L J C N (alloc sn) s0 (kid s0 p n) ?s2 d') (copy_fails N s0 (kid s0 p n) ?s2)"
        by (rule copies [OF copy_entry_pre [OF pre inv n True new refl]])
      show ?thesis using tr refl [of ?s2]
      proof (cases rule: triple_cases)
        case (stopped e)
        then show ?thesis using body le card card2 by (simp add: at1 copy_fails_def)
      next
        case (ok u s3)
        then have "copy_inv L J C F N A s0 p s d (Suc n) s3"
          by (intro copy_valid_entry [OF pre inv n True new refl])
        then show ?thesis using ok(1) body by (simp add: at1)
      qed
    qed
  qed
qed

lemma copy_inv_start:
  assumes pre: "copy_pre L J (table_wf L W) A s0 p s d"
  shows "copy_inv L J C F N A s0 p s d 0 s"
proof -
  have "pte s d i = 0" if "i < NUM_PTE_ENTRIES" for i
    using pre that unfolding pte_bytes copy_pre_def by (intro word_of_bytes_zero) auto
  then show ?thesis
    using pre step_alloc [of L J "{}" s0 s]
    by (auto simp: copy_inv_def copy_pre_def kids_apart_def intro!: step_of_grows grows_refl)
qed

lemma copy_table_triple:
  assumes pre: "copy_pre L J (table_wf L W) A s0 p s d"
  shows "triple (\<lambda>t. t = s) (copy_table below (at s p 0) (at s d 0))
    (\<lambda>_. copy_post L J (table_copy C F) (table_size N) A s0 p s d) (copy_fails (table_size N) s0 p s)"
proof (rule triple_conseq)
  show "triple (copy_inv L J C F N A s0 p s d 0) (copy_table below (at s p 0) (at s d 0))
      (\<lambda>_. copy_inv L J C F N A s0 p s d NUM_PTE_ENTRIES) (copy_fails (table_size N) s0 p s)"
    unfolding copy_table_def by (rule triple_for_upt) (rule copy_step [OF pre])
next
  show "t = s \<Longrightarrow> copy_inv L J C F N A s0 p s d 0 t" for t
    using copy_inv_start [OF pre] by simp
next
  fix x t assume "copy_inv L J C F N A s0 p s d NUM_PTE_ENTRIES t"
  then show "copy_post L J (table_copy C F) (table_size N) A s0 p s d t"
    using pre by (auto simp: copy_inv_def copy_post_def table_copy_def table_size_def
        copy_pre_def valid_entries_def Int_absorb2 subset_eq intro: step_alloc)
qed

lemma copier_copy_table:
  "copier L J (copy_table below) (table_wf L W) (table_copy C F) (table_pages F) (table_size N)"
proof
  fix A s0 p s d assume "copy_pre L J (table_wf L W) A s0 p s d"
  then show "triple (\<lambda>t. t = s) (copy_table below (at s p 0) (at s d 0))
      (\<lambda>_. copy_post L J (table_copy C F) (table_size N) A s0 p s d) (copy_fails (table_size N) s0 p s)"
    by (rule copy_table_triple)
next
  fix A s p s' p' D s''
  assume c: "table_copy C F A s p s' p'" and g: "step L J D s' s''" and D: "D \<subseteq> A" and L: "L \<subseteq> A"
  have "pte s'' p' i = pte s' p' i" if "i < NUM_PTE_ENTRIES" for i
    using c D L that by (intro step_pte [OF g]) (auto simp: table_copy_def)
  note pte = this
  have copied: "entry_copied C A s p s' p' i \<and> valid (pte s p i)" if "i \<in> valid_entries s p" for i
    using c that by (simp add: table_copy_def valid_entries_def)
  have same: "pte s'' p' i = pte s' p' i" if "i \<in> valid_entries s p" for i
    using pte that by (simp add: valid_entries_def)
  note stable = kids_apart_stable [OF copied g subset_insertI2 [OF D] L same]
  show "table_copy C F A s p s'' p'"
    using c D L step_alloc [OF g] pte stable(2)
    by (auto simp: table_copy_def intro!: entry_copied_stable [OF _ g])
  have "valid_entries s'' p' = valid_entries s p" "valid_entries s' p' = valid_entries s p"
    using table_copy_valid [OF c] pte by (auto simp: valid_entries_def)
  then show "table_pages F s'' p' = table_pages F s' p'"
    using stable(1) by (simp add: table_pages_def)
next
  fix A s p s' p' assume c: "table_copy C F A s p s' p'"
  have "F s' (kid s' p' i) \<subseteq> alloc s' - A" if "i \<in> valid_entries s p" for i
  proof -
    have "C (insert p' A) s (kid s p i) s' (kid s' p' i)"
      using c that by (simp add: table_copy_def valid_entries_def entry_copied_def)
    from C_pages [OF this] show ?thesis by auto
  qed
  then show "table_pages F s' p' \<subseteq> alloc s' - A"
    using c table_copy_valid [OF c] by (auto simp: table_pages_def table_copy_def)
next
  fix A B s p s' p'
  assume c: "table_copy C F A s p s' p'" and BA: "B \<subseteq> A"
  have "insert p' B \<subseteq> insert p' A" using BA by (rule insert_mono)
  then have "entry_copied C A s p s' p' i \<Longrightarrow> entry_copied C B s p s' p' i" for i
    by (auto simp: entry_copied_def intro: C_mono)
  then show "table_copy C F B s p s' p'" using c BA by (auto simp: table_copy_def)
next
  fix s p assume "table_wf L W s p"
  then show "p \<in> alloc s" by (simp add: table_wf_def)
qed (auto intro: J_grows J_trans)

end


section \<open>Address spaces and entries\<close>

lemma entry_copied_step:
  assumes "entry_copied C A s t s' t' i" and "valid (pte s t i)"
  shows "same_flags (pte s t i) (pte s' t' i) \<and> linked s' t' i \<and>
    C (insert t' A) s (kid s t i) s' (kid s' t' i)"
  using assms by (simp add: entry_copied_def)

lemma faults_valid: "\<not> faults level e \<Longrightarrow> valid e"
  by (simp add: faults_def)

lemma linked_less: "linked s t i \<Longrightarrow> kid s t i < MAX_PAGES"
  by (auto simp: linked_def dest: alloc_less)

lemma maps_iff:
  assumes "r < MAX_PAGES"
  shows "maps s r va t1 t0 p \<longleftrightarrow>
    (let e2 = pte s r (vpn va 2); e1 = pte s t1 (vpn va 1); e0 = pte s t0 (vpn va 0) in
     \<not> faults 2 e2 \<and> entry_page e2 = at s t1 0 \<and> kid s r (vpn va 2) = t1 \<and> t1 < MAX_PAGES \<and>
     \<not> faults 1 e1 \<and> entry_page e1 = at s t0 0 \<and> kid s t1 (vpn va 1) = t0 \<and> t0 < MAX_PAGES \<and>
     \<not> faults 0 e0 \<and> entry_page e0 = at s p 0 \<and> kid s t0 (vpn va 0) = p \<and> p < MAX_PAGES)"
  using assms by (auto simp: maps_def Let_def kidI)

lemma entry_copied_back:
  assumes "entry_copied C A s t s' t' i" and "valid (pte s' t' i)"
  shows "valid (pte s t i) \<and> same_flags (pte s t i) (pte s' t' i) \<and>
    C (insert t' A) s (kid s t i) s' (kid s' t' i)"
  using assms by (auto simp: entry_copied_def split: if_splits)

lemma tree_wf_maps:
  assumes wf: "tree_wf s r" and maps: "maps s r va t1 t0 p"
  shows "{r, t1, t0, p} \<subseteq> alloc s"
proof -
  have r: "r \<in> alloc s" using wf by (simp add: table_wf_def)
  note m = maps [unfolded maps_iff [OF alloc_less [OF r]] Let_def]
  have v: "valid (pte s r (vpn va 2))" "valid (pte s t1 (vpn va 1))" "valid (pte s t0 (vpn va 0))"
    using m by (auto intro: faults_valid)
  have l1: "l1_wf s t1" using wf m v(1) by (auto simp: table_wf_def [of _ l1_wf])
  have l0: "l0_wf s t0" using l1 m v(2) by (auto simp: table_wf_def [of _ l0_wf])
  have "data_wf s p" using l0 m v(3) by (auto simp: table_wf_def [of _ data_wf])
  then show ?thesis
    using r l1 l0 by (auto simp: table_wf_def [of _ l0_wf] table_wf_def [of _ data_wf] data_wf_def)
qed

lemma grows_maps:
  assumes g: "grows D s s'" and al: "{r, t1, t0} \<subseteq> alloc s - D"
  shows "maps s' r va t1 t0 p \<longleftrightarrow> maps s r va t1 t0 p"
  using g al by (intro maps_cong) (auto simp: grows_def)

section \<open>Changing the address space\<close>

text \<open>Running in the address space of root page \<open>r\<close>.\<close>

abbreviation under :: "nat \<Rightarrow> vms \<Rightarrow> vms" where
  "under r s \<equiv> s\<lparr>root_page_table := at s r 0\<rparr>"

lemma root_update [simp]:
  "at (s\<lparr>root_page_table := a\<rparr>) = at s" "byte (s\<lparr>root_page_table := a\<rparr>) = byte s"
  "pte (s\<lparr>root_page_table := a\<rparr>) = pte s" "alloc (s\<lparr>root_page_table := a\<rparr>) = alloc s"
  "rd32 (s\<lparr>root_page_table := a\<rparr>) = rd32 s"
  "wr32 b v (s\<lparr>root_page_table := a\<rparr>) = (wr32 b v s)\<lparr>root_page_table := a\<rparr>"
  by (simp_all add: at_def byte_def pte_def alloc_def rd64_def rd32_def wr32_def fun_eq_iff)

lemma maps_root_update [simp]: "maps (s\<lparr>root_page_table := a\<rparr>) = maps s"
  by (simp add: maps_def fun_eq_iff)

lemma set_root_at:
  "good_base (base_pointer s) \<Longrightarrow> r < MAX_PAGES \<Longrightarrow>
     vms_set_root_page_table (at s r 0) s = Inr ((), under r s)"
  using at_page_aligned [of s r] aligned_word_iff [of "at s r 0"]
  by (simp add: vms_set_root_page_table_def check_page_aligned_def prog_simps)

text \<open>
  A write in the address space \<open>r\<close> does not change what is read in the address space \<open>r'\<close>, where
  the page written is no page of the walk that reads.
\<close>

lemma write_elsewhere:
  assumes base: "good_base (base_pointer s)" and maps: "maps s r va t1 t0 p" "maps s r' va' u1 u0 q"
    and flags: "writable (pte s t0 (vpn va 0))" "readable (pte s u0 (vpn va' 0))"
    and off: "offset va + 4 \<le> PAGE_SIZE" "offset va' + 4 \<le> PAGE_SIZE"
    and apart: "p \<notin> {r', u1, u0, q}"
  shows "\<exists>s2. seq (vms_set_root_page_table (at s r 0)) (seq (vms_write va v)
      (seq (vms_set_root_page_table (at s r' 0)) (vms_read va'))) s =
    Inr (rd32 s (at s q (offset va')), s2)"
proof -
  have lt: "r < MAX_PAGES" "r' < MAX_PAGES" "u0 < MAX_PAGES" "u1 < MAX_PAGES" "q < MAX_PAGES" "p < MAX_PAGES"
    using maps by (simp_all add: maps_def)
  let ?w = "wr32 (at s p (offset va)) v s"
  have same: "same_page s ?w x" if "x \<in> {r', u1, u0, q}" for x
    using that lt apart off by (intro same_page_wr32) auto
  have w: "vms_write va v (under r s) = Inr ((), under r ?w)"
    using vms_write_maps [of "under r s" r va t1 t0 p v] base maps(1) flags(1) off(1) by simp
  have maps': "maps (under r' ?w) r' va' u1 u0 q"
    using maps(2) same maps_cong [of ?w s r' u1 u0] by simp
  have "readable (pte (under r' ?w) u0 (vpn va' 0))"
    using flags(2) same [of u0] same_page_pte [of s ?w u0 "vpn va' 0"] by simp
  then have "vms_read va' (under r' ?w) = Inr (rd32 ?w (at s q (offset va')), under r' ?w)"
    using vms_read_maps [OF _ _ maps'] base off(2) by simp
  moreover have "rd32 ?w (at ?w q (offset va')) = rd32 s (at s q (offset va'))"
    using same [of q] off(2) by (intro rd32_page_cong) (simp_all add: same_page_def)
  moreover have "vms_set_root_page_table (at s r' 0) (under r ?w) = Inr ((), under r' ?w)"
    using set_root_at [of "under r ?w" r'] base lt(2) by simp
  ultimately show ?thesis
    using set_root_at [OF base lt(1)] w by (simp add: seq_apply)
qed

end
