(* ===== verification/Vms_Fork.thy ===== *)
theory Vms_Fork
  imports Vms_Copy
begin

text \<open>
  Copying an address space (\<open>vms_fork_copy\<close> of \<open>vms/src/vms.c\<close>).

  The three nested loops of the C function are the three functions \<open>fork_copy_l2\<close>,
  \<open>fork_copy_l1\<close> and \<open>fork_copy_l0\<close>, one for each loop; each satisfies the contract \<open>copier\<close>
  because the one below does.  The theorems on the whole: when the fork returns and what it
  costs, that the child reads what the parent reads, and that neither sees the other's writes.
\<close>

section \<open>The functions of vms.c\<close>

definition fork_copy_l0 :: "addr \<Rightarrow> addr \<Rightarrow> unit vm" where
  "fork_copy_l0 src_page_l0 dst_page_l0 =
     for_each (\<lambda>k.
       let src_entry_l0 = vms_page_table_pte_entry_from_index src_page_l0 (int k);
           dst_entry_l0 = vms_page_table_pte_entry_from_index dst_page_l0 (int k)
       in bnd (vms_pte_valid src_entry_l0) (\<lambda>v.
          if \<not> v then skip
          else bnd vms_new_page (\<lambda>dst_page_p.
               bnd (vms_pte_get_ppn src_entry_l0) (\<lambda>ppn.
               let src_page_p = vms_ppn_to_page ppn in
               seq (entry_copy src_entry_l0 dst_entry_l0 dst_page_p)
                   (memcpy dst_page_p src_page_p PAGE_SIZE)))))
       [0..<NUM_PTE_ENTRIES]"

definition fork_copy_l1 :: "addr \<Rightarrow> addr \<Rightarrow> unit vm" where
  "fork_copy_l1 src_page_l1 dst_page_l1 =
     for_each (\<lambda>j.
       let src_entry_l1 = vms_page_table_pte_entry_from_index src_page_l1 (int j);
           dst_entry_l1 = vms_page_table_pte_entry_from_index dst_page_l1 (int j)
       in bnd (vms_pte_valid src_entry_l1) (\<lambda>v.
          if \<not> v then skip
          else bnd vms_new_page (\<lambda>dst_page_l0.
               seq (entry_copy src_entry_l1 dst_entry_l1 dst_page_l0)
              (bnd (vms_pte_get_ppn src_entry_l1) (\<lambda>ppn.
               let src_page_l0 = vms_ppn_to_page ppn in
               fork_copy_l0 src_page_l0 dst_page_l0)))))
       [0..<NUM_PTE_ENTRIES]"

definition fork_copy_l2 :: "addr \<Rightarrow> addr \<Rightarrow> unit vm" where
  "fork_copy_l2 src_page_l2 dst_page_l2 =
     for_each (\<lambda>i.
       let src_entry_l2 = vms_page_table_pte_entry_from_index src_page_l2 (int i);
           dst_entry_l2 = vms_page_table_pte_entry_from_index dst_page_l2 (int i)
       in bnd (vms_pte_valid src_entry_l2) (\<lambda>v.
          if \<not> v then skip
          else bnd vms_new_page (\<lambda>dst_page_l1.
               seq (entry_copy src_entry_l2 dst_entry_l2 dst_page_l1)
              (bnd (vms_pte_get_ppn src_entry_l2) (\<lambda>ppn.
               let src_page_l1 = vms_ppn_to_page ppn in
               fork_copy_l1 src_page_l1 dst_page_l1)))))
       [0..<NUM_PTE_ENTRIES]"

definition vms_fork_copy :: "addr vm" where
  "vms_fork_copy =
     bnd vms_get_used_pages (\<lambda>used.
     seq (error_handler (if used \<le> int (MAX_PAGES div 2) then 1 else 0))
    (bnd vms_get_root_page_table (\<lambda>src_page_l2.
     bnd vms_new_page (\<lambda>dst_page_l2.
     seq (fork_copy_l2 src_page_l2 dst_page_l2)
         (ret dst_page_l2)))))"

lemma fork_copy_l1_table: "fork_copy_l1 = copy_table fork_copy_l0"
  unfolding fun_eq_iff fork_copy_l1_def copy_table_def Let_def by simp

lemma fork_copy_l2_table: "fork_copy_l2 = copy_table fork_copy_l1"
  unfolding fun_eq_iff fork_copy_l2_def copy_table_def Let_def by simp

section \<open>The three levels\<close>

text \<open>The innermost tables are only read, and no reference is counted.\<close>

definition same_ref_num :: "vms \<Rightarrow> vms \<Rightarrow> bool" where
  "same_ref_num s s' \<longleftrightarrow> ref_num s' = ref_num s"

abbreviation copies :: "nat set \<Rightarrow> vms \<Rightarrow> vms \<Rightarrow> bool" where
  "copies \<equiv> step {} same_ref_num"

lemma copies_iff: "copies D s s' \<longleftrightarrow> grows D s s' \<and> ref_num s' = ref_num s"
  by (simp add: step_def same_ref_num_def)

definition copy_data :: "addr \<Rightarrow> addr \<Rightarrow> unit vm" where
  "copy_data src dst = memcpy dst src PAGE_SIZE"

interpretation data: copier "{}" same_ref_num copy_data data_wf data_copy self_page data_size
proof
  fix A s0 p s d assume pre: "copy_pre {} same_ref_num data_wf A s0 p s d"
  then have p: "pages_inv s" "grows {} s0 s" "p \<in> alloc s0" "d \<in> alloc s" "d \<notin> alloc s0" "d \<notin> A"
    by (simp_all add: copy_pre_def copies_iff)
  have "good_base (base_pointer s)" using p(1) by (simp add: pages_inv_def)
  then have "copy_data (at s p 0) (at s d 0) s = Inr ((), copy_page d p s)"
    unfolding copy_data_def using p by (intro memcpy_page) (auto dest: alloc_less)
  moreover have "copies {d} s (copy_page d p s)" using grows_copy_page [OF p(1,4)] by (simp add: copies_iff)
  moreover have "alloc (copy_page d p s) = alloc s" by (simp add: alloc_def)
  moreover have "byte s p off = byte s0 p off" if "off < PAGE_SIZE" for off
    using p(2,3) that by (auto simp: grows_def same_page_def)
  ultimately show "triple (\<lambda>t. t = s) (copy_data (at s p 0) (at s d 0))
      (\<lambda>_. copy_post {} same_ref_num data_copy data_size A s0 p s d) (copy_fails data_size s0 p s)"
    using p by (simp add: triple_def copy_post_def data_copy_def byte_copy_page)
next
  fix A s p s' p' D s''
  assume c: "data_copy A s p s' p'" and g: "copies D s' s''" and D: "D \<subseteq> A"
  then have "p' \<in> alloc s' - D" by (auto simp: data_copy_def)
  then show "data_copy A s p s'' p'"
    using c g by (auto simp: data_copy_def copies_iff grows_def same_page_def)
qed (auto simp: data_copy_def data_wf_def same_ref_num_def self_page_def)

text \<open>
  The innermost loop reads the source page number before it copies the entry, the outer ones
  after; on different tables this makes no difference.
\<close>

lemma read_then_copy:
  assumes "mapped s src 8" "mapped s dst 8" "apart dst 8 src 8"
    and "vms_page_to_ppn page s = Inr (ppn, s)"
  shows "bnd (vms_pte_get_ppn src) (\<lambda>x. seq (entry_copy src dst page) (k x)) s =
    seq (entry_copy src dst page) (bnd (vms_pte_get_ppn src) k) s"
  using assms entry_copy_apply [OF assms]
  by (simp add: pte_prog_simps rd64_wr64_apart)

lemma fork_copy_l0_table:
  assumes pre: "copy_pre {} same_ref_num l0_wf A s0 p s d"
  shows "fork_copy_l0 (at s p 0) (at s d 0) s = copy_table copy_data (at s p 0) (at s d 0) s"
  unfolding fork_copy_l0_def copy_table_def
proof (rule for_each_upt_cong [where I = "copy_inv {} same_ref_num data_copy self_page data_size A s0 p s d"])
  fix n sn assume n: "n < NUM_PTE_ENTRIES" and inv: "copy_inv {} same_ref_num data_copy self_page data_size A s0 p s d n sn"
  have g: "grows {d} s sn" using inv by (simp add: copy_inv_def copies_iff)
  then have pinv: "pages_inv sn" and base: "good_base (base_pointer sn)" and at: "at s = at sn"
    and dn: "d \<in> alloc sn" using pre grows_at [OF g]
    by (auto simp: grows_def pages_inv_def copy_pre_def)
  have lt: "p < MAX_PAGES" "d < MAX_PAGES" and pd: "d \<noteq> p"
    using pre dn by (auto simp: copy_pre_def dest: alloc_less)
  have m: "mapped sn (at sn q (8 * n)) 8" if "q \<in> {p, d}" for q
    using mapped_pte [OF base _ n] lt that by auto
  have ap: "apart (at sn d (8 * n)) 8 (at sn p (8 * n)) 8"
    using lt pd n by (intro at_apart) auto
  let ?new = "\<lambda>copy. if valid (rd64 sn (at sn p (8 * n))) then bnd vms_new_page copy sn else Inr ((), sn)"
  have "?new (\<lambda>page. bnd (vms_pte_get_ppn (at sn p (8 * n))) (\<lambda>x.
          seq (entry_copy (at sn p (8 * n)) (at sn d (8 * n)) page)
              (memcpy page (vms_ppn_to_page x) PAGE_SIZE))) =
      ?new (\<lambda>page. seq (entry_copy (at sn p (8 * n)) (at sn d (8 * n)) page)
        (bnd (vms_pte_get_ppn (at sn p (8 * n))) (\<lambda>x. memcpy page (vms_ppn_to_page x) PAGE_SIZE)))"
    using pinv
  proof (cases rule: pages.new_page_cases)
    case full
    then show ?thesis by simp
  next
    case (ok d' s1)
    have "vms_page_to_ppn (at sn d' 0) s1 = Inr (drop_bit 12 (at sn d' 0), s1)"
      using base ok(2) by (rule page_to_ppn_at)
    then show ?thesis
      using ok(1) m ap by (simp add: read_then_copy only_allocates_view [OF ok(7)])
  qed
  then show "(let src_entry_l0 = vms_page_table_pte_entry_from_index (at s p 0) (int n);
           dst_entry_l0 = vms_page_table_pte_entry_from_index (at s d 0) (int n)
       in bnd (vms_pte_valid src_entry_l0) (\<lambda>v.
          if \<not> v then skip
          else bnd vms_new_page (\<lambda>dst_page_p.
               bnd (vms_pte_get_ppn src_entry_l0) (\<lambda>ppn.
               let src_page_p = vms_ppn_to_page ppn in
               seq (entry_copy src_entry_l0 dst_entry_l0 dst_page_p)
                   (memcpy dst_page_p src_page_p PAGE_SIZE))))) sn =
      (let src_entry = vms_page_table_pte_entry_from_index (at s p 0) (int n);
           dst_entry = vms_page_table_pte_entry_from_index (at s d 0) (int n)
       in bnd (vms_pte_valid src_entry) (\<lambda>v.
          if \<not> v then skip
          else bnd vms_new_page (\<lambda>page.
               seq (entry_copy src_entry dst_entry page)
              (bnd (vms_pte_get_ppn src_entry) (\<lambda>ppn.
               copy_data (vms_ppn_to_page ppn) page))))) sn"
    using m by (cases "valid (rd64 sn (at sn p (8 * n)))")
      (simp_all add: Let_def at entry_from_index_at copy_data_def vms_pte_valid_def bnd_apply read64_apply)
next
  show "copy_inv {} same_ref_num data_copy self_page data_size A s0 p s d 0 s"
    using data.copy_inv_start [OF pre] .
qed (rule data.copy_step [OF pre])

interpretation l0: copier "{}" same_ref_num fork_copy_l0 l0_wf l0_copy l0_pages l0_size
proof (rule copier.intro)
  fix A s0 p s d assume pre: "copy_pre {} same_ref_num l0_wf A s0 p s d"
  show "triple (\<lambda>t. t = s) (fork_copy_l0 (at s p 0) (at s d 0))
      (\<lambda>_. copy_post {} same_ref_num l0_copy l0_size A s0 p s d) (copy_fails l0_size s0 p s)"
    using data.copy_table_triple [OF pre] fork_copy_l0_table [OF pre] by (simp add: triple_def)
qed (fact copier.C_stable [OF data.copier_copy_table] copier.C_mono [OF data.copier_copy_table]
  copier.C_pages [OF data.copier_copy_table] copier.F_stable [OF data.copier_copy_table]
  copier.W_alloc [OF data.copier_copy_table] data.J_grows data.J_trans)+

interpretation l1: copier "{}" same_ref_num fork_copy_l1 l1_wf l1_copy l1_pages l1_size
  unfolding fork_copy_l1_table by (rule l0.copier_copy_table)

interpretation l2: copier "{}" same_ref_num fork_copy_l2 tree_wf tree_copy "table_pages l1_pages" tree_size
  unfolding fork_copy_l2_table by (rule l1.copier_copy_table)

section \<open>The whole fork\<close>

lemma fork_copy_refused:
  "int (MAX_PAGES div 2) < used_pages s \<Longrightarrow> vms_fork_copy s = Inl (Exit (errno s))"
  by (simp add: vms_fork_copy_def vms_get_used_pages_def error_handler_def prog_simps)

lemma fork_copy_outcome:
  assumes inv: "pages_inv s" and root: "root_page_table s = at s r 0" and wf: "tree_wf s r"
    and room: "used_pages s \<le> int (MAX_PAGES div 2)"
  shows "case vms_fork_copy s of
      Inl e \<Rightarrow> e = Exit ENOMEM \<and> MAX_PAGES < card (alloc s) + Suc (tree_size s r)
    | Inr (a, s') \<Rightarrow> \<exists>r'. a = at s r' 0 \<and> grows {} s s' \<and> ref_num s' = ref_num s \<and> tree_copy (alloc s) s r s' r' \<and>
        card (alloc s') = card (alloc s) + Suc (tree_size s r)"
proof -
  have start: "vms_fork_copy s =
      bnd vms_new_page (\<lambda>d. seq (fork_copy_l2 (at s r 0) d) (ret d)) s"
    using room root by (simp add: vms_fork_copy_def vms_get_used_pages_def error_handler_def
        vms_get_root_page_table_def prog_simps)
  from inv show ?thesis
  proof (cases rule: pages.new_page_cases)
    case full
    then show ?thesis by (simp add: start)
  next
    case (ok d s1)
    have g1: "grows {} s s1" using ok(4,5,7) by (rule grows_new_page)
    have at1: "at s1 = at s" using g1 by (rule grows_at)
    have r: "r \<in> alloc s" using wf by (simp add: table_wf_def)
    have zero: "byte s1 d off = 0" if "off < PAGE_SIZE" for off
      using pages.fresh_zero [OF inv ok(2,3) that] by (simp add: only_allocates_view [OF ok(7)])
    have pre: "copy_pre {} same_ref_num tree_wf (alloc s) s r s1 d"
      using ok g1 wf r zero only_allocates_fields [OF ok(7)] by (auto simp: copy_pre_def copies_iff)
    show ?thesis
      using l2.copies [OF pre] refl [of s1]
    proof (cases rule: triple_cases)
      case (stopped e)
      then show ?thesis using ok(1,3,4) by (simp add: start at1 copy_fails_def)
    next
      case (ok u s2)
      have "grows {} s s2" and "ref_num s2 = ref_num s"
        using g1 ok(2) \<open>d \<notin> alloc s\<close> only_allocates_fields [OF \<open>only_allocates s s1\<close>]
        by (auto simp: copy_post_def copies_iff intro: grows_trans)
      then show ?thesis
        using ok \<open>vms_new_page s = Inr (at s d 0, s1)\<close> \<open>d \<notin> alloc s\<close>
          \<open>alloc s1 = insert d (alloc s)\<close>
        by (simp add: start at1 copy_post_def) blast
    qed
  qed
qed

section \<open>Address spaces of a copy\<close>

text \<open>What the original maps, the copy maps to a page of its own with the same contents.\<close>

lemma tree_copy_maps:
  assumes copy: "tree_copy A s r s' r'" and maps: "maps s r va t1 t0 p"
  obtains u1 u0 q where "maps s' r' va u1 u0 q" "{r', u1, u0, q} \<subseteq> alloc s' - A"
    "q \<notin> {r', u1, u0}" "\<forall>off < PAGE_SIZE. byte s' q off = byte s p off"
    "same_flags (pte s t0 (vpn va 0)) (pte s' u0 (vpn va 0))"
proof -
  have r: "r < MAX_PAGES" using maps by (simp add: maps_def)
  note m = maps [unfolded maps_iff [OF r] Let_def]
  have v: "valid (pte s r (vpn va 2))" "valid (pte s t1 (vpn va 1))" "valid (pte s t0 (vpn va 0))"
    using m by (auto intro: faults_valid)
  have c2: "r' \<in> alloc s'" "r' \<notin> A" "entry_copied l1_copy A s r s' r' (vpn va 2)"
    using copy by (simp_all add: table_copy_def)
  let ?u1 = "kid s' r' (vpn va 2)"
  have e2: "same_flags (pte s r (vpn va 2)) (pte s' r' (vpn va 2))" "linked s' r' (vpn va 2)"
      "l1_copy (insert r' A) s t1 s' ?u1"
    using entry_copied_step [OF c2(3) v(1)] m by simp_all
  have c1: "?u1 \<in> alloc s'" "?u1 \<notin> insert r' A"
      "entry_copied l0_copy (insert r' A) s t1 s' ?u1 (vpn va 1)"
    using e2(3) by (simp_all add: table_copy_def)
  let ?u0 = "kid s' ?u1 (vpn va 1)"
  have e1: "same_flags (pte s t1 (vpn va 1)) (pte s' ?u1 (vpn va 1))" "linked s' ?u1 (vpn va 1)"
      "l0_copy (insert ?u1 (insert r' A)) s t0 s' ?u0"
    using entry_copied_step [OF c1(3) v(2)] m by simp_all
  have c0: "?u0 \<in> alloc s'" "?u0 \<notin> insert ?u1 (insert r' A)"
      "entry_copied data_copy (insert ?u1 (insert r' A)) s t0 s' ?u0 (vpn va 0)"
    using e1(3) by (simp_all add: table_copy_def)
  let ?q = "kid s' ?u0 (vpn va 0)"
  have e0: "same_flags (pte s t0 (vpn va 0)) (pte s' ?u0 (vpn va 0))" "linked s' ?u0 (vpn va 0)"
      "data_copy (insert ?u0 (insert ?u1 (insert r' A))) s p s' ?q"
    using entry_copied_step [OF c0(3) v(3)] m by simp_all
  have "maps s' r' va ?u1 ?u0 ?q"
    using m same_flags_faults [OF e2(1)] same_flags_faults [OF e1(1)] same_flags_faults [OF e0(1)]
      linked_less [OF e2(2)] linked_less [OF e1(2)] linked_less [OF e0(2)]
      e2(2) e1(2) e0(2) alloc_less [OF c2(1)]
    by (simp add: maps_def linked_def)
  then show thesis
    by (rule that) (use c2 c1 c0 e0 in \<open>auto simp: data_copy_def\<close>)
qed

text \<open>And the copy maps nothing else.\<close>

lemma tree_copy_maps_back:
  assumes copy: "tree_copy A s r s' r'" and wf: "tree_wf s r" and maps: "maps s' r' va u1 u0 q"
  shows "\<exists>t1 t0 p. maps s r va t1 t0 p"
proof -
  have r': "r' < MAX_PAGES" using maps by (simp add: maps_def)
  note m = maps [unfolded maps_iff [OF r'] Let_def]
  have v: "valid (pte s' r' (vpn va 2))" "valid (pte s' u1 (vpn va 1))" "valid (pte s' u0 (vpn va 0))"
    using m by (auto intro: faults_valid)
  let ?t1 = "kid s r (vpn va 2)"
  let ?t0 = "kid s ?t1 (vpn va 1)"
  have e2: "valid (pte s r (vpn va 2))" "same_flags (pte s r (vpn va 2)) (pte s' r' (vpn va 2))"
      "l1_copy (insert r' A) s ?t1 s' u1"
    using copy m entry_copied_back [OF _ v(1), of l1_copy A s r]
    by (simp_all add: table_copy_def [of l1_copy])
  have l2: "linked s r (vpn va 2)" "l1_wf s ?t1" using wf e2(1) by (simp_all add: table_wf_def [of _ l1_wf])
  have e1: "valid (pte s ?t1 (vpn va 1))" "same_flags (pte s ?t1 (vpn va 1)) (pte s' u1 (vpn va 1))"
      "l0_copy (insert u1 (insert r' A)) s ?t0 s' u0"
    using e2(3) m entry_copied_back [OF _ v(2), of l0_copy "insert r' A" s ?t1]
    by (simp_all add: table_copy_def [of l0_copy])
  have l1: "linked s ?t1 (vpn va 1)" "l0_wf s ?t0" using l2(2) e1(1) by (simp_all add: table_wf_def [of _ l0_wf])
  have e0: "valid (pte s ?t0 (vpn va 0))" "same_flags (pte s ?t0 (vpn va 0)) (pte s' u0 (vpn va 0))"
    using e1(3) m entry_copied_back [OF _ v(3), of data_copy "insert u1 (insert r' A)" s ?t0]
    by (simp_all add: table_copy_def [of data_copy])
  have l0: "linked s ?t0 (vpn va 0)" using l1(2) e0(1) by (simp add: table_wf_def)
  have "r < MAX_PAGES" using wf by (auto simp: table_wf_def dest: alloc_less)
  then have "maps s r va ?t1 ?t0 (kid s ?t0 (vpn va 0))"
    using m same_flags_faults [OF e2(2)] same_flags_faults [OF e1(2)] same_flags_faults [OF e0(2)]
      linked_less [OF l2(1)] linked_less [OF l1(1)] linked_less [OF l0] l2(1) l1(1) l0
    by (simp add: maps_def linked_def)
  then show ?thesis by blast
qed

section \<open>Parent and child\<close>

text \<open>The parts of a finished fork that the theorems on parent and child need.\<close>

lemma fork_copy_ok:
  assumes "pages_inv s" "root_page_table s = at s r 0" "tree_wf s r" "vms_fork_copy s = Inr (a, s')"
  obtains r' where "a = at s r' 0" "grows {} s s'" "tree_copy (alloc s) s r s' r'" "at s' = at s"
    "good_base (base_pointer s')"
proof -
  have "used_pages s \<le> int (MAX_PAGES div 2)"
    using assms(4) fork_copy_refused [of s] by (rule_tac ccontr) simp
  then obtain r' where r': "a = at s r' 0" "grows {} s s'" "tree_copy (alloc s) s r s' r'"
    using fork_copy_outcome [OF assms(1-3)] assms(4) by auto
  moreover have "good_base (base_pointer s')" using r'(2) by (auto simp: grows_def pages_inv_def)
  ultimately show thesis using that grows_at [OF r'(2)] by blast
qed

lemma fork_copy_address:
  assumes "pages_inv s" "root_page_table s = at s r 0" "tree_wf s r" "vms_fork_copy s = Inr (a, s')"
    and maps: "maps s r va t1 t0 p"
  obtains r' u1 u0 q where "a = at s' r' 0" "at s' = at s" "good_base (base_pointer s')"
    "maps s' r va t1 t0 p" "maps s' r' va u1 u0 q"
    "{r, t1, t0, p} \<subseteq> alloc s" "{r', u1, u0, q} \<inter> alloc s = {}" "q \<notin> {r', u1, u0}"
    "pte s' t0 (vpn va 0) = pte s t0 (vpn va 0)"
    "same_flags (pte s t0 (vpn va 0)) (pte s' u0 (vpn va 0))"
    "\<forall>off < PAGE_SIZE. byte s' p off = byte s p off" "\<forall>off < PAGE_SIZE. byte s' q off = byte s p off"
    "root_page_table s' = at s' r 0" "grows {} s s'" "tree_copy (alloc s) s r s' r'"
proof -
  obtain r' where r': "a = at s r' 0" "grows {} s s'" "tree_copy (alloc s) s r s' r'" "at s' = at s"
      "good_base (base_pointer s')"
    using fork_copy_ok [OF assms(1-4)] by blast
  obtain u1 u0 q where c: "maps s' r' va u1 u0 q" "{r', u1, u0, q} \<subseteq> alloc s' - alloc s"
      "q \<notin> {r', u1, u0}" "\<forall>off < PAGE_SIZE. byte s' q off = byte s p off"
      "same_flags (pte s t0 (vpn va 0)) (pte s' u0 (vpn va 0))"
    using tree_copy_maps [OF r'(3) maps] by blast
  have al: "{r, t1, t0, p} \<subseteq> alloc s" using assms(3) maps by (rule tree_wf_maps)
  then have "maps s' r va t1 t0 p" using grows_maps [OF r'(2), of r t1 t0 va p] maps by simp
  moreover have "\<forall>off < PAGE_SIZE. byte s' p off = byte s p off"
    using r'(2) al by (auto simp: grows_def same_page_def)
  moreover have "pte s' t0 (vpn va 0) = pte s t0 (vpn va 0)"
    using grows_pte [OF r'(2)] al by simp
  moreover have "root_page_table s' = at s' r 0" using r'(2,4) assms(2) by (simp add: grows_def)
  ultimately show thesis using that [of r' u1 u0 q] r' c al by auto
qed

text \<open>
  In the address space that \<open>vms_fork_copy\<close> returns, \<open>vms_read\<close> returns at every address what it
  returned in the original before the fork.
\<close>

theorem fork_copy_same_reads:
  assumes "pages_inv s" "root_page_table s = at s r 0" "tree_wf s r"
    and fork: "vms_fork_copy s = Inr (child, s')"
    and maps: "maps s r va t1 t0 p" and flag: "readable (pte s t0 (vpn va 0))"
    and off: "offset va + 4 \<le> PAGE_SIZE"
  shows "\<exists>x s2. vms_read va s = Inr (x, s) \<and>
    seq (vms_set_root_page_table child) (vms_read va) s' = Inr (x, s2)"
proof -
  obtain r' u1 u0 q where c: "child = at s' r' 0" "good_base (base_pointer s')" "maps s' r' va u1 u0 q"
      "same_flags (pte s t0 (vpn va 0)) (pte s' u0 (vpn va 0))"
      "\<forall>off < PAGE_SIZE. byte s' q off = byte s p off"
    using fork_copy_address [OF assms(1-3) fork maps] by metis
  have "r' < MAX_PAGES" using c(3) by (simp add: maps_def)
  then have set: "vms_set_root_page_table child s' = Inr ((), under r' s')"
    using set_root_at c(1,2) by simp
  have "readable (pte (under r' s') u0 (vpn va 0))"
    using c(4) flag by (simp add: same_flags_def)
  then have "vms_read va (under r' s') = Inr (rd32 s' (at s' q (offset va)), under r' s')"
    using vms_read_maps [of "under r' s'" r' va u1 u0 q] c(2,3) off by simp
  moreover have "vms_read va s = Inr (rd32 s (at s p (offset va)), s)"
    using assms by (intro vms_read_maps) (simp_all add: pages_inv_def)
  moreover have "rd32 s' (at s' q (offset va)) = rd32 s (at s p (offset va))"
    using c(5) off by (rule rd32_page_cong)
  ultimately show ?thesis using set by (simp add: seq_apply)
qed

text \<open>
  C4. Isolation after \<open>vms_fork_copy\<close> from any well formed address space.  Let the parent have been able to write at \<open>va\<close>
  and to read at \<open>va'\<close>, the four bytes at each within one page.  Then a \<open>vms_write\<close> of the child at \<open>va\<close>, the first access
  after the fork, leaves what the parent reads at \<open>va'\<close> as it was before the fork, and so does a first
  write of the parent for what the child reads; both accesses succeed.  (\<open>processes_have_private_memory\<close> and \<open>other_processes_keep_reads\<close>
  state it for sequences of calls.)
\<close>

theorem fork_copy_isolates:
  assumes "pages_inv s" "root_page_table s = at s r 0" "tree_wf s r"
    and fork: "vms_fork_copy s = Inr (child, s')"
    and maps: "maps s r va t1 t0 p" "maps s r va' t1' t0' p'"
    and flags: "writable (pte s t0 (vpn va 0))" "readable (pte s t0' (vpn va' 0))"
    and off: "offset va + 4 \<le> PAGE_SIZE" "offset va' + 4 \<le> PAGE_SIZE"
  shows "\<exists>x s2 s3. vms_read va' s = Inr (x, s) \<and>
    seq (vms_set_root_page_table child) (seq (vms_write va v)
      (seq (vms_set_root_page_table (root_page_table s)) (vms_read va'))) s' = Inr (x, s2) \<and>
    seq (vms_set_root_page_table (root_page_table s)) (seq (vms_write va v)
      (seq (vms_set_root_page_table child) (vms_read va'))) s' = Inr (x, s3)"
proof -
  obtain r' u1 u0 q where c: "child = at s' r' 0" "at s' = at s" "good_base (base_pointer s')"
      "maps s' r va t1 t0 p" "maps s' r' va u1 u0 q" "{r, t1, t0, p} \<subseteq> alloc s"
      "{r', u1, u0, q} \<inter> alloc s = {}" "pte s' t0 (vpn va 0) = pte s t0 (vpn va 0)"
      "same_flags (pte s t0 (vpn va 0)) (pte s' u0 (vpn va 0))"
    using fork_copy_address [OF assms(1-3) fork maps(1)] by metis
  obtain r'' u1' u0' q' where d: "child = at s' r'' 0"
      "maps s' r va' t1' t0' p'" "maps s' r'' va' u1' u0' q'" "{r, t1', t0', p'} \<subseteq> alloc s"
      "{r'', u1', u0', q'} \<inter> alloc s = {}" "pte s' t0' (vpn va' 0) = pte s t0' (vpn va' 0)"
      "same_flags (pte s t0' (vpn va' 0)) (pte s' u0' (vpn va' 0))"
      "\<forall>off < PAGE_SIZE. byte s' p' off = byte s p' off" "\<forall>off < PAGE_SIZE. byte s' q' off = byte s p' off"
    using fork_copy_address [OF assms(1-3) fork maps(2)] by metis
  have root: "root_page_table s = at s' r 0" using assms(2) c(2) by simp
  have read: "vms_read va' s = Inr (rd32 s (at s p' (offset va')), s)"
    using assms by (intro vms_read_maps) (simp_all add: pages_inv_def)
  have x: "rd32 s' (at s' p' (offset va')) = rd32 s (at s p' (offset va'))"
      "rd32 s' (at s' q' (offset va')) = rd32 s (at s p' (offset va'))"
    using d(8,9) off(2) by (auto intro: rd32_page_cong)
  have "\<exists>s2. seq (vms_set_root_page_table child) (seq (vms_write va v)
      (seq (vms_set_root_page_table (root_page_table s)) (vms_read va'))) s' =
      Inr (rd32 s (at s p' (offset va')), s2)"
    unfolding c(1) root x(1) [symmetric] using c(7,9) d(4) flags
    by (intro write_elsewhere [OF c(3,5) d(2) _ _ off]) (auto simp: d(6) same_flags_def)
  moreover have "\<exists>s3. seq (vms_set_root_page_table (root_page_table s)) (seq (vms_write va v)
      (seq (vms_set_root_page_table child) (vms_read va'))) s' =
      Inr (rd32 s (at s p' (offset va')), s3)"
    unfolding d(1) root x(2) [symmetric] using c(6) d(5,7) flags
    by (intro write_elsewhere [OF c(3,4) d(3) _ _ off]) (auto simp: c(8) same_flags_def)
  ultimately show ?thesis using read by blast
qed

end
