(* ===== verification/Vms_Fault.thy ===== *)
theory Vms_Fault
  imports Vms_Space
begin

text \<open>
  What \<open>page_fault_handler\<close> does on every branch, the accesses that end the process with
  \<open>EFAULT\<close>, and the first write to a copy-on-write page: the writer gets a page of its own with
  the old contents, and the shared page is left as it was.
\<close>

section \<open>Faults that are fatal\<close>

lemma handler_idle:
  assumes "mapped s (vms_page_table_pte_entry t va level) 8"
    and "\<not> valid (rd64 s (vms_page_table_pte_entry t va level)) \<or>
         writable (rd64 s (vms_page_table_pte_entry t va level))"
  shows "page_fault_handler va level t s = Inr ((), s)"
  using assms by (auto simp: page_fault_handler_def Let_def pte_prog_simps)

lemma mmu_from_second_fault:
  assumes "mapped s (vms_page_table_pte_entry t va level) 8"
    and "faults level (rd64 s (vms_page_table_pte_entry t va level))"
  shows "mmu_from va level True t s = Inl (Exit EFAULT)"
  using assms
  by (subst mmu_from.simps) (simp add: Let_def prog_simps fatal_fault_apply)

lemma walk_BadD:
  "walk s va l0 t0 = Bad level t \<Longrightarrow>
     mapped s (vms_page_table_pte_entry t va level) 8 \<and>
     faults level (rd64 s (vms_page_table_pte_entry t va level)) \<and> level \<le> l0"
proof (induction l0 arbitrary: t0)
  case 0
  then show ?case by (subst (asm) walk.simps) (auto simp: Let_def split: if_splits)
next
  case (Suc l0)
  then show ?case by (subst (asm) walk.simps) (fastforce simp: Let_def split: if_splits)
qed

text \<open>An address whose walk meets an invalid entry ends the process, and so do its users.\<close>

lemma mmu_invalid:
  assumes "walk s va 2 (root_page_table s) = Bad level t"
    and "\<not> valid (rd64 s (vms_page_table_pte_entry t va level))"
  shows "mmu va s = Inl (Exit EFAULT)"
  using walk_BadD [OF assms(1)] handler_idle [of s t va level] mmu_from_second_fault [of s t va level]
    assms by (simp add: mmu_walk)

lemma access_invalid:
  assumes "walk s va 2 (root_page_table s) = Bad level t"
    and "\<not> valid (rd64 s (vms_page_table_pte_entry t va level))"
  shows "vms_read va s = Inl (Exit EFAULT)" and "vms_write va v s = Inl (Exit EFAULT)"
  using mmu_invalid [OF assms] by (simp_all add: vms_read_def vms_write_def)

section \<open>The branches of the handler\<close>

definition restored :: "u64 \<Rightarrow> u64" where
  "restored e = (if custom e then clear_flag PTE_CUSTOM (set_flag PTE_WRITE e) else e)"

lemma restore_write_apply:
  "mapped s a 8 \<Longrightarrow> restore_write a s =
     Inr ((), if custom (rd64 s a) then wr64 a (restored (rd64 s a)) s else s)"
  by (simp add: restore_write_def restored_def pte_prog_simps)

lemma restored_flags [simp]:
  "valid (restored e) = valid e" "readable (restored e) = readable e"
  "writable (restored e) \<longleftrightarrow> writable e \<or> custom e" "get_ppn (restored e) = get_ppn e"
  "custom (restored e) = False"
  by (simp_all add: restored_def)

text \<open>A read-only entry of table \<open>t\<close> that refers to page \<open>p\<close>.\<close>

definition guarded :: "vms \<Rightarrow> nat \<Rightarrow> nat \<Rightarrow> nat \<Rightarrow> bool" where
  "guarded s t i p \<longleftrightarrow> t \<in> alloc s \<and> p \<in> alloc s \<and> i < NUM_PTE_ENTRIES \<and>
     valid (pte s t i) \<and> \<not> writable (pte s t i) \<and> entry_page (pte s t i) = at s p 0"

lemma guarded_less: "guarded s t i p \<Longrightarrow> t < MAX_PAGES \<and> p < MAX_PAGES \<and> i < NUM_PTE_ENTRIES"
  by (auto simp: guarded_def dest: alloc_less)

lemma handler_start:
  assumes inv: "pages_inv s" and g: "guarded s t i p" and i: "i = vpn va level"
  shows "page_fault_handler va level (at s t 0) s =
    (if ref_num s ! p \<le> 0 then skip s
     else if ref_num s ! p = 1 then restore_write (at s t (8 * i)) s
     else bnd vms_new_page (\<lambda>d.
            bnd (vms_pte_get_ppn (at s t (8 * i))) (\<lambda>src_ppn.
            let src = vms_ppn_to_page src_ppn in
            bnd (vms_page_to_ppn d) (\<lambda>dst_ppn.
            seq (vms_pte_set_ppn (at s t (8 * i)) dst_ppn)
           (seq (restore_write (at s t (8 * i)))
           (seq (memcpy d src PAGE_SIZE)
           (seq (bnd (gets (\<lambda>s. vms_get_page_index s src)) (\<lambda>i. ref_add i (- 1)))
                (bnd (gets (\<lambda>s. vms_get_page_index s d)) (\<lambda>i. ref_add i 1)))))))) s)"
proof -
  have t: "t < MAX_PAGES" and p: "p < MAX_PAGES"
    using guarded_less [OF g] by simp_all
  have m: "mapped s (at s t (8 * i)) 8"
    using inv g t by (intro mapped_pte) (simp_all add: pages_inv_def guarded_def)
  have e: "rd64 s (at s t (8 * i)) = pte s t i" by (simp add: pte_def)
  have idx: "vms_get_page_index s (at s p 0) = int p"
    using page_index_at [OF p, of 0 s] by simp
  show ?thesis
    using g p unfolding page_fault_handler_def pte_entry_at i [symmetric] Let_def
    by (simp add: pte_prog_simps m e idx ref_get_def guarded_def)
qed

lemma handler_unshared:
  assumes "pages_inv s" "guarded s t i p" "i = vpn va level" "ref_num s ! p \<le> 0"
  shows "page_fault_handler va level (at s t 0) s = Inr ((), s)"
  using handler_start [OF assms(1-3)] assms(4) by simp

lemma handler_last:
  assumes "pages_inv s" "guarded s t i p" "i = vpn va level" "ref_num s ! p = 1"
  shows "page_fault_handler va level (at s t 0) s =
    Inr ((), if custom (pte s t i) then wr64 (at s t (8 * i)) (restored (pte s t i)) s else s)"
proof -
  have "mapped s (at s t (8 * i)) 8"
    using assms(1) guarded_less [OF assms(2)] by (intro mapped_pte) (simp_all add: pages_inv_def)
  then show ?thesis
    using handler_start [OF assms(1-3)] assms(4) by (simp add: restore_write_apply pte_def)
qed

lemma handler_no_memory:
  assumes "pages_inv s" "guarded s t i p" "i = vpn va level" "1 < ref_num s ! p"
    and "alloc s = {..<MAX_PAGES}"
  shows "page_fault_handler va level (at s t 0) s = Inl (Exit ENOMEM)"
  using handler_start [OF assms(1-3)] assms(4) pages.new_page_full [OF assms(1,5)] by simp

text \<open>
  The copying branch, from the state \<open>s1\<close> in which the page \<open>d\<close> has been allocated.
\<close>

definition cow_copied :: "vms \<Rightarrow> nat \<Rightarrow> nat \<Rightarrow> nat \<Rightarrow> nat \<Rightarrow> vms" where
  "cow_copied s1 t i p d =
     (let e' = restored (set_ppn (pte s1 t i) (drop_bit 12 (at s1 d 0)));
          s2 = copy_page d p (wr64 (at s1 t (8 * i)) e' s1)
      in s2\<lparr>ref_num := (ref_num s1)[p := ref_num s1 ! p - 1, d := ref_num s1 ! d + 1]\<rparr>)"

lemma handler_copies:
  assumes inv: "pages_inv s" and g: "guarded s t i p" and i: "i = vpn va level"
    and shared: "1 < ref_num s ! p" and room: "alloc s \<noteq> {..<MAX_PAGES}"
  obtains d s1 where "vms_new_page s = Inr (at s d 0, s1)" "d < MAX_PAGES" "d \<notin> alloc s"
    "alloc s1 = insert d (alloc s)" "pages_inv s1" "only_allocates s s1"
    "used_pages s1 = used_pages s + 1"
    "page_fault_handler va level (at s t 0) s = Inr ((), cow_copied s1 t i p d)"
proof -
  obtain d s1 where d: "vms_new_page s = Inr (at s d 0, s1)" "d < MAX_PAGES" "d \<notin> alloc s"
      "alloc s1 = insert d (alloc s)" "pages_inv s1" and only: "only_allocates s s1"
      and used: "used_pages s1 = used_pages s + 1"
    using pages.new_page_ok [OF inv room] by blast
  have t: "t < MAX_PAGES" and p: "p < MAX_PAGES" and dp: "d \<noteq> p" and i512: "i < NUM_PTE_ENTRIES"
    using guarded_less [OF g] g d(3) by (auto simp: guarded_def)
  have base: "good_base (base_pointer s)" using inv by (simp add: pages_inv_def)
  note view = only_allocates_view [OF only] only_allocates_fields [OF only]
  have at1: "at s1 = at s" by (simp add: fun_eq_iff view)
  have m: "mapped s (at s t (8 * i)) 8" using base t i512 by (rule mapped_pte)
  let ?a = "at s t (8 * i)" and ?e = "pte s t i"
  have e: "rd64 s ?a = ?e" "pte s1 t i = ?e" by (simp_all add: pte_def view)
  let ?e' = "set_ppn ?e (drop_bit 12 (at s d 0))"
  let ?s2 = "wr64 ?a (restored ?e') s1"
  have restore: "restore_write ?a (wr64 ?a ?e' s1) = Inr ((), ?s2)"
    using m by (simp add: restore_write_apply view restored_def)
  have "memcpy (at ?s2 d 0) (at ?s2 p 0) PAGE_SIZE ?s2 = Inr ((), copy_page d p ?s2)"
    by (rule memcpy_page) (use base d p dp in \<open>simp_all add: view\<close>)
  then have copy: "memcpy (at s d 0) (at s p 0) PAGE_SIZE ?s2 = Inr ((), copy_page d p ?s2)"
    by (simp add: at1)
  have idx: "vms_get_page_index (copy_page d p ?s2) (at s q 0) = int q"
      "vms_get_page_index (copy_page d p ?s2\<lparr>ref_num := x\<rparr>) (at s q 0) = int q" if "q < MAX_PAGES" for q x
    using page_index_at [OF that, of 0 s] by (simp_all add: vms_get_page_index_def view)
  have "page_fault_handler va level (at s t 0) s = Inr ((), cow_copied s1 t i p d)"
    unfolding handler_start [OF inv g i] cow_copied_def Let_def
    using shared d(1) g dp
    by (simp add: pte_prog_simps m e view at1 page_to_ppn_at [OF base d(2)] restore copy idx
        ref_add_def p d(2) guarded_def nth_list_update)
  then show thesis using that d only used by blast
qed

section \<open>The state after a copy\<close>

lemma cow_copied_fields [simp]:
  "base_pointer (cow_copied s t i p d) = base_pointer s"
  "root_page_table (cow_copied s t i p d) = root_page_table s"
  "allocated (cow_copied s t i p d) = allocated s" "used_pages (cow_copied s t i p d) = used_pages s"
  "ref_num (cow_copied s t i p d) = (ref_num s)[p := ref_num s ! p - 1, d := ref_num s ! d + 1]"
  by (simp_all add: cow_copied_def Let_def)

lemma at_cow_copied [simp]: "at (cow_copied s t i p d) = at s"
  by (rule at_base) simp

lemma byte_ref_num [simp]: "byte (s\<lparr>ref_num := x\<rparr>) = byte s"
  by (simp add: byte_def at_def fun_eq_iff)

lemma pte_ref_num [simp]: "pte (s\<lparr>ref_num := x\<rparr>) = pte s"
  by (simp add: pte_bytes fun_eq_iff)

lemma same_page_ref_num [simp]: "same_page s (s'\<lparr>ref_num := x\<rparr>) = same_page s s'"
  by (simp add: same_page_def fun_eq_iff)

lemma cow_copied_pages:
  assumes "t < MAX_PAGES" "d < MAX_PAGES" "p < MAX_PAGES" "i < NUM_PTE_ENTRIES" "d \<noteq> t"
  shows "q < MAX_PAGES \<Longrightarrow> q \<noteq> d \<Longrightarrow> q \<noteq> t \<Longrightarrow> same_page s (cow_copied s t i p d) q"
    and "pte (cow_copied s t i p d) t i = restored (set_ppn (pte s t i) (drop_bit 12 (at s d 0)))"
    and "j < NUM_PTE_ENTRIES \<Longrightarrow> j \<noteq> i \<Longrightarrow> pte (cow_copied s t i p d) t j = pte s t j"
    and "p \<noteq> t \<Longrightarrow> off < PAGE_SIZE \<Longrightarrow> byte (cow_copied s t i p d) d off = byte s p off"
proof -
  let ?v = "restored (set_ppn (pte s t i) (drop_bit 12 (at s d 0)))"
  let ?s2 = "wr64 (at s t (8 * i)) ?v s"
  have eq: "cow_copied s t i p d = (copy_page d p ?s2)
      \<lparr>ref_num := (ref_num s)[p := ref_num s ! p - 1, d := ref_num s ! d + 1]\<rparr>"
    by (simp add: cow_copied_def Let_def)
  have t: "same_page ?s2 (copy_page d p ?s2) t"
    using assms by (intro same_page_copy_page) auto
  show "same_page s (cow_copied s t i p d) q" if "q < MAX_PAGES" "q \<noteq> d" "q \<noteq> t"
    unfolding eq same_page_ref_num
    using that assms by (intro same_page_trans [OF same_page_wr64 same_page_copy_page]) auto
  show "pte (cow_copied s t i p d) t i = ?v"
    unfolding eq pte_ref_num same_page_pte [OF t assms(4)] by (rule pte_wr64_same)
  show "pte (cow_copied s t i p d) t j = pte s t j" if "j < NUM_PTE_ENTRIES" "j \<noteq> i"
    unfolding eq pte_ref_num same_page_pte [OF t that(1)]
    using that assms by (intro pte_wr64_other) auto
  show "byte (cow_copied s t i p d) d off = byte s p off" if "p \<noteq> t" "off < PAGE_SIZE"
    unfolding eq byte_ref_num byte_copy_page [OF that(2)]
    using that assms by (intro byte_wr64) auto
qed

section \<open>Writing to a copy-on-write page\<close>

text \<open>
  The page \<open>p\<close> that \<open>va\<close> maps to under root \<open>r\<close> is shared copy-on-write: readable, its write
  permission set aside in the custom flag, and more than one owner.
\<close>

definition shared_cow :: "vms \<Rightarrow> nat \<Rightarrow> addr \<Rightarrow> nat \<Rightarrow> nat \<Rightarrow> nat \<Rightarrow> bool" where
  "shared_cow s r va t1 t0 p \<longleftrightarrow>
     pages_inv s \<and> root_page_table s = at s r 0 \<and> maps s r va t1 t0 p \<and>
     {r, t1, t0, p} \<subseteq> alloc s \<and> p \<notin> {r, t1, t0} \<and> t0 \<notin> {r, t1} \<and>
     readable (pte s t0 (vpn va 0)) \<and> \<not> writable (pte s t0 (vpn va 0)) \<and>
     custom (pte s t0 (vpn va 0)) \<and> 1 < ref_num s ! p"

lemma shared_cow_guarded: "shared_cow s r va t1 t0 p \<Longrightarrow> guarded s t0 (vpn va 0) p"
  by (auto simp: shared_cow_def guarded_def maps_def faults_def)

lemma cow_maps:
  assumes cow: "shared_cow s r va t1 t0 p" and d: "d < MAX_PAGES" "d \<notin> alloc s"
    and only: "only_allocates s s1"
  shows "maps (cow_copied s1 t0 (vpn va 0) p d) r va t1 t0 d"
proof -
  let ?s = "cow_copied s1 t0 (vpn va 0) p d"
  have c: "pages_inv s" "maps s r va t1 t0 p" "{r, t1, t0, p} \<subseteq> alloc s" "t0 \<notin> {r, t1}"
    using cow by (simp_all add: shared_cow_def)
  then have lt: "t0 < MAX_PAGES" "r < MAX_PAGES" "t1 < MAX_PAGES" "p < MAX_PAGES"
    by (simp_all add: maps_def)
  note view = only_allocates_view [OF only] only_allocates_fields [OF only]
  have pte1: "pte s1 = pte s" by (simp add: pte_def view fun_eq_iff)
  have at1: "at s1 = at s" by (simp add: view fun_eq_iff)
  have same: "same_page s1 ?s q" if "q \<in> {r, t1}" for q
    using that c d lt by (intro cow_copied_pages(1)) auto
  have e: "pte ?s t0 (vpn va 0) = restored (set_ppn (pte s t0 (vpn va 0)) (drop_bit 12 (at s d 0)))"
    using c d lt by (subst cow_copied_pages(2)) (auto simp: pte1 at1)
  have "good_base (base_pointer s)" using c by (simp add: pages_inv_def)
  then have "entry_page (pte ?s t0 (vpn va 0)) = at s d 0"
    unfolding e restored_flags using d(1) by (rule entry_page_set_ppn)
  moreover have "\<not> faults 0 (pte ?s t0 (vpn va 0))"
    using c(2) by (auto simp: e faults_def maps_def)
  ultimately show ?thesis
    using c(2) d(1) same_page_pte [OF same [of r], of "vpn va 2"]
      same_page_pte [OF same [of t1], of "vpn va 1"]
    by (simp add: maps_def pte1 at1)
qed

lemma cow_write:
  assumes cow: "shared_cow s r va t1 t0 p" and room: "alloc s \<noteq> {..<MAX_PAGES}"
    and off: "offset va + 4 \<le> PAGE_SIZE"
  obtains d s1 where "d < MAX_PAGES" "d \<notin> alloc s" "alloc s1 = insert d (alloc s)"
    "pages_inv s1" "only_allocates s s1" "used_pages s1 = used_pages s + 1"
    "vms_write va v s =
       Inr ((), wr32 (at s d (offset va)) v (cow_copied s1 t0 (vpn va 0) p d))"
proof -
  have c: "pages_inv s" "root_page_table s = at s r 0" "maps s r va t1 t0 p" "1 < ref_num s ! p"
      "\<not> writable (pte s t0 (vpn va 0))" "custom (pte s t0 (vpn va 0))"
    using cow by (simp_all add: shared_cow_def)
  have base: "good_base (base_pointer s)" using c by (simp add: pages_inv_def)
  have t0: "t0 < MAX_PAGES" using c by (simp add: maps_def)
  obtain d s1 where d: "d < MAX_PAGES" "d \<notin> alloc s" "alloc s1 = insert d (alloc s)" "pages_inv s1"
      and only: "only_allocates s s1" and used: "used_pages s1 = used_pages s + 1"
      and h: "page_fault_handler va 0 (at s t0 0) s = Inr ((), cow_copied s1 t0 (vpn va 0) p d)"
    using handler_copies [OF c(1) shared_cow_guarded [OF cow] refl c(4) room] by blast
  let ?s = "cow_copied s1 t0 (vpn va 0) p d"
  let ?a = "at s t0 (8 * vpn va 0)"
  have at1: "at s1 = at s" by (simp add: only_allocates_view [OF only] fun_eq_iff)
  have maps': "maps ?s r va t1 t0 d" using cow d(1,2) only by (rule cow_maps)
  have m: "mapped s ?a 8" "mapped ?s ?a 8"
    using mapped_pte [OF base t0, of "vpn va 0"] only_allocates_fields(2) [OF only]
    by (simp_all add: mapped_def)
  have e: "rd64 s ?a = pte s t0 (vpn va 0)" "rd64 ?s ?a = pte ?s t0 (vpn va 0)"
    by (simp_all add: pte_def at1)
  have w: "writable (pte ?s t0 (vpn va 0))"
  proof -
    have "pte ?s t0 (vpn va 0) = restored (set_ppn (pte s1 t0 (vpn va 0)) (drop_bit 12 (at s1 d 0)))"
      using d(1,2) t0 cow by (intro cow_copied_pages(2)) (auto simp: shared_cow_def maps_def)
    moreover have "pte s1 t0 (vpn va 0) = pte s t0 (vpn va 0)"
      by (simp add: pte_def only_allocates_view [OF only])
    ultimately show ?thesis using c(6) by simp
  qed
  have base': "good_base (base_pointer ?s)"
    using base by (simp add: only_allocates_fields [OF only])
  have "get_base_page ?a = at s t0 0"
    by (rule get_base_page_at) (use base t0 vpn_less [of 0 va] in simp_all)
  then have demand: "demand vms_pte_write va ?a s = Inr ((), ?s)"
    using c(5) w by (simp add: demand_def Let_def pte_prog_simps m e h)
  have "translate_address va ?a ?s = Inr (at s d (offset va), ?s)"
    using maps_translate [OF base' maps'] by (simp add: at1)
  moreover have "mapped ?s (at s d (offset va)) 4"
    using mapped_page [OF base' d(1), of "offset va" 4] off by (simp add: at1)
  ultimately have "vms_write va v s = Inr ((), wr32 (at s d (offset va)) v ?s)"
    using maps_mmu [OF base c(2,3)] demand by (simp add: vms_write_def prog_simps)
  then show thesis using that d only used by blast
qed

text \<open>
  What the writer sees afterwards, and what everybody else does: the page that was shared, and
  every other page but the writer's leaf table, is untouched.
\<close>

lemma cow_write_effect:
  assumes cow: "shared_cow s r va t1 t0 p" and room: "alloc s \<noteq> {..<MAX_PAGES}"
    and off: "offset va + 4 \<le> PAGE_SIZE"
  obtains d s' where "vms_write va v s = Inr ((), s')" "d < MAX_PAGES" "d \<notin> alloc s"
    "alloc s' = insert d (alloc s)" "used_pages s' = used_pages s + 1"
    "base_pointer s' = base_pointer s" "root_page_table s' = root_page_table s"
    "maps s' r va t1 t0 d" "rd32 s' (at s' d (offset va)) = v"
    "\<And>k. k < PAGE_SIZE \<Longrightarrow> k < offset va \<or> offset va + 4 \<le> k \<Longrightarrow> byte s' d k = byte s p k"
    "\<And>q. q \<in> alloc s \<Longrightarrow> q \<noteq> t0 \<Longrightarrow> same_page s s' q"
    "\<And>j. j < NUM_PTE_ENTRIES \<Longrightarrow> j \<noteq> vpn va 0 \<Longrightarrow> pte s' t0 j = pte s t0 j"
    "readable (pte s' t0 (vpn va 0))" "writable (pte s' t0 (vpn va 0))"
    "ref_num s' = (ref_num s)[p := ref_num s ! p - 1, d := ref_num s ! d + 1]"
proof -
  obtain d s1 where d: "d < MAX_PAGES" "d \<notin> alloc s" "alloc s1 = insert d (alloc s)"
      and only: "only_allocates s s1" and used: "used_pages s1 = used_pages s + 1"
      and w: "vms_write va v s =
        Inr ((), wr32 (at s d (offset va)) v (cow_copied s1 t0 (vpn va 0) p d))"
    using cow_write [OF cow room off] by metis
  let ?c = "cow_copied s1 t0 (vpn va 0) p d"
  let ?s = "wr32 (at s d (offset va)) v ?c"
  have c: "{r, t1, t0, p} \<subseteq> alloc s" "p \<notin> {r, t1, t0}" "t0 \<notin> {r, t1}"
      "readable (pte s t0 (vpn va 0))" "custom (pte s t0 (vpn va 0))"
    using cow by (simp_all add: shared_cow_def)
  note view = only_allocates_view [OF only] only_allocates_fields [OF only]
  have at1: "at s1 = at s" and pte1: "pte s1 = pte s" and byte1: "byte s1 = byte s"
    by (simp_all add: pte_def view fun_eq_iff)
  have lt: "t0 < MAX_PAGES" "p < MAX_PAGES" "d \<noteq> t0" "d \<noteq> p" "p \<noteq> t0"
    using c(1,2) d(2) by (auto dest: alloc_less)
  note pages = cow_copied_pages [OF lt(1) d(1) lt(2) vpn_less [of 0 va] lt(3), simplified]
  have same_s1: "same_page s1 s' q = same_page s s' q" for s' q
    by (simp add: same_page_def byte1)
  have maps: "maps ?s r va t1 t0 d"
  proof -
    have "maps (wr32 (at ?c d (offset va)) v ?c) r va t1 t0 d"
      using cow_maps [OF cow d(1,2) only] d(1) off c(1) d(2)
      by (intro maps_wr32) auto
    then show ?thesis by (simp add: at1)
  qed
  have other: "same_page ?c ?s q" if "q < MAX_PAGES" "q \<noteq> d" for q
    using same_page_wr32 [of q d "offset va" ?c v] that d(1) off by (simp add: at1)
  have frame: "same_page s ?s q" if "q \<in> alloc s" "q \<noteq> t0" for q
  proof -
    have "q < MAX_PAGES" "q \<noteq> d" using that d(2) by (auto dest: alloc_less)
    moreover from this have "same_page s ?c q"
      using pages(1) [of q s1] that(2) same_s1 [of ?c q] by simp
    ultimately show ?thesis using other same_page_trans by blast
  qed
  have t0_pte: "pte ?s t0 j = pte ?c t0 j" if "j < NUM_PTE_ENTRIES" for j
    using same_page_pte [OF other [OF lt(1)] that] lt(3) by simp
  have "readable (pte ?s t0 (vpn va 0))" "writable (pte ?s t0 (vpn va 0))"
    using c(4,5) by (simp_all add: t0_pte pages(2) pte1)
  moreover have "byte ?s d k = byte s p k"
    if "k < PAGE_SIZE" "k < offset va \<or> offset va + 4 \<le> k" for k
    using byte_wr32 [of d d k "offset va" ?c v] pages(4) [OF lt(5) that(1)] that d(1) off
    by (simp add: at1 byte1)
  moreover have "alloc ?s = insert d (alloc s)" using d(3) by (simp add: alloc_def)
  moreover have "rd32 ?s (at ?s d (offset va)) = v" by (simp add: at1)
  moreover have "pte ?s t0 j = pte s t0 j" if "j < NUM_PTE_ENTRIES" "j \<noteq> vpn va 0" for j
    using that by (simp add: t0_pte pages(3) pte1)
  ultimately show thesis
    using that w d maps frame used by (simp add: view)
qed

end
