(* ===== verification/Vms_Cow.thy ===== *)
theory Vms_Cow
  imports Vms_Copy Vms_Fault
begin

text \<open>
  Copying an address space on write (\<open>vms_fork_copy_on_write\<close> of \<open>vms/src/vms.c\<close>): the tables are
  copied like in \<open>vms_fork_copy\<close>, but the pages are shared, both entries lose the write permission
  (kept aside in the custom flag), and the references of the page are counted.

  The two outer loops are instances of \<open>copy_table\<close>; the innermost one satisfies the contract
  \<open>copier\<close> for the relation \<open>protecting\<close>, which allows the innermost tables \<open>L\<close> of the parent to
  lose write permissions.
\<close>

section \<open>The functions of vms.c\<close>

definition fork_cow_l0 :: "addr \<Rightarrow> addr \<Rightarrow> unit vm" where
  "fork_cow_l0 src_page_l0 dst_page_l0 =
     for_each (\<lambda>k.
       let src_entry_l0 = vms_page_table_pte_entry_from_index src_page_l0 (int k);
           dst_entry_l0 = vms_page_table_pte_entry_from_index dst_page_l0 (int k)
       in bnd (vms_pte_valid src_entry_l0) (\<lambda>v.
          if \<not> v then skip
          else bnd (vms_pte_get_ppn src_entry_l0) (\<lambda>ppn.
               let page_p = vms_ppn_to_page ppn in
               seq (entry_copy src_entry_l0 dst_entry_l0 page_p)
              (seq (bnd (vms_pte_write src_entry_l0) (\<lambda>w.
                      if w then seq (vms_pte_write_clear dst_entry_l0)
                               (seq (vms_pte_custom_set dst_entry_l0)
                               (seq (vms_pte_write_clear src_entry_l0)
                                    (vms_pte_custom_set src_entry_l0)))
                      else skip))
                   (bnd (gets (\<lambda>s. vms_get_page_index s page_p)) (\<lambda>i. ref_add i 2))))))
       [0..<NUM_PTE_ENTRIES]"

definition fork_cow_l1 :: "addr \<Rightarrow> addr \<Rightarrow> unit vm" where
  "fork_cow_l1 src_page_l1 dst_page_l1 =
     for_each (\<lambda>j.
       let src_entry_l1 = vms_page_table_pte_entry_from_index src_page_l1 (int j);
           dst_entry_l1 = vms_page_table_pte_entry_from_index dst_page_l1 (int j)
       in bnd (vms_pte_valid src_entry_l1) (\<lambda>v.
          if \<not> v then skip
          else bnd vms_new_page (\<lambda>dst_page_l0.
               seq (entry_copy src_entry_l1 dst_entry_l1 dst_page_l0)
              (bnd (vms_pte_get_ppn src_entry_l1) (\<lambda>ppn.
               let src_page_l0 = vms_ppn_to_page ppn in
               fork_cow_l0 src_page_l0 dst_page_l0)))))
       [0..<NUM_PTE_ENTRIES]"

definition fork_cow_l2 :: "addr \<Rightarrow> addr \<Rightarrow> unit vm" where
  "fork_cow_l2 src_page_l2 dst_page_l2 =
     for_each (\<lambda>i.
       let src_entry_l2 = vms_page_table_pte_entry_from_index src_page_l2 (int i);
           dst_entry_l2 = vms_page_table_pte_entry_from_index dst_page_l2 (int i)
       in bnd (vms_pte_valid src_entry_l2) (\<lambda>v.
          if \<not> v then skip
          else bnd vms_new_page (\<lambda>dst_page_l1.
               seq (entry_copy src_entry_l2 dst_entry_l2 dst_page_l1)
              (bnd (vms_pte_get_ppn src_entry_l2) (\<lambda>ppn.
               let src_page_l1 = vms_ppn_to_page ppn in
               fork_cow_l1 src_page_l1 dst_page_l1)))))
       [0..<NUM_PTE_ENTRIES]"

definition vms_fork_copy_on_write :: "addr vm" where
  "vms_fork_copy_on_write =
     bnd vms_get_used_pages (\<lambda>used.
     seq (error_handler (if used \<le> int (MAX_PAGES div 2) then 1 else 0))
    (bnd vms_get_root_page_table (\<lambda>src_page_l2.
     bnd vms_new_page (\<lambda>dst_page_l2.
     seq (fork_cow_l2 src_page_l2 dst_page_l2)
         (ret dst_page_l2)))))"

lemma fork_cow_l1_table: "fork_cow_l1 = copy_table fork_cow_l0"
  unfolding fun_eq_iff fork_cow_l1_def copy_table_def Let_def by simp

lemma fork_cow_l2_table: "fork_cow_l2 = copy_table fork_cow_l1"
  unfolding fun_eq_iff fork_cow_l2_def copy_table_def Let_def by simp

section \<open>Entries without write permission\<close>

definition protect :: "u64 \<Rightarrow> u64" where
  "protect e = (if writable e then set_flag PTE_CUSTOM (clear_flag PTE_WRITE e) else e)"

lemma protect_flags [simp]:
  "valid (protect e) = valid e" "readable (protect e) = readable e" "\<not> writable (protect e)"
  "custom (protect e) \<longleftrightarrow> custom e \<or> writable e" "get_ppn (protect e) = get_ppn e"
  by (simp_all add: protect_def)

lemma protect_idem [simp]: "protect (protect e) = protect e"
  by (simp add: protect_def [of "protect e"])

lemma protect_unwritable: "\<not> writable e \<Longrightarrow> protect e = e"
  by (simp add: protect_def)

text \<open>
  What may happen to the parent while it is being copied: its entries lose the write permission,
  and the pages that they refer to are counted.
\<close>

definition referred :: "nat set \<Rightarrow> vms \<Rightarrow> nat set" where
  "referred L s = {q. \<exists>t \<in> L. \<exists>i < NUM_PTE_ENTRIES. valid (pte s t i) \<and> kid s t i = q}"

definition protecting :: "nat set \<Rightarrow> vms \<Rightarrow> vms \<Rightarrow> bool" where
  "protecting L s s' \<longleftrightarrow> base_pointer s' = base_pointer s \<and>
     (\<forall>q \<in> L. \<forall>i < NUM_PTE_ENTRIES. pte s' q i = pte s q i \<or> pte s' q i = protect (pte s q i)) \<and>
     (\<forall>q < MAX_PAGES. ref_num s ! q \<le> ref_num s' ! q \<and>
        (q \<notin> referred L s \<longrightarrow> ref_num s' ! q = ref_num s ! q))"

lemma protectingD:
  assumes "protecting L s s'"
  shows "q \<in> L \<Longrightarrow> i < NUM_PTE_ENTRIES \<Longrightarrow> pte s' q i = pte s q i \<or> pte s' q i = protect (pte s q i)"
    and "q < MAX_PAGES \<Longrightarrow> ref_num s ! q \<le> ref_num s' ! q"
    and "q < MAX_PAGES \<Longrightarrow> q \<notin> referred L s \<Longrightarrow> ref_num s' ! q = ref_num s ! q"
  using assms unfolding protecting_def by blast+

lemma protecting_referred:
  assumes "protecting L s s'"
  shows "referred L s' = referred L s"
proof -
  have "valid (pte s' t i) = valid (pte s t i) \<and> kid s' t i = kid s t i" if "t \<in> L" "i < NUM_PTE_ENTRIES" for t i
    using assms that by (force simp: protecting_def kid_def vms_get_page_index_def)
  then show ?thesis
    unfolding referred_def by (intro Collect_cong bex_cong ex_cong1 conj_cong refl) simp_all
qed

lemma protecting_trans:
  assumes "protecting L s s'" and "protecting L s' s''"
  shows "protecting L s s''"
  unfolding protecting_def
proof (intro conjI ballI allI impI)
  note D = protectingD [OF assms(1)] and D' = protectingD [OF assms(2)]
  show "base_pointer s'' = base_pointer s" using assms by (simp add: protecting_def)
  show "pte s'' q i = pte s q i \<or> pte s'' q i = protect (pte s q i)" if "q \<in> L" "i < NUM_PTE_ENTRIES" for q i
    using D(1) [OF that] D'(1) [OF that] by auto
  show "ref_num s ! q \<le> ref_num s'' ! q" if "q < MAX_PAGES" for q
    using D(2) [OF that] D'(2) [OF that] by simp
  show "ref_num s'' ! q = ref_num s ! q" if "q < MAX_PAGES" "q \<notin> referred L s" for q
    using D(3) [OF that] D'(3) [OF that(1)] that(2) protecting_referred [OF assms(1)] by simp
qed

lemma protecting_grows:
  "grows D s s' \<Longrightarrow> ref_num s' = ref_num s \<Longrightarrow> D \<inter> L = {} \<Longrightarrow> L \<subseteq> alloc s \<Longrightarrow> protecting L s s'"
  using grows_pte [of D s s'] by (fastforce simp: protecting_def grows_def)

text \<open>An innermost table of the parent, and what the copy on write makes of it.\<close>

definition leaf_wf :: "nat set \<Rightarrow> vms \<Rightarrow> nat \<Rightarrow> bool" where
  "leaf_wf L s t \<longleftrightarrow> t \<in> alloc s \<and> t \<in> L \<and>
     (\<forall>i < NUM_PTE_ENTRIES. valid (pte s t i) \<longrightarrow> linked s t i)"

definition leaf_entry_shared :: "vms \<Rightarrow> nat \<Rightarrow> vms \<Rightarrow> nat \<Rightarrow> nat \<Rightarrow> bool" where
  "leaf_entry_shared s t s' t' i \<longleftrightarrow>
     (if valid (pte s t i)
      then linked s t i \<and> pte s' t i = protect (pte s t i) \<and>
           same_flags (protect (pte s t i)) (pte s' t' i) \<and>
           entry_page (pte s' t' i) = entry_page (pte s t i) \<and>
           ref_num s ! kid s t i + 2 \<le> ref_num s' ! kid s t i
      else pte s' t' i = 0)"

definition leaf_shared :: "nat set \<Rightarrow> nat set \<Rightarrow> vms \<Rightarrow> nat \<Rightarrow> vms \<Rightarrow> nat \<Rightarrow> bool" where
  "leaf_shared L A s t s' t' \<longleftrightarrow> t \<in> L \<and> t' \<in> alloc s' \<and> t' \<notin> A \<and>
     (\<forall>i < NUM_PTE_ENTRIES. leaf_entry_shared s t s' t' i)"

abbreviation cow_l1_wf :: "nat set \<Rightarrow> vms \<Rightarrow> nat \<Rightarrow> bool" where
  "cow_l1_wf L \<equiv> table_wf L (leaf_wf L)"
abbreviation cow_wf :: "nat set \<Rightarrow> vms \<Rightarrow> nat \<Rightarrow> bool" where
  "cow_wf L \<equiv> table_wf L (cow_l1_wf L)"
abbreviation cow_l1_copy :: "nat set \<Rightarrow> nat set \<Rightarrow> vms \<Rightarrow> nat \<Rightarrow> vms \<Rightarrow> nat \<Rightarrow> bool" where
  "cow_l1_copy L \<equiv> table_copy (leaf_shared L) self_page"
abbreviation cow_copy :: "nat set \<Rightarrow> nat set \<Rightarrow> vms \<Rightarrow> nat \<Rightarrow> vms \<Rightarrow> nat \<Rightarrow> bool" where
  "cow_copy L \<equiv> table_copy (cow_l1_copy L) (table_pages self_page)"

lemma leaf_entry_shared_stable:
  assumes "leaf_entry_shared s t s' t' i" and "protecting L s' s''" and "t \<in> L"
    and "i < NUM_PTE_ENTRIES" and "pte s'' t' i = pte s' t' i" and "base_pointer s'' = base_pointer s'"
  shows "leaf_entry_shared s t s'' t' i"
proof (cases "valid (pte s t i)")
  case True
  then have e: "linked s t i" "pte s' t i = protect (pte s t i)"
      "ref_num s ! kid s t i + 2 \<le> ref_num s' ! kid s t i"
    using assms(1) by (simp_all add: leaf_entry_shared_def)
  then have "kid s t i < MAX_PAGES" by (auto simp: linked_def dest: alloc_less)
  then have "ref_num s ! kid s t i + 2 \<le> ref_num s'' ! kid s t i"
    using e(3) assms(2) by (fastforce simp: protecting_def)
  moreover have "pte s'' t i = protect (pte s t i)"
    using e(2) assms(2-4) by (fastforce simp: protecting_def)
  ultimately show ?thesis using assms(1,5) True by (simp add: leaf_entry_shared_def)
next
  case False
  then show ?thesis using assms(1,5) by (simp add: leaf_entry_shared_def)
qed

section \<open>The innermost loop\<close>

text \<open>The state after one valid entry.\<close>

definition cow_entry :: "vms \<Rightarrow> nat \<Rightarrow> nat \<Rightarrow> nat \<Rightarrow> nat \<Rightarrow> vms" where
  "cow_entry s t d i p =
     (let e = pte s t i;
          s1 = wr64 (at s d (8 * i)) (protect (copied_entry e (pte s d i) (drop_bit 12 (at s p 0)))) s;
          s2 = (if writable e then wr64 (at s t (8 * i)) (protect e) s1 else s1)
      in s2\<lparr>ref_num := (ref_num s)[p := ref_num s ! p + 2]\<rparr>)"

lemma cow_entry_fields [simp]:
  "base_pointer (cow_entry s t d i p) = base_pointer s"
  "allocated (cow_entry s t d i p) = allocated s" "used_pages (cow_entry s t d i p) = used_pages s"
  "root_page_table (cow_entry s t d i p) = root_page_table s" "errno (cow_entry s t d i p) = errno s"
  "ref_num (cow_entry s t d i p) = (ref_num s)[p := ref_num s ! p + 2]"
  by (simp_all add: cow_entry_def Let_def)

lemma at_cow_entry [simp]: "at (cow_entry s t d i p) = at s"
  by (rule at_base) simp

lemma cow_entry_frame:
  assumes "t < MAX_PAGES" "d < MAX_PAGES" "i < NUM_PTE_ENTRIES" "t \<noteq> d"
  shows "q < MAX_PAGES \<Longrightarrow> q \<noteq> d \<Longrightarrow> q \<noteq> t \<Longrightarrow> same_page s (cow_entry s t d i p) q"
    and "pte (cow_entry s t d i p) t i = protect (pte s t i)"
    and "pte (cow_entry s t d i p) d i =
      protect (copied_entry (pte s t i) (pte s d i) (drop_bit 12 (at s p 0)))"
    and "j < NUM_PTE_ENTRIES \<Longrightarrow> j \<noteq> i \<Longrightarrow> q \<in> {t, d} \<Longrightarrow> pte (cow_entry s t d i p) q j = pte s q j"
proof -
  let ?x = "protect (copied_entry (pte s t i) (pte s d i) (drop_bit 12 (at s p 0)))"
  let ?s1 = "wr64 (at s d (8 * i)) ?x s"
  let ?s2 = "if writable (pte s t i) then wr64 (at s t (8 * i)) (protect (pte s t i)) ?s1 else ?s1"
  have eq: "cow_entry s t d i p = ?s2\<lparr>ref_num := (ref_num s)[p := ref_num s ! p + 2]\<rparr>"
    by (simp add: cow_entry_def Let_def)
  have w2: "wr64 (at s t (8 * i)) v ?s1 = wr64 (at ?s1 t (8 * i)) v ?s1" for v by simp
  show "same_page s (cow_entry s t d i p) q" if "q < MAX_PAGES" "q \<noteq> d" "q \<noteq> t"
  proof -
    have "same_page s ?s1 q" using that assms by (intro same_page_wr64) auto
    moreover have "same_page ?s1 (wr64 (at s t (8 * i)) v ?s1) q" for v
      unfolding w2 using that assms by (intro same_page_wr64) auto
    ultimately show ?thesis unfolding eq same_page_ref_num by (auto intro: same_page_trans)
  qed
  have t1: "pte ?s1 t i = pte s t i" using assms by (intro pte_wr64_other) auto
  show "pte (cow_entry s t d i p) t i = protect (pte s t i)"
    unfolding eq pte_ref_num w2 using t1 by (simp only: if_distrib [of "\<lambda>s. pte s t i"] pte_wr64_same)
      (simp add: protect_unwritable)
  show "pte (cow_entry s t d i p) d i = ?x"
    unfolding eq pte_ref_num w2 using assms pte_wr64_other [of d t i i ?s1]
    by (simp only: if_distrib [of "\<lambda>s. pte s d i"] pte_wr64_same) auto
  show "pte (cow_entry s t d i p) q j = pte s q j" if "j < NUM_PTE_ENTRIES" "j \<noteq> i" "q \<in> {t, d}"
  proof -
    have "q < MAX_PAGES" using that assms by auto
    then have a: "pte ?s1 q j = pte s q j"
      using that assms by (intro pte_wr64_other) auto
    have b: "pte (wr64 (at ?s1 t (8 * i)) v ?s1) q j = pte ?s1 q j" for v
      using \<open>q < MAX_PAGES\<close> that assms by (intro pte_wr64_other) auto
    show ?thesis unfolding eq pte_ref_num w2 by (simp only: a b split: if_split) simp
  qed
qed

lemma protect_copied_entry:
  "writable e \<Longrightarrow> set_flag PTE_CUSTOM (clear_flag PTE_WRITE (copied_entry e x ppn)) = protect (copied_entry e x ppn)"
  "\<not> writable e \<Longrightarrow> copied_entry e x ppn = protect (copied_entry e x ppn)"
  using same_flags_copied_entry [of e x ppn] by (simp_all add: protect_def same_flags_def)

lemma cow_entry_apply:
  assumes base: "good_base (base_pointer s)" and lt: "t < MAX_PAGES" "d < MAX_PAGES" "p < MAX_PAGES"
    and n: "n < NUM_PTE_ENTRIES" and td: "t \<noteq> d"
    and src: "entry_page (pte s t n) = at s p 0"
    and zero: "pte s d n = x"
  shows "seq (entry_copy (at s t (8 * n)) (at s d (8 * n)) (at s p 0))
      (seq (bnd (vms_pte_write (at s t (8 * n))) (\<lambda>w.
              if w then seq (vms_pte_write_clear (at s d (8 * n)))
                       (seq (vms_pte_custom_set (at s d (8 * n)))
                       (seq (vms_pte_write_clear (at s t (8 * n)))
                            (vms_pte_custom_set (at s t (8 * n)))))
              else skip))
           (bnd (gets (\<lambda>s'. vms_get_page_index s' (at s p 0))) (\<lambda>i. ref_add i 2))) s =
    Inr ((), cow_entry s t d n p)"
proof -
  let ?d = "at s d (8 * n)" and ?t = "at s t (8 * n)"
  let ?c = "copied_entry (pte s t n) (pte s d n) (drop_bit 12 (at s p 0))"
  have m: "mapped s ?t 8" "mapped s ?d 8" using base lt n by (auto intro: mapped_pte)
  have ap: "apart ?d 8 ?t 8" using lt n td by (intro at_apart) auto
  have rd: "rd64 s ?t = pte s t n" "rd64 s ?d = pte s d n" by (simp_all add: pte_def)
  have copy: "entry_copy ?t ?d (at s p 0) s = Inr ((), wr64 ?d ?c s)"
    using entry_copy_apply [OF m ap page_to_ppn_at [OF base lt(3)]] by (simp add: rd)
  have idx: "vms_get_page_index s' (at s p 0) = int p" if "base_pointer s' = base_pointer s" for s'
    using page_index_at [OF lt(3), of 0 s'] at_base [OF that] by simp
  have wr: "set_flag PTE_CUSTOM (clear_flag PTE_WRITE (pte s t n)) = protect (pte s t n)"
    if "writable (pte s t n)" using that by (simp add: protect_def)
  show ?thesis
  proof (cases "writable (pte s t n)")
    case True
    then show ?thesis
      using m ap copy lt(3)
      by (simp add: pte_prog_simps rd rd64_wr64_apart ref_add_def idx cow_entry_def Let_def wr
          protect_copied_entry(1))
  next
    case False
    then have "protect ?c = ?c" using protect_copied_entry(2) by metis
    then show ?thesis
      using False m ap copy lt(3)
      by (simp add: pte_prog_simps rd rd64_wr64_apart ref_add_def idx cow_entry_def Let_def)
  qed
qed

text \<open>Before iteration \<open>n\<close> of the loop over the entries of \<open>t\<close>.\<close>

definition cow_inv :: "nat set \<Rightarrow> vms \<Rightarrow> nat \<Rightarrow> vms \<Rightarrow> nat \<Rightarrow> nat \<Rightarrow> vms \<Rightarrow> bool" where
  "cow_inv L s0 t s d n s' \<longleftrightarrow> step L (protecting L) {d} s s' \<and> alloc s' = alloc s \<and>
     (\<forall>i < n. leaf_entry_shared s0 t s' d i) \<and>
     (\<forall>i. n \<le> i \<and> i < NUM_PTE_ENTRIES \<longrightarrow> pte s' d i = 0)"

lemma cow_entry_step:
  assumes inv: "pages_inv s" and t: "t \<in> L" "L \<subseteq> alloc s" and d: "d \<in> alloc s" "d \<notin> L"
    and n: "n < NUM_PTE_ENTRIES" and p: "p < MAX_PAGES" "valid (pte s t n)" "kid s t n = p"
  shows "step L (protecting L) {d} s (cow_entry s t d n p)"
proof -
  let ?s = "cow_entry s t d n p"
  have lt: "t < MAX_PAGES" "d < MAX_PAGES" "t \<noteq> d" using t d by (auto dest: alloc_less)
  note frame = cow_entry_frame [OF lt(1,2) n lt(3), where s = s and p = p]
  have ref: "p \<in> referred L s" using t(1) n p(2,3) unfolding referred_def by blast
  have al: "alloc ?s = alloc s" by (simp add: alloc_def)
  have "pages_inv ?s"
    using t(1) t(2) d(1) by (intro pages_inv_update [OF inv] frame) auto
  moreover have "same_page s ?s q" if "q \<in> alloc s - ({d} \<union> L)" for q
    using that t(1) by (intro frame(1)) (auto dest: alloc_less)
  ultimately have "grows ({d} \<union> L) s ?s" by (simp add: grows_def al)
  moreover have "protecting L s ?s"
    unfolding protecting_def
  proof (intro conjI ballI allI impI)
    fix q i assume q: "q \<in> L" and i: "i < NUM_PTE_ENTRIES"
    have "pte ?s q i = pte s q i" if "q \<noteq> t"
      using that q d(2) t(2) i by (intro same_page_pte frame(1)) (auto dest: alloc_less)
    then show "pte ?s q i = pte s q i \<or> pte ?s q i = protect (pte s q i)"
      using frame(2) frame(4) [of i t] i by (cases "q = t"; cases "i = n") auto
  next
    fix q :: nat assume "q < MAX_PAGES"
    then show "ref_num s ! q \<le> ref_num ?s ! q"
      using inv by (cases "q = p") (auto simp: pages_inv_def)
    show "q \<notin> referred L s \<Longrightarrow> ref_num ?s ! q = ref_num s ! q"
      using ref by (cases "q = p") auto
  qed simp
  ultimately show ?thesis by (simp add: step_def)
qed

lemma cow_round:
  assumes pre: "copy_pre L (protecting L) (leaf_wf L) A s0 t s d" and inv: "cow_inv L s0 t s d n sn"
    and n: "n < NUM_PTE_ENTRIES"
  shows "step L (protecting L) {d} s sn" "alloc sn = alloc s" "pte sn d n = 0" "protecting L s0 sn"
    "at s = at sn" "at s0 = at sn" "t \<in> L" "d \<notin> L" "L \<subseteq> alloc sn" "d \<in> alloc sn"
    "t < MAX_PAGES" "d < MAX_PAGES" "t \<noteq> d" "pages_inv sn" "good_base (base_pointer sn)"
    "valid (pte sn t n) = valid (pte s0 t n)" "entry_page (pte sn t n) = entry_page (pte s0 t n)"
    "protect (pte sn t n) = protect (pte s0 t n)"
proof -
  have pre': "step L (protecting L) {} s0 s" "leaf_wf L s0 t" "L \<subseteq> alloc s0" "d \<in> alloc s" "d \<notin> alloc s0"
    using pre by (simp_all add: copy_pre_def)
  show g: "step L (protecting L) {d} s sn" and al: "alloc sn = alloc s" and "pte sn d n = 0"
    using inv n by (simp_all add: cow_inv_def)
  show t: "t \<in> L" using pre'(2) by (simp add: leaf_wf_def)
  have t0: "t \<in> alloc s0" using pre'(2) by (simp add: leaf_wf_def)
  show "d \<notin> L" "L \<subseteq> alloc sn" "d \<in> alloc sn" using pre' step_alloc [OF pre'(1)] al by auto
  show "t < MAX_PAGES" "d < MAX_PAGES" "t \<noteq> d" using t0 pre'(4,5) by (auto dest: alloc_less)
  show "pages_inv sn" using g by (rule step_inv)
  then show "good_base (base_pointer sn)" by (simp add: pages_inv_def)
  show prot: "protecting L s0 sn" using pre'(1) g protecting_trans by (auto simp: step_def)
  show "at s = at sn" "at s0 = at sn" using step_at [OF g] step_at [OF pre'(1)] by simp_all
  have "pte sn t n = pte s0 t n \<or> pte sn t n = protect (pte s0 t n)"
    using prot t n by (simp add: protecting_def)
  then show "valid (pte sn t n) = valid (pte s0 t n)" "entry_page (pte sn t n) = entry_page (pte s0 t n)"
    "protect (pte sn t n) = protect (pte s0 t n)" by auto
qed

text \<open>The entry that a round shares, and the entries that it leaves.\<close>

lemma cow_round_shares:
  assumes pre: "copy_pre L (protecting L) (leaf_wf L) A s0 t s d" and inv: "cow_inv L s0 t s d n sn"
    and n: "n < NUM_PTE_ENTRIES" and v: "valid (pte s0 t n)"
  shows "cow_inv L s0 t s d (Suc n) (cow_entry sn t d n (kid s0 t n))"
proof -
  let ?p = "kid s0 t n" and ?s = "cow_entry sn t d n (kid s0 t n)"
  note r = cow_round [OF pre inv n]
  have link: "linked s0 t n" using pre n v by (simp add: copy_pre_def leaf_wf_def)
  then have p: "?p < MAX_PAGES" "entry_page (pte s0 t n) = at sn ?p 0"
    by (auto simp: linked_def r(6) dest: alloc_less)
  note frame = cow_entry_frame [OF r(11,12) n r(13), where s = sn and p = ?p]
  have "entry_page (pte sn t n) = at sn ?p 0" using p(2) r(17) by simp
  then have valid_kid: "valid (pte sn t n)" "kid sn t n = ?p" using v r(16) kidI p(1) by simp_all
  have step: "step L (protecting L) {d} sn ?s"
    using r(14,7,9,10,8) n p(1) valid_kid by (rule cow_entry_step)
  have new: "leaf_entry_shared s0 t ?s d n"
  proof -
    let ?c = "copied_entry (pte sn t n) 0 (drop_bit 12 (at sn ?p 0))"
    have "entry_page (protect ?c) = at sn ?p 0"
      using entry_page_set_ppn [OF r(15) p(1), of 0] by (simp add: ppn_copied_entry)
    moreover have "same_flags (protect (pte sn t n)) (protect ?c)"
      using same_flags_copied_entry [of "pte sn t n" 0] by (auto simp: same_flags_def)
    moreover have "ref_num s0 ! ?p + 2 \<le> ref_num ?s ! ?p"
      using r(4,14) p(1) by (simp add: protecting_def pages_inv_def)
    ultimately show ?thesis
      using v link p(2) by (simp add: leaf_entry_shared_def frame(2,3) r(3,18))
  qed
  have "leaf_entry_shared s0 t ?s d i" if "i < n" for i
  proof (rule leaf_entry_shared_stable)
    show "leaf_entry_shared s0 t sn d i" using inv that by (simp add: cow_inv_def)
    show "protecting L sn ?s" using step by (simp add: step_def)
    show "pte ?s d i = pte sn d i" using that n by (intro frame(4)) auto
  qed (use r(7) that n in simp_all)
  moreover have "pte ?s d i = 0" if "Suc n \<le> i" "i < NUM_PTE_ENTRIES" for i
    using frame(4) [of i d] inv that by (simp add: cow_inv_def)
  moreover have "step L (protecting L) {d} s ?s"
    using r(1) step grows_trans [of "{d} \<union> L" s sn "{d} \<union> L" ?s] protecting_trans by (auto simp: step_def)
  moreover have "alloc ?s = alloc s" using r(2) by (simp add: alloc_def)
  ultimately show ?thesis using new by (auto simp: cow_inv_def less_Suc_eq)
qed

lemma cow_loop_step:
  assumes pre: "copy_pre L (protecting L) (leaf_wf L) A s0 t s d" and n: "n < NUM_PTE_ENTRIES"
  shows "triple (cow_inv L s0 t s d n)
    (let src_entry_l0 = vms_page_table_pte_entry_from_index (at s t 0) (int n);
         dst_entry_l0 = vms_page_table_pte_entry_from_index (at s d 0) (int n)
     in bnd (vms_pte_valid src_entry_l0) (\<lambda>v.
        if \<not> v then skip
        else bnd (vms_pte_get_ppn src_entry_l0) (\<lambda>ppn.
             let page_p = vms_ppn_to_page ppn in
             seq (entry_copy src_entry_l0 dst_entry_l0 page_p)
            (seq (bnd (vms_pte_write src_entry_l0) (\<lambda>w.
                    if w then seq (vms_pte_write_clear dst_entry_l0)
                             (seq (vms_pte_custom_set dst_entry_l0)
                             (seq (vms_pte_write_clear src_entry_l0)
                                  (vms_pte_custom_set src_entry_l0)))
                    else skip))
                 (bnd (gets (\<lambda>s. vms_get_page_index s page_p)) (\<lambda>i. ref_add i 2))))))
    (\<lambda>_. cow_inv L s0 t s d (Suc n)) (\<lambda>_. False)"
    (is "triple _ ?body _ _")
proof (rule tripleI)
  fix sn assume inv: "cow_inv L s0 t s d n sn"
  note r = cow_round [OF pre inv n]
  have m: "mapped sn (at sn t (8 * n)) 8" using r(15,11) n by (rule mapped_pte)
  have rd: "rd64 sn (at sn t (8 * n)) = pte sn t n" by (simp add: pte_def)
  show "case ?body sn of Inl e \<Rightarrow> False | Inr (u, s') \<Rightarrow> cow_inv L s0 t s d (Suc n) s'"
  proof (cases "valid (pte s0 t n)")
    case False
    then have "?body sn = Inr ((), sn)"
      by (simp add: Let_def r(5) entry_from_index_at pte_prog_simps m rd r(16))
    moreover have "leaf_entry_shared s0 t sn d n"
      using False r(3) by (simp add: leaf_entry_shared_def)
    ultimately show ?thesis using inv by (auto simp: cow_inv_def less_Suc_eq)
  next
    case True
    then have "linked s0 t n" using pre n by (simp add: copy_pre_def leaf_wf_def)
    then have p: "kid s0 t n < MAX_PAGES" "entry_page (pte s0 t n) = at sn (kid s0 t n) 0"
      by (auto simp: linked_def r(6) dest: alloc_less)
    have "?body sn = Inr ((), cow_entry sn t d n (kid s0 t n))"
      using cow_entry_apply [OF r(15,11,12) p(1) n r(13) _ r(3)] True m rd
      by (simp add: Let_def r(5) entry_from_index_at pte_prog_simps r(16,17) p(2) bnd_apply [of "vms_pte_valid a" for a])
    then show ?thesis using cow_round_shares [OF pre inv n True] by simp
  qed
qed

lemma copy_pre_zero:
  "copy_pre L J W A s0 t s d \<Longrightarrow> i < NUM_PTE_ENTRIES \<Longrightarrow> pte s d i = 0"
  unfolding pte_bytes copy_pre_def by (intro word_of_bytes_zero) auto

lemma cow_loop:
  assumes pre: "copy_pre L (protecting L) (leaf_wf L) A s0 t s d"
  shows "triple (\<lambda>s'. s' = s) (fork_cow_l0 (at s t 0) (at s d 0))
    (\<lambda>_. copy_post L (protecting L) (leaf_shared L) data_size A s0 t s d) (copy_fails data_size s0 t s)"
proof (rule triple_conseq)
  show "triple (cow_inv L s0 t s d 0) (fork_cow_l0 (at s t 0) (at s d 0))
      (\<lambda>_. cow_inv L s0 t s d NUM_PTE_ENTRIES) (\<lambda>_. False)"
    unfolding fork_cow_l0_def by (rule triple_for_upt) (rule cow_loop_step [OF pre])
next
  show "cow_inv L s0 t s d 0 s'" if "s' = s" for s'
    using pre that copy_pre_zero [OF pre]
    by (auto simp: cow_inv_def copy_pre_def step_def protecting_def grows_def)
next
  fix x s' assume "cow_inv L s0 t s d NUM_PTE_ENTRIES s'"
  then show "copy_post L (protecting L) (leaf_shared L) data_size A s0 t s d s'"
    using pre by (auto simp: cow_inv_def copy_post_def leaf_shared_def copy_pre_def leaf_wf_def)
qed simp

interpretation cow_l0: copier L "protecting L" fork_cow_l0 "leaf_wf L" "leaf_shared L" self_page data_size
  for L :: "nat set"
proof
  fix A s0 t s d assume "copy_pre L (protecting L) (leaf_wf L) A s0 t s d"
  then show "triple (\<lambda>s'. s' = s) (fork_cow_l0 (at s t 0) (at s d 0))
      (\<lambda>_. copy_post L (protecting L) (leaf_shared L) data_size A s0 t s d) (copy_fails data_size s0 t s)"
    by (rule cow_loop)
next
  fix A s t s' t' D s''
  assume c: "leaf_shared L A s t s' t'" and g: "step L (protecting L) D s' s''"
    and sub: "D \<subseteq> A" "L \<subseteq> A"
  have "pte s'' t' i = pte s' t' i" if "i < NUM_PTE_ENTRIES" for i
    using c sub that by (intro step_pte [OF g]) (auto simp: leaf_shared_def)
  moreover have "protecting L s' s''" "base_pointer s'' = base_pointer s'"
    using g by (simp_all add: step_def grows_def)
  ultimately show "leaf_shared L A s t s'' t'"
    using c step_alloc [OF g] by (auto simp: leaf_shared_def intro: leaf_entry_shared_stable)
qed (auto simp: leaf_shared_def leaf_wf_def self_page_def intro: protecting_grows protecting_trans)

interpretation cow_l1: copier L "protecting L" fork_cow_l1 "cow_l1_wf L" "cow_l1_copy L" "table_pages self_page" l0_size
  for L :: "nat set"
  unfolding fork_cow_l1_table by (rule cow_l0.copier_copy_table)

interpretation cow_l2: copier L "protecting L" fork_cow_l2 "cow_wf L" "cow_copy L" "table_pages (table_pages self_page)"
    l1_size
  for L :: "nat set"
  unfolding fork_cow_l2_table by (rule cow_l1.copier_copy_table)

section \<open>The whole fork\<close>

lemma fork_cow_refused:
  "int (MAX_PAGES div 2) < used_pages s \<Longrightarrow> vms_fork_copy_on_write s = Inl (Exit (errno s))"
  by (simp add: vms_fork_copy_on_write_def vms_get_used_pages_def error_handler_def prog_simps)

lemma fork_cow_outcome:
  assumes inv: "pages_inv s" and root: "root_page_table s = at s r 0"
    and wf: "cow_wf L s r" "L \<subseteq> alloc s"
    and room: "used_pages s \<le> int (MAX_PAGES div 2)"
  shows "case vms_fork_copy_on_write s of
      Inl e \<Rightarrow> e = Exit ENOMEM \<and> MAX_PAGES < card (alloc s) + Suc (l1_size s r)
    | Inr (a, s') \<Rightarrow> \<exists>r'. a = at s r' 0 \<and> step L (protecting L) {} s s' \<and>
        cow_copy L (alloc s) s r s' r' \<and>
        card (alloc s') = card (alloc s) + Suc (l1_size s r)"
proof -
  have start: "vms_fork_copy_on_write s =
      bnd vms_new_page (\<lambda>d. seq (fork_cow_l2 (at s r 0) d) (ret d)) s"
    using room root by (simp add: vms_fork_copy_on_write_def vms_get_used_pages_def error_handler_def
        vms_get_root_page_table_def prog_simps)
  from inv show ?thesis
  proof (cases rule: pages.new_page_cases)
    case full
    then show ?thesis by (simp add: start)
  next
    case (ok d s1)
    have g1: "grows {} s s1" using ok(4,5,7) by (rule grows_new_page)
    have at1: "at s1 = at s" using g1 by (rule grows_at)
    have step1: "step L (protecting L) {} s s1"
      using g1 wf(2) only_allocates_fields [OF ok(7)] by (intro cow_l2.step_of_grows) auto
    have r: "r \<in> alloc s" using wf by (simp add: table_wf_def)
    have zero: "byte s1 d off = 0" if "off < PAGE_SIZE" for off
      using pages.fresh_zero [OF inv ok(2,3) that] by (simp add: only_allocates_view [OF ok(7)])
    have pre: "copy_pre L (protecting L) (cow_wf L) (alloc s) s r s1 d"
      using ok step1 wf r zero by (auto simp: copy_pre_def)
    show ?thesis
      using cow_l2.copies [OF pre] refl [of s1]
    proof (cases rule: triple_cases)
      case (stopped e)
      then show ?thesis using ok(1,3,4) by (simp add: start at1 copy_fails_def)
    next
      case (ok u s2)
      have "step L (protecting L) {} s s2"
        using step1 ok(2) \<open>d \<notin> alloc s\<close> by (auto simp: copy_post_def intro: cow_l2.step_trans)
      then show ?thesis
        using ok \<open>vms_new_page s = Inr (at s d 0, s1)\<close> \<open>d \<notin> alloc s\<close>
          \<open>alloc s1 = insert d (alloc s)\<close>
        by (simp add: start at1 copy_post_def) blast
    qed
  qed
qed

section \<open>Parent and child\<close>

lemma fork_cow_ok:
  assumes "pages_inv s" "root_page_table s = at s r 0" "cow_wf L s r" "L \<subseteq> alloc s"
    "vms_fork_copy_on_write s = Inr (a, s')"
  obtains r' where "a = at s r' 0" "step L (protecting L) {} s s'" "cow_copy L (alloc s) s r s' r'"
    "at s' = at s" "pages_inv s'" "root_page_table s' = root_page_table s"
proof -
  have "used_pages s \<le> int (MAX_PAGES div 2)"
    using assms(5) fork_cow_refused [of s] by (rule_tac ccontr) simp
  then obtain r' where r': "a = at s r' 0" "step L (protecting L) {} s s'" "cow_copy L (alloc s) s r s' r'"
    using fork_cow_outcome [OF assms(1-4)] assms(5) by auto
  moreover have "root_page_table s' = root_page_table s" using r'(2) by (simp add: step_def grows_def)
  ultimately show thesis using that step_at [OF r'(2)] step_inv [OF r'(2)] by blast
qed

text \<open>What the parent maps before, both map after, without write permission.\<close>

lemma cow_copy_maps:
  assumes wf: "cow_wf L s r" "L \<subseteq> alloc s" and copy: "cow_copy L (alloc s) s r s' r'"
    and step: "step L (protecting L) {} s s'"
    and maps: "maps s r va t1 t0 p" and rd: "readable (pte s t0 (vpn va 0))"
  obtains u1 u0 where "maps s' r va t1 t0 p" "maps s' r' va u1 u0 p"
    "{r, t1, t0, p} \<subseteq> alloc s" "t0 \<in> L" "r \<notin> L" "t1 \<notin> L"
    "{r', u1, u0} \<subseteq> alloc s' - alloc s" "u0 \<notin> {r', u1}"
    "pte s' t0 (vpn va 0) = protect (pte s t0 (vpn va 0))"
    "same_flags (protect (pte s t0 (vpn va 0))) (pte s' u0 (vpn va 0))"
    "ref_num s ! p + 2 \<le> ref_num s' ! p"
proof -
  have r: "r < MAX_PAGES" using maps by (simp add: maps_def)
  note m = maps [unfolded maps_iff [OF r] Let_def]
  have v: "valid (pte s r (vpn va 2))" "valid (pte s t1 (vpn va 1))" "valid (pte s t0 (vpn va 0))"
    using m by (auto intro: faults_valid)
  have w2: "r \<in> alloc s" "r \<notin> L" "cow_l1_wf L s t1"
    using wf m v(1) by (auto simp: table_wf_def [of _ "cow_l1_wf L"])
  have w1: "t1 \<in> alloc s" "t1 \<notin> L" "leaf_wf L s t0"
    using w2(3) m v(2) by (auto simp: table_wf_def [of _ "leaf_wf L"])
  have w0: "t0 \<in> alloc s" "t0 \<in> L" "linked s t0 (vpn va 0)"
    using w1(3) v(3) by (auto simp: leaf_wf_def)
  have c2: "r' \<in> alloc s'" "r' \<notin> alloc s" "entry_copied (cow_l1_copy L) (alloc s) s r s' r' (vpn va 2)"
    using copy by (simp_all add: table_copy_def)
  let ?u1 = "kid s' r' (vpn va 2)"
  have e2: "same_flags (pte s r (vpn va 2)) (pte s' r' (vpn va 2))" "linked s' r' (vpn va 2)"
      "cow_l1_copy L (insert r' (alloc s)) s t1 s' ?u1"
    using entry_copied_step [OF c2(3) v(1)] m by simp_all
  have c1: "?u1 \<in> alloc s'" "?u1 \<notin> insert r' (alloc s)"
      "entry_copied (leaf_shared L) (insert r' (alloc s)) s t1 s' ?u1 (vpn va 1)"
    using e2(3) by (simp_all add: table_copy_def)
  let ?u0 = "kid s' ?u1 (vpn va 1)"
  have e1: "same_flags (pte s t1 (vpn va 1)) (pte s' ?u1 (vpn va 1))" "linked s' ?u1 (vpn va 1)"
      "leaf_shared L (insert ?u1 (insert r' (alloc s))) s t0 s' ?u0"
    using entry_copied_step [OF c1(3) v(2)] m by simp_all
  have c0: "?u0 \<in> alloc s'" "?u0 \<notin> insert ?u1 (insert r' (alloc s))"
      "leaf_entry_shared s t0 s' ?u0 (vpn va 0)"
    using e1(3) by (simp_all add: leaf_shared_def)
  have e0: "pte s' t0 (vpn va 0) = protect (pte s t0 (vpn va 0))"
      "same_flags (protect (pte s t0 (vpn va 0))) (pte s' ?u0 (vpn va 0))"
      "entry_page (pte s' ?u0 (vpn va 0)) = at s p 0" "ref_num s ! p + 2 \<le> ref_num s' ! p"
    using c0(3) v(3) m by (simp_all add: leaf_entry_shared_def)
  have at: "at s' = at s" using step by (rule step_at)
  have up: "pte s' r (vpn va 2) = pte s r (vpn va 2)" "pte s' t1 (vpn va 1) = pte s t1 (vpn va 1)"
    using w2 w1 by (auto intro!: step_pte [OF step])
  have f0: "\<not> faults 0 (protect (pte s t0 (vpn va 0)))"
    using v(3) rd by (simp add: faults_def)
  have "maps s' r va t1 t0 p"
    using maps f0 up by (simp add: maps_def e0(1) at)
  moreover have "maps s' r' va ?u1 ?u0 p"
    using m f0 same_flags_faults [OF e2(1)] same_flags_faults [OF e1(1)] same_flags_faults [OF e0(2)]
      linked_less [OF e2(2)] linked_less [OF e1(2)] e2(2) e1(2) e0(3) alloc_less [OF c2(1)]
    by (simp add: maps_def linked_def at)
  moreover have "p \<in> alloc s" using w0(3) m by (simp add: linked_def)
  ultimately show thesis
    using w2 w1 w0 c2 c1 c0 e0 by (intro that [of ?u1 ?u0]) auto
qed

lemma fork_cow_address:
  assumes "pages_inv s" "root_page_table s = at s r 0" "cow_wf L s r" "L \<subseteq> alloc s"
    "vms_fork_copy_on_write s = Inr (a, s')"
    and maps: "maps s r va t1 t0 p" and rd: "readable (pte s t0 (vpn va 0))"
  obtains r' u1 u0 where "a = at s' r' 0" "at s' = at s" "pages_inv s'"
    "root_page_table s' = at s' r 0" "alloc s \<subseteq> alloc s'"
    "maps s' r va t1 t0 p" "maps s' r' va u1 u0 p"
    "{r, t1, t0, p} \<subseteq> alloc s" "t0 \<in> L" "r \<notin> L" "t1 \<notin> L"
    "{r', u1, u0} \<subseteq> alloc s' - alloc s" "u0 \<notin> {r', u1}"
    "pte s' t0 (vpn va 0) = protect (pte s t0 (vpn va 0))"
    "same_flags (protect (pte s t0 (vpn va 0))) (pte s' u0 (vpn va 0))"
    "ref_num s ! p + 2 \<le> ref_num s' ! p" "p \<notin> L \<Longrightarrow> same_page s s' p"
proof -
  obtain r' where r': "a = at s r' 0" "step L (protecting L) {} s s'" "cow_copy L (alloc s) s r s' r'"
      "at s' = at s" "pages_inv s'" "root_page_table s' = root_page_table s"
    using fork_cow_ok [OF assms(1-5)] by blast
  obtain u1 u0 where u: "maps s' r va t1 t0 p" "maps s' r' va u1 u0 p"
    "{r, t1, t0, p} \<subseteq> alloc s" "t0 \<in> L" "r \<notin> L" "t1 \<notin> L"
    "{r', u1, u0} \<subseteq> alloc s' - alloc s" "u0 \<notin> {r', u1}"
    "pte s' t0 (vpn va 0) = protect (pte s t0 (vpn va 0))"
    "same_flags (protect (pte s t0 (vpn va 0))) (pte s' u0 (vpn va 0))"
    "ref_num s ! p + 2 \<le> ref_num s' ! p"
    using cow_copy_maps [OF assms(3,4) r'(3,2) maps rd] by metis
  moreover have "same_page s s' p" if "p \<notin> L"
    using r'(2) u(3) that by (auto simp: step_def grows_def)
  moreover have "alloc s \<subseteq> alloc s'" using step_alloc [OF r'(2)] by blast
  ultimately show thesis using that [of r' u1 u0] r' assms(2) by auto
qed

text \<open>The first write to a shared page, read from another address space.\<close>

lemma cow_write_elsewhere:
  assumes cow: "shared_cow (under r s) r va t1 t0 p" and room: "alloc s \<noteq> {..<MAX_PAGES}"
    and maps: "maps s r' va' u1 u0 q" and al: "{r', u1, u0, q} \<subseteq> alloc s - {t0}"
    and rd: "readable (pte s u0 (vpn va' 0))"
    and off: "offset va + 4 \<le> PAGE_SIZE" "offset va' + 4 \<le> PAGE_SIZE"
  shows "\<exists>s2. seq (vms_set_root_page_table (at s r 0)) (seq (vms_write va v)
      (seq (vms_set_root_page_table (at s r' 0)) (vms_read va'))) s =
    Inr (rd32 s (at s q (offset va')), s2)"
proof -
  obtain d s' where w: "vms_write va v (under r s) = Inr ((), s')"
      and base': "base_pointer s' = base_pointer s"
      and same: "\<And>x. x \<in> alloc s \<Longrightarrow> x \<noteq> t0 \<Longrightarrow> same_page (under r s) s' x"
    by (rule cow_write_effect [OF cow _ off(1), of v]) (use room in simp_all)
  have base: "good_base (base_pointer s)" using cow by (simp add: shared_cow_def pages_inv_def)
  have lt: "r < MAX_PAGES" "r' < MAX_PAGES" using cow maps by (simp_all add: shared_cow_def maps_def)
  have at': "at s' = at s" using base' by (rule at_base)
  have same': "same_page s s' x" if "x \<in> {r', u1, u0, q}" for x
    using same [of x] that al by (auto simp: same_page_def)
  have maps': "maps (under r' s') r' va' u1 u0 q"
    using maps same' maps_cong [OF base', of r' u1 u0] by simp
  have "readable (pte (under r' s') u0 (vpn va' 0))"
    using rd same_page_pte [OF same' [of u0], of "vpn va' 0"] by simp
  then have "vms_read va' (under r' s') = Inr (rd32 s' (at s' q (offset va')), under r' s')"
    using vms_read_maps [OF _ _ maps'] base base' off(2) by simp
  moreover have "rd32 s' (at s' q (offset va')) = rd32 s (at s q (offset va'))"
    using same' [of q] off(2) by (intro rd32_page_cong) (simp_all add: same_page_def)
  moreover have "vms_set_root_page_table (at s r' 0) s' = Inr ((), under r' s')"
    using set_root_at [of s' r'] base base' lt(2) by (simp add: at')
  ultimately show ?thesis
    using set_root_at [OF base lt(1)] w by (simp add: seq_apply)
qed

text \<open>
  After \<open>vms_fork_copy_on_write\<close> every address leads parent and child to the same page, which
  is writable in neither; the custom flag of both entries remembers the write permission, and
  the page counts two more references.
\<close>

theorem fork_cow_no_shared_write:
  assumes "pages_inv s" "root_page_table s = at s r 0" "cow_wf L s r" "L \<subseteq> alloc s"
    and "\<forall>q < MAX_PAGES. 0 \<le> ref_num s ! q"
    and fork: "vms_fork_copy_on_write s = Inr (child, s')"
    and maps: "maps s r va t1 t0 p" and rd: "readable (pte s t0 (vpn va 0))"
  shows "\<exists>r' u1 u0. child = at s r' 0 \<and> maps s' r va t1 t0 p \<and> maps s' r' va u1 u0 p \<and>
    \<not> writable (pte s' t0 (vpn va 0)) \<and> \<not> writable (pte s' u0 (vpn va 0)) \<and>
    (custom (pte s' t0 (vpn va 0)) \<longleftrightarrow> custom (pte s t0 (vpn va 0)) \<or> writable (pte s t0 (vpn va 0))) \<and>
    (custom (pte s' u0 (vpn va 0)) \<longleftrightarrow> custom (pte s' t0 (vpn va 0))) \<and> 2 \<le> ref_num s' ! p"
proof -
  obtain r' u1 u0 where c: "child = at s' r' 0" "at s' = at s" "maps s' r va t1 t0 p"
      "maps s' r' va u1 u0 p" "pte s' t0 (vpn va 0) = protect (pte s t0 (vpn va 0))"
      "same_flags (protect (pte s t0 (vpn va 0))) (pte s' u0 (vpn va 0))"
      "ref_num s ! p + 2 \<le> ref_num s' ! p"
    using fork_cow_address [OF assms(1-4) fork maps rd] by metis
  have "0 \<le> ref_num s ! p" using assms(5) maps by (simp add: maps_def)
  then show ?thesis using c by (force simp: same_flags_def)
qed

text \<open>
  C3. Isolation after \<open>vms_fork_copy_on_write\<close>, from any well formed address space (the innermost tables in \<open>L\<close>,
  the data pages not among the tables, no negative count) and with a page left after the fork.  Let the parent have been able to read
  and write at \<open>va\<close> and to read at \<open>va'\<close>, the four bytes at each within one page.  Then, though both now share the pages, a \<open>vms_write\<close> of
  the child at \<open>va\<close>, the first access after the fork, leaves what the parent reads at \<open>va'\<close> as it was before the fork,
  and so does a first write of the parent for what the child reads; both accesses succeed.  (\<open>processes_have_private_memory\<close> and
  \<open>other_processes_keep_reads\<close> state it for sequences of calls.)
\<close>

theorem fork_cow_isolates:
  assumes "pages_inv s" "root_page_table s = at s r 0" "cow_wf L s r" "L \<subseteq> alloc s"
    and refs: "\<forall>q < MAX_PAGES. 0 \<le> ref_num s ! q"
    and fork: "vms_fork_copy_on_write s = Inr (child, s')" and room: "used_pages s' < int MAX_PAGES"
    and maps: "maps s r va t1 t0 p" "maps s r va' t1' t0' p'"
    and flags: "readable (pte s t0 (vpn va 0))" "writable (pte s t0 (vpn va 0))"
      "readable (pte s t0' (vpn va' 0))"
    and data: "p \<notin> insert r (insert t1 L)" "p' \<notin> L"
    and off: "offset va + 4 \<le> PAGE_SIZE" "offset va' + 4 \<le> PAGE_SIZE"
  shows "\<exists>x s2 s3. vms_read va' s = Inr (x, s) \<and>
    seq (vms_set_root_page_table child) (seq (vms_write va v)
      (seq (vms_set_root_page_table (root_page_table s)) (vms_read va'))) s' = Inr (x, s2) \<and>
    seq (vms_set_root_page_table (root_page_table s)) (seq (vms_write va v)
      (seq (vms_set_root_page_table child) (vms_read va'))) s' = Inr (x, s3)"
proof -
  obtain r' u1 u0 where c: "child = at s' r' 0" "at s' = at s" "pages_inv s'"
      "root_page_table s' = at s' r 0" "alloc s \<subseteq> alloc s'" "maps s' r va t1 t0 p"
      "maps s' r' va u1 u0 p" "{r, t1, t0, p} \<subseteq> alloc s" "t0 \<in> L" "r \<notin> L" "t1 \<notin> L"
      "{r', u1, u0} \<subseteq> alloc s' - alloc s" "u0 \<notin> {r', u1}"
      "pte s' t0 (vpn va 0) = protect (pte s t0 (vpn va 0))"
      "same_flags (protect (pte s t0 (vpn va 0))) (pte s' u0 (vpn va 0))"
      "ref_num s ! p + 2 \<le> ref_num s' ! p"
    using fork_cow_address [OF assms(1-4) fork maps(1) flags(1)] by metis
  obtain r'' u1' u0' where d: "child = at s' r'' 0" "maps s' r va' t1' t0' p'"
      "maps s' r'' va' u1' u0' p'" "{r, t1', t0', p'} \<subseteq> alloc s" "t0' \<in> L" "t1' \<notin> L"
      "{r'', u1', u0'} \<subseteq> alloc s' - alloc s"
      "pte s' t0' (vpn va' 0) = protect (pte s t0' (vpn va' 0))"
      "same_flags (protect (pte s t0' (vpn va' 0))) (pte s' u0' (vpn va' 0))"
      "same_page s s' p'"
    using fork_cow_address [OF assms(1-4) fork maps(2) flags(3)] data(2) by metis
  have lt: "r' < MAX_PAGES" "r'' < MAX_PAGES" using c(7) d(3) by (simp_all add: maps_def)
  then have r: "r'' = r'"
    using c(1) d(1) page_index_at [of r' 0 s'] page_index_at [of r'' 0 s'] by simp
  have ref: "1 < ref_num s' ! p" using c(16) refs maps(1) by (force simp: maps_def)
  have cow: "shared_cow (under r' s') r' va u1 u0 p" "shared_cow (under r s') r va t1 t0 p"
    using c data(1) flags ref by (auto simp: shared_cow_def pages_inv_def same_flags_def)
  have full: "alloc s' \<noteq> {..<MAX_PAGES}" using room c(3) by (auto simp: pages_inv_def)
  have root: "root_page_table s = at s' r 0" using assms(2) c(2) by simp
  have read: "vms_read va' s = Inr (rd32 s (at s p' (offset va')), s)"
    using assms by (intro vms_read_maps) (simp_all add: pages_inv_def)
  have x: "rd32 s' (at s' p' (offset va')) = rd32 s (at s p' (offset va'))"
    using d(10) off(2) by (intro rd32_page_cong) (simp_all add: same_page_def)
  have "\<exists>s2. seq (vms_set_root_page_table child) (seq (vms_write va v)
      (seq (vms_set_root_page_table (root_page_table s)) (vms_read va'))) s' =
      Inr (rd32 s (at s p' (offset va')), s2)"
    unfolding c(1) root x [symmetric] using c(5,12) d(4,8) flags(3)
    by (intro cow_write_elsewhere [OF cow(1) full d(2) _ _ off]) auto
  moreover have "\<exists>s3. seq (vms_set_root_page_table (root_page_table s)) (seq (vms_write va v)
      (seq (vms_set_root_page_table child) (vms_read va'))) s' =
      Inr (rd32 s (at s p' (offset va')), s3)"
    unfolding d(1) root x [symmetric] using c(5,8,9) d(4,7,9) flags(3) data(2)
    by (intro cow_write_elsewhere [OF cow(2) full d(3) _ _ off]) (auto simp: same_flags_def)
  ultimately show ?thesis using read by blast
qed

text \<open>After the fork the parent's pages are in the state in which a write copies.\<close>

lemma fork_cow_shared:
  assumes "pages_inv s" "root_page_table s = at s r 0" "cow_wf L s r" "L \<subseteq> alloc s"
    and refs: "\<forall>q < MAX_PAGES. 0 \<le> ref_num s ! q"
    and fork: "vms_fork_copy_on_write s = Inr (child, s')"
    and maps: "maps s r va t1 t0 p"
    and flags: "readable (pte s t0 (vpn va 0))" "writable (pte s t0 (vpn va 0))"
    and data: "p \<notin> insert r (insert t1 L)"
  shows "shared_cow s' r va t1 t0 p"
proof -
  obtain r' u1 u0 where c: "pages_inv s'" "root_page_table s' = at s' r 0" "alloc s \<subseteq> alloc s'"
      "maps s' r va t1 t0 p" "{r, t1, t0, p} \<subseteq> alloc s" "t0 \<in> L" "r \<notin> L" "t1 \<notin> L"
      "pte s' t0 (vpn va 0) = protect (pte s t0 (vpn va 0))" "ref_num s ! p + 2 \<le> ref_num s' ! p"
    using fork_cow_address [OF assms(1-4) fork maps flags(1)] by metis
  have "1 < ref_num s' ! p" using c(10) refs maps by (force simp: maps_def)
  then show ?thesis using c data flags by (auto simp: shared_cow_def)
qed

section \<open>A second fork\<close>

lemma cow_step_linked:
  assumes step: "step L (protecting L) {} s s'" and t: "t \<in> alloc s" and i: "i < NUM_PTE_ENTRIES"
    and link: "linked s t i"
  shows "valid (pte s' t i) = valid (pte s t i)" "kid s' t i = kid s t i" "linked s' t i"
proof -
  have "pte s' t i = pte s t i \<or> pte s' t i = protect (pte s t i)"
  proof (cases "t \<in> L")
    case True
    then show ?thesis using step i by (simp add: step_def protecting_def)
  next
    case False
    then show ?thesis using step_pte [OF step t _ _ i] by simp
  qed
  then have v: "valid (pte s' t i) = valid (pte s t i)"
      and page: "entry_page (pte s' t i) = entry_page (pte s t i)" by auto
  have kid: "kid s' t i = kid s t i"
    using step page by (simp add: kid_def vms_get_page_index_def step_def grows_def)
  show "valid (pte s' t i) = valid (pte s t i)" "kid s' t i = kid s t i" by (fact v kid)+
  show "linked s' t i"
    using link page step_alloc [OF step] step_at [OF step] by (simp add: linked_def kid)
qed

lemma cow_step_valid:
  assumes step: "step L (protecting L) {} s s'" and t: "t \<in> alloc s" and i: "i < NUM_PTE_ENTRIES"
  shows "valid (pte s' t i) = valid (pte s t i)"
proof (cases "t \<in> L")
  case True
  then have "pte s' t i = pte s t i \<or> pte s' t i = protect (pte s t i)"
    using step i by (simp add: step_def protecting_def)
  then show ?thesis by auto
next
  case False
  then show ?thesis using step_pte [OF step t _ _ i] by simp
qed

lemma leaf_wf_step:
  assumes step: "step L (protecting L) {} s s'" and wf: "leaf_wf L s t"
  shows "leaf_wf L s' t"
  using wf step_alloc [OF step] cow_step_valid [OF step] cow_step_linked(3) [OF step]
  by (simp add: leaf_wf_def)

lemma table_wf_step:
  assumes step: "step L (protecting L) {} s s'" and wf: "table_wf L W s t"
    and W: "\<And>u. W s u \<Longrightarrow> W s' u"
  shows "table_wf L W s' t"
  using wf step_alloc [OF step] cow_step_valid [OF step] cow_step_linked(2,3) [OF step] W
  by (simp add: table_wf_def)

lemma cow_wf_step: "step L (protecting L) {} s s' \<Longrightarrow> cow_wf L s r \<Longrightarrow> cow_wf L s' r"
  by (blast intro: table_wf_step leaf_wf_step)

lemma table_size_step:
  assumes step: "step L (protecting L) {} s s'" and wf: "table_wf L W s t"
    and N: "\<And>u. W s u \<Longrightarrow> N s' u = N s u"
  shows "table_size N s' t = table_size N s t"
  unfolding table_size_def
  by (rule sum.cong)
    (use wf cow_step_valid [OF step] cow_step_linked(2) [OF step] N in \<open>auto simp: weight_def table_wf_def\<close>)

lemma cow_size_step: "step L (protecting L) {} s s' \<Longrightarrow> cow_wf L s r \<Longrightarrow> l1_size s' r = l1_size s r"
  by (rule table_size_step, assumption+, rule table_size_step, assumption+, simp)

text \<open>
  A page that two forks of the same root share has three owners, but is counted four times (or
  more): the last of them will find a count above one and copy a page that nobody else uses.
\<close>

theorem fork_cow_twice:
  assumes "pages_inv s" "root_page_table s = at s r 0" "cow_wf L s r" "L \<subseteq> alloc s"
    and refs: "\<forall>q < MAX_PAGES. 0 \<le> ref_num s ! q"
    and fork1: "vms_fork_copy_on_write s = Inr (child1, s1)"
    and fork2: "vms_fork_copy_on_write s1 = Inr (child2, s2)"
    and maps: "maps s r va t1 t0 p" and rd: "readable (pte s t0 (vpn va 0))"
  shows "\<exists>r1 u1 u0 r2 w1 w0. child1 = at s r1 0 \<and> child2 = at s r2 0 \<and> distinct [r, r1, r2] \<and>
    maps s2 r va t1 t0 p \<and> maps s2 r1 va u1 u0 p \<and> maps s2 r2 va w1 w0 p \<and>
    4 \<le> ref_num s2 ! p"
proof -
  obtain r' where step: "step L (protecting L) {} s s1"
    using fork_cow_ok [OF assms(1-4) fork1] by metis
  obtain r1 u1 u0 where c: "child1 = at s1 r1 0" "at s1 = at s" "pages_inv s1" "root_page_table s1 = at s1 r 0"
      "alloc s \<subseteq> alloc s1" "maps s1 r va t1 t0 p" "maps s1 r1 va u1 u0 p"
      "{r, t1, t0, p} \<subseteq> alloc s" "{r1, u1, u0} \<subseteq> alloc s1 - alloc s"
      "pte s1 t0 (vpn va 0) = protect (pte s t0 (vpn va 0))" "ref_num s ! p + 2 \<le> ref_num s1 ! p"
    using fork_cow_address [OF assms(1-4) fork1 maps rd] by metis
  have wf: "cow_wf L s1 r" "L \<subseteq> alloc s1"
    using cow_wf_step [OF step assms(3)] c(5) assms(4) by auto
  obtain r'' where step2: "step L (protecting L) {} s1 s2"
    using fork_cow_ok [OF c(3,4) wf fork2] by metis
  have rd1: "readable (pte s1 t0 (vpn va 0))" using rd by (simp add: c(10))
  obtain r2 w1 w0 where d: "child2 = at s2 r2 0" "at s2 = at s1" "maps s2 r va t1 t0 p"
      "maps s2 r2 va w1 w0 p" "{r2, w1, w0} \<subseteq> alloc s2 - alloc s1" "ref_num s1 ! p + 2 \<le> ref_num s2 ! p"
    using fork_cow_address [OF c(3,4) wf fork2 c(6) rd1] by metis
  have "maps s2 r1 va u1 u0 p"
    using step2 c(7,9) assms(4) by (subst grows_maps [of L s1]) (auto simp: step_def)
  moreover have "0 \<le> ref_num s ! p" using refs maps by (simp add: maps_def)
  moreover have "distinct [r, r1, r2]" using c(5,8,9) d(5) by auto
  ultimately show ?thesis using c(1,2,11) d by fastforce
qed

end
