(* ===== verification/Vms_Lookup.thy ===== *)
theory Vms_Lookup
  imports Vms_Fork Vms_Cow
begin

text \<open>
  What a process sees of its address space: the page that the tables of a root lead to from each
  virtual page number, with the access the leaf entry gives and the bytes of the page (\<open>view\<close>).
  \<open>vms_read\<close> and \<open>vms_write\<close> are described by the view: an address that is not in it ends the
  process, reads return its bytes, and writes to an entry without write permission go through the
  fault handler.
\<close>

section \<open>Following the tables by page number\<close>

text \<open>A virtual page: the indices into the first two tables, and the one into the last.\<close>

type_synonym vpage = "(nat \<times> nat) \<times> nat"

definition vpage_of :: "addr \<Rightarrow> vpage" where
  "vpage_of va = ((vpn va 2, vpn va 1), vpn va 0)"

definition next_page :: "vms \<Rightarrow> nat \<Rightarrow> nat \<Rightarrow> nat option" where
  "next_page s t i = (if i < NUM_PTE_ENTRIES \<and> valid (pte s t i) then Some (kid s t i) else None)"

definition leaf_table :: "vms \<Rightarrow> nat \<Rightarrow> nat \<times> nat \<Rightarrow> nat option" where
  "leaf_table s r x = Option.bind (next_page s r (fst x)) (\<lambda>t1. next_page s t1 (snd x))"

definition page_at :: "vms \<Rightarrow> nat \<Rightarrow> vpage \<Rightarrow> nat option" where
  "page_at s r v = Option.bind (leaf_table s r (fst v)) (\<lambda>t0. next_page s t0 (snd v))"

text \<open>The root and the tables below it, and the tables of the last level.\<close>

definition upper :: "vms \<Rightarrow> nat \<Rightarrow> nat set" where
  "upper s r = insert r {t. \<exists>i. next_page s r i = Some t}"

definition leaf_tables :: "vms \<Rightarrow> nat \<Rightarrow> nat set" where
  "leaf_tables s r = {t. \<exists>x. leaf_table s r x = Some t}"

text \<open>
  A well formed address space: entries of the outer tables refer to tables and give no access,
  those of the last level refer to pages that can be read.
\<close>

definition outer_ok :: "vms \<Rightarrow> nat \<Rightarrow> nat \<Rightarrow> bool" where
  "outer_ok s t i \<longleftrightarrow> linked s t i \<and> \<not> readable (pte s t i) \<and> \<not> writable (pte s t i)"

definition leaf_ok :: "vms \<Rightarrow> nat \<Rightarrow> nat \<Rightarrow> bool" where
  "leaf_ok s t i \<longleftrightarrow> linked s t i \<and> readable (pte s t i)"

definition space_wf :: "vms \<Rightarrow> nat \<Rightarrow> bool" where
  "space_wf s r \<longleftrightarrow> r \<in> alloc s \<and>
     (\<forall>i t1. next_page s r i = Some t1 \<longrightarrow> outer_ok s r i \<and>
       (\<forall>j t0. next_page s t1 j = Some t0 \<longrightarrow> outer_ok s t1 j \<and>
         (\<forall>k p. next_page s t0 k = Some p \<longrightarrow> leaf_ok s t0 k)))"

lemma next_page_Some:
  "next_page s t i = Some p \<longleftrightarrow> i < NUM_PTE_ENTRIES \<and> valid (pte s t i) \<and> kid s t i = p"
  by (auto simp: next_page_def)

lemma leaf_table_Some:
  "leaf_table s r x = Some t0 \<longleftrightarrow> (\<exists>t1. next_page s r (fst x) = Some t1 \<and> next_page s t1 (snd x) = Some t0)"
  by (auto simp: leaf_table_def bind_eq_Some_conv)

lemma page_at_Some:
  "page_at s r v = Some p \<longleftrightarrow> (\<exists>t0. leaf_table s r (fst v) = Some t0 \<and> next_page s t0 (snd v) = Some p)"
  by (auto simp: page_at_def bind_eq_Some_conv)

lemma space_wf_path:
  assumes wf: "space_wf s r"
  shows "next_page s r i = Some t1 \<Longrightarrow> outer_ok s r i \<and> t1 \<in> alloc s"
    and "next_page s r i = Some t1 \<Longrightarrow> next_page s t1 j = Some t0 \<Longrightarrow> outer_ok s t1 j \<and> t0 \<in> alloc s"
    and "leaf_table s r x = Some t0 \<Longrightarrow> next_page s t0 k = Some p \<Longrightarrow> leaf_ok s t0 k \<and> p \<in> alloc s"
proof -
  show a: "outer_ok s r i \<and> t1 \<in> alloc s" if "next_page s r i = Some t1" for i t1
    using wf that by (auto simp: space_wf_def outer_ok_def linked_def next_page_Some)
  show b: "outer_ok s t1 j \<and> t0 \<in> alloc s" if "next_page s r i = Some t1" "next_page s t1 j = Some t0" for i t1 j t0
    using wf that by (fastforce simp: space_wf_def outer_ok_def linked_def next_page_Some)
  show "leaf_ok s t0 k \<and> p \<in> alloc s" if leaf: "leaf_table s r x = Some t0" and last: "next_page s t0 k = Some p"
  proof -
    obtain t1 where "next_page s r (fst x) = Some t1" "next_page s t1 (snd x) = Some t0"
      using leaf unfolding leaf_table_Some by blast
    then have "leaf_ok s t0 k" using wf last unfolding space_wf_def by blast
    then show ?thesis using last by (auto simp: leaf_ok_def linked_def next_page_Some)
  qed
qed

lemma space_alloc:
  assumes "space_wf s r"
  shows "t \<in> upper s r \<Longrightarrow> t \<in> alloc s" and "leaf_table s r x = Some t0 \<Longrightarrow> t0 \<in> alloc s"
    and "page_at s r v = Some p \<Longrightarrow> p \<in> alloc s"
proof -
  show "t \<in> upper s r \<Longrightarrow> t \<in> alloc s"
    using assms space_wf_path(1) [OF assms] by (auto simp: upper_def space_wf_def)
  show "leaf_table s r x = Some t0 \<Longrightarrow> t0 \<in> alloc s"
    using space_wf_path(2) [OF assms] by (auto simp: leaf_table_Some)
  show "page_at s r v = Some p \<Longrightarrow> p \<in> alloc s"
    using space_wf_path(3) [OF assms] unfolding page_at_Some by blast
qed

section \<open>Tables that keep their links\<close>

definition same_links :: "vms \<Rightarrow> vms \<Rightarrow> nat \<Rightarrow> bool" where
  "same_links s s' t \<longleftrightarrow> base_pointer s' = base_pointer s \<and>
     (\<forall>i < NUM_PTE_ENTRIES. valid (pte s' t i) = valid (pte s t i) \<and>
        (valid (pte s t i) \<longrightarrow> entry_page (pte s' t i) = entry_page (pte s t i)))"

lemma same_linksI:
  "base_pointer s' = base_pointer s \<Longrightarrow> (\<And>i. i < NUM_PTE_ENTRIES \<Longrightarrow> pte s' t i = pte s t i) \<Longrightarrow>
     same_links s s' t"
  by (simp add: same_links_def)

lemma same_links_next: "same_links s s' t \<Longrightarrow> next_page s' t = next_page s t"
  by (auto simp: same_links_def next_page_def kid_def vms_get_page_index_def fun_eq_iff)

lemma same_links_linked:
  assumes "same_links s s' t" "alloc s \<subseteq> alloc s'" "i < NUM_PTE_ENTRIES" "valid (pte s t i)" "linked s t i"
  shows "linked s' t i"
proof -
  have "entry_page (pte s' t i) = entry_page (pte s t i)" "base_pointer s' = base_pointer s"
    using assms by (simp_all add: same_links_def)
  then show ?thesis
    using assms(2,5) at_base [of s' s] by (auto simp: linked_def kid_def vms_get_page_index_def)
qed

lemma same_links_upper:
  assumes "\<forall>t \<in> upper s r. same_links s s' t"
  shows "next_page s' r = next_page s r" "leaf_table s' r = leaf_table s r" "upper s' r = upper s r"
proof -
  show root: "next_page s' r = next_page s r" using assms by (simp add: same_links_next upper_def)
  show "leaf_table s' r = leaf_table s r"
  proof
    fix x
    show "leaf_table s' r x = leaf_table s r x"
      using assms by (cases "next_page s r (fst x)") (auto simp: leaf_table_def root same_links_next upper_def)
  qed
  show "upper s' r = upper s r" by (simp add: upper_def root)
qed

section \<open>Views\<close>

text \<open>
  What the entry of a page allows: nothing but reading, writing, writing after a copy, or a write
  that was kept aside and is lost, because the page is not counted.
\<close>

datatype access = Fixed | Writable | On_write | Lost

text \<open>Accesses are ordered by what they allow, a lost page being below one that never could be written.\<close>

fun access_rank :: "access \<Rightarrow> nat" where
  "access_rank Lost = 0"
| "access_rank Fixed = 1"
| "access_rank On_write = 2"
| "access_rank Writable = 3"

lemma access_rank_inject: "access_rank a = access_rank b \<longleftrightarrow> a = b"
  by (cases a; cases b) simp_all

instantiation access :: linorder
begin

definition less_eq_access :: "access \<Rightarrow> access \<Rightarrow> bool" where
  "less_eq_access a b \<longleftrightarrow> access_rank a \<le> access_rank b"

definition less_access :: "access \<Rightarrow> access \<Rightarrow> bool" where
  "less_access a b \<longleftrightarrow> access_rank a < access_rank b"

instance
  by standard (auto simp: less_eq_access_def less_access_def access_rank_inject)

end

lemma On_write_le [simp]: "On_write \<le> a \<longleftrightarrow> a = On_write \<or> a = Writable"
  by (cases a) (simp_all add: less_eq_access_def)

lemma less_On_write [simp]: "a < On_write \<longleftrightarrow> a = Fixed \<or> a = Lost"
  by (cases a) (simp_all add: less_access_def)

definition access_of :: "u64 \<Rightarrow> int \<Rightarrow> access" where
  "access_of e n = (if writable e then Writable
     else if custom e then (if 0 < n then On_write else Lost) else Fixed)"

definition page_bytes :: "vms \<Rightarrow> nat \<Rightarrow> u8 list" where
  "page_bytes s p = map (byte s p) [0..<PAGE_SIZE]"

type_synonym space = "vpage \<Rightarrow> (access \<times> u8 list) option"

definition view :: "vms \<Rightarrow> nat \<Rightarrow> space" where
  "view s r v = Option.bind (leaf_table s r (fst v)) (\<lambda>t0.
     map_option (\<lambda>p. (access_of (pte s t0 (snd v)) (ref_num s ! p), page_bytes s p))
       (next_page s t0 (snd v)))"

lemma view_None: "view s r v = None \<longleftrightarrow> page_at s r v = None"
  by (cases "leaf_table s r (fst v)") (auto simp: view_def page_at_def)

lemma view_Some:
  "leaf_table s r (fst v) = Some t0 \<Longrightarrow> next_page s t0 (snd v) = Some p \<Longrightarrow>
     view s r v = Some (access_of (pte s t0 (snd v)) (ref_num s ! p), page_bytes s p)"
  by (simp add: view_def)

lemma viewE:
  assumes "view s r v = Some (a, bs)"
  obtains t0 p where "leaf_table s r (fst v) = Some t0" "next_page s t0 (snd v) = Some p"
    "a = access_of (pte s t0 (snd v)) (ref_num s ! p)" "bs = page_bytes s p"
  using assms by (auto simp: view_def bind_eq_Some_conv)

lemma page_bytes_cong: "same_page s s' p \<Longrightarrow> page_bytes s' p = page_bytes s p"
  by (simp add: page_bytes_def same_page_def)

text \<open>Reading and writing four bytes of a page.\<close>

definition word_at :: "nat \<Rightarrow> u8 list \<Rightarrow> u32" where
  "word_at off bs = word_of_bytes (take 4 (drop off bs))"

definition put_word :: "nat \<Rightarrow> u32 \<Rightarrow> u8 list \<Rightarrow> u8 list" where
  "put_word off v bs = take off bs @ bytes_of_word 4 v @ drop (off + 4) bs"

lemma word_at_page: "off + 4 \<le> PAGE_SIZE \<Longrightarrow> word_at off (page_bytes s p) = rd32 s (at s p off)"
  by (auto simp: word_at_def page_bytes_def rd32_bytes take_map drop_map intro!: arg_cong [where f = word_of_bytes]
      nth_equalityI)

lemma byte_wr32_in:
  assumes "k < 4"
  shows "byte (wr32 (at s p off) v s) p (off + k) = bytes_of_word 4 v ! k"
  using store_bytes_in [of k "bytes_of_word 4 v" "memory s" "at s p off"] assms
  by (simp add: byte_def flip: at_add) (simp add: wr32_def)

lemma put_word_page:
  assumes p: "p < MAX_PAGES" and off: "off + 4 \<le> PAGE_SIZE"
  shows "page_bytes (wr32 (at s p off) v s) p = put_word off v (page_bytes s p)"
proof (rule nth_equalityI)
  show "length (page_bytes (wr32 (at s p off) v s) p) = length (put_word off v (page_bytes s p))"
    using off by (simp add: page_bytes_def put_word_def)
next
  fix k assume "k < length (page_bytes (wr32 (at s p off) v s) p)"
  then have k: "k < PAGE_SIZE" by (simp add: page_bytes_def)
  consider "k < off" | j where "k = off + j" "j < 4" | "off + 4 \<le> k"
    by (metis add_less_cancel_left le_add_diff_inverse not_le)
  then show "page_bytes (wr32 (at s p off) v s) p ! k = put_word off v (page_bytes s p) ! k"
  proof cases
    case 2
    then show ?thesis
      using k off byte_wr32_in [of j s p off v] by (simp add: page_bytes_def put_word_def nth_append)
  qed (use p off k byte_wr32 [of p p k off s v] in
      \<open>auto simp: page_bytes_def put_word_def nth_append\<close>)
qed

section \<open>Accesses in terms of the view\<close>

lemma vpage_leaf:
  assumes wf: "space_wf s r" and l: "leaf_table s r (fst (vpage_of va)) = Some t0"
    and n: "next_page s t0 (snd (vpage_of va)) = Some p"
  shows "\<exists>t1. maps s r va t1 t0 p" "readable (pte s t0 (vpn va 0))"
proof -
  obtain t1 where t1: "next_page s r (vpn va 2) = Some t1" "next_page s t1 (vpn va 1) = Some t0"
    using l by (auto simp: leaf_table_Some vpage_of_def)
  have ok: "outer_ok s r (vpn va 2)" "outer_ok s t1 (vpn va 1)" "leaf_ok s t0 (vpn va 0)"
    using space_wf_path [OF wf] t1 l n by (auto simp: vpage_of_def)
  then show "readable (pte s t0 (vpn va 0))" by (simp add: leaf_ok_def)
  have "r \<in> alloc s" using wf by (simp add: space_wf_def)
  then have lt: "r < MAX_PAGES" "t1 < MAX_PAGES" "t0 < MAX_PAGES" "p < MAX_PAGES"
    using ok t1 n by (auto simp: outer_ok_def leaf_ok_def linked_def next_page_Some vpage_of_def dest: alloc_less)
  then have "maps s r va t1 t0 p"
    using ok t1 n by (simp add: maps_def outer_ok_def leaf_ok_def linked_def next_page_Some vpage_of_def faults_def)
  then show "\<exists>t1. maps s r va t1 t0 p" ..
qed

lemma walk_unmapped:
  assumes base: "good_base (base_pointer s)" and wf: "space_wf s r" and none: "page_at s r (vpage_of va) = None"
  shows "\<exists>level t. walk s va 2 (at s r 0) = Bad level t \<and>
    \<not> valid (rd64 s (vms_page_table_pte_entry t va level))"
proof -
  have r: "r < MAX_PAGES" using wf by (auto simp: space_wf_def dest: alloc_less)
  have rd: "rd64 s (vms_page_table_pte_entry (at s t 0) va l) = pte s t (vpn va l)" for t l
    by (simp add: pte_entry_at pte_def)
  have step: "walk s va l (at s t 0) = (if \<not> valid (pte s t (vpn va l)) then Bad l (at s t 0)
      else case l of 0 \<Rightarrow> walk s va l (at s t 0) | Suc k \<Rightarrow> walk s va k (at s (kid s t (vpn va l)) 0))"
    if "t < MAX_PAGES" "l \<le> 2" "valid (pte s t (vpn va l)) \<Longrightarrow> 0 < l \<Longrightarrow> outer_ok s t (vpn va l)" for t l
    using walk_at [OF base that(1,2), of va] that(3)
    by (auto simp: faults_def outer_ok_def linked_def split: nat.split)
  show ?thesis
  proof (cases "next_page s r (vpn va 2)")
    case None
    then have "\<not> valid (pte s r (vpn va 2))" by (simp add: next_page_def vpn_less split: if_splits)
    then show ?thesis using step [of r 2] r rd by auto
  next
    case (Some t1)
    then have t1: "outer_ok s r (vpn va 2)" "t1 < MAX_PAGES" "valid (pte s r (vpn va 2))" "kid s r (vpn va 2) = t1"
      using space_wf_path(1) [OF wf Some] by (auto simp: next_page_Some dest: alloc_less)
    then have w2: "walk s va 2 (at s r 0) = walk s va 1 (at s t1 0)"
      using step [of r 2] r by (simp add: numeral_2_eq_2)
    show ?thesis
    proof (cases "next_page s t1 (vpn va 1)")
      case None
      then have "\<not> valid (pte s t1 (vpn va 1))" by (simp add: next_page_def vpn_less split: if_splits)
      then show ?thesis using step [of t1 1] t1 rd w2 by auto
    next
      case (Some t0)
      then have t0: "outer_ok s t1 (vpn va 1)" "t0 < MAX_PAGES" "valid (pte s t1 (vpn va 1))" "kid s t1 (vpn va 1) = t0"
        using space_wf_path(2) [OF wf \<open>next_page s r (vpn va 2) = Some t1\<close> Some]
        by (auto simp: next_page_Some dest: alloc_less)
      then have w1: "walk s va 1 (at s t1 0) = walk s va 0 (at s t0 0)"
        using step [of t1 1] t1 by simp
      have "next_page s t0 (vpn va 0) = None"
        using none \<open>next_page s r (vpn va 2) = Some t1\<close> Some
        by (simp add: page_at_def leaf_table_def vpage_of_def)
      then have "\<not> valid (pte s t0 (vpn va 0))" by (simp add: next_page_def vpn_less split: if_splits)
      then show ?thesis using step [of t0 0] t0 rd w2 w1 by auto
    qed
  qed
qed

lemma access_unmapped:
  assumes "good_base (base_pointer s)" "root_page_table s = at s r 0" "space_wf s r"
    and "view s r (vpage_of va) = None"
  shows "vms_read va s = Inl (Exit EFAULT)" "vms_write va v s = Inl (Exit EFAULT)"
proof -
  obtain level t where "walk s va 2 (root_page_table s) = Bad level t"
      "\<not> valid (rd64 s (vms_page_table_pte_entry t va level))"
    using walk_unmapped [OF assms(1,3) assms(4) [unfolded view_None]] unfolding assms(2) by blast
  then show "vms_read va s = Inl (Exit EFAULT)" "vms_write va v s = Inl (Exit EFAULT)"
    by (rule access_invalid)+
qed

lemma read_view:
  assumes base: "good_base (base_pointer s)" and root: "root_page_table s = at s r 0" and wf: "space_wf s r"
    and v: "view s r (vpage_of va) = Some (a, bs)" and off: "offset va + 4 \<le> PAGE_SIZE"
  shows "vms_read va s = Inr (word_at (offset va) bs, s)"
proof -
  obtain t0 p where l: "leaf_table s r (fst (vpage_of va)) = Some t0"
      "next_page s t0 (snd (vpage_of va)) = Some p" "bs = page_bytes s p"
    using v by (rule viewE)
  obtain t1 where "maps s r va t1 t0 p" using vpage_leaf(1) [OF wf l(1,2)] ..
  then show ?thesis
    using vms_read_maps [OF base root _ vpage_leaf(2) [OF wf l(1,2)] off] word_at_page [OF off] l(3) by simp
qed

text \<open>A write to a page without write permission; the handler may end the process.\<close>

lemma demand_guarded:
  assumes base: "good_base (base_pointer s)" and t0: "t0 < MAX_PAGES" and ro: "\<not> writable (pte s t0 (vpn va 0))"
  shows "demand vms_pte_write va (at s t0 (8 * vpn va 0)) s =
    seq (page_fault_handler va 0 (at s t0 0)) (bnd (vms_pte_write (at s t0 (8 * vpn va 0))) (\<lambda>b.
      if b then skip else fatal_fault va 0 (at s t0 0))) s"
proof -
  have "mapped s (at s t0 (8 * vpn va 0)) 8" using mapped_pte [OF base t0, of "vpn va 0"] by (simp add: vpn_less)
  moreover have "rd64 s (at s t0 (8 * vpn va 0)) = pte s t0 (vpn va 0)" by (simp add: pte_def)
  moreover have "get_base_page (at s t0 (8 * vpn va 0)) = at s t0 0"
    by (rule get_base_page_at) (use base t0 vpn_less [of 0 va] in simp_all)
  ultimately show ?thesis using ro by (simp add: demand_def Let_def pte_prog_simps)
qed

lemma write_stopped:
  assumes base: "good_base (base_pointer s)" and root: "root_page_table s = at s r 0"
    and maps: "maps s r va t1 t0 p" and ro: "\<not> writable (pte s t0 (vpn va 0))"
    and h: "page_fault_handler va 0 (at s t0 0) s = Inl e"
  shows "vms_write va v s = Inl e"
proof -
  have t0: "t0 < MAX_PAGES" using maps by (simp add: maps_def)
  show ?thesis
    using maps_mmu [OF base root maps] demand_guarded [OF base t0 ro] h by (simp add: vms_write_def seq_apply)
qed

lemma write_guarded:
  assumes base: "good_base (base_pointer s)" and root: "root_page_table s = at s r 0"
    and maps: "maps s r va t1 t0 p" and ro: "\<not> writable (pte s t0 (vpn va 0))"
    and off: "offset va + 4 \<le> PAGE_SIZE"
    and h: "page_fault_handler va 0 (at s t0 0) s = Inr ((), s')"
    and after: "base_pointer s' = base_pointer s"
      "entry_page (pte s' t0 (vpn va 0)) = at s q 0" "q < MAX_PAGES"
  shows "vms_write va v s =
    (if writable (pte s' t0 (vpn va 0)) then Inr ((), wr32 (at s q (offset va)) v s') else Inl (Exit EFAULT))"
proof -
  have t0: "t0 < MAX_PAGES" using maps by (simp add: maps_def)
  have at': "at s' = at s" using after(1) by (rule at_base)
  have base': "good_base (base_pointer s')" using base after(1) by simp
  let ?a = "at s t0 (8 * vpn va 0)"
  have m: "mapped s' ?a 8" using mapped_pte [OF base' t0, of "vpn va 0"] by (simp add: at' vpn_less)
  have e: "rd64 s' ?a = pte s' t0 (vpn va 0)" by (simp add: pte_def at')
  have entry: "vms_page_table_pte_entry (at s t0 0) va 0 = ?a" by (simp add: pte_entry_at)
  have demand: "demand vms_pte_write va ?a s =
      (if writable (pte s' t0 (vpn va 0)) then Inr ((), s') else Inl (Exit EFAULT))"
    using h by (simp add: demand_guarded [OF base t0 ro] pte_prog_simps m e fatal_fault_apply entry)
  have "at s' q 0 OR (va AND 0xFFF) = at s' q (offset va)" using base' after(3) by (rule translate_at)
  then have "translate_address va ?a s' = Inr (at s q (offset va), s')"
    using after(2) m by (simp add: translate_address_def pte_prog_simps e at')
  moreover have "mapped s' (at s q (offset va)) 4"
    using mapped_page [OF base' after(3), of "offset va" 4] off by (simp add: at')
  ultimately show ?thesis
    using maps_mmu [OF base root maps] demand by (simp add: vms_write_def store32_apply seq_apply)
qed

end
