(* ===== verification/Vms_Layout.thy ===== *)
theory Vms_Layout
  imports Vms_Lookup
begin

text \<open>
  How the pages of several processes may lie: which pages are tables of which process (\<open>layout\<close>)
  and how many processes own a page of data (\<open>counted\<close>).  Both are stated of the functions from
  process and index to page, without the memory that stores them; the lemmas are the four changes
  that writes and forks make: an entry gets a page of its own, a process leaves a shared page, a new
  process shares the pages of another, a new process has pages of its own.
\<close>

section \<open>Layouts\<close>

text \<open>
  The outer tables, the tables of the last level and the pages of processes \<open>0, ..., n - 1\<close>: each
  table of the last level has one place, it is no outer table, no page is a table, and no process
  has a page twice.
\<close>

definition layout :: "nat \<Rightarrow> (nat \<Rightarrow> nat set) \<Rightarrow> (nat \<Rightarrow> 'x \<Rightarrow> nat option) \<Rightarrow>
    (nat \<Rightarrow> 'v \<Rightarrow> nat option) \<Rightarrow> bool" where
  "layout n U T P \<longleftrightarrow>
     (\<forall>k < n. \<forall>k' < n. \<forall>x y t. T k x = Some t \<longrightarrow> T k' y = Some t \<longrightarrow> k = k' \<and> x = y) \<and>
     (\<forall>k < n. \<forall>k' < n. \<forall>x t. T k x = Some t \<longrightarrow> t \<notin> U k') \<and>
     (\<forall>k < n. \<forall>k' < n. \<forall>v p. P k v = Some p \<longrightarrow> p \<notin> U k' \<and> (\<forall>x. T k' x \<noteq> Some p)) \<and>
     (\<forall>k < n. \<forall>v v' p. P k v = Some p \<longrightarrow> P k v' = Some p \<longrightarrow> v = v')"

lemma layoutD:
  assumes "layout n U T P" "k < n"
  shows "k' < n \<Longrightarrow> T k x = Some t \<Longrightarrow> T k' y = Some t \<Longrightarrow> k = k' \<and> x = y"
    and "k' < n \<Longrightarrow> T k x = Some t \<Longrightarrow> t \<notin> U k'"
    and "k' < n \<Longrightarrow> P k v = Some p \<Longrightarrow> p \<notin> U k' \<and> T k' x \<noteq> Some p"
    and "P k v = Some p \<Longrightarrow> P k v' = Some p \<Longrightarrow> v = v'"
proof -
  note d = assms(1) [unfolded layout_def]
  show "k' < n \<Longrightarrow> T k x = Some t \<Longrightarrow> T k' y = Some t \<Longrightarrow> k = k' \<and> x = y"
    using d [THEN conjunct1] assms(2) by blast
  show "k' < n \<Longrightarrow> T k x = Some t \<Longrightarrow> t \<notin> U k'"
    using d [THEN conjunct2, THEN conjunct1] assms(2) by blast
  show "k' < n \<Longrightarrow> P k v = Some p \<Longrightarrow> p \<notin> U k' \<and> T k' x \<noteq> Some p"
    using d [THEN conjunct2, THEN conjunct2, THEN conjunct1] assms(2) by blast
  show "P k v = Some p \<Longrightarrow> P k v' = Some p \<Longrightarrow> v = v'"
    using d [THEN conjunct2, THEN conjunct2, THEN conjunct2] assms(2) by blast
qed

lemma layout_cong:
  assumes "\<And>k. k < n \<Longrightarrow> U' k = U k \<and> T' k = T k \<and> P' k = P k"
  shows "layout n U' T' P' = layout n U T P"
  using assms by (simp add: layout_def)

lemma layout_update:
  assumes l: "layout n U T P" and k: "k < n" and fresh: "\<And>k'. k' < n \<Longrightarrow> q \<notin> U k' \<and> (\<forall>x. T k' x \<noteq> Some q)"
    and new: "P k v = Some q \<or> (\<forall>v'. P k v' \<noteq> Some q)"
  shows "layout n U T (P(k := (P k)(v \<mapsto> q)))"
  unfolding layout_def
proof (intro conjI allI impI)
  fix j v1 v2 p
  assume "j < n" "(P(k := (P k)(v \<mapsto> q))) j v1 = Some p" "(P(k := (P k)(v \<mapsto> q))) j v2 = Some p"
  then show "v1 = v2" using layoutD(4) [OF l] new by (auto split: if_splits)
qed (use layoutD [OF l] fresh in \<open>auto split: if_splits\<close>)

text \<open>A further process whose tables, all outside \<open>A\<close>, lie apart; \<open>A\<close> has all that was there.\<close>

lemma layout_extend:
  assumes l: "layout n U T P"
    and A: "\<And>k. k < n \<Longrightarrow> U k \<subseteq> A \<and> (\<forall>x t. T k x = Some t \<longrightarrow> t \<in> A) \<and> (\<forall>v p. P k v = Some p \<longrightarrow> p \<in> A)"
    and new: "U' \<inter> A = {}" "\<And>x t. T' x = Some t \<Longrightarrow> t \<notin> A \<and> t \<notin> U'"
      "\<And>x y t. T' x = Some t \<Longrightarrow> T' y = Some t \<Longrightarrow> x = y"
    and pages: "\<And>v p. Q v = Some p \<Longrightarrow> p \<notin> U' \<and> (\<forall>x. T' x \<noteq> Some p) \<and>
        (\<forall>k < n. p \<notin> U k \<and> (\<forall>x. T k x \<noteq> Some p))"
      "\<And>v v' p. Q v = Some p \<Longrightarrow> Q v' = Some p \<Longrightarrow> v = v'"
  shows "layout (Suc n) (U(n := U')) (T(n := T')) (P(n := Q))"
proof -
  have old: "t \<notin> U'" if "k < n" "T k y = Some t" for k t y
    using A [OF that(1)] that(2) new(1) by auto
  have oldP: "p \<notin> U' \<and> T' x \<noteq> Some p" if "k < n" "P k v = Some p" for k p x v
    using A [OF that(1)] that(2) new(1) new(2) [of x p] by auto
  have apart: "t \<notin> U k" "T k y \<noteq> Some t" if "T' x = Some t" "k < n" for x t k y
    using A [OF that(2)] new(2) [OF that(1)] by auto
  let ?U = "U(n := U')" and ?T = "T(n := T')" and ?P = "P(n := Q)"
  have at: "?U n = U'" "?T n = T'" "?P n = Q" "k < n \<Longrightarrow> ?U k = U k \<and> ?T k = T k \<and> ?P k = P k" for k
    by simp_all
  show ?thesis
    unfolding layout_def
  proof (intro conjI allI impI)
    fix k k' x y t assume k: "k < Suc n" "k' < Suc n" and t: "?T k x = Some t" "?T k' y = Some t"
    consider "k < n" "k' < n" | "k = n" "k' < n" | "k < n" "k' = n" | "k = n" "k' = n"
      using k by (auto simp: less_Suc_eq)
    then show "k = k'" "x = y"
      using t layoutD(1) [OF l] apart(2) new(3) by (cases; fastforce simp: at)+
  next
    fix k k' x t assume "k < Suc n" "k' < Suc n" "?T k x = Some t"
    then show "t \<notin> ?U k'"
      using layoutD(2) [OF l] apart(1) new(2) old by (cases "k < n"; cases "k' < n") (auto simp: at less_Suc_eq)
  next
    fix k k' v p x assume "k < Suc n" "k' < Suc n" "?P k v = Some p"
    then show "p \<notin> ?U k'" "?T k' x \<noteq> Some p"
      using layoutD(3) [OF l] pages(1) oldP by (cases "k < n"; cases "k' < n"; auto simp: at less_Suc_eq)+
  next
    fix k v v' p assume "k < Suc n" "?P k v = Some p" "?P k v' = Some p"
    then show "v = v'"
      using layoutD(4) [OF l] pages(2) by (cases "k < n") (auto simp: at less_Suc_eq)
  qed
qed

section \<open>Counting owners\<close>

definition owners :: "nat \<Rightarrow> (nat \<Rightarrow> 'v \<Rightarrow> nat option) \<Rightarrow> nat \<Rightarrow> nat set" where
  "owners n P p = {k. k < n \<and> (\<exists>v. P k v = Some p)}"

text \<open>\<open>W k v\<close> says that process \<open>k\<close> may write to \<open>v\<close>.\<close>

definition counted :: "nat \<Rightarrow> (nat \<Rightarrow> 'v \<Rightarrow> nat option) \<Rightarrow> (nat \<Rightarrow> 'v \<Rightarrow> bool) \<Rightarrow> int list \<Rightarrow> bool" where
  "counted n P W ref \<longleftrightarrow> (\<forall>p < MAX_PAGES. int (card (owners n P p)) \<le> max 1 (ref ! p)) \<and>
     (\<forall>k < n. \<forall>v p. W k v \<longrightarrow> P k v = Some p \<longrightarrow> owners n P p = {k})"

lemma finite_owners [simp]: "finite (owners n P p)"
  by (simp add: owners_def)

lemma owners_cong: "(\<And>k. k < n \<Longrightarrow> P' k = P k) \<Longrightarrow> owners n P' p = owners n P p"
  by (auto simp: owners_def)

lemma counted_cong:
  assumes "\<And>k. k < n \<Longrightarrow> P' k = P k" "\<And>k v. k < n \<Longrightarrow> W' k v = W k v"
  shows "counted n P' W' ref = counted n P W ref"
  using assms owners_cong [of n P' P] by (simp add: counted_def)

lemma countedD:
  assumes "counted n P W ref"
  shows "p < MAX_PAGES \<Longrightarrow> int (card (owners n P p)) \<le> max 1 (ref ! p)"
    and "k < n \<Longrightarrow> W k v \<Longrightarrow> P k v = Some p \<Longrightarrow> owners n P p = {k}"
  using assms by (auto simp: counted_def)

lemma sole_owner:
  assumes "counted n P W ref" "k < n" "P k v = Some p" "p < MAX_PAGES" "ref ! p \<le> 1"
  shows "owners n P p = {k}"
proof -
  have "k \<in> owners n P p" using assms(2,3) by (auto simp: owners_def)
  moreover have "card (owners n P p) \<le> Suc 0" using countedD(1) [OF assms(1,4)] assms(5) by simp
  then have "\<forall>i \<in> owners n P p. \<forall>j \<in> owners n P p. i = j" by (simp add: card_le_Suc0_iff_eq)
  ultimately show ?thesis by blast
qed

lemma counted_allow:
  assumes c: "counted n P W ref" and own: "owners n P p = {k}" "P k v = Some p"
    and W: "\<And>j u. j < n \<Longrightarrow> W' j u \<Longrightarrow> W j u \<or> j = k \<and> u = v"
  shows "counted n P W' ref"
proof -
  have "owners n P q = {j}" if "j < n" "W' j u" "P j u = Some q" for j u q
    using W [OF that(1,2)]
  proof
    assume "W j u"
    then show ?thesis by (rule countedD(2) [OF c that(1) _ that(3)])
  qed (use own that(3) in simp)
  then show ?thesis using c unfolding counted_def by blast
qed

text \<open>Process \<open>k\<close> gets a page of its own in place of the shared page \<open>p\<close>.\<close>

lemma counted_leave:
  assumes c: "counted n P W ref" and l: "layout n U T P" and k: "k < n" "P k v = Some p"
    and shared: "1 < ref ! p" and pq: "p < MAX_PAGES" "q < MAX_PAGES" "length ref = MAX_PAGES"
    and fresh: "\<And>j u. j < n \<Longrightarrow> P j u \<noteq> Some q"
    and W: "\<And>j u. j < n \<Longrightarrow> W' j u \<Longrightarrow> W j u \<or> j = k \<and> u = v"
  shows "counted n (P(k := (P k)(v \<mapsto> q))) W' (ref[p := ref ! p - 1, q := ref ! q + 1])"
proof -
  let ?P = "P(k := (P k)(v \<mapsto> q))" and ?r = "ref[p := ref ! p - 1, q := ref ! q + 1]"
  have ne: "p \<noteq> q" using fresh [OF k(1)] k(2) by auto
  have inj: "u = v" if "P k u = Some p" for u using layoutD(4) [OF l k(1) that k(2)] .
  have q: "owners n ?P q = {k}"
  proof -
    have "j < n \<Longrightarrow> ?P j u = Some q \<longleftrightarrow> j = k \<and> u = v" for j u using fresh [of j u] by (cases "j = k") simp_all
    then show ?thesis using k(1) unfolding owners_def by blast
  qed
  have p: "owners n ?P p = owners n P p - {k}"
  proof -
    have "?P j u = Some p \<longleftrightarrow> P j u = Some p \<and> j \<noteq> k" for j u
      using inj [of u] ne by (cases "j = k") auto
    then show ?thesis unfolding owners_def by blast
  qed
  have other: "owners n ?P x = owners n P x" if "x \<noteq> p" "x \<noteq> q" for x
  proof -
    have "?P j u = Some x \<longleftrightarrow> P j u = Some x" for j u using that k(2) by simp
    then show ?thesis by (simp only: owners_def)
  qed
  have mem: "k \<in> owners n P p" using k by (auto simp: owners_def)
  have "int (card (owners n ?P x)) \<le> max 1 (?r ! x)" if x: "x < MAX_PAGES" for x
  proof -
    consider "x = q" | "x = p" | "x \<noteq> p" "x \<noteq> q" by blast
    then show ?thesis
    proof cases
      case 1
      then show ?thesis by (simp add: q)
    next
      case 2
      have "int (card (owners n P p)) \<le> ref ! p" using countedD(1) [OF c pq(1)] shared by simp
      moreover have "?r ! p = ref ! p - 1" using ne pq by simp
      ultimately show ?thesis using 2 mem by (simp add: p card_Diff_singleton)
    next
      case 3
      then show ?thesis using countedD(1) [OF c x] by (simp add: other)
    qed
  qed
  moreover have "owners n ?P x = {j}" if j: "j < n" "W' j u" "?P j u = Some x" for j u x
  proof (cases "j = k \<and> u = v")
    case True
    then show ?thesis using q j(3) by simp
  next
    case False
    then have w: "W j u" "P j u = Some x" using W [OF j(1,2)] j(3) by (auto split: if_splits)
    then have own: "owners n P x = {j}" using countedD(2) [OF c j(1)] by blast
    have "x \<noteq> q" using fresh [OF j(1)] w(2) by auto
    moreover have "x \<noteq> p" using own mem inj w(2) False by auto
    ultimately show ?thesis using other own by simp
  qed
  ultimately show ?thesis unfolding counted_def by blast
qed

text \<open>A copy on write of process \<open>k\<close>: it and the new process share its pages and write to none.\<close>

lemma counted_share:
  assumes c: "counted n P W ref" and k: "k < n"
    and nonneg: "\<And>p. p < MAX_PAGES \<Longrightarrow> 0 \<le> ref ! p"
    and ref': "\<And>p v. P k v = Some p \<Longrightarrow> ref ! p + 2 \<le> ref' ! p" "\<And>p. p < MAX_PAGES \<Longrightarrow> ref ! p \<le> ref' ! p"
    and W: "\<And>j u. j < Suc n \<Longrightarrow> W' j u \<Longrightarrow> j < n \<and> j \<noteq> k \<and> W j u"
  shows "counted (Suc n) (P(n := P k)) W' ref'"
proof -
  let ?P = "P(n := P k)"
  have own: "owners (Suc n) ?P p = (if k \<in> owners n P p then insert n (owners n P p) else owners n P p)" for p
    using k by (auto simp: owners_def less_Suc_eq)
  have "int (card (owners (Suc n) ?P p)) \<le> max 1 (ref' ! p)" if p: "p < MAX_PAGES" for p
  proof (cases "k \<in> owners n P p")
    case True
    then obtain v where "P k v = Some p" by (auto simp: owners_def)
    from ref'(1) [OF this] have "int (card (owners n P p)) + 1 \<le> ref' ! p"
      using countedD(1) [OF c p] nonneg [OF p] by simp
    then show ?thesis using True card_insert_le_m1 [of "Suc (card (owners n P p))" "owners n P p" n]
      by (simp add: own card_insert_if)
  next
    case False
    then show ?thesis using countedD(1) [OF c p] ref'(2) [OF p] by (simp add: own)
  qed
  moreover have "owners (Suc n) ?P p = {j}" if "j < Suc n" "W' j u" "?P j u = Some p" for j u p
  proof -
    have j: "j < n" "j \<noteq> k" "W j u" using W [OF that(1,2)] by simp_all
    then have "owners n P p = {j}" using countedD(2) [OF c j(1,3)] that(3) by simp
    then show ?thesis using j(2) by (simp add: own)
  qed
  ultimately show ?thesis unfolding counted_def by blast
qed

text \<open>A new process all of whose pages are new.\<close>

lemma counted_copy:
  assumes c: "counted n P W ref"
    and fresh: "\<And>v p j u. Q v = Some p \<Longrightarrow> j < n \<Longrightarrow> P j u \<noteq> Some p"
    and W: "\<And>j u. j < n \<Longrightarrow> W' j u \<Longrightarrow> W j u"
  shows "counted (Suc n) (P(n := Q)) W' ref"
proof -
  let ?P = "P(n := Q)"
  have old: "owners (Suc n) ?P p = owners n P p" if "\<And>v. Q v \<noteq> Some p" for p
    using that by (auto simp: owners_def less_Suc_eq)
  have new: "owners (Suc n) ?P p = {n}" if "Q v = Some p" for p v
    using that fresh [OF that] by (auto simp: owners_def less_Suc_eq)
  have "int (card (owners (Suc n) ?P p)) \<le> max 1 (ref ! p)" if "p < MAX_PAGES" for p
    using old [of p] new [of _ p] countedD(1) [OF c that] by (cases "\<exists>v. Q v = Some p") auto
  moreover have "owners (Suc n) ?P p = {j}" if j: "j < Suc n" "W' j u" "?P j u = Some p" for j u p
  proof (cases "j = n")
    case True
    then show ?thesis using new [of u p] j(3) by simp
  next
    case False
    then have "j < n" "P j u = Some p" using j by simp_all
    then show ?thesis
      using old [of p] fresh [of _ p j u] countedD(2) [OF c _ W] j(2) by (metis option.inject)
  qed
  ultimately show ?thesis unfolding counted_def by blast
qed

end
