(* ===== verification/Vms_Spaces.thy ===== *)
theory Vms_Spaces
  imports Vms_Lookup Vms_Layout
begin

text \<open>
  Several processes on one memory, each with its own root page table, as forks make them.

  \<open>processes_inv R s\<close> is what the forks and the fault handler maintain for the roots \<open>R\<close>: the tables
  of the processes are apart, no table is a page of data, a page that may be written has one owner,
  and the count of a page is never below the number of its owners.  Under it a write of one process
  changes the view of that process at that page, and nothing else (\<open>write_space\<close>).
\<close>

section \<open>Address spaces whose links stay\<close>

lemma leaf_tablesI: "leaf_table s r x = Some t \<Longrightarrow> t \<in> leaf_tables s r"
  unfolding leaf_tables_def by blast

lemma leaf_tablesE: "t \<in> leaf_tables s r \<Longrightarrow> (\<And>x. leaf_table s r x = Some t \<Longrightarrow> P) \<Longrightarrow> P"
  unfolding leaf_tables_def by blast

text \<open>The entries of a table refer to the same pages, and none has gained write permission.\<close>

definition weaker :: "vms \<Rightarrow> vms \<Rightarrow> nat \<Rightarrow> bool" where
  "weaker s s' t \<longleftrightarrow> same_links s s' t \<and>
     (\<forall>i < NUM_PTE_ENTRIES. valid (pte s t i) \<longrightarrow>
        readable (pte s' t i) = readable (pte s t i) \<and> (writable (pte s' t i) \<longrightarrow> writable (pte s t i)))"

lemma weaker_same_page: "base_pointer s' = base_pointer s \<Longrightarrow> same_page s s' t \<Longrightarrow> weaker s s' t"
  by (simp add: weaker_def same_links_def same_page_pte)

lemma weaker_links: "weaker s s' t \<Longrightarrow> same_links s s' t"
  by (simp add: weaker_def)

lemma weaker_next: "weaker s s' t \<Longrightarrow> next_page s' t = next_page s t"
  by (simp add: weaker_def same_links_next)

lemma weaker_ok:
  assumes "weaker s s' t" "alloc s \<subseteq> alloc s'" "next_page s t i = Some p"
  shows "outer_ok s t i \<Longrightarrow> outer_ok s' t i" "leaf_ok s t i \<Longrightarrow> leaf_ok s' t i"
  using assms same_links_linked [OF weaker_links [OF assms(1)] assms(2), of i]
  by (auto simp: outer_ok_def leaf_ok_def weaker_def next_page_Some)

lemma weaker_lookup:
  assumes keep: "\<And>t. t \<in> upper s r \<union> leaf_tables s r \<Longrightarrow> weaker s s' t"
  shows "upper s' r = upper s r" "leaf_table s' r = leaf_table s r" "page_at s' r = page_at s r"
proof -
  have "\<forall>t \<in> upper s r. same_links s s' t" using keep by (simp add: weaker_links)
  note links = same_links_upper [OF this]
  show "upper s' r = upper s r" "leaf_table s' r = leaf_table s r" by (fact links)+
  show "page_at s' r = page_at s r"
  proof
    fix v :: vpage
    have "next_page s' t = next_page s t" if "leaf_table s r (fst v) = Some t" for t
      using leaf_tablesI [OF that] by (intro weaker_next keep) simp
    then show "page_at s' r v = page_at s r v"
      by (cases "leaf_table s r (fst v)") (simp_all add: page_at_def links)
  qed
qed

lemma weaker_space:
  assumes wf: "space_wf s r" and al: "alloc s \<subseteq> alloc s'"
    and keep: "\<And>t. t \<in> upper s r \<Longrightarrow> weaker s s' t"
    and leaf: "\<And>x t0 i p. leaf_table s r x = Some t0 \<Longrightarrow> next_page s' t0 i = Some p \<Longrightarrow> leaf_ok s' t0 i"
  shows "space_wf s' r"
  unfolding space_wf_def
proof (intro conjI allI impI)
  have r: "r \<in> upper s r" by (simp add: upper_def)
  show "r \<in> alloc s'" using wf al by (auto simp: space_wf_def)
  fix i t1 assume "next_page s' r i = Some t1"
  then have n1: "next_page s r i = Some t1" using weaker_next [OF keep [OF r]] by simp
  then show "outer_ok s' r i" using weaker_ok(1) [OF keep [OF r] al n1] space_wf_path(1) [OF wf n1] by simp
  have t1: "t1 \<in> upper s r" using n1 by (auto simp: upper_def)
  fix j t0 assume "next_page s' t1 j = Some t0"
  then have n2: "next_page s t1 j = Some t0" using weaker_next [OF keep [OF t1]] by simp
  then show "outer_ok s' t1 j" using weaker_ok(1) [OF keep [OF t1] al n2] space_wf_path(2) [OF wf n1 n2] by simp
  fix k p assume "next_page s' t0 k = Some p"
  then show "leaf_ok s' t0 k" using leaf [of "(i, j)"] n1 n2 by (simp add: leaf_table_Some)
qed

lemma weaker_space_all:
  assumes wf: "space_wf s r" and al: "alloc s \<subseteq> alloc s'"
    and keep: "\<And>t. t \<in> upper s r \<union> leaf_tables s r \<Longrightarrow> weaker s s' t"
  shows "space_wf s' r"
proof (rule weaker_space [OF wf al])
  fix x t0 i p assume t0: "leaf_table s r x = Some t0" and p: "next_page s' t0 i = Some p"
  then have w: "weaker s s' t0" by (intro keep) (simp add: leaf_tablesI)
  then have "next_page s t0 i = Some p" using p by (simp add: weaker_next)
  then show "leaf_ok s' t0 i" using weaker_ok(2) [OF w al] space_wf_path(3) [OF wf t0] by blast
qed (use keep in simp)

text \<open>A view stays when its tables, its pages and whether they are counted stay.\<close>

lemma view_same:
  assumes base: "base_pointer s' = base_pointer s"
    and tables: "\<And>t. t \<in> upper s r \<union> leaf_tables s r \<Longrightarrow> same_page s s' t"
    and pages: "\<And>v p. page_at s r v = Some p \<Longrightarrow>
        same_page s s' p \<and> (0 < ref_num s' ! p \<longleftrightarrow> 0 < ref_num s ! p)"
  shows "view s' r = view s r"
proof
  fix v
  note w = weaker_same_page [OF base tables]
  note look = weaker_lookup [OF w]
  show "view s' r v = view s r v"
  proof (cases "page_at s r v")
    case None
    then show ?thesis using look(3) view_None [of s r v] view_None [of s' r v] by simp
  next
    case (Some p)
    then obtain t0 where t0: "leaf_table s r (fst v) = Some t0" "next_page s t0 (snd v) = Some p"
      unfolding page_at_Some by blast
    then have leaf: "t0 \<in> upper s r \<union> leaf_tables s r" by (simp add: leaf_tablesI)
    have "next_page s' t0 = next_page s t0" by (rule weaker_next [OF w [OF leaf]])
    then have "next_page s' t0 (snd v) = Some p" using t0(2) by simp
    moreover have "pte s' t0 (snd v) = pte s t0 (snd v)"
      using same_page_pte [OF tables [OF leaf]] t0(2) by (simp add: next_page_Some)
    moreover have "access_of e (ref_num s' ! p) = access_of e (ref_num s ! p)" for e
      using pages [OF Some] by (simp add: access_of_def)
    ultimately show ?thesis
      using t0 look(2) pages [OF Some] by (simp add: view_Some page_bytes_cong)
  qed
qed

section \<open>The invariant of several processes\<close>

definition can_write :: "vms \<Rightarrow> nat \<Rightarrow> vpage \<Rightarrow> bool" where
  "can_write s r v \<longleftrightarrow> (\<exists>bs. view s r v = Some (Writable, bs))"

definition counts_ok :: "vms \<Rightarrow> bool" where
  "counts_ok s \<longleftrightarrow> (\<forall>p < MAX_PAGES. 0 \<le> ref_num s ! p \<and> (p \<notin> alloc s \<longrightarrow> ref_num s ! p = 0))"

definition placed :: "nat list \<Rightarrow> vms \<Rightarrow> bool" where
  "placed R s \<longleftrightarrow> layout (length R) (\<lambda>k. upper s (R ! k)) (\<lambda>k. leaf_table s (R ! k)) (\<lambda>k. page_at s (R ! k))"

definition owned :: "nat list \<Rightarrow> vms \<Rightarrow> bool" where
  "owned R s \<longleftrightarrow> counted (length R) (\<lambda>k. page_at s (R ! k)) (\<lambda>k. can_write s (R ! k)) (ref_num s)"

definition processes_inv :: "nat list \<Rightarrow> vms \<Rightarrow> bool" where
  "processes_inv R s \<longleftrightarrow> pages_inv s \<and> counts_ok s \<and> (\<forall>r \<in> set R. space_wf s r) \<and> placed R s \<and> owned R s"

lemma processes_invD:
  assumes "processes_inv R s"
  shows "pages_inv s" "counts_ok s" "k < length R \<Longrightarrow> space_wf s (R ! k)" "placed R s" "owned R s"
    "good_base (base_pointer s)"
  using assms by (simp_all add: processes_inv_def pages_inv_def)

lemma processes_inv_root [simp]:
  "processes_inv R (s\<lparr>root_page_table := a\<rparr>) = processes_inv R s"
  "view (s\<lparr>root_page_table := a\<rparr>) = view s"
proof -
  let ?s = "s\<lparr>root_page_table := a\<rparr>"
  have n: "next_page ?s = next_page s"
    by (simp add: next_page_def kid_def vms_get_page_index_def fun_eq_iff)
  have l: "leaf_table ?s = leaf_table s" by (simp add: leaf_table_def n fun_eq_iff)
  have p: "page_at ?s = page_at s" by (simp add: page_at_def l n fun_eq_iff)
  have b: "page_bytes ?s = page_bytes s" by (simp add: page_bytes_def fun_eq_iff)
  show v: "view ?s = view s" by (simp add: view_def l n b fun_eq_iff)
  have "space_wf ?s = space_wf s"
    by (simp add: space_wf_def n outer_ok_def leaf_ok_def linked_def kid_def vms_get_page_index_def fun_eq_iff)
  moreover have "pages_inv ?s = pages_inv s" "counts_ok ?s = counts_ok s"
    by (simp_all add: pages_inv_def counts_ok_def)
  moreover have "upper ?s = upper s" by (simp add: upper_def n fun_eq_iff)
  ultimately show "processes_inv R ?s = processes_inv R s"
    by (simp add: processes_inv_def placed_def owned_def l p can_write_def [abs_def] v)
qed

text \<open>No page that a process may reach is the table of another.\<close>

lemma placedD:
  assumes "placed R s" "j < length R" "k < length R"
  shows "leaf_table s (R ! j) x = Some t \<Longrightarrow> leaf_table s (R ! k) y = Some t \<Longrightarrow> j = k \<and> x = y"
    and "leaf_table s (R ! j) x = Some t \<Longrightarrow> t \<notin> upper s (R ! k)"
    and "page_at s (R ! j) v = Some p \<Longrightarrow> p \<notin> upper s (R ! k) \<and> p \<notin> leaf_tables s (R ! k)"
    and "page_at s (R ! j) v = Some p \<Longrightarrow> page_at s (R ! j) w = Some p \<Longrightarrow> v = w"
proof -
  note l = layoutD [OF assms(1) [unfolded placed_def] assms(2)]
  show "leaf_table s (R ! j) x = Some t \<Longrightarrow> leaf_table s (R ! k) y = Some t \<Longrightarrow> j = k \<and> x = y"
    by (rule l(1) [OF assms(3)])
  show "leaf_table s (R ! j) x = Some t \<Longrightarrow> t \<notin> upper s (R ! k)" by (rule l(2) [OF assms(3)])
  show "page_at s (R ! j) v = Some p \<Longrightarrow> p \<notin> upper s (R ! k) \<and> p \<notin> leaf_tables s (R ! k)"
    using l(3) [OF assms(3), of v p] leaf_tablesE [of p s "R ! k" False] by blast
  show "page_at s (R ! j) v = Some p \<Longrightarrow> page_at s (R ! j) w = Some p \<Longrightarrow> v = w" by (rule l(4))
qed

section \<open>An entry of a leaf table changes\<close>

text \<open>
  In \<open>s'\<close> entry \<open>i\<close> of table \<open>t0\<close> refers to page \<open>q\<close> and may be written; but for that entry and the
  bytes of \<open>q\<close>, what was allocated is as it was.
\<close>

definition entry_set :: "vms \<Rightarrow> vms \<Rightarrow> nat \<Rightarrow> nat \<Rightarrow> nat \<Rightarrow> bool" where
  "entry_set s s' t0 i q \<longleftrightarrow> pages_inv s' \<and> base_pointer s' = base_pointer s \<and>
     alloc s \<subseteq> alloc s' \<and> q \<in> alloc s' \<and>
     (\<forall>z \<in> alloc s - {t0, q}. same_page s s' z) \<and>
     (\<forall>j < NUM_PTE_ENTRIES. j \<noteq> i \<longrightarrow> pte s' t0 j = pte s t0 j) \<and>
     next_page s' t0 i = Some q \<and> leaf_ok s' t0 i \<and> writable (pte s' t0 i)"

text \<open>Process \<open>k\<close> reaches \<open>p\<close> by entry \<open>i\<close> of its leaf table \<open>t0\<close> for \<open>x\<close>.\<close>

definition reaches :: "nat list \<Rightarrow> vms \<Rightarrow> nat \<Rightarrow> nat \<times> nat \<Rightarrow> nat \<Rightarrow> nat \<Rightarrow> nat \<Rightarrow> bool" where
  "reaches R s k x t0 i p \<longleftrightarrow> k < length R \<and> leaf_table s (R ! k) x = Some t0 \<and> next_page s t0 i = Some p"

abbreviation page_owners :: "nat list \<Rightarrow> vms \<Rightarrow> nat \<Rightarrow> nat set" where
  "page_owners R s p \<equiv> owners (length R) (\<lambda>k. page_at s (R ! k)) p"

definition own_or_fresh :: "nat list \<Rightarrow> vms \<Rightarrow> nat \<Rightarrow> nat \<Rightarrow> nat \<Rightarrow> bool" where
  "own_or_fresh R s k p q \<longleftrightarrow> q = p \<and> page_owners R s p = {k} \<or> q \<notin> alloc s"

lemma reaches_page: "reaches R s k x t0 i p \<Longrightarrow> page_at s (R ! k) (x, i) = Some p"
  by (simp add: reaches_def page_at_def)

text \<open>The tables of a process, and its other pages, are neither \<open>t0\<close> nor \<open>q\<close>.\<close>

lemma entry_set_apart:
  assumes inv: "processes_inv R s" and at: "reaches R s k x t0 i p" and q: "own_or_fresh R s k p q"
    and j: "j < length R"
  shows "t \<in> upper s (R ! j) \<Longrightarrow> t \<in> alloc s - {t0, q}"
    and "leaf_table s (R ! j) y = Some t \<Longrightarrow> (j, y) \<noteq> (k, x) \<Longrightarrow> t \<in> alloc s - {t0, q}"
    and "page_at s (R ! j) w = Some z \<Longrightarrow> (j, w) \<noteq> (k, (x, i)) \<Longrightarrow> z \<in> alloc s - {t0, q}"
proof -
  have k: "k < length R" "leaf_table s (R ! k) x = Some t0" using at by (simp_all add: reaches_def)
  note wf = space_alloc [OF processes_invD(3) [OF inv j]]
  note placed = placedD [OF processes_invD(4) [OF inv]]
  have p: "page_at s (R ! k) (x, i) = Some p" using at by (rule reaches_page)
  have not_q: "t \<noteq> q" if "t \<in> upper s (R ! j) \<or> t \<in> leaf_tables s (R ! j)" "t \<in> alloc s" for t
    using placed(3) [OF k(1) j p] q that by (auto simp: own_or_fresh_def)
  show "t \<in> upper s (R ! j) \<Longrightarrow> t \<in> alloc s - {t0, q}"
    using wf(1) [of t] placed(2) [OF k(1) j k(2)] not_q [of t] by auto
  show "t \<in> alloc s - {t0, q}" if "leaf_table s (R ! j) y = Some t" "(j, y) \<noteq> (k, x)"
    using wf(2) [OF that(1)] placed(1) [OF j k(1) that(1), of x] k(2) not_q [of t]
      leaf_tablesI [OF that(1)] that(2) by auto
  show "z \<in> alloc s - {t0, q}" if z: "page_at s (R ! j) w = Some z" "(j, w) \<noteq> (k, (x, i))"
  proof -
    have "z \<noteq> t0" using placed(3) [OF j k(1) z(1)] leaf_tablesI [OF k(2)] by auto
    moreover have "z \<noteq> q"
    proof
      assume eq: "z = q"
      then have own: "page_owners R s p = {k}" "q = p"
        using wf(3) [OF z(1)] q by (auto simp: own_or_fresh_def)
      have "j \<in> page_owners R s p" using z(1) j eq own(2) unfolding owners_def by blast
      then have "j = k" using own(1) by simp
      then show False using placed(4) [OF k(1) k(1) p, of w] z eq own(2) by simp
    qed
    ultimately show ?thesis using wf(3) [OF z(1)] by simp
  qed
qed

lemma entry_set_weaker:
  assumes inv: "processes_inv R s" and at: "reaches R s k x t0 i p" and q: "own_or_fresh R s k p q"
    and set: "entry_set s s' t0 i q" and j: "j < length R"
  shows "t \<in> upper s (R ! j) \<Longrightarrow> weaker s s' t"
    and "leaf_table s (R ! j) y = Some t \<Longrightarrow> (j, y) \<noteq> (k, x) \<Longrightarrow> weaker s s' t"
proof -
  have "z \<in> alloc s - {t0, q} \<Longrightarrow> weaker s s' z" for z
    using set by (intro weaker_same_page) (simp_all add: entry_set_def)
  then show "t \<in> upper s (R ! j) \<Longrightarrow> weaker s s' t"
    "leaf_table s (R ! j) y = Some t \<Longrightarrow> (j, y) \<noteq> (k, x) \<Longrightarrow> weaker s s' t"
    using entry_set_apart(1,2) [OF inv at q j] by blast+
qed

text \<open>The other entries of \<open>t0\<close>.\<close>

lemma entry_set_other:
  assumes "entry_set s s' t0 i q" "l \<noteq> i"
  shows "next_page s' t0 l = next_page s t0 l"
  using assms by (cases "l < NUM_PTE_ENTRIES")
    (simp_all add: entry_set_def next_page_def kid_def vms_get_page_index_def)

lemma entry_set_leaf_ok:
  assumes set: "entry_set s s' t0 i q" and z: "next_page s' t0 l = Some z"
    and ok: "\<And>l z. next_page s t0 l = Some z \<Longrightarrow> leaf_ok s t0 l"
  shows "leaf_ok s' t0 l"
proof (cases "l = i")
  case True
  then show ?thesis using set by (simp add: entry_set_def)
next
  case False
  have e: "base_pointer s' = base_pointer s" "alloc s \<subseteq> alloc s'" using set by (simp_all add: entry_set_def)
  have "leaf_ok s t0 l" using ok z entry_set_other [OF set False] by simp
  moreover have "pte s' t0 l = pte s t0 l" using set False z by (simp add: entry_set_def next_page_Some)
  ultimately show ?thesis
    using e(2) at_base [OF e(1)] by (auto simp: leaf_ok_def linked_def kid_def vms_get_page_index_def e(1))
qed

lemma entry_set_lookup:
  assumes inv: "processes_inv R s" and at: "reaches R s k x t0 i p" and q: "own_or_fresh R s k p q"
    and set: "entry_set s s' t0 i q" and j: "j < length R"
  shows "upper s' (R ! j) = upper s (R ! j)" "leaf_table s' (R ! j) = leaf_table s (R ! j)"
    and "page_at s' (R ! j) = (if j = k then (page_at s (R ! k))((x, i) \<mapsto> q) else page_at s (R ! j))"
    and "space_wf s' (R ! j)"
proof -
  have e: "base_pointer s' = base_pointer s" "alloc s \<subseteq> alloc s'" "next_page s' t0 i = Some q"
    using set by (simp_all add: entry_set_def)
  have k: "k < length R" "leaf_table s (R ! k) x = Some t0" using at by (simp_all add: reaches_def)
  note up = entry_set_weaker(1) [OF inv at q set j] and leaf = entry_set_weaker(2) [OF inv at q set j]
  have "\<forall>t \<in> upper s (R ! j). same_links s s' t" using up by (simp add: weaker_links)
  note links = same_links_upper [OF this]
  show "upper s' (R ! j) = upper s (R ! j)" and lt: "leaf_table s' (R ! j) = leaf_table s (R ! j)"
    by (fact links)+
  show "page_at s' (R ! j) = (if j = k then (page_at s (R ! k))((x, i) \<mapsto> q) else page_at s (R ! j))"
  proof
    fix w :: vpage
    show "page_at s' (R ! j) w = (if j = k then (page_at s (R ! k))((x, i) \<mapsto> q) else page_at s (R ! j)) w"
    proof (cases "j = k \<and> fst w = x")
      case True
      then have "page_at s' (R ! j) w = next_page s' t0 (snd w)" "page_at s (R ! j) w = next_page s t0 (snd w)"
        using k(2) lt by (simp_all add: page_at_def)
      then show ?thesis
        using True entry_set_other [OF set, of "snd w"] e(3) by (cases "snd w = i") (auto simp: prod_eq_iff)
    next
      case False
      then have "next_page s' t = next_page s t" if "leaf_table s (R ! j) (fst w) = Some t" for t
        using leaf [OF that] by (intro weaker_next) auto
      then have "page_at s' (R ! j) w = page_at s (R ! j) w"
        by (cases "leaf_table s (R ! j) (fst w)") (simp_all add: page_at_def lt)
      then show ?thesis using False by auto
    qed
  qed
  note wf = processes_invD(3) [OF inv j]
  show "space_wf s' (R ! j)"
  proof (rule weaker_space [OF wf e(2)])
    fix y t l z assume t: "leaf_table s (R ! j) y = Some t" and z: "next_page s' t l = Some z"
    show "leaf_ok s' t l"
    proof (cases "t = t0")
      case True
      then show ?thesis using entry_set_leaf_ok [OF set, of l z] z space_wf_path(3) [OF wf t] by blast
    next
      case False
      then have "(j, y) \<noteq> (k, x)" using t k(2) by auto
      then have w: "weaker s s' t" by (rule leaf [OF t])
      then have "next_page s t l = Some z" using z by (simp add: weaker_next)
      then show ?thesis using weaker_ok(2) [OF w e(2)] space_wf_path(3) [OF wf t] by blast
    qed
  qed (use up in simp)
qed

lemma entry_set_view:
  assumes inv: "processes_inv R s" and at: "reaches R s k x t0 i p" and q: "own_or_fresh R s k p q"
    and set: "entry_set s s' t0 i q" and j: "j < length R"
    and counts: "\<And>z. z \<in> alloc s \<Longrightarrow> 0 < ref_num s' ! z \<longleftrightarrow> 0 < ref_num s ! z"
  shows "view s' (R ! j) =
    (if j = k then (view s (R ! k))((x, i) \<mapsto> (Writable, page_bytes s' q)) else view s (R ! j))"
proof
  fix w :: vpage
  have e: "base_pointer s' = base_pointer s" "next_page s' t0 i = Some q" "writable (pte s' t0 i)"
      "\<And>z. z \<in> alloc s - {t0, q} \<Longrightarrow> same_page s s' z"
      "\<And>l. l < NUM_PTE_ENTRIES \<Longrightarrow> l \<noteq> i \<Longrightarrow> pte s' t0 l = pte s t0 l"
    using set by (simp_all add: entry_set_def)
  have k: "k < length R" "leaf_table s (R ! k) x = Some t0" using at by (simp_all add: reaches_def)
  note apart = entry_set_apart [OF inv at q j]
  note look = entry_set_lookup [OF inv at q set j]
  show "view s' (R ! j) w =
    (if j = k then (view s (R ! k))((x, i) \<mapsto> (Writable, page_bytes s' q)) else view s (R ! j)) w"
  proof (cases "(j, w) = (k, (x, i))")
    case True
    then show ?thesis using k(2) look(2) e(2,3) by (simp add: view_def access_of_def)
  next
    case False
    then have page: "page_at s' (R ! j) w = page_at s (R ! j) w" using look(3) by auto
    have "view s' (R ! j) w = view s (R ! j) w"
    proof (cases "page_at s (R ! j) w")
      case None
      then show ?thesis using page view_None by metis
    next
      case (Some z)
      then obtain t where t: "leaf_table s (R ! j) (fst w) = Some t" "next_page s t (snd w) = Some z"
        unfolding page_at_Some by blast
      have z: "same_page s s' z" "0 < ref_num s' ! z \<longleftrightarrow> 0 < ref_num s ! z"
        using apart(3) [OF Some False] e(4) counts by auto
      have i: "snd w < NUM_PTE_ENTRIES" using t(2) by (simp add: next_page_Some)
      have "pte s' t (snd w) = pte s t (snd w)"
      proof (cases "(j, fst w) = (k, x)")
        case True
        then have "fst w = x" "j = k" by simp_all
        then have "t = t0" "snd w \<noteq> i" using t(1) k(2) False by (simp, cases w, simp)
        then show ?thesis using e(5) [OF i] by simp
      next
        case False
        then show ?thesis using apart(2) [OF t(1) False] e(4) i by (intro same_page_pte) auto
      qed
      moreover have "next_page s' t (snd w) = Some z" using page Some t(1) look(2) by (simp add: page_at_def)
      moreover have "access_of en (ref_num s' ! z) = access_of en (ref_num s ! z)" for en
        using z(2) by (simp add: access_of_def)
      ultimately show ?thesis using t look(2) z(1) by (simp add: view_Some page_bytes_cong)
    qed
    then show ?thesis using False by auto
  qed
qed

text \<open>
  The two ways in which a write comes by a page it may write to: the page is its own, or it takes a
  fresh one for a page that is shared.
\<close>

definition page_taken :: "nat list \<Rightarrow> vms \<Rightarrow> vms \<Rightarrow> nat \<Rightarrow> nat \<Rightarrow> nat \<Rightarrow> bool" where
  "page_taken R s s' k p q \<longleftrightarrow>
     q = p \<and> page_owners R s p = {k} \<and> ref_num s' = ref_num s \<and> alloc s' = alloc s \<or>
     q \<notin> alloc s \<and> 1 < ref_num s ! p \<and> alloc s' = insert q (alloc s) \<and>
       ref_num s' = (ref_num s)[p := ref_num s ! p - 1, q := ref_num s ! q + 1]"

lemma page_taken_own: "page_taken R s s' k p q \<Longrightarrow> own_or_fresh R s k p q"
  by (auto simp: page_taken_def own_or_fresh_def)

lemma unused_page:
  assumes "processes_inv R s" "q \<notin> alloc s" "j < length R"
  shows "page_at s (R ! j) w \<noteq> Some q"
  using assms(2) space_alloc(3) [OF processes_invD(3) [OF assms(1,3)], of w] by auto

lemma entry_set_placed:
  assumes inv: "processes_inv R s" and at: "reaches R s k x t0 i p" and q: "own_or_fresh R s k p q"
    and set: "entry_set s s' t0 i q"
  shows "placed R s'"
proof -
  let ?P = "\<lambda>k. page_at s (R ! k)"
  note look = entry_set_lookup [OF inv at q set]
  have k: "k < length R" and p: "?P k (x, i) = Some p" using at reaches_page [OF at] by (simp_all add: reaches_def)
  have fresh: "q \<notin> upper s (R ! j) \<and> (\<forall>y. leaf_table s (R ! j) y \<noteq> Some q)" if "j < length R" for j
  proof (cases "q = p")
    case True
    then show ?thesis using placedD(3) [OF processes_invD(4) [OF inv] k that p] leaf_tablesI by blast
  next
    case False
    then have "q \<notin> alloc s" using q by (simp add: own_or_fresh_def)
    then show ?thesis using space_alloc [OF processes_invD(3) [OF inv that]] by blast
  qed
  have "layout (length R) (\<lambda>k. upper s (R ! k)) (\<lambda>k. leaf_table s (R ! k)) (?P(k := (?P k)((x, i) \<mapsto> q)))"
    using processes_invD(4) [OF inv, unfolded placed_def] k fresh
    by (rule layout_update) (use q p unused_page [OF inv _ k] in \<open>auto simp: own_or_fresh_def\<close>)
  then show ?thesis unfolding placed_def by (subst layout_cong [of "length R"]) (use look in simp_all)
qed

lemma entry_set_owned:
  assumes inv: "processes_inv R s" and at: "reaches R s k x t0 i p" and set: "entry_set s s' t0 i q"
    and taken: "page_taken R s s' k p q"
    and views: "\<And>j. j < length R \<Longrightarrow> view s' (R ! j) =
      (if j = k then (view s (R ! k))((x, i) \<mapsto> (Writable, page_bytes s' q)) else view s (R ! j))"
  shows "owned R s'"
proof -
  let ?n = "length R" and ?P = "\<lambda>k. page_at s (R ! k)"
  let ?Q = "?P(k := (?P k)((x, i) \<mapsto> q))"
  note look = entry_set_lookup [OF inv at page_taken_own [OF taken] set]
  have k: "k < ?n" and p: "?P k (x, i) = Some p" using at reaches_page [OF at] by (simp_all add: reaches_def)
  have pages: "pages_inv s" "p \<in> alloc s" "q \<in> alloc s'" "pages_inv s'"
    using processes_invD(1) [OF inv] set space_alloc(3) [OF processes_invD(3) [OF inv k] p]
    by (simp_all add: entry_set_def)
  then have lt: "p < MAX_PAGES" "q < MAX_PAGES" "length (ref_num s) = MAX_PAGES"
    by (auto simp: pages_inv_def dest: alloc_less)
  have W: "can_write s (R ! j) u \<or> j = k \<and> u = (x, i)" if "j < ?n" "can_write s' (R ! j) u" for j u
    using that views [OF that(1)] by (auto simp: can_write_def split: if_splits)
  have own: "counted ?n ?P (\<lambda>k. can_write s (R ! k)) (ref_num s)"
    using processes_invD(5) [OF inv] by (simp add: owned_def)
  have "counted ?n ?Q (\<lambda>k. can_write s' (R ! k)) (ref_num s')"
    using taken unfolding page_taken_def
  proof (elim disjE conjE)
    assume *: "q = p" "page_owners R s p = {k}" "ref_num s' = ref_num s"
    then have "?Q = ?P" using p by (auto simp: fun_eq_iff)
    then show ?thesis using counted_allow [OF own *(2) p W] *(3) by simp
  next
    assume *: "q \<notin> alloc s" "1 < ref_num s ! p"
      "ref_num s' = (ref_num s)[p := ref_num s ! p - 1, q := ref_num s ! q + 1]"
    show ?thesis
      unfolding *(3)
      by (rule counted_leave [OF own processes_invD(4) [OF inv, unfolded placed_def] k p *(2) lt _ W])
        (use unused_page [OF inv *(1)] in simp_all)
  qed
  then show ?thesis unfolding owned_def by (subst counted_cong [where P = ?Q]) (use look(3) in simp_all)
qed

lemma entry_set_inv:
  assumes inv: "processes_inv R s" and at: "reaches R s k x t0 i p"
    and set: "entry_set s s' t0 i q" and taken: "page_taken R s s' k p q"
  shows "processes_inv R s' \<and> (\<forall>j < length R. view s' (R ! j) =
    (if j = k then (view s (R ! k))((x, i) \<mapsto> (Writable, page_bytes s' q)) else view s (R ! j)))"
proof -
  have q: "own_or_fresh R s k p q" using taken by (rule page_taken_own)
  have pages: "pages_inv s" "pages_inv s'" "q \<in> alloc s'"
    using processes_invD(1) [OF inv] set by (simp_all add: entry_set_def)
  have k: "k < length R" and p: "page_at s (R ! k) (x, i) = Some p"
    using at reaches_page [OF at] by (simp_all add: reaches_def)
  have "p \<in> alloc s" using space_alloc(3) [OF processes_invD(3) [OF inv k] p] .
  then have lt: "p < MAX_PAGES" "q < MAX_PAGES" "length (ref_num s) = MAX_PAGES"
    using pages by (auto simp: pages_inv_def dest: alloc_less)
  have counts: "0 < ref_num s' ! z \<longleftrightarrow> 0 < ref_num s ! z" if "z \<in> alloc s" for z
    using taken that lt by (auto simp: page_taken_def nth_list_update split: if_splits)
  note views = entry_set_view [OF inv at q set _ counts]
  have "counts_ok s'" using processes_invD(2) [OF inv] taken lt
    by (auto simp: counts_ok_def page_taken_def nth_list_update)
  moreover have "\<forall>r \<in> set R. space_wf s' r"
    using entry_set_lookup(4) [OF inv at q set] by (auto simp: in_set_conv_nth)
  ultimately show ?thesis
    using pages(2) entry_set_placed [OF inv at q set] entry_set_owned [OF inv at set taken views] views
    by (simp add: processes_inv_def)
qed

section \<open>Writing in one of the address spaces\<close>

text \<open>Storing four bytes in the page that the entry refers to.\<close>

lemma entry_set_wr32:
  assumes set: "entry_set s s' t0 i q" and t0: "t0 \<in> alloc s" "q \<noteq> t0" and off: "off + 4 \<le> PAGE_SIZE"
  shows "entry_set s (wr32 (at s q off) v s') t0 i q"
    and "page_bytes (wr32 (at s q off) v s') q = put_word off v (page_bytes s' q)"
proof -
  let ?s = "wr32 (at s q off) v s'"
  have e: "pages_inv s'" "base_pointer s' = base_pointer s" "alloc s \<subseteq> alloc s'" "q \<in> alloc s'"
      "next_page s' t0 i = Some q" "leaf_ok s' t0 i" "writable (pte s' t0 i)"
      "\<And>z. z \<in> alloc s - {t0, q} \<Longrightarrow> same_page s s' z"
      "\<And>l. l < NUM_PTE_ENTRIES \<Longrightarrow> l \<noteq> i \<Longrightarrow> pte s' t0 l = pte s t0 l"
    using set by (simp_all add: entry_set_def)
  have at: "at s = at s'" using at_base [OF e(2)] by simp
  have lt: "q < MAX_PAGES" "t0 < MAX_PAGES" using e(3,4) t0 by (auto dest: alloc_less)
  have same: "same_page s' ?s z" if "z < MAX_PAGES" "z \<noteq> q" for z
    unfolding at using that lt off by (intro same_page_wr32) simp_all
  have al: "alloc ?s = alloc s'" by (simp add: alloc_def)
  have t: "weaker s' ?s t0" using same [OF lt(2)] t0(2) by (intro weaker_same_page) auto
  have pte: "pte ?s t0 l = pte s' t0 l" if "l < NUM_PTE_ENTRIES" for l
    using same [OF lt(2)] t0(2) that by (intro same_page_pte) auto
  have i: "i < NUM_PTE_ENTRIES" using e(5) by (simp add: next_page_Some)
  have "pages_inv ?s"
    using same e(4) by (intro pages_inv_update [OF e(1)]) auto
  moreover have "same_page s ?s z" if "z \<in> alloc s - {t0, q}" for z
  proof -
    have "z < MAX_PAGES" "z \<noteq> q" using that by (auto dest: alloc_less)
    then show ?thesis by (rule same_page_trans [OF e(8) [OF that] same])
  qed
  moreover have "next_page ?s t0 i = Some q" "leaf_ok ?s t0 i"
    using weaker_next [OF t] weaker_ok(2) [OF t _ e(5,6)] e(5) by (simp_all add: al)
  ultimately show "entry_set s ?s t0 i q"
    using e i by (simp add: entry_set_def al pte)
  show "page_bytes ?s q = put_word off v (page_bytes s' q)"
    unfolding at by (rule put_word_page [OF lt(1) off])
qed

definition written :: "nat list \<Rightarrow> vms \<Rightarrow> nat \<Rightarrow> addr \<Rightarrow> u32 \<Rightarrow> u8 list \<Rightarrow> vms \<Rightarrow> bool" where
  "written R s k va v bs s' \<longleftrightarrow> processes_inv R s' \<and> base_pointer s' = base_pointer s \<and>
     (\<forall>j < length R. view s' (R ! j) =
       (if j = k then (view s (R ! k))(vpage_of va \<mapsto> (Writable, put_word (offset va) v bs))
        else view s (R ! j)))"

lemma written_wr32:
  assumes inv: "processes_inv R s" and at: "reaches R s k (fst (vpage_of va)) t0 (snd (vpage_of va)) p"
    and set: "entry_set s s' t0 (snd (vpage_of va)) q" and taken: "page_taken R s s' k p q"
    and bytes: "page_bytes s' q = page_bytes s p" and off: "offset va + 4 \<le> PAGE_SIZE"
  shows "written R s k va v (page_bytes s p) (wr32 (at s q (offset va)) v s')"
proof -
  let ?s = "wr32 (at s q (offset va)) v s'"
  have k: "k < length R" "leaf_table s (R ! k) (fst (vpage_of va)) = Some t0" using at by (simp_all add: reaches_def)
  have t0: "t0 \<in> alloc s" using space_alloc(2) [OF processes_invD(3) [OF inv k(1)] k(2)] .
  have "q \<noteq> t0"
    using taken t0 placedD(3) [OF processes_invD(4) [OF inv] k(1,1) reaches_page [OF at]] leaf_tablesI [OF k(2)]
    by (auto simp: page_taken_def)
  note set' = entry_set_wr32 [OF set t0 this off]
  have "page_taken R s ?s k p q" using taken by (simp add: page_taken_def alloc_def)
  from entry_set_inv [OF inv at set'(1) this] show ?thesis
    using set'(2) bytes set by (simp add: written_def entry_set_def)
qed

text \<open>The three ways to the page: it may be written, its count is one, or it is copied.\<close>

lemma entry_set_idle:
  assumes inv: "processes_inv R s" and at: "reaches R s k x t0 i p" and w: "writable (pte s t0 i)"
  shows "entry_set s s t0 i p \<and> page_taken R s s k p p"
proof -
  have k: "k < length R" "leaf_table s (R ! k) x = Some t0" "next_page s t0 i = Some p"
    using at by (simp_all add: reaches_def)
  have w': "can_write s (R ! k) (x, i)" using k w by (simp add: can_write_def view_def access_of_def)
  have "page_owners R s p = {k}"
    by (rule countedD(2) [OF processes_invD(5) [OF inv, unfolded owned_def] k(1) w' reaches_page [OF at]])
  then show ?thesis
    using space_wf_path(3) [OF processes_invD(3) [OF inv k(1)] k(2,3)] k(3) w processes_invD(1) [OF inv]
    by (simp add: entry_set_def page_taken_def)
qed

lemma entry_set_last:
  assumes inv: "processes_inv R s" and at: "reaches R s k x t0 i p"
    and c: "custom (pte s t0 i)" and n: "ref_num s ! p = 1"
    and s': "s' = wr64 (at s t0 (8 * i)) (restored (pte s t0 i)) s"
  shows "entry_set s s' t0 i p \<and> page_taken R s s' k p p"
proof -
  have k: "k < length R" "leaf_table s (R ! k) x = Some t0" "next_page s t0 i = Some p"
    using at by (simp_all add: reaches_def)
  note wf = processes_invD(3) [OF inv k(1)]
  have t0: "t0 \<in> alloc s" using space_alloc(2) [OF wf k(2)] .
  have i: "i < NUM_PTE_ENTRIES" "valid (pte s t0 i)" "kid s t0 i = p" using k(3) by (simp_all add: next_page_Some)
  have p: "p \<in> alloc s" "leaf_ok s t0 i" using space_wf_path(3) [OF wf k(2,3)] by simp_all
  have g: "grows {t0} s s'" unfolding s' using processes_invD(1) [OF inv] t0 i(1) by (rule grows_wr64)
  have al: "alloc s' = alloc s" by (simp add: s' alloc_def)
  have at': "at s' = at s" by (simp add: s')
  have e: "pte s' t0 i = restored (pte s t0 i)" by (simp add: s')
  have kid: "kid s' t0 i = p" using e i(3) by (simp add: kid_def vms_get_page_index_def s')
  have ok: "next_page s' t0 i = Some p" "leaf_ok s' t0 i"
    using i p kid at' by (simp_all add: next_page_Some leaf_ok_def linked_def e al)
  moreover have "pte s' t0 l = pte s t0 l" if "l < NUM_PTE_ENTRIES" "l \<noteq> i" for l
    unfolding s' using that t0 i(1) by (intro pte_wr64_other) (auto dest: alloc_less)
  moreover have "counted (length R) (\<lambda>k. page_at s (R ! k)) (\<lambda>k. can_write s (R ! k)) (ref_num s)"
    using processes_invD(5) [OF inv] by (simp add: owned_def)
  then have "page_owners R s p = {k}"
    using k(1) reaches_page [OF at] p(1) n by (intro sole_owner) (auto dest: alloc_less)
  moreover have "ref_num s' = ref_num s" by (simp add: s')
  ultimately show ?thesis
    using g p c al e by (auto simp: entry_set_def page_taken_def grows_def)
qed

lemma entry_set_copied:
  assumes inv: "processes_inv R s" and at: "reaches R s k x t0 i p"
    and c: "custom (pte s t0 i)" and n: "1 < ref_num s ! p"
    and d: "d < MAX_PAGES" "d \<notin> alloc s" "alloc s1 = insert d (alloc s)" "pages_inv s1" "only_allocates s s1"
    and s': "s' = cow_copied s1 t0 i p d"
  shows "entry_set s s' t0 i d \<and> page_taken R s s' k p d \<and> page_bytes s' d = page_bytes s p"
proof -
  have k: "k < length R" "leaf_table s (R ! k) x = Some t0" "next_page s t0 i = Some p"
    using at by (simp_all add: reaches_def)
  note wf = processes_invD(3) [OF inv k(1)]
  have t0: "t0 \<in> alloc s" using space_alloc(2) [OF wf k(2)] .
  have i: "i < NUM_PTE_ENTRIES" "valid (pte s t0 i)" "kid s t0 i = p" using k(3) by (simp_all add: next_page_Some)
  have p: "p \<in> alloc s" "leaf_ok s t0 i" using space_wf_path(3) [OF wf k(2,3)] by simp_all
  have pt: "p \<noteq> t0"
    using placedD(3) [OF processes_invD(4) [OF inv] k(1,1) reaches_page [OF at]] leaf_tablesI [OF k(2)] by auto
  have lt: "t0 < MAX_PAGES" "p < MAX_PAGES" "d \<noteq> t0" "d \<noteq> p" using t0 p(1) d(2) by (auto dest: alloc_less)
  note view = only_allocates_view [OF d(5)] only_allocates_fields [OF d(5)]
  have s1: "pte s1 = pte s" "at s1 = at s" "byte s1 = byte s" by (simp_all add: fun_eq_iff pte_def view)
  note pages = cow_copied_pages [where s = s1 and t = t0 and i = i and p = p, OF lt(1) d(1) lt(2) i(1) lt(3)]
  have base: "good_base (base_pointer s)" using processes_invD(6) [OF inv] .
  have al: "alloc s' = insert d (alloc s)" by (simp add: s' alloc_def d(3) [unfolded alloc_def])
  have e: "pte s' t0 i = restored (set_ppn (pte s t0 i) (drop_bit 12 (at s d 0)))"
    using pages(2) by (simp add: s' s1)
  have page: "entry_page (pte s' t0 i) = at s d 0"
    unfolding e restored_flags using base d(1) by (rule entry_page_set_ppn)
  have at': "at s' = at s" by (simp add: s' s1)
  have kid: "kid s' t0 i = d" using page at' d(1) by (intro kidI) simp_all
  have "pages_inv s'"
    unfolding s' using pages(1) d(3) t0 by (intro pages_inv_update [OF d(4)]) auto
  moreover have "same_page s s' z" if "z \<in> alloc s - {t0, d}" for z
    using pages(1) [of z] that by (auto simp: s' same_page_def s1 dest: alloc_less)
  moreover have "next_page s' t0 i = Some d" "leaf_ok s' t0 i" "writable (pte s' t0 i)"
    using i p kid page at' al c by (simp_all add: next_page_Some leaf_ok_def linked_def e)
  moreover have "pte s' t0 l = pte s t0 l" if "l < NUM_PTE_ENTRIES" "l \<noteq> i" for l
    using pages(3) [OF that] by (simp add: s' s1)
  moreover have "base_pointer s' = base_pointer s"
    "ref_num s' = (ref_num s)[p := ref_num s ! p - 1, d := ref_num s ! d + 1]"
    by (simp_all add: s' view)
  moreover have "page_bytes s' d = page_bytes s p"
    using pages(4) [OF pt] by (simp add: page_bytes_def s' s1)
  ultimately show ?thesis
    using al d(2) n by (auto simp: entry_set_def page_taken_def)
qed

text \<open>What a write does, by the access that the view gives.\<close>

definition write_result :: "nat list \<Rightarrow> vms \<Rightarrow> nat \<Rightarrow> addr \<Rightarrow> u32 \<Rightarrow> access \<Rightarrow> u8 list \<Rightarrow>
    stop + unit \<times> vms \<Rightarrow> bool" where
  "write_result R s k va v a bs res \<longleftrightarrow> (case res of
     Inr (_, s') \<Rightarrow> On_write \<le> a \<and> written R s k va v bs s' \<and>
       root_page_table s' = root_page_table s
   | Inl e \<Rightarrow> e = Exit EFAULT \<and> a < On_write \<or>
       e = Exit ENOMEM \<and> a \<in> {Fixed, On_write} \<and> alloc s = {..<MAX_PAGES})"

text \<open>The entry that a write without permission meets, and what the handler makes of it.\<close>

lemma reaches_guarded:
  assumes inv: "processes_inv R s" and at: "reaches R s k x t0 i p" and ro: "\<not> writable (pte s t0 i)"
  shows "guarded s t0 i p" "p \<noteq> t0"
proof -
  have k: "k < length R" "leaf_table s (R ! k) x = Some t0" "next_page s t0 i = Some p"
    using at by (simp_all add: reaches_def)
  note wf = processes_invD(3) [OF inv k(1)]
  have "t0 \<in> alloc s" "p \<in> alloc s" "linked s t0 i"
    using space_alloc(2) [OF wf k(2)] space_wf_path(3) [OF wf k(2,3)] by (simp_all add: leaf_ok_def)
  then show "guarded s t0 i p" using ro k(3) by (simp add: guarded_def next_page_Some linked_def)
  show "p \<noteq> t0"
    using placedD(3) [OF processes_invD(4) [OF inv] k(1,1) reaches_page [OF at]] leaf_tablesI [OF k(2)] by auto
qed

lemma written_entry:
  assumes inv: "processes_inv R s" and at: "reaches R s k (fst (vpage_of va)) t0 (vpn va 0) p"
    and set: "entry_set s s' t0 (vpn va 0) q \<and> page_taken R s s' k p q" "page_bytes s' q = page_bytes s p"
    and off: "offset va + 4 \<le> PAGE_SIZE"
  shows "written R s k va v (page_bytes s p) (wr32 (at s q (offset va)) v s')"
proof -
  have i: "vpn va 0 = snd (vpage_of va)" by (simp add: vpage_of_def)
  show ?thesis using written_wr32 [OF inv _ _ _ set(2) off] at set(1) by (simp add: i)
qed

lemma write_result_last:
  assumes inv: "processes_inv R s" and root: "root_page_table s = at s (R ! k) 0"
    and at: "reaches R s k (fst (vpage_of va)) t0 (vpn va 0) p"
    and maps: "maps s (R ! k) va t1 t0 p" and ro: "\<not> writable (pte s t0 (vpn va 0))"
    and off: "offset va + 4 \<le> PAGE_SIZE" and n: "ref_num s ! p = 1"
  shows "write_result R s k va v (access_of (pte s t0 (vpn va 0)) (ref_num s ! p)) (page_bytes s p)
    (vms_write va v s)"
proof -
  let ?e = "pte s t0 (vpn va 0)"
  let ?s = "if custom ?e then wr64 (at s t0 (8 * vpn va 0)) (restored ?e) s else s"
  note g = reaches_guarded [OF inv at ro] and base = processes_invD(6) [OF inv]
  have lt: "p < MAX_PAGES" "t0 < MAX_PAGES" using maps by (simp_all add: maps_def)
  have page: "entry_page ?e = at s p 0" using maps by (simp add: maps_def)
  have w: "vms_write va v s =
      (if custom ?e then Inr ((), wr32 (at s p (offset va)) v ?s) else Inl (Exit EFAULT))"
    using write_guarded [OF base root maps ro off handler_last [OF processes_invD(1) [OF inv] g(1) refl n] _ _ lt(1)]
      page ro by simp
  show ?thesis
  proof (cases "custom ?e")
    case True
    have "entry_set s ?s t0 (vpn va 0) p \<and> page_taken R s ?s k p p"
      using True by (intro entry_set_last [OF inv at True n]) simp
    moreover have "page_bytes ?s p = page_bytes s p" using lt g(2) by (simp add: page_bytes_cong same_page_wr64)
    ultimately have "written R s k va v (page_bytes s p) (wr32 (at s p (offset va)) v ?s)"
      by (rule written_entry [OF inv at _ _ off])
    then show ?thesis using True w ro n by (simp add: write_result_def access_of_def)
  next
    case False
    then show ?thesis using w ro n by (simp add: write_result_def access_of_def)
  qed
qed

lemma write_result_copied:
  assumes inv: "processes_inv R s" and root: "root_page_table s = at s (R ! k) 0"
    and at: "reaches R s k (fst (vpage_of va)) t0 (vpn va 0) p"
    and maps: "maps s (R ! k) va t1 t0 p" and ro: "\<not> writable (pte s t0 (vpn va 0))"
    and off: "offset va + 4 \<le> PAGE_SIZE" and n: "1 < ref_num s ! p" "alloc s \<noteq> {..<MAX_PAGES}"
  shows "write_result R s k va v (access_of (pte s t0 (vpn va 0)) (ref_num s ! p)) (page_bytes s p)
    (vms_write va v s)"
proof -
  let ?e = "pte s t0 (vpn va 0)"
  note g = reaches_guarded(1) [OF inv at ro] and base = processes_invD(6) [OF inv]
  obtain d s1 where d: "d < MAX_PAGES" "d \<notin> alloc s" "alloc s1 = insert d (alloc s)" "pages_inv s1"
      "only_allocates s s1"
      and h: "page_fault_handler va 0 (at s t0 0) s = Inr ((), cow_copied s1 t0 (vpn va 0) p d)"
    using handler_copies [OF processes_invD(1) [OF inv] g refl n] by metis
  let ?s = "cow_copied s1 t0 (vpn va 0) p d"
  note view = only_allocates_view [OF d(5)] only_allocates_fields [OF d(5)]
  have "pte ?s t0 (vpn va 0) = restored (set_ppn ?e (drop_bit 12 (at s d 0)))"
    using cow_copied_pages(2) [of t0 d p "vpn va 0" s1] guarded_less [OF g] g d by (auto simp: pte_def view guarded_def)
  then have e: "entry_page (pte ?s t0 (vpn va 0)) = at s d 0" "writable (pte ?s t0 (vpn va 0)) = custom ?e"
    using entry_page_set_ppn [OF base d(1)] ro by simp_all
  have w: "vms_write va v s =
      (if custom ?e then Inr ((), wr32 (at s d (offset va)) v ?s) else Inl (Exit EFAULT))"
    using write_guarded [OF base root maps ro off h _ e(1) d(1)] by (simp add: view e(2))
  show ?thesis
  proof (cases "custom ?e")
    case True
    have "written R s k va v (page_bytes s p) (wr32 (at s d (offset va)) v ?s)"
      using entry_set_copied [OF inv at True n(1) d refl] by (intro written_entry [OF inv at _ _ off]) simp_all
    then show ?thesis using True w ro n(1) by (simp add: write_result_def access_of_def view)
  next
    case False
    then show ?thesis using w ro n(1) by (simp add: write_result_def access_of_def)
  qed
qed

lemma write_result_guarded:
  assumes inv: "processes_inv R s" and root: "root_page_table s = at s (R ! k) 0"
    and at: "reaches R s k (fst (vpage_of va)) t0 (vpn va 0) p"
    and maps: "maps s (R ! k) va t1 t0 p" and ro: "\<not> writable (pte s t0 (vpn va 0))"
    and off: "offset va + 4 \<le> PAGE_SIZE"
  shows "write_result R s k va v (access_of (pte s t0 (vpn va 0)) (ref_num s ! p)) (page_bytes s p)
    (vms_write va v s)"
proof -
  note g = reaches_guarded(1) [OF inv at ro] and pages = processes_invD(1) [OF inv] and base = processes_invD(6) [OF inv]
  have p: "p < MAX_PAGES" "entry_page (pte s t0 (vpn va 0)) = at s p 0" using maps by (simp_all add: maps_def)
  consider "ref_num s ! p \<le> 0" | "ref_num s ! p = 1" | "1 < ref_num s ! p" "alloc s = {..<MAX_PAGES}"
    | "1 < ref_num s ! p" "alloc s \<noteq> {..<MAX_PAGES}" by linarith
  then show ?thesis
  proof cases
    case 1
    have "vms_write va v s = Inl (Exit EFAULT)"
      using write_guarded [OF base root maps ro off handler_unshared [OF pages g refl 1] refl p(2,1)] ro by simp
    then show ?thesis using 1 ro by (simp add: write_result_def access_of_def)
  next
    case 3
    have "vms_write va v s = Inl (Exit ENOMEM)"
      by (rule write_stopped [OF base root maps ro handler_no_memory [OF pages g refl 3]])
    then show ?thesis using 3 ro by (simp add: write_result_def access_of_def)
  qed (use write_result_last [OF inv root at maps ro off] write_result_copied [OF inv root at maps ro off] in simp_all)
qed

lemma write_space:
  assumes inv: "processes_inv R s" and k: "k < length R" and root: "root_page_table s = at s (R ! k) 0"
    and v: "view s (R ! k) (vpage_of va) = Some (a, bs)" and off: "offset va + 4 \<le> PAGE_SIZE"
  shows "write_result R s k va v a bs (vms_write va v s)"
proof -
  obtain t0 p where l: "leaf_table s (R ! k) (fst (vpage_of va)) = Some t0"
      "next_page s t0 (snd (vpage_of va)) = Some p"
      and a: "a = access_of (pte s t0 (snd (vpage_of va))) (ref_num s ! p)" and bs: "bs = page_bytes s p"
    using v by (rule viewE)
  have i: "vpn va 0 = snd (vpage_of va)" by (simp add: vpage_of_def)
  obtain t1 where maps: "maps s (R ! k) va t1 t0 p" using vpage_leaf(1) [OF processes_invD(3) [OF inv k] l] ..
  have at: "reaches R s k (fst (vpage_of va)) t0 (snd (vpage_of va)) p" using k l by (simp add: reaches_def)
  then have at': "reaches R s k (fst (vpage_of va)) t0 (vpn va 0) p" by (simp add: i)
  show ?thesis
  proof (cases "writable (pte s t0 (vpn va 0))")
    case True
    have "vms_write va v s = Inr ((), wr32 (at s p (offset va)) v s)"
      by (rule vms_write_maps [OF processes_invD(6) [OF inv] root maps True off])
    moreover have "written R s k va v bs (wr32 (at s p (offset va)) v s)"
      unfolding bs using entry_set_idle [OF inv at] True off
      by (intro written_wr32 [OF inv at]) (simp_all add: i)
    ultimately show ?thesis using True by (simp add: write_result_def a access_of_def i)
  next
    case False
    then show ?thesis using write_result_guarded [OF inv root at' maps False off] by (simp add: a bs i)
  qed
qed

end
