(* ===== verification/Vms_Children.thy ===== *)
theory Vms_Children
  imports Vms_Spaces
begin

text \<open>
  The address space of a child, page by page: the lookups in the tables that a fork has copied
  follow those of the parent (\<open>copy_next\<close>, \<open>copy_leaf\<close>), the child's tables and, for
  \<open>vms_fork_copy\<close>, its pages lie apart, and so both forks keep \<open>processes_inv\<close>, leave the views of
  all processes (but for the write permission that the copy on write sets aside), and give the child
  the view of its parent.
\<close>

section \<open>Lookups in a copied table\<close>

lemma copy_next:
  assumes "table_copy C F A s t s' t'"
  shows "next_page s t i = None \<Longrightarrow> next_page s' t' i = None"
    and "next_page s t i = Some u \<Longrightarrow> \<exists>u'. next_page s' t' i = Some u' \<and>
      same_flags (pte s t i) (pte s' t' i) \<and> linked s' t' i \<and> C (insert t' A) s u s' u'"
  using assms by (auto simp: table_copy_def entry_copied_def next_page_def same_flags_def split: if_splits)

lemma copy_next_back:
  assumes "table_copy C F A s t s' t'" "next_page s' t' i = Some u'"
  shows "\<exists>u. next_page s t i = Some u \<and>
      same_flags (pte s t i) (pte s' t' i) \<and> linked s' t' i \<and> C (insert t' A) s u s' u'"
  using assms copy_next [OF assms(1), of i] by (cases "next_page s t i") auto

lemma copy_apart:
  assumes "table_copy C F A s t s' t'"
    and "next_page s' t' i = Some u" "next_page s' t' j = Some w" "i \<noteq> j"
  shows "F s' u \<inter> F s' w = {}"
proof -
  have "i \<in> valid_entries s t" "j \<in> valid_entries s t"
    using table_copy_valid [OF assms(1)] assms(2,3) by (auto simp: valid_entries_def next_page_Some)
  then show ?thesis
    using assms by (auto simp: table_copy_def kids_apart_def next_page_Some)
qed

section \<open>The upper levels of a child\<close>

text \<open>Two levels of tables over what \<open>C\<close> says of the copies of leaf tables and \<open>F\<close> of their pages.\<close>

definition leaf_contract :: "(nat set \<Rightarrow> vms \<Rightarrow> nat \<Rightarrow> vms \<Rightarrow> nat \<Rightarrow> bool) \<Rightarrow> (vms \<Rightarrow> nat \<Rightarrow> nat set) \<Rightarrow> bool" where
  "leaf_contract C F \<longleftrightarrow> (\<forall>A s t s' t'. C A s t s' t' \<longrightarrow> t' \<in> F s' t' \<and> F s' t' \<subseteq> alloc s' - A)"

abbreviation upper_copy :: "(nat set \<Rightarrow> vms \<Rightarrow> nat \<Rightarrow> vms \<Rightarrow> nat \<Rightarrow> bool) \<Rightarrow> (vms \<Rightarrow> nat \<Rightarrow> nat set) \<Rightarrow>
    nat set \<Rightarrow> vms \<Rightarrow> nat \<Rightarrow> vms \<Rightarrow> nat \<Rightarrow> bool" where
  "upper_copy C F \<equiv> table_copy (table_copy C F) (table_pages F)"

lemma copy_leaf_back:
  assumes copy: "upper_copy C F A s r s' r'" and c: "leaf_contract C F"
    and leaf: "leaf_table s' r' x = Some u0"
  shows "\<exists>t0 u1. leaf_table s r x = Some t0 \<and> next_page s' r' (fst x) = Some u1 \<and> next_page s' u1 (snd x) = Some u0 \<and>
    C (insert u1 (insert r' A)) s t0 s' u0"
proof -
  obtain u1 where u: "next_page s' r' (fst x) = Some u1" "next_page s' u1 (snd x) = Some u0"
    using leaf unfolding leaf_table_Some by blast
  obtain t1 where t1: "next_page s r (fst x) = Some t1" "table_copy C F (insert r' A) s t1 s' u1"
    using copy_next_back [OF copy u(1)] by blast
  obtain t0 where "next_page s t1 (snd x) = Some t0" "C (insert u1 (insert r' A)) s t0 s' u0"
    using copy_next_back [OF t1(2) u(2)] by blast
  then show ?thesis using t1(1) u unfolding leaf_table_Some by blast
qed

lemma copy_leaf:
  assumes copy: "upper_copy C F A s r s' r'" and leaf: "leaf_table s r x = Some t0"
  shows "\<exists>u0. leaf_table s' r' x = Some u0"
proof -
  obtain t1 where t: "next_page s r (fst x) = Some t1" "next_page s t1 (snd x) = Some t0"
    using leaf unfolding leaf_table_Some by blast
  obtain u1 where u1: "next_page s' r' (fst x) = Some u1" "table_copy C F (insert r' A) s t1 s' u1"
    using copy_next(2) [OF copy t(1)] by blast
  show ?thesis using copy_next(2) [OF u1(2) t(2)] u1(1) unfolding leaf_table_Some by blast
qed

lemma copy_upper:
  assumes copy: "upper_copy C F A s r s' r'" and t: "t \<in> upper s' r'"
  shows "t \<in> alloc s' - A"
proof (cases "t = r'")
  case True
  then show ?thesis using copy by (simp add: table_copy_def)
next
  case False
  then obtain i where "next_page s' r' i = Some t" using t by (auto simp: upper_def)
  from copy_next_back [OF copy this] show ?thesis by (auto simp: table_copy_def)
qed

lemma copy_upper_ok:
  assumes copy: "upper_copy C F A s r s' r'" and wf: "space_wf s r"
  shows "next_page s' r' i = Some u1 \<Longrightarrow> outer_ok s' r' i"
    and "next_page s' r' i = Some u1 \<Longrightarrow> next_page s' u1 j = Some u0 \<Longrightarrow> outer_ok s' u1 j"
proof -
  assume "next_page s' r' i = Some u1"
  then obtain t1 where t1: "next_page s r i = Some t1" "same_flags (pte s r i) (pte s' r' i)" "linked s' r' i"
      "table_copy C F (insert r' A) s t1 s' u1"
    using copy_next_back [OF copy] by blast
  then show "outer_ok s' r' i"
    using space_wf_path(1) [OF wf t1(1)] by (simp add: outer_ok_def same_flags_def)
  assume "next_page s' u1 j = Some u0"
  then obtain t0 where t0: "next_page s t1 j = Some t0" "same_flags (pte s t1 j) (pte s' u1 j)" "linked s' u1 j"
    using copy_next_back [OF t1(4)] by blast
  then show "outer_ok s' u1 j"
    using space_wf_path(2) [OF wf t1(1) t0(1)] by (simp add: outer_ok_def same_flags_def)
qed

lemma copy_leaf_pages:
  assumes copy: "upper_copy C F A s r s' r'" and c: "leaf_contract C F" and u: "leaf_table s' r' x = Some u"
  shows "u \<in> F s' u" "F s' u \<subseteq> alloc s' - A" "F s' u \<inter> upper s' r' = {}"
    and "leaf_table s' r' y = Some w \<Longrightarrow> x \<noteq> y \<Longrightarrow> F s' u \<inter> F s' w = {}"
proof -
  obtain t0 u1 where u1: "next_page s' r' (fst x) = Some u1" "next_page s' u1 (snd x) = Some u"
      "C (insert u1 (insert r' A)) s t0 s' u"
    using copy_leaf_back [OF copy c u] by blast
  then have F: "u \<in> F s' u" "F s' u \<subseteq> alloc s' - insert u1 (insert r' A)"
    using c by (simp_all add: leaf_contract_def)
  then show "u \<in> F s' u" "F s' u \<subseteq> alloc s' - A" by auto
  have below: "F s' z \<subseteq> table_pages F s' t" if "next_page s' t i = Some z" for z t i
    using that by (auto simp: table_pages_def valid_entries_def next_page_Some)
  have other: "table_pages F s' u1 \<inter> table_pages F s' t = {}" if "next_page s' r' i = Some t" "i \<noteq> fst x" for t i
    using copy_apart [OF copy u1(1) that(1)] that(2) by simp
  have "t \<notin> F s' u" if "next_page s' r' i = Some t" for t i
  proof (cases "i = fst x")
    case True
    then show ?thesis using that u1(1) F(2) by auto
  next
    case False
    then show ?thesis using other [OF that] below [OF u1(2)] by (auto simp: table_pages_def)
  qed
  then show "F s' u \<inter> upper s' r' = {}" using F(2) by (auto simp: upper_def)
  show "F s' u \<inter> F s' w = {}" if w: "leaf_table s' r' y = Some w" "x \<noteq> y"
  proof -
    obtain w1 where w1: "next_page s' r' (fst y) = Some w1" "next_page s' w1 (snd y) = Some w"
      using w(1) unfolding leaf_table_Some by blast
    show ?thesis
    proof (cases "fst x = fst y")
      case True
      then have "w1 = u1" "snd x \<noteq> snd y" using u1(1) w1(1) w(2) by (auto simp: prod_eq_iff)
      moreover obtain t1 where "table_copy C F (insert r' A) s t1 s' u1"
        using copy_next_back [OF copy u1(1)] by blast
      ultimately show ?thesis using copy_apart [of C F _ s t1 s' u1] u1(2) w1(2) by simp
    next
      case False
      then show ?thesis using other [OF w1(1)] below [OF u1(2)] below [OF w1(2)] by auto
    qed
  qed
qed

section \<open>One process more\<close>

lemma inv_extend:
  assumes inv: "processes_inv R s" and inv': "pages_inv s'" "counts_ok s'"
    and old: "\<And>j. j < length R \<Longrightarrow> upper s' (R ! j) = upper s (R ! j) \<and>
        leaf_table s' (R ! j) = leaf_table s (R ! j) \<and> page_at s' (R ! j) = page_at s (R ! j) \<and> space_wf s' (R ! j)"
    and copy: "upper_copy C F (alloc s) s r s' r'" "leaf_contract C F" and wf: "space_wf s' r'"
    and pages: "\<And>v p. page_at s' r' v = Some p \<Longrightarrow> p \<notin> upper s' r' \<and> p \<notin> leaf_tables s' r' \<and>
        (\<forall>k < length R. p \<notin> upper s (R ! k) \<and> p \<notin> leaf_tables s (R ! k))"
      "\<And>v w p. page_at s' r' v = Some p \<Longrightarrow> page_at s' r' w = Some p \<Longrightarrow> v = w"
    and own: "counted (Suc (length R)) ((\<lambda>k. page_at s (R ! k))(length R := page_at s' r'))
        (\<lambda>k. can_write s' ((R @ [r']) ! k)) (ref_num s')"
  shows "processes_inv (R @ [r']) s'"
proof -
  let ?n = "length R"
  have at: "(R @ [r']) ! k = (if k = ?n then r' else R ! k)" if "k < Suc ?n" for k
    using that by (simp add: nth_append)
  note leaf = copy_leaf_pages [OF copy]
  have "layout (Suc ?n) ((\<lambda>k. upper s (R ! k))(?n := upper s' r')) ((\<lambda>k. leaf_table s (R ! k))(?n := leaf_table s' r'))
      ((\<lambda>k. page_at s (R ! k))(?n := page_at s' r'))"
  proof (rule layout_extend [OF processes_invD(4) [OF inv, unfolded placed_def], of "alloc s"])
    fix k assume "k < ?n"
    from space_alloc [OF processes_invD(3) [OF inv this]]
    show "upper s (R ! k) \<subseteq> alloc s \<and> (\<forall>x t. leaf_table s (R ! k) x = Some t \<longrightarrow> t \<in> alloc s) \<and>
        (\<forall>v p. page_at s (R ! k) v = Some p \<longrightarrow> p \<in> alloc s)" by blast
  next
    show "upper s' r' \<inter> alloc s = {}" using copy_upper [OF copy(1)] by blast
  next
    fix x t assume t: "leaf_table s' r' x = Some t"
    show "t \<notin> alloc s \<and> t \<notin> upper s' r'" using leaf(1-3) [OF t] by blast
  next
    fix x y t assume "leaf_table s' r' x = Some t" "leaf_table s' r' y = Some t"
    then show "x = y" using leaf(1) [of x t] leaf(4) [of x t y t] by blast
  next
    fix v p assume "page_at s' r' v = Some p"
    then show "p \<notin> upper s' r' \<and> (\<forall>x. leaf_table s' r' x \<noteq> Some p) \<and>
        (\<forall>k < ?n. p \<notin> upper s (R ! k) \<and> (\<forall>x. leaf_table s (R ! k) x \<noteq> Some p))"
      using pages(1) leaf_tablesI by blast
  qed (rule pages(2))
  then have "placed (R @ [r']) s'"
    unfolding placed_def length_append_singleton by (subst layout_cong [of "Suc ?n"]) (use at old in auto)
  moreover have "owned (R @ [r']) s'"
    unfolding owned_def length_append_singleton
    by (subst counted_cong [OF _ refl, where P = "(\<lambda>k. page_at s (R ! k))(length R := page_at s' r')"])
      (use own at old in auto)
  moreover have "\<forall>z \<in> set (R @ [r']). space_wf s' z" using old wf by (auto simp: in_set_conv_nth)
  ultimately show ?thesis using inv' by (simp add: processes_inv_def)
qed

definition map_access :: "(access \<Rightarrow> access) \<Rightarrow> space \<Rightarrow> space" where
  "map_access f sp v = map_option (\<lambda>(a, bs). (f a, bs)) (sp v)"

section \<open>vms\_fork\_copy\<close>

text \<open>
  What the child of a plain fork may do: its pages are not counted, so the write permission that was
  set aside in the parent cannot come back.
\<close>

fun copied_access :: "access \<Rightarrow> access" where
  "copied_access Writable = Writable"
| "copied_access Fixed = Fixed"
| "copied_access On_write = Lost"
| "copied_access Lost = Lost"

lemma space_tree_wf:
  assumes wf: "space_wf s r"
  shows "tree_wf s r"
proof -
  have kids: "next_page s t i = Some (kid s t i)" if "i < NUM_PTE_ENTRIES" "valid (pte s t i)" for t i
    using that by (simp add: next_page_Some)
  have l0: "l0_wf s t0" if t: "next_page s r i = Some t1" "next_page s t1 j = Some t0" for t0 t1 i j
    unfolding table_wf_def
  proof (intro conjI allI impI)
    show "t0 \<in> alloc s" using space_wf_path(2) [OF wf t] by simp
    fix l assume "l < NUM_PTE_ENTRIES" "valid (pte s t0 l)"
    from space_wf_path(3) [OF wf, of "(i, j)", OF _ kids [OF this]] t
    show "linked s t0 l" "data_wf s (kid s t0 l)" by (auto simp: leaf_table_Some leaf_ok_def data_wf_def)
  qed simp
  have l1: "l1_wf s t1" if t: "next_page s r i = Some t1" for t1 i
    unfolding table_wf_def [of _ l0_wf]
  proof (intro conjI allI impI)
    show "t1 \<in> alloc s" using space_wf_path(1) [OF wf t] by simp
    fix l assume l: "l < NUM_PTE_ENTRIES" "valid (pte s t1 l)"
    show "linked s t1 l" "l0_wf s (kid s t1 l)"
      using space_wf_path(2) [OF wf t kids [OF l]] l0 [OF t kids [OF l]] by (simp_all add: outer_ok_def)
  qed simp
  show ?thesis
    unfolding table_wf_def [of _ l1_wf]
  proof (intro conjI allI impI)
    show "r \<in> alloc s" using wf by (simp add: space_wf_def)
    fix l assume l: "l < NUM_PTE_ENTRIES" "valid (pte s r l)"
    show "linked s r l" "l1_wf s (kid s r l)"
      using space_wf_path(1) [OF wf kids [OF l]] l1 [OF kids [OF l]] by (simp_all add: outer_ok_def)
  qed simp
qed

lemma l0_leaf_contract: "leaf_contract l0_copy l0_pages"
  unfolding leaf_contract_def
proof (intro allI impI conjI)
  fix A s t s' t' assume "l0_copy A s t s' t'"
  then show "l0_pages s' t' \<subseteq> alloc s' - A" by (rule l0.C_pages)
qed (simp add: table_pages_def)

text \<open>A page of the child is a copy of the page of the parent.\<close>

lemma tree_copy_page:
  assumes copy: "tree_copy (alloc s) s r s' r'" and wf: "space_wf s r"
    and leaf: "leaf_table s' r' x = Some u0" and page: "next_page s' u0 i = Some q"
  obtains t0 p where "leaf_table s r x = Some t0" "next_page s t0 i = Some p"
    "same_flags (pte s t0 i) (pte s' u0 i)" "leaf_ok s' u0 i" "page_bytes s' q = page_bytes s p"
    "q \<in> alloc s'" "q \<notin> alloc s" "q \<noteq> u0" "q \<in> l0_pages s' u0"
proof -
  obtain t0 u1 where t0: "leaf_table s r x = Some t0" "l0_copy (insert u1 (insert r' (alloc s))) s t0 s' u0"
    using copy_leaf_back [OF copy l0_leaf_contract leaf] by blast
  obtain p where p: "next_page s t0 i = Some p" "same_flags (pte s t0 i) (pte s' u0 i)" "linked s' u0 i"
      "data_copy (insert u0 (insert u1 (insert r' (alloc s)))) s p s' q"
    using copy_next_back [OF t0(2) page] by blast
  have "leaf_ok s' u0 i"
    using space_wf_path(3) [OF wf t0(1) p(1)] p(2,3) by (simp add: leaf_ok_def same_flags_def)
  moreover have "page_bytes s' q = page_bytes s p" using p(4) by (simp add: data_copy_def page_bytes_def)
  moreover have "q \<in> l0_pages s' u0"
    using page by (auto simp: table_pages_def self_page_def valid_entries_def next_page_Some)
  ultimately show thesis using that t0(1) p by (simp add: data_copy_def)
qed

lemma tree_copy_pages:
  assumes copy: "tree_copy (alloc s) s r s' r'" and wf: "space_wf s r" and page: "page_at s' r' v = Some q"
  shows "q \<notin> alloc s" "q \<notin> upper s' r'" "q \<notin> leaf_tables s' r'"
    and "page_at s' r' w = Some q \<Longrightarrow> v = w"
proof -
  obtain u0 where u: "leaf_table s' r' (fst v) = Some u0" "next_page s' u0 (snd v) = Some q"
    using page unfolding page_at_Some by blast
  note leaf = copy_leaf_pages [OF copy l0_leaf_contract]
  have q: "q \<notin> alloc s" "q \<noteq> u0" "q \<in> l0_pages s' u0"
    using tree_copy_page [OF copy wf u] by blast+
  show "q \<notin> alloc s" by fact
  show "q \<notin> upper s' r'" using leaf(3) [OF u(1)] q(3) by blast
  show "q \<notin> leaf_tables s' r'"
  proof
    assume "q \<in> leaf_tables s' r'"
    then obtain y where y: "leaf_table s' r' y = Some q" by (rule leaf_tablesE)
    then have "y \<noteq> fst v" using u(1) q(2) by auto
    then show False using leaf(4) [OF y u(1)] leaf(1) [OF y] q(3) by blast
  qed
  show "v = w" if w: "page_at s' r' w = Some q"
  proof -
    obtain w0 where w0: "leaf_table s' r' (fst w) = Some w0" "next_page s' w0 (snd w) = Some q"
      using w unfolding page_at_Some by blast
    have "q \<in> l0_pages s' w0" using tree_copy_page [OF copy wf w0] by blast
    then have fst: "fst v = fst w" using leaf(4) [OF u(1) w0(1)] q(3) by blast
    then have "w0 = u0" using u(1) w0(1) by simp
    moreover obtain t0 A where "l0_copy A s t0 s' u0"
      using copy_leaf_back [OF copy l0_leaf_contract u(1)] by blast
    ultimately have "snd v = snd w"
      using copy_apart [of data_copy self_page A s t0 s' u0] u(2) w0(2) by (auto simp: self_page_def)
    with fst show ?thesis by (simp add: prod_eq_iff)
  qed
qed

lemma tree_copy_space:
  assumes copy: "tree_copy (alloc s) s r s' r'" and wf: "space_wf s r"
  shows "space_wf s' r'"
  unfolding space_wf_def
proof (intro conjI allI impI)
  show "r' \<in> alloc s'" using copy by (simp add: table_copy_def)
  fix i t1 assume t1: "next_page s' r' i = Some t1"
  then show "outer_ok s' r' i" by (rule copy_upper_ok(1) [OF copy wf])
  fix j t0 assume t0: "next_page s' t1 j = Some t0"
  show "outer_ok s' t1 j" by (rule copy_upper_ok(2) [OF copy wf t1 t0])
  fix k p assume p: "next_page s' t0 k = Some p"
  have "leaf_table s' r' (i, j) = Some t0" using t1 t0 by (simp add: leaf_table_Some)
  from tree_copy_page [OF copy wf this p] show "leaf_ok s' t0 k" by blast
qed

lemma tree_copy_view:
  assumes copy: "tree_copy (alloc s) s r s' r'" and wf: "space_wf s r"
    and ref: "\<And>q. q < MAX_PAGES \<Longrightarrow> q \<notin> alloc s \<Longrightarrow> ref_num s' ! q = 0"
  shows "view s' r' = map_access copied_access (view s r)"
proof
  fix v :: vpage
  show "view s' r' v = map_access copied_access (view s r) v"
  proof (cases "view s' r' v")
    case None
    have "page_at s r v = None"
    proof (rule ccontr)
      assume "page_at s r v \<noteq> None"
      then obtain t0 p where t0: "leaf_table s r (fst v) = Some t0" "next_page s t0 (snd v) = Some p"
        unfolding not_None_eq page_at_Some by blast
      then obtain u0 where u0: "leaf_table s' r' (fst v) = Some u0" using copy_leaf [OF copy] by blast
      obtain u1 t0' where "leaf_table s r (fst v) = Some t0'" "l0_copy (insert u1 (insert r' (alloc s))) s t0' s' u0"
        using copy_leaf_back [OF copy l0_leaf_contract u0] by blast
      then have "\<exists>q. next_page s' u0 (snd v) = Some q" using copy_next(2) t0 by fastforce
      then show False using None u0 by (auto simp: view_None page_at_def)
    qed
    then show ?thesis using None view_None [of s r v] by (simp add: map_access_def)
  next
    case (Some b)
    then obtain u0 q where u: "leaf_table s' r' (fst v) = Some u0" "next_page s' u0 (snd v) = Some q"
        "b = (access_of (pte s' u0 (snd v)) (ref_num s' ! q), page_bytes s' q)"
      by (cases b) (metis viewE)
    obtain t0 p where t: "leaf_table s r (fst v) = Some t0" "next_page s t0 (snd v) = Some p"
        "same_flags (pte s t0 (snd v)) (pte s' u0 (snd v))" "page_bytes s' q = page_bytes s p"
        "q \<in> alloc s'" "q \<notin> alloc s"
      using tree_copy_page [OF copy wf u(1,2)] by metis
    have "ref_num s' ! q = 0" using ref t(5,6) by (auto dest: alloc_less)
    then have "access_of (pte s' u0 (snd v)) (ref_num s' ! q) =
        copied_access (access_of (pte s t0 (snd v)) (ref_num s ! p))"
      using t(3) by (simp add: access_of_def same_flags_def)
    then show ?thesis using Some u(3) view_Some [OF t(1,2)] t(4) by (simp add: map_access_def)
  qed
qed

text \<open>What a fork of process \<open>k\<close> leaves: the views of the old processes through \<open>f\<close>, and a child.\<close>

definition forked :: "nat list \<Rightarrow> vms \<Rightarrow> nat \<Rightarrow> (access \<Rightarrow> access) \<Rightarrow> (access \<Rightarrow> access) \<Rightarrow> addr \<Rightarrow> vms \<Rightarrow> bool" where
  "forked R s k f g a s' \<longleftrightarrow> (\<exists>r'. a = at s r' 0 \<and> processes_inv (R @ [r']) s' \<and>
     base_pointer s' = base_pointer s \<and>
     view s' r' = map_access g (view s (R ! k)) \<and>
     (\<forall>j < length R. view s' (R ! j) = (if j = k then map_access f (view s (R ! k)) else view s (R ! j))))"

lemma map_access_id [simp]: "map_access id sp = sp"
  by (simp add: map_access_def fun_eq_iff case_prod_unfold option.map_ident)

lemma fork_copy_space:
  assumes inv: "processes_inv R s" and k: "k < length R" and root: "root_page_table s = at s (R ! k) 0"
    and fork: "vms_fork_copy s = Inr (a, s')"
  shows "forked R s k id copied_access a s'"
proof -
  note pages = processes_invD(1) [OF inv] and wf = processes_invD(3) [OF inv]
  have "used_pages s \<le> int (MAX_PAGES div 2)"
    using fork fork_copy_refused [of s] by (rule_tac ccontr) simp
  then obtain r' where r': "a = at s r' 0" "grows {} s s'" "ref_num s' = ref_num s"
      "tree_copy (alloc s) s (R ! k) s' r'"
    using fork_copy_outcome [OF pages root space_tree_wf [OF wf [OF k]]] fork by auto
  note copy = r'(4)
  have g: "pages_inv s'" "base_pointer s' = base_pointer s" "alloc s \<subseteq> alloc s'"
      "\<And>z. z \<in> alloc s \<Longrightarrow> same_page s s' z"
    using r'(2) by (simp_all add: grows_def)
  have ref: "ref_num s' ! q = 0" if "q < MAX_PAGES" "q \<notin> alloc s" for q
    using processes_invD(2) [OF inv] that by (simp add: counts_ok_def r'(3))
  have counts: "counts_ok s'"
    using processes_invD(2) [OF inv] g(3) by (auto simp: counts_ok_def r'(3))
  have tables: "same_page s s' t" if "j < length R" "t \<in> upper s (R ! j) \<union> leaf_tables s (R ! j)" for j t
    using that space_alloc(1,2) [OF wf [OF that(1)]] by (intro g(4)) (auto elim: leaf_tablesE)
  have keep: "weaker s s' t" if "j < length R" "t \<in> upper s (R ! j) \<union> leaf_tables s (R ! j)" for j t
    using g(2) tables [OF that] by (rule weaker_same_page)
  have old: "upper s' (R ! j) = upper s (R ! j) \<and> leaf_table s' (R ! j) = leaf_table s (R ! j) \<and>
      page_at s' (R ! j) = page_at s (R ! j) \<and> space_wf s' (R ! j)" if "j < length R" for j
    using weaker_lookup [OF keep [OF that]] weaker_space_all [OF wf [OF that] g(3) keep [OF that]] by simp
  have views: "view s' (R ! j) = view s (R ! j)" if "j < length R" for j
    using tables [OF that] space_alloc(3) [OF wf [OF that]] g(4)
    by (intro view_same [OF g(2)]) (auto simp: r'(3))
  note child = tree_copy_pages [OF copy wf [OF k]]
  have apart: "p \<notin> upper s (R ! j) \<and> p \<notin> leaf_tables s (R ! j)" if "j < length R" "p \<notin> alloc s" for j p
    using that space_alloc(1,2) [OF wf [OF that(1)]] by (blast elim: leaf_tablesE)
  have "processes_inv (R @ [r']) s'"
  proof (rule inv_extend [OF inv g(1) counts old copy l0_leaf_contract tree_copy_space [OF copy wf [OF k]]])
    fix v p assume p: "page_at s' r' v = Some p"
    show "p \<notin> upper s' r' \<and> p \<notin> leaf_tables s' r' \<and>
        (\<forall>k < length R. p \<notin> upper s (R ! k) \<and> p \<notin> leaf_tables s (R ! k))"
      using child(1-3) [OF p] apart by blast
    fix w assume "page_at s' r' w = Some p"
    then show "v = w" using child(4) [OF p] by blast
  next
    show "counted (Suc (length R)) ((\<lambda>k. page_at s (R ! k))(length R := page_at s' r'))
        (\<lambda>k. can_write s' ((R @ [r']) ! k)) (ref_num s')"
      unfolding r'(3)
    proof (rule counted_copy [OF processes_invD(5) [OF inv, unfolded owned_def]])
      fix v p j u assume p: "page_at s' r' v = Some p" and j: "j < length R"
      show "page_at s (R ! j) u \<noteq> Some p" using child(1) [OF p] space_alloc(3) [OF wf [OF j]] by blast
    next
      fix j u assume "j < length R" "can_write s' ((R @ [r']) ! j) u"
      then show "can_write s (R ! j) u" by (simp add: can_write_def nth_append views)
    qed
  qed
  then show ?thesis
    using r'(1) g(2) views tree_copy_view [OF copy wf [OF k] ref] by (auto simp: forked_def)
qed

section \<open>vms\_fork\_copy\_on\_write\<close>

fun shared_access :: "access \<Rightarrow> access" where
  "shared_access Fixed = Fixed"
| "shared_access Writable = On_write"
| "shared_access On_write = On_write"
| "shared_access Lost = On_write"

lemma space_cow_wf:
  assumes inv: "processes_inv R s" and k: "k < length R"
  shows "cow_wf (leaf_tables s (R ! k)) s (R ! k)" "leaf_tables s (R ! k) \<subseteq> alloc s"
proof -
  let ?r = "R ! k" and ?L = "leaf_tables s (R ! k)"
  note wf = processes_invD(3) [OF inv k]
  show L: "?L \<subseteq> alloc s" using space_alloc(2) [OF wf] by (blast elim: leaf_tablesE)
  have out: "t \<notin> ?L" if "t \<in> upper s ?r" for t
    using placedD(2) [OF processes_invD(4) [OF inv] k k] that by (blast elim: leaf_tablesE)
  have kids: "next_page s t i = Some (kid s t i)" if "i < NUM_PTE_ENTRIES" "valid (pte s t i)" for t i
    using that by (simp add: next_page_Some)
  have l0: "leaf_wf ?L s t0" if t: "next_page s ?r i = Some t1" "next_page s t1 j = Some t0" for t0 t1 i j
    unfolding leaf_wf_def
  proof (intro conjI allI impI)
    have leaf: "leaf_table s ?r (i, j) = Some t0" using t by (simp add: leaf_table_Some)
    then show "t0 \<in> ?L" by (rule leaf_tablesI)
    show "t0 \<in> alloc s" using space_wf_path(2) [OF wf t] by simp
    fix l assume "l < NUM_PTE_ENTRIES" "valid (pte s t0 l)"
    from space_wf_path(3) [OF wf leaf kids [OF this]] show "linked s t0 l" by (simp add: leaf_ok_def)
  qed
  have l1: "cow_l1_wf ?L s t1" if t: "next_page s ?r i = Some t1" for t1 i
    unfolding table_wf_def
  proof (intro conjI allI impI)
    show "t1 \<in> alloc s" using space_wf_path(1) [OF wf t] by simp
    show "t1 \<notin> ?L" using t by (intro out) (auto simp: upper_def)
    fix l assume l: "l < NUM_PTE_ENTRIES" "valid (pte s t1 l)"
    show "linked s t1 l" "leaf_wf ?L s (kid s t1 l)"
      using space_wf_path(2) [OF wf t kids [OF l]] l0 [OF t kids [OF l]] by (simp_all add: outer_ok_def)
  qed
  show "cow_wf ?L s ?r"
    unfolding table_wf_def [of _ "cow_l1_wf ?L"]
  proof (intro conjI allI impI)
    show "?r \<in> alloc s" using wf by (simp add: space_wf_def)
    show "?r \<notin> ?L" by (intro out) (simp add: upper_def)
    fix l assume l: "l < NUM_PTE_ENTRIES" "valid (pte s ?r l)"
    show "linked s ?r l" "cow_l1_wf ?L s (kid s ?r l)"
      using space_wf_path(1) [OF wf kids [OF l]] l1 [OF kids [OF l]] by (simp_all add: outer_ok_def)
  qed
qed

lemma cow_leaf_contract: "leaf_contract (leaf_shared L) self_page"
  by (simp add: leaf_contract_def leaf_shared_def self_page_def)

text \<open>Entry by entry, the child refers to the pages of the parent; both entries are protected.\<close>

lemma cow_copy_entry:
  assumes copy: "cow_copy L (alloc s) s r s' r'" and base: "base_pointer s' = base_pointer s"
    and leaf: "leaf_table s' r' x = Some u0"
  obtains t0 where "leaf_table s r x = Some t0" "next_page s' u0 = next_page s t0"
    "\<And>i p. next_page s t0 i = Some p \<Longrightarrow> pte s' t0 i = protect (pte s t0 i) \<and>
       same_flags (protect (pte s t0 i)) (pte s' u0 i) \<and> entry_page (pte s' u0 i) = entry_page (pte s t0 i) \<and>
       ref_num s ! p + 2 \<le> ref_num s' ! p"
proof -
  obtain t0 u1 where t0: "leaf_table s r x = Some t0" "leaf_shared L (insert u1 (insert r' (alloc s))) s t0 s' u0"
    using copy_leaf_back [OF copy cow_leaf_contract leaf] by blast
  have e: "leaf_entry_shared s t0 s' u0 i" if "i < NUM_PTE_ENTRIES" for i
    using t0(2) that by (simp add: leaf_shared_def)
  have "next_page s' u0 i = next_page s t0 i" for i
  proof (cases "i < NUM_PTE_ENTRIES")
    case True
    from e [OF this] show ?thesis
      by (auto simp: leaf_entry_shared_def next_page_def kid_def vms_get_page_index_def base same_flags_def split: if_splits)
  qed (simp add: next_page_def)
  moreover have "pte s' t0 i = protect (pte s t0 i) \<and>
       same_flags (protect (pte s t0 i)) (pte s' u0 i) \<and> entry_page (pte s' u0 i) = entry_page (pte s t0 i) \<and>
       ref_num s ! p + 2 \<le> ref_num s' ! p" if "next_page s t0 i = Some p" for i p
    using e [of i] that by (simp add: next_page_Some leaf_entry_shared_def)
  ultimately show thesis using that t0(1) by (simp add: fun_eq_iff)
qed

lemma cow_copy_page:
  assumes copy: "cow_copy L (alloc s) s r s' r'" and base: "base_pointer s' = base_pointer s"
  shows "page_at s' r' = page_at s r"
proof
  fix v :: vpage
  show "page_at s' r' v = page_at s r v"
  proof (cases "leaf_table s' r' (fst v)")
    case None
    then have "leaf_table s r (fst v) = None" using copy_leaf [OF copy, of "fst v"] by (cases "leaf_table s r (fst v)") auto
    then show ?thesis using None by (simp add: page_at_def)
  next
    case (Some u0)
    obtain t0 where "leaf_table s r (fst v) = Some t0" "next_page s' u0 = next_page s t0"
      using cow_copy_entry [OF copy base Some] by metis
    then show ?thesis using Some by (simp add: page_at_def)
  qed
qed

lemma cow_copy_space:
  assumes copy: "cow_copy L (alloc s) s r s' r'" and base: "base_pointer s' = base_pointer s"
    and al: "alloc s \<subseteq> alloc s'" and wf: "space_wf s r"
  shows "space_wf s' r'"
  unfolding space_wf_def
proof (intro conjI allI impI)
  show "r' \<in> alloc s'" using copy by (simp add: table_copy_def)
  fix i t1 assume t1: "next_page s' r' i = Some t1"
  then show "outer_ok s' r' i" by (rule copy_upper_ok(1) [OF copy wf])
  fix j u0 assume u0: "next_page s' t1 j = Some u0"
  show "outer_ok s' t1 j" by (rule copy_upper_ok(2) [OF copy wf t1 u0])
  fix k p assume p: "next_page s' u0 k = Some p"
  have leaf: "leaf_table s' r' (i, j) = Some u0" using t1 u0 by (simp add: leaf_table_Some)
  obtain t0 where t0: "leaf_table s r (i, j) = Some t0" "next_page s' u0 = next_page s t0"
      and e: "same_flags (protect (pte s t0 k)) (pte s' u0 k)" "entry_page (pte s' u0 k) = entry_page (pte s t0 k)"
    using cow_copy_entry [OF copy base leaf] p by metis
  have n: "next_page s t0 k = Some p" using p t0(2) by simp
  have "leaf_ok s t0 k" "kid s t0 k = p" "kid s' u0 k = p"
    using space_wf_path(3) [OF wf t0(1) n] n p by (simp_all add: next_page_Some)
  then show "leaf_ok s' u0 k"
    using e al at_base [OF base] by (auto simp: leaf_ok_def linked_def same_flags_def)
qed

lemma shared_access_of:
  "2 \<le> n' \<Longrightarrow> access_of (protect e) n' = shared_access (access_of e n)"
  by (auto simp: access_of_def)

lemma cow_copy_view:
  assumes copy: "cow_copy L (alloc s) s r s' r'" and base: "base_pointer s' = base_pointer s"
    and ref: "\<And>p. p \<in> alloc s \<Longrightarrow> 0 \<le> ref_num s ! p"
    and wf: "space_wf s r" and bytes: "\<And>v p. page_at s r v = Some p \<Longrightarrow> same_page s s' p"
    and links: "\<And>t. t \<in> upper s r \<union> leaf_tables s r \<Longrightarrow> weaker s s' t"
  shows "view s' r' = map_access shared_access (view s r)" "view s' r = map_access shared_access (view s r)"
proof -
  have look: "leaf_table s' r = leaf_table s r" "page_at s' r = page_at s r"
    by (rule weaker_lookup [of s r s'], rule links, assumption)+
  have "view s' r' v = map_access shared_access (view s r) v \<and> view s' r v = map_access shared_access (view s r) v"
    for v :: vpage
  proof (cases "page_at s r v")
    case None
    then show ?thesis
      using view_None [of s r v] view_None [of s' r v] view_None [of s' r' v]
      by (simp add: look cow_copy_page [OF copy base] map_access_def)
  next
    case (Some p)
    then obtain t0 where t: "leaf_table s r (fst v) = Some t0" "next_page s t0 (snd v) = Some p"
      unfolding page_at_Some by blast
    obtain u0 where u: "leaf_table s' r' (fst v) = Some u0" using copy_leaf [OF copy t(1)] by blast
    obtain t0' where t': "leaf_table s r (fst v) = Some t0'" "next_page s' u0 = next_page s t0'"
      and e: "pte s' t0 (snd v) = protect (pte s t0 (snd v))"
        "same_flags (protect (pte s t0 (snd v))) (pte s' u0 (snd v))" "ref_num s ! p + 2 \<le> ref_num s' ! p"
      using cow_copy_entry [OF copy base u] t by (metis option.inject)
    have "0 \<le> ref_num s ! p" using ref space_alloc(3) [OF wf Some] by blast
    then have n: "2 \<le> ref_num s' ! p" using e(3) by simp
    have bytes': "page_bytes s' p = page_bytes s p" using bytes [OF Some] by (rule page_bytes_cong)
    have flags: "access_of (pte s' u0 (snd v)) m = access_of (protect (pte s t0 (snd v))) m" for m
      using e(2) by (simp add: access_of_def same_flags_def)
    have nx: "next_page s' u0 (snd v) = Some p" using t t' by simp
    have "view s' r' v = Some (shared_access (access_of (pte s t0 (snd v)) (ref_num s ! p)), page_bytes s p)"
      using view_Some [OF u nx] flags bytes' shared_access_of [OF n] by simp
    moreover have "next_page s' t0 (snd v) = Some p"
      using weaker_next [OF links, of t0] leaf_tablesI [OF t(1)] t(2) by simp
    then have "view s' r v = Some (shared_access (access_of (pte s t0 (snd v)) (ref_num s ! p)), page_bytes s p)"
      using view_Some [of s' r v t0 p] look(1) t(1) e(1) bytes' shared_access_of [OF n] by simp
    ultimately show ?thesis using view_Some [OF t] by (simp add: map_access_def)
  qed
  then show "view s' r' = map_access shared_access (view s r)" "view s' r = map_access shared_access (view s r)"
    by blast+
qed

text \<open>The tables of all processes, and the counts of their pages.\<close>

lemma protecting_weaker:
  assumes step: "step L (protecting L) {} s s'" and t: "t \<in> alloc s"
  shows "weaker s s' t"
proof (cases "t \<in> L")
  case True
  have "pte s' t i = pte s t i \<or> pte s' t i = protect (pte s t i)" if "i < NUM_PTE_ENTRIES" for i
    using step True that by (auto simp: step_def dest: protectingD(1))
  moreover have "base_pointer s' = base_pointer s" using step by (simp add: step_def grows_def)
  ultimately show ?thesis unfolding weaker_def same_links_def by (metis protect_flags)
next
  case False
  then show ?thesis using step t by (intro weaker_same_page) (auto simp: step_def grows_def)
qed

lemma referred_pages:
  assumes "q \<in> referred (leaf_tables s r) s"
  shows "\<exists>v. page_at s r v = Some q"
proof -
  obtain x t i where "leaf_table s r x = Some t" "next_page s t i = Some q"
    using assms by (auto simp: referred_def next_page_Some elim!: leaf_tablesE)
  then have "page_at s r (x, i) = Some q" by (simp add: page_at_def)
  then show ?thesis by blast
qed

lemma shared_count:
  assumes inv: "processes_inv R s" and step: "step (leaf_tables s (R ! k)) (protecting (leaf_tables s (R ! k))) {} s s'"
    and k: "k < length R" "j < length R" "j \<noteq> k" and p: "page_at s (R ! j) v = Some p"
  shows "0 < ref_num s' ! p \<longleftrightarrow> 0 < ref_num s ! p"
proof -
  let ?L = "leaf_tables s (R ! k)"
  have prot: "protecting ?L s s'" using step by (simp add: step_def)
  have lt: "p < MAX_PAGES" using space_alloc(3) [OF processes_invD(3) [OF inv k(2)] p] by (rule alloc_less)
  show ?thesis
  proof (cases "p \<in> referred ?L s")
    case True
    then obtain w where "page_at s (R ! k) w = Some p" using referred_pages by blast
    then have "{j, k} \<subseteq> page_owners R s p" using k p by (auto simp: owners_def simp del: split_paired_Ex)
    then have "card {j, k} \<le> card (page_owners R s p)" by (intro card_mono) simp_all
    moreover have "int (card (page_owners R s p)) \<le> max 1 (ref_num s ! p)"
      by (rule countedD(1) [OF processes_invD(5) [OF inv, unfolded owned_def] lt])
    ultimately have "0 < ref_num s ! p" using k(3) by simp
    then show ?thesis using protectingD(2) [OF prot lt] by simp
  next
    case False
    then show ?thesis using protectingD(3) [OF prot lt] by simp
  qed
qed

text \<open>The state after a copy-on-write fork of process \<open>k\<close>, with the child's root.\<close>

definition cow_forked :: "nat list \<Rightarrow> vms \<Rightarrow> nat \<Rightarrow> vms \<Rightarrow> nat \<Rightarrow> bool" where
  "cow_forked R s k s' r' \<longleftrightarrow> processes_inv R s \<and> k < length R \<and> pages_inv s' \<and>
     step (leaf_tables s (R ! k)) (protecting (leaf_tables s (R ! k))) {} s s' \<and>
     cow_copy (leaf_tables s (R ! k)) (alloc s) s (R ! k) s' r'"

lemma cow_forkedD:
  assumes "cow_forked R s k s' r'"
  shows "processes_inv R s" "k < length R" "pages_inv s'" "base_pointer s' = base_pointer s" "alloc s \<subseteq> alloc s'"
    "step (leaf_tables s (R ! k)) (protecting (leaf_tables s (R ! k))) {} s s'"
    "protecting (leaf_tables s (R ! k)) s s'" "cow_copy (leaf_tables s (R ! k)) (alloc s) s (R ! k) s' r'"
    "z \<in> alloc s \<Longrightarrow> z \<notin> leaf_tables s (R ! k) \<Longrightarrow> same_page s s' z"
  using assms by (auto simp: cow_forked_def step_def grows_def)

lemma tables_alloc:
  assumes "processes_inv R s" "j < length R" "t \<in> upper s (R ! j) \<union> leaf_tables s (R ! j)"
  shows "t \<in> alloc s"
  using assms(3) space_alloc(1,2) [OF processes_invD(3) [OF assms(1,2)]] by (auto elim: leaf_tablesE)

lemma cow_counts_ok:
  assumes f: "cow_forked R s k s' r'"
  shows "counts_ok s'"
  unfolding counts_ok_def
proof (intro allI impI conjI)
  note F = cow_forkedD [OF f]
  fix p assume p: "p < MAX_PAGES"
  show "0 \<le> ref_num s' ! p"
    using processes_invD(2) [OF F(1)] protectingD(2) [OF F(7) p] p by (fastforce simp: counts_ok_def)
  assume "p \<notin> alloc s'"
  then have "p \<notin> alloc s" using F(5) by blast
  moreover from this have "p \<notin> referred (leaf_tables s (R ! k)) s"
    using referred_pages space_alloc(3) [OF processes_invD(3) [OF F(1,2)]] by blast
  ultimately show "ref_num s' ! p = 0"
    using processes_invD(2) [OF F(1)] protectingD(3) [OF F(7) p] p by (simp add: counts_ok_def)
qed

lemma cow_keeps:
  assumes f: "cow_forked R s k s' r'" and j: "j < length R"
  shows "t \<in> upper s (R ! j) \<union> leaf_tables s (R ! j) \<Longrightarrow> weaker s s' t"
    and "page_at s (R ! j) v = Some p \<Longrightarrow> same_page s s' p"
    and "upper s' (R ! j) = upper s (R ! j) \<and> leaf_table s' (R ! j) = leaf_table s (R ! j) \<and>
      page_at s' (R ! j) = page_at s (R ! j) \<and> space_wf s' (R ! j)"
proof -
  note F = cow_forkedD [OF f] and wf = processes_invD(3) [OF cow_forkedD(1) [OF f] j]
  show keep: "weaker s s' t" if "t \<in> upper s (R ! j) \<union> leaf_tables s (R ! j)" for t
    using tables_alloc [OF F(1) j that] by (rule protecting_weaker [OF F(6)])
  show "page_at s (R ! j) v = Some p \<Longrightarrow> same_page s s' p"
    using placedD(3) [OF processes_invD(4) [OF F(1)] j F(2)] space_alloc(3) [OF wf] by (intro F(9)) simp_all
  show "upper s' (R ! j) = upper s (R ! j) \<and> leaf_table s' (R ! j) = leaf_table s (R ! j) \<and>
      page_at s' (R ! j) = page_at s (R ! j) \<and> space_wf s' (R ! j)"
    using weaker_lookup [OF keep] weaker_space_all [OF wf F(5) keep] by simp
qed

lemma cow_view_other:
  assumes f: "cow_forked R s k s' r'" and j: "j < length R" "j \<noteq> k"
  shows "view s' (R ! j) = view s (R ! j)"
proof (rule view_same)
  note F = cow_forkedD [OF f]
  show "base_pointer s' = base_pointer s" by (fact F(4))
  fix t assume t: "t \<in> upper s (R ! j) \<union> leaf_tables s (R ! j)"
  have "t \<notin> leaf_tables s (R ! k)"
  proof
    assume "t \<in> leaf_tables s (R ! k)"
    then obtain x where x: "leaf_table s (R ! k) x = Some t" by (rule leaf_tablesE)
    note placed = placedD [OF processes_invD(4) [OF F(1)] F(2) j(1)]
    from t show False
      using placed(2) [OF x] placed(1) [OF x] j(2) by (blast elim: leaf_tablesE)
  qed
  then show "same_page s s' t" using tables_alloc [OF F(1) j(1) t] by (intro F(9))
next
  fix v p assume p: "page_at s (R ! j) v = Some p"
  show "same_page s s' p \<and> (0 < ref_num s' ! p \<longleftrightarrow> 0 < ref_num s ! p)"
    using cow_keeps(2) [OF f j(1) p] shared_count [OF cow_forkedD(1,6,2) [OF f] j p] by simp
qed

lemma cow_views:
  assumes f: "cow_forked R s k s' r'"
  shows "view s' r' = map_access shared_access (view s (R ! k))"
    "view s' (R ! k) = map_access shared_access (view s (R ! k))"
proof -
  note F = cow_forkedD [OF f]
  have nonneg: "p \<in> alloc s \<Longrightarrow> 0 \<le> ref_num s ! p" for p
    using processes_invD(2) [OF F(1)] alloc_less by (auto simp: counts_ok_def)
  show "view s' r' = map_access shared_access (view s (R ! k))"
      "view s' (R ! k) = map_access shared_access (view s (R ! k))"
    by (rule cow_copy_view [OF F(8,4) nonneg processes_invD(3) [OF F(1,2)] cow_keeps(2) [OF f F(2)]
        cow_keeps(1) [OF f F(2)]], assumption+)+
qed

text \<open>The owners of the pages: none of the two may write.\<close>

lemma cow_counted:
  assumes f: "cow_forked R s k s' r'"
  shows "counted (Suc (length R)) ((\<lambda>k. page_at s (R ! k))(length R := page_at s (R ! k)))
    (\<lambda>k. can_write s' ((R @ [r']) ! k)) (ref_num s')"
proof (rule counted_share)
  note F = cow_forkedD [OF f]
  show "counted (length R) (\<lambda>k. page_at s (R ! k)) (\<lambda>k. can_write s (R ! k)) (ref_num s)"
    using processes_invD(5) [OF F(1)] by (simp add: owned_def)
  show "k < length R" by (fact F(2))
  show "p < MAX_PAGES \<Longrightarrow> 0 \<le> ref_num s ! p" for p
    using processes_invD(2) [OF F(1)] by (simp add: counts_ok_def)
  show "p < MAX_PAGES \<Longrightarrow> ref_num s ! p \<le> ref_num s' ! p" for p by (rule protectingD(2) [OF F(7)])
  show "ref_num s ! p + 2 \<le> ref_num s' ! p" if p: "page_at s (R ! k) v = Some p" for p v
  proof -
    obtain t0 where t: "leaf_table s (R ! k) (fst v) = Some t0" "next_page s t0 (snd v) = Some p"
      using p unfolding page_at_Some by blast
    obtain u0 where "leaf_table s' r' (fst v) = Some u0" using copy_leaf [OF F(8) t(1)] by blast
    then show ?thesis using cow_copy_entry [OF F(8,4)] t by (metis option.inject)
  qed
  fix j u assume w: "j < Suc (length R)" "can_write s' ((R @ [r']) ! j) u"
  have "\<not> can_write s' (R ! k) u" "\<not> can_write s' r' u"
    using cow_views [OF f] by (auto simp: can_write_def map_access_def elim: shared_access.elims)
  then show "j < length R \<and> j \<noteq> k \<and> can_write s (R ! j) u"
    using w cow_view_other [OF f]
    by (cases "j = k") (auto simp: can_write_def nth_append less_Suc_eq split: if_splits)
qed

lemma cow_forked_inv:
  assumes f: "cow_forked R s k s' r'"
  shows "processes_inv (R @ [r']) s'"
proof -
  note F = cow_forkedD [OF f]
  note child = cow_copy_page [OF F(8,4)] and wf = processes_invD(3) [OF F(1,2)] and placed = processes_invD(4) [OF F(1)]
  show ?thesis
  proof (rule inv_extend [OF F(1,3) cow_counts_ok [OF f] cow_keeps(3) [OF f] F(8) cow_leaf_contract
        cow_copy_space [OF F(8,4,5) wf]])
    fix v p assume p': "page_at s' r' v = Some p"
    then have p: "page_at s (R ! k) v = Some p" by (simp add: child)
    have "p \<notin> leaf_tables s' r'" "p \<notin> upper s' r'"
      using space_alloc(3) [OF wf p] copy_upper [OF F(8)] copy_leaf_pages(1,2) [OF F(8) cow_leaf_contract]
      by (blast elim: leaf_tablesE)+
    then show "p \<notin> upper s' r' \<and> p \<notin> leaf_tables s' r' \<and>
        (\<forall>k < length R. p \<notin> upper s (R ! k) \<and> p \<notin> leaf_tables s (R ! k))"
      using placedD(3) [OF placed F(2) _ p] by blast
    fix w assume "page_at s' r' w = Some p"
    then show "v = w" using placedD(4) [OF placed F(2,2) p] by (simp add: child)
  next
    show "counted (Suc (length R)) ((\<lambda>k. page_at s (R ! k))(length R := page_at s' r'))
        (\<lambda>k. can_write s' ((R @ [r']) ! k)) (ref_num s')"
      unfolding child by (rule cow_counted [OF f])
  qed
qed

lemma fork_cow_space:
  assumes inv: "processes_inv R s" and k: "k < length R" and root: "root_page_table s = at s (R ! k) 0"
    and fork: "vms_fork_copy_on_write s = Inr (a, s')"
  shows "forked R s k shared_access shared_access a s'"
proof -
  obtain r' where r': "a = at s r' 0" and f: "cow_forked R s k s' r'"
    using fork_cow_ok [OF processes_invD(1) [OF inv] root space_cow_wf [OF inv k] fork] inv k
    by (metis cow_forked_def)
  show ?thesis
    using r' cow_forked_inv [OF f] cow_views [OF f] cow_view_other [OF f] cow_forkedD(4) [OF f]
    by (auto simp: forked_def)
qed

end
