(* ===== verification/Vms_Demo.thy ===== *)
theory Vms_Demo
  imports Vms_Fork Vms_Cow
begin

text \<open>
  The program of \<open>vms/src/main.c\<close>, which maps one page and writes and reads through the memory
  management unit.  \<open>vms_main_map\<close> is its first part, up to the root page table; the address
  space it builds (\<open>one_page_space\<close>) is well formed for both kinds of fork.
\<close>

section \<open>The functions of main.c\<close>

definition demo_address :: addr where "demo_address = 0xABC123"

text \<open>\<open>vms_pte_set_ppn(entry, vms_page_to_ppn(page)); vms_pte_valid_set(entry);\<close>\<close>

definition link_page :: "addr \<Rightarrow> addr \<Rightarrow> unit vm" where
  "link_page entry page =
     seq (bnd (vms_page_to_ppn page) (vms_pte_set_ppn entry)) (vms_pte_valid_set entry)"

definition vms_main_map :: "int \<Rightarrow> int + addr \<Rightarrow> unit vm" where
  "vms_main_map page_size mmap_result =
     seq (vms_init page_size mmap_result)
    (bnd vms_new_page (\<lambda>l2.
     bnd vms_new_page (\<lambda>l1.
     bnd vms_new_page (\<lambda>l0.
     bnd vms_new_page (\<lambda>p0.
     seq (let l2_entry = vms_page_table_pte_entry l2 demo_address 2 in link_page l2_entry l1)
    (seq (let l1_entry = vms_page_table_pte_entry l1 demo_address 1 in link_page l1_entry l0)
    (seq (let l0_entry = vms_page_table_pte_entry l0 demo_address 0
          in seq (link_page l0_entry p0)
            (seq (vms_pte_read_set l0_entry) (vms_pte_write_set l0_entry)))
         (vms_set_root_page_table l2))))))))"

text \<open>The values printed, as the numbers that \<open>%d\<close> shows.\<close>

definition vms_main :: "int \<Rightarrow> int + addr \<Rightarrow> int list vm" where
  "vms_main page_size mmap_result =
     seq (vms_main_map page_size mmap_result)
    (seq (vms_write demo_address 1)
    (bnd (vms_read demo_address) (\<lambda>x.
     seq (vms_write demo_address 2)
    (bnd (vms_read demo_address) (\<lambda>y.
     ret [sint x, sint y])))))"

section \<open>The address space it builds\<close>

lemma init_inv:
  assumes "good_base a"
  shows "\<exists>s. vms_init (int PAGE_SIZE) (Inr a) (vms_initial m err) = Inr ((), s) \<and> pages_inv s \<and>
    alloc s = {} \<and> base_pointer s = a \<and> ref_num s = replicate MAX_PAGES 0"
proof -
  let ?s = "vms_initial m err\<lparr>base_pointer := a,
    memory := (\<lambda>c. if unat (c - a) < MAX_PAGES * PAGE_SIZE then 0 else m c)\<rparr>"
  have al: "alloc ?s = {}" by (simp add: alloc_def vms_initial_def)
  have "byte ?s p off = 0" if "p < MAX_PAGES" "off < PAGE_SIZE" for p off
    using unat_at_diff [OF that, of ?s] that by (simp add: byte_def)
  then have "pages_inv ?s"
    unfolding pages_inv_def al using assms by (simp add: vms_initial_def)
  moreover have "vms_init (int PAGE_SIZE) (Inr a) (vms_initial m err) = Inr ((), ?s)"
    using assms aligned_word_iff [of a]
    by (simp add: vms_init_def check_page_aligned_def prog_simps good_base_def)
      (simp add: vms_initial_def cong: if_cong)
  ultimately show ?thesis using al by (auto simp: vms_initial_def)
qed

lemma new_page_next:
  assumes inv: "pages_inv s" and al: "alloc s = {..<k}" and k: "k < MAX_PAGES"
  shows "\<exists>s'. vms_new_page s = Inr (at s k 0, s') \<and> alloc s' = {..<Suc k} \<and> pages_inv s' \<and>
    only_allocates s s'"
proof -
  have "alloc s \<noteq> {..<MAX_PAGES}" using al k by auto
  then obtain p s' where p: "vms_new_page s = Inr (at s p 0, s')" "p \<notin> alloc s"
      "\<forall>q < p. q \<in> alloc s" "alloc s' = insert p (alloc s)" "pages_inv s'" "only_allocates s s'"
    using pages.new_page_ok [OF inv] by blast
  have "k < p \<Longrightarrow> False" using p(3) al less_irrefl by blast
  moreover have "p < k \<Longrightarrow> False" using p(2) al by simp
  ultimately have "p = k" by (metis nat_neq_iff)
  then show ?thesis using p al by (auto simp: lessThan_Suc)
qed

lemma four_pages:
  assumes "pages_inv s" "alloc s = {}"
  shows "\<exists>s'. bnd vms_new_page (\<lambda>a. bnd vms_new_page (\<lambda>b. bnd vms_new_page (\<lambda>c.
      bnd vms_new_page (\<lambda>d. k a b c d)))) s = k (at s' 0 0) (at s' 1 0) (at s' 2 0) (at s' 3 0) s' \<and>
    alloc s' = {..<4} \<and> pages_inv s' \<and> only_allocates s s'"
proof -
  obtain s1 where s1: "vms_new_page s = Inr (at s 0 0, s1)" "alloc s1 = {..<1}" "pages_inv s1"
      "only_allocates s s1"
    using new_page_next [OF assms(1), of 0] assms(2) by auto
  obtain s2 where s2: "vms_new_page s1 = Inr (at s1 1 0, s2)" "alloc s2 = {..<2}" "pages_inv s2"
      "only_allocates s1 s2"
    using new_page_next [OF s1(3,2)] by (auto simp: numeral_2_eq_2)
  obtain s3 where s3: "vms_new_page s2 = Inr (at s2 2 0, s3)" "alloc s3 = {..<3}" "pages_inv s3"
      "only_allocates s2 s3"
    using new_page_next [OF s2(3,2)] by (auto simp: numeral_3_eq_3)
  obtain s4 where s4: "vms_new_page s3 = Inr (at s3 3 0, s4)" "alloc s4 = {..<4}" "pages_inv s4"
      "only_allocates s3 s4"
    using new_page_next [OF s3(3,2)] by auto
  have "only_allocates s s4" using s1(4) s2(4) s3(4) s4(4) by (simp add: only_allocates_def)
  moreover have "at s = at s4" "at s1 = at s4" "at s2 = at s4" "at s3 = at s4"
    using s1(4) s2(4) s3(4) s4(4) by (auto simp: only_allocates_def intro!: at_base)
  ultimately show ?thesis using s1 s2 s3 s4 by (intro exI [of _ s4]) simp
qed

definition link_entry :: "vms \<Rightarrow> nat \<Rightarrow> u64" where
  "link_entry s p = set_flag PTE_VALID (set_ppn 0 (drop_bit 12 (at s p 0)))"

lemma link_page_at:
  assumes base: "good_base (base_pointer s)" and lt: "t < MAX_PAGES" "p < MAX_PAGES"
    and i: "i < NUM_PTE_ENTRIES" and zero: "pte s t i = 0"
  shows "link_page (at s t (8 * i)) (at s p 0) s =
    Inr ((), wr64 (at s t (8 * i)) (link_entry s p) s)"
  using mapped_pte [OF base lt(1) i] page_to_ppn_at [OF base lt(2)] zero
  by (simp add: link_page_def pte_prog_simps link_entry_def flip: pte_def)

lemma link_entry_root_update: "link_entry (s\<lparr>root_page_table := a\<rparr>) = link_entry s"
  by (simp add: link_entry_def fun_eq_iff)

lemma pages_inv_root_update: "pages_inv (s\<lparr>root_page_table := a\<rparr>) = pages_inv s"
  by (simp add: pages_inv_def)

text \<open>
  The address space with one page of data, page 3: the tables 0, 1 and 2 have one entry each.
\<close>

definition one_page_space :: "vms \<Rightarrow> bool" where
  "one_page_space s \<longleftrightarrow> pages_inv s \<and> root_page_table s = at s 0 0 \<and> alloc s = {..<4} \<and>
     ref_num s = replicate MAX_PAGES 0 \<and>
     (\<forall>i < NUM_PTE_ENTRIES.
        pte s 0 i = (if i = vpn demo_address 2 then link_entry s 1 else 0) \<and>
        pte s 1 i = (if i = vpn demo_address 1 then link_entry s 2 else 0) \<and>
        pte s 2 i = (if i = vpn demo_address 0
          then set_flag PTE_WRITE (set_flag PTE_READ (link_entry s 3)) else 0))"

lemma zero_table:
  "pages_inv s \<Longrightarrow> alloc s = {} \<Longrightarrow> t < MAX_PAGES \<Longrightarrow> i < NUM_PTE_ENTRIES \<Longrightarrow> pte s t i = 0"
  unfolding pte_bytes by (rule word_of_bytes_zero) (auto intro!: pages.fresh_zero)

text \<open>The state after the three entries are set: the first four pages are the tables and the page.\<close>

abbreviation demo_leaf :: "vms \<Rightarrow> u64" where
  "demo_leaf s \<equiv> set_flag PTE_WRITE (set_flag PTE_READ (link_entry s 3))"

abbreviation demo_linked :: "vms \<Rightarrow> vms" where
  "demo_linked s \<equiv> wr64 (at s 2 (8 * vpn demo_address 0)) (demo_leaf s)
     (wr64 (at s 1 (8 * vpn demo_address 1)) (link_entry s 2)
     (wr64 (at s 0 (8 * vpn demo_address 2)) (link_entry s 1) s))"

lemma link_entry_wr64: "link_entry (wr64 b v x) = link_entry x"
  by (simp add: link_entry_def fun_eq_iff)

lemma demo_linked_ptes:
  assumes zero: "\<And>t i. t < MAX_PAGES \<Longrightarrow> i < NUM_PTE_ENTRIES \<Longrightarrow> pte s t i = 0" and i: "i < NUM_PTE_ENTRIES"
  shows "pte (demo_linked s) 0 i = (if i = vpn demo_address 2 then link_entry s 1 else 0)"
    "pte (demo_linked s) 1 i = (if i = vpn demo_address 1 then link_entry s 2 else 0)"
    "pte (demo_linked s) 2 i = (if i = vpn demo_address 0 then demo_leaf s else 0)"
proof -
  let ?i2 = "vpn demo_address 2" and ?i1 = "vpn demo_address 1" and ?i0 = "vpn demo_address 0"
  let ?s1 = "wr64 (at s 0 (8 * ?i2)) (link_entry s 1) s"
  let ?s2 = "wr64 (at ?s1 1 (8 * ?i1)) (link_entry s 2) ?s1"
  let ?s3 = "wr64 (at ?s2 2 (8 * ?i0)) (demo_leaf s) ?s2"
  have p: "pte ?s1 t i = (if t = 0 \<and> i = ?i2 then link_entry s 1 else 0)"
      "pte ?s2 t i = (if t = 1 \<and> i = ?i1 then link_entry s 2 else pte ?s1 t i)"
      "pte ?s3 t i = (if t = 2 \<and> i = ?i0 then demo_leaf s else pte ?s2 t i)" if "t < MAX_PAGES" for t
    using pte_wr64_other [of t 0 i ?i2 s] pte_wr64_other [of t 1 i ?i1 ?s1] pte_wr64_same [of ?s1 1 ?i1]
      pte_wr64_other [of t 2 i ?i0 ?s2] pte_wr64_same [of ?s2 2 ?i0] zero that i by auto
  show "pte (demo_linked s) 0 i = (if i = ?i2 then link_entry s 1 else 0)"
    "pte (demo_linked s) 1 i = (if i = ?i1 then link_entry s 2 else 0)"
    "pte (demo_linked s) 2 i = (if i = ?i0 then demo_leaf s else 0)"
    using p [of 0] p [of 1] p [of 2] by (simp_all only: simp_thms) simp_all
qed

lemma demo_linked_inv:
  assumes "alloc s = {..<4}" "pages_inv s"
  shows "pages_inv (demo_linked s)"
proof -
  let ?s1 = "wr64 (at s 0 (8 * vpn demo_address 2)) (link_entry s 1) s"
  let ?s2 = "wr64 (at ?s1 1 (8 * vpn demo_address 1)) (link_entry s 2) ?s1"
  have "grows {0} s ?s1" using assms by (intro grows_wr64) simp_all
  then have "grows {1} ?s1 ?s2" using assms(1) by (intro grows_wr64) (simp_all add: grows_def alloc_def)
  then have "grows {2} ?s2 (wr64 (at ?s2 2 (8 * vpn demo_address 0)) (demo_leaf s) ?s2)"
    using assms(1) by (intro grows_wr64) (simp_all add: grows_def alloc_def)
  then show ?thesis by (simp add: grows_def)
qed

lemma demo_links:
  assumes base: "good_base (base_pointer s)" and zero: "\<And>t i. t < MAX_PAGES \<Longrightarrow> i < NUM_PTE_ENTRIES \<Longrightarrow> pte s t i = 0"
  shows "(seq (link_page (at s 0 (8 * vpn demo_address 2)) (at s 1 0))
      (seq (link_page (at s 1 (8 * vpn demo_address 1)) (at s 2 0))
      (seq (seq (link_page (at s 2 (8 * vpn demo_address 0)) (at s 3 0))
             (seq (vms_pte_read_set (at s 2 (8 * vpn demo_address 0))) (vms_pte_write_set (at s 2 (8 * vpn demo_address 0)))))
           (vms_set_root_page_table (at s 0 0))))) s = Inr ((), under 0 (demo_linked s))"
proof -
  let ?i2 = "vpn demo_address 2" and ?i1 = "vpn demo_address 1" and ?i0 = "vpn demo_address 0"
  let ?s1 = "wr64 (at s 0 (8 * ?i2)) (link_entry s 1) s"
  let ?s2 = "wr64 (at ?s1 1 (8 * ?i1)) (link_entry s 2) ?s1"
  have l2: "link_page (at s 0 (8 * ?i2)) (at s 1 0) s = Inr ((), ?s1)"
    using base zero by (intro link_page_at) simp_all
  have p1: "pte ?s1 t i = 0" if "t < MAX_PAGES" "i < NUM_PTE_ENTRIES" "t \<noteq> 0" for t i
    using pte_wr64_other [of t 0 i ?i2 s] zero that by auto
  have l1: "link_page (at s 1 (8 * ?i1)) (at s 2 0) ?s1 = Inr ((), ?s2)"
    using link_page_at [of ?s1 1 2 ?i1] base p1 [of 1 ?i1] by (simp add: link_entry_wr64)
  have "pte ?s2 2 ?i0 = 0" using pte_wr64_other [of 2 1 ?i0 ?i1 ?s1] p1 [of 2 ?i0] by auto
  then have l0: "link_page (at s 2 (8 * ?i0)) (at s 3 0) ?s2 = Inr ((), wr64 (at s 2 (8 * ?i0)) (link_entry s 3) ?s2)"
    using link_page_at [of ?s2 2 3 ?i0] base by (simp add: link_entry_wr64)
  have m: "mapped s (at s 2 (8 * ?i0)) 8" using base by (intro mapped_pte) simp_all
  have rw: "seq (vms_pte_read_set (at s 2 (8 * ?i0))) (vms_pte_write_set (at s 2 (8 * ?i0)))
      (wr64 (at s 2 (8 * ?i0)) (link_entry s 3) ?s2) = Inr ((), demo_linked s)"
    using m by (simp add: pte_prog_simps)
  have root: "vms_set_root_page_table (at s 0 0) (demo_linked s) = Inr ((), under 0 (demo_linked s))"
    using set_root_at [of "demo_linked s" 0] base by simp
  show ?thesis by (simp only: seq_apply l2 l1 l0 rw [unfolded seq_apply] root sum.case prod.case)
qed

lemma main_map:
  assumes "good_base a"
  shows "\<exists>s. vms_main_map (int PAGE_SIZE) (Inr a) (vms_initial m err) = Inr ((), s) \<and> one_page_space s"
proof -
  obtain s0 where s0: "vms_init (int PAGE_SIZE) (Inr a) (vms_initial m err) = Inr ((), s0)"
      "pages_inv s0" "alloc s0 = {}" "ref_num s0 = replicate MAX_PAGES 0"
    using init_inv [OF assms] by blast
  let ?k = "\<lambda>l2 l1 l0 p0 :: addr.
     seq (let l2_entry = vms_page_table_pte_entry l2 demo_address 2 in link_page l2_entry l1)
    (seq (let l1_entry = vms_page_table_pte_entry l1 demo_address 1 in link_page l1_entry l0)
    (seq (let l0_entry = vms_page_table_pte_entry l0 demo_address 0
          in seq (link_page l0_entry p0)
            (seq (vms_pte_read_set l0_entry) (vms_pte_write_set l0_entry)))
         (vms_set_root_page_table l2)))"
  obtain s where four: "bnd vms_new_page (\<lambda>a. bnd vms_new_page (\<lambda>b. bnd vms_new_page (\<lambda>c.
      bnd vms_new_page (\<lambda>d. ?k a b c d)))) s0 = ?k (at s 0 0) (at s 1 0) (at s 2 0) (at s 3 0) s"
      and s: "alloc s = {..<4}" "pages_inv s" "only_allocates s0 s"
    using four_pages [OF s0(2,3), of ?k] by blast
  have base: "good_base (base_pointer s)" using s(2) by (simp add: pages_inv_def)
  have zero: "pte s t i = 0" if "t < MAX_PAGES" "i < NUM_PTE_ENTRIES" for t i
    using zero_table [OF s0(2,3) that] only_allocates_view [OF s(3)] by (simp add: pte_def)
  have "vms_main_map (int PAGE_SIZE) (Inr a) (vms_initial m err) = Inr ((), under 0 (demo_linked s))"
    unfolding vms_main_map_def seq_Inr [where m = "vms_init (int PAGE_SIZE) (Inr a)", OF s0(1)] four
    unfolding Let_def pte_entry_at by (rule demo_links [OF base zero])
  moreover have "one_page_space (under 0 (demo_linked s))"
  proof -
    have "alloc (demo_linked s) = {..<4}" using s(1) by (simp add: alloc_def)
    moreover have "ref_num (demo_linked s) = replicate MAX_PAGES 0"
      using s0(4) only_allocates_fields [OF s(3)] by simp
    ultimately show ?thesis
      using demo_linked_inv [OF s(1,2)] demo_linked_ptes [OF zero]
      by (simp add: one_page_space_def pages_inv_root_update link_entry_root_update link_entry_wr64)
  qed
  ultimately show ?thesis by blast
qed

section \<open>It is well formed\<close>

lemma link_entry_flags [simp]:
  "valid (link_entry s p)" "\<not> readable (link_entry s p)" "\<not> writable (link_entry s p)"
  "\<not> custom (link_entry s p)"
  by (simp_all add: link_entry_def)

lemma link_entry_page:
  "good_base (base_pointer s) \<Longrightarrow> p < MAX_PAGES \<Longrightarrow> entry_page (link_entry s p) = at s p 0"
  using entry_page_set_ppn [of s p 0] by (simp add: link_entry_def)

text \<open>Each table has one valid entry, at the index that the address selects.\<close>

lemma one_page_entries:
  assumes "one_page_space s"
  shows "\<forall>t < 3. \<forall>i < NUM_PTE_ENTRIES. valid (pte s t i) \<longrightarrow> i = vpn demo_address (2 - t)"
    and "\<forall>t < 3. linked s t (vpn demo_address (2 - t)) \<and> kid s t (vpn demo_address (2 - t)) = t + 1"
    and "\<forall>t < 2. \<not> faults (2 - t) (pte s t (vpn demo_address (2 - t)))"
    and "pte s 2 (vpn demo_address 0) = set_flag PTE_WRITE (set_flag PTE_READ (link_entry s 3))"
proof -
  have base: "good_base (base_pointer s)" and al: "alloc s = {..<4}"
    using assms by (simp_all add: one_page_space_def pages_inv_def)
  have three: "t = 0 \<or> t = 1 \<or> t = 2" if "t < 3" for t :: nat using that by auto
  have e: "pte s 0 i = (if i = vpn demo_address 2 then link_entry s 1 else 0)"
      "pte s 1 i = (if i = vpn demo_address 1 then link_entry s 2 else 0)"
      "pte s 2 i = (if i = vpn demo_address 0
         then set_flag PTE_WRITE (set_flag PTE_READ (link_entry s 3)) else 0)"
    if "i < NUM_PTE_ENTRIES" for i
    using assms that by (simp_all add: one_page_space_def)
  show "\<forall>t < 3. \<forall>i < NUM_PTE_ENTRIES. valid (pte s t i) \<longrightarrow> i = vpn demo_address (2 - t)"
    using e by (auto dest!: three split: if_splits)
  have page: "entry_page (pte s t (vpn demo_address (2 - t))) = at s (t + 1) 0" if "t < 3" for t
    using three [OF that] e base by (auto simp: link_entry_page simp flip: numeral_2_eq_2)
  then have kid: "kid s t (vpn demo_address (2 - t)) = t + 1" if "t < 3" for t
    using that by (intro kidI) auto
  show "\<forall>t < 3. linked s t (vpn demo_address (2 - t)) \<and> kid s t (vpn demo_address (2 - t)) = t + 1"
    using page kid al by (auto simp: linked_def)
  show "\<forall>t < 2. \<not> faults (2 - t) (pte s t (vpn demo_address (2 - t)))"
    using e by (auto simp: faults_def less_2_cases_iff)
  show "pte s 2 (vpn demo_address 0) = set_flag PTE_WRITE (set_flag PTE_READ (link_entry s 3))"
    using e by simp
qed

lemma table_size_single:
  assumes "k < NUM_PTE_ENTRIES" and "\<forall>i < NUM_PTE_ENTRIES. valid (pte s t i) \<longleftrightarrow> i = k"
  shows "table_size N s t = Suc (N s (kid s t k))"
proof -
  have "table_size N s t = (\<Sum>i < NUM_PTE_ENTRIES. if i = k then Suc (N s (kid s t k)) else 0)"
    unfolding table_size_def by (rule sum.cong) (use assms(2) in \<open>auto simp: weight_def\<close>)
  then show ?thesis using assms(1) by (simp add: sum.delta)
qed

lemma one_page_wf:
  assumes "one_page_space s"
  shows "tree_wf s 0" "cow_wf {2} s 0" "l1_size s 0 = 2" "tree_size s 0 = 3"
proof -
  have al: "alloc s = {..<4}" using assms by (simp add: one_page_space_def)
  note e = one_page_entries(1,2) [OF assms]
  have t2: "i = vpn demo_address 0 \<and> linked s 2 i \<and> kid s 2 i = 3"
    if "i < NUM_PTE_ENTRIES" "valid (pte s 2 i)" for i
    using e(1) [rule_format, of 2 i] e(2) [rule_format, of 2] that by simp
  have t1: "i = vpn demo_address 1 \<and> linked s 1 i \<and> kid s 1 i = 2"
    if "i < NUM_PTE_ENTRIES" "valid (pte s 1 i)" for i
    using e(1) [rule_format, of 1 i] e(2) [rule_format, of 1] that by (simp add: numeral_2_eq_2)
  have t0: "i = vpn demo_address 2 \<and> linked s 0 i \<and> kid s 0 i = 1"
    if "i < NUM_PTE_ENTRIES" "valid (pte s 0 i)" for i
    using e(1) [rule_format, of 0 i] e(2) [rule_format, of 0] that by simp
  have "l0_wf s 2" "leaf_wf {2} s 2"
    using t2 al by (auto simp: table_wf_def data_wf_def leaf_wf_def)
  then have "l1_wf s 1" "cow_l1_wf {2} s 1"
    using t1 al unfolding table_wf_def [of _ l0_wf] table_wf_def [of _ "leaf_wf {2}"] by auto
  then show "tree_wf s 0" "cow_wf {2} s 0"
    using t0 al unfolding table_wf_def [of _ l1_wf] table_wf_def [of _ "cow_l1_wf {2}"] by auto
  have v: "valid (pte s 0 (vpn demo_address 2))" "valid (pte s 1 (vpn demo_address 1))"
    using one_page_entries(3) [OF assms, rule_format, of 0] one_page_entries(3) [OF assms, rule_format, of 1]
    by (auto simp: numeral_2_eq_2 intro: faults_valid)
  have v2: "valid (pte s 2 (vpn demo_address 0))"
    by (simp add: one_page_entries(4) [OF assms])
  have s2: "l0_size s 2 = 1"
    using table_size_single [of "vpn demo_address 0" s 2 data_size] t2 v2 by auto
  have s1: "table_size N s 1 = Suc (N s 2)" for N
    using table_size_single [of "vpn demo_address 1" s 1 N] t1 v(2) by auto
  have s0: "table_size N s 0 = Suc (N s 1)" for N
    using table_size_single [of "vpn demo_address 2" s 0 N] t0 v(1) by auto
  show "l1_size s 0 = 2" unfolding s0 s1 by simp
  show "tree_size s 0 = 3" unfolding s0 s1 s2 by simp
qed

lemma one_page_maps:
  assumes "one_page_space s"
  shows "maps s 0 demo_address 1 2 3" "readable (pte s 2 (vpn demo_address 0))"
    "writable (pte s 2 (vpn demo_address 0))" "offset demo_address + 4 \<le> PAGE_SIZE"
proof -
  note e = one_page_entries [OF assms]
  show "readable (pte s 2 (vpn demo_address 0))" "writable (pte s 2 (vpn demo_address 0))"
    by (simp_all add: e(4))
  show "offset demo_address + 4 \<le> PAGE_SIZE" by (simp add: demo_address_def)
  have "entry_page (pte s t (vpn demo_address (2 - t))) = at s (t + 1) 0" if "t < 3" for t
    using e(2) that by (auto simp: linked_def)
  from this [of 0] this [of 1] this [of 2]
  have "entry_page (pte s 0 (vpn demo_address 2)) = at s 1 0"
    "entry_page (pte s 1 (vpn demo_address 1)) = at s 2 0"
    "entry_page (pte s 2 (vpn demo_address 0)) = at s 3 0"
    by (simp_all add: numeral_2_eq_2 numeral_3_eq_3)
  moreover have "\<not> faults 2 (pte s 0 (vpn demo_address 2))" "\<not> faults 1 (pte s 1 (vpn demo_address 1))"
    using e(3) [rule_format, of 0] e(3) [rule_format, of 1] by (simp_all add: numeral_2_eq_2)
  moreover have "\<not> faults 0 (pte s 2 (vpn demo_address 0))" by (simp add: e(4) faults_def)
  ultimately show "maps s 0 demo_address 1 2 3" by (simp add: maps_def)
qed

section \<open>What the program prints\<close>

text \<open>
  C38. The program of \<open>main.c\<close>, on a system with pages of 4096 bytes and a successful \<open>mmap\<close>, prints
  that it read 1 and then 2, the two values that it wrote.
\<close>

theorem main_prints:
  assumes "good_base a"
  shows "\<exists>s. vms_main (int PAGE_SIZE) (Inr a) (vms_initial m err) = Inr ([1, 2], s)"
proof -
  obtain s where run: "vms_main_map (int PAGE_SIZE) (Inr a) (vms_initial m err) = Inr ((), s)"
      and one: "one_page_space s"
    using main_map [OF assms] by blast
  note m = one_page_maps [OF one]
  have base: "good_base (base_pointer s)" and root: "root_page_table s = at s 0 0"
    using one by (simp_all add: one_page_space_def pages_inv_def)
  let ?w = "\<lambda>v. wr32 (at s 3 (offset demo_address)) v s"
  have w: "vms_write demo_address v s = Inr ((), ?w v)" for v
    using base root m by (rule_tac vms_write_maps) auto
  have maps': "maps (?w v) 0 demo_address 1 2 3" for v
    using m by (intro maps_wr32) auto
  have same: "pte (?w v) 2 i = pte s 2 i" if "i < NUM_PTE_ENTRIES" for v i
    using m(4) that by (intro same_page_pte same_page_wr32) auto
  have r: "vms_read demo_address (?w v) = Inr (v, ?w v)" for v
    using vms_read_maps [OF _ _ maps', of v] base root m same by simp
  have w2: "vms_write demo_address 2 (?w 1) = Inr ((), ?w 2)"
    using vms_write_maps [OF _ _ maps', of 1 2] base root m same by simp
  show ?thesis
    unfolding vms_main_def seq_Inr [where m = "vms_main_map (int PAGE_SIZE) (Inr a)", OF run]
    by (simp add: seq_apply bnd_apply w r w2)
qed

end
