(* ===== verification/Vms_Properties.thy ===== *)
theory Vms_Properties
  imports Vms_Demo
begin

text \<open>
  What the virtual memory simulator of \<open>vms/\<close> guarantees, as theorems about the functions of its
  interface \<open>vms/include/vms.h\<close>, with the address space of \<open>vms/src/main.c\<close> as the instance at
  which their hypotheses hold.
\<close>

section \<open>The state after the set-up of main.c\<close>

definition demo_base :: addr where "demo_base = 0x7F0000000000"

definition demo_state :: vms where
  "demo_state =
     (case vms_main_map (int PAGE_SIZE) (Inr demo_base) (vms_initial (\<lambda>_. 0) 0) of
        Inl e \<Rightarrow> vms_initial (\<lambda>_. 0) 0
      | Inr (u, s) \<Rightarrow> s)"

lemma demo_base_good: "good_base demo_base"
  by (simp add: good_base_def demo_base_def)

lemma demo_one_page: "one_page_space demo_state"
  using main_map [OF demo_base_good, of "\<lambda>_. 0" 0] by (auto simp: demo_state_def)

lemmas demo_maps = one_page_maps [OF demo_one_page]
lemmas demo_wf = one_page_wf [OF demo_one_page]

lemma demo_facts:
  "pages_inv demo_state" "root_page_table demo_state = at demo_state 0 0" "alloc demo_state = {..<4}"
  "\<forall>q < MAX_PAGES. ref_num demo_state ! q = 0" "used_pages demo_state = 4"
  "good_base (base_pointer demo_state)"
  using demo_one_page by (simp_all add: one_page_space_def pages_inv_def)

lemma demo_fork: "\<exists>child s'. vms_fork_copy demo_state = Inr (child, s')"
proof -
  have "card (alloc demo_state) + Suc (tree_size demo_state 0) = 8"
    using demo_wf(4) demo_facts(3) by simp
  then show ?thesis
    using fork_copy_outcome [OF demo_facts(1,2) demo_wf(1)] demo_facts(3,5)
    by (cases "vms_fork_copy demo_state") auto
qed

lemma demo_fork_cow:
  "\<exists>child s'. vms_fork_copy_on_write demo_state = Inr (child, s') \<and> used_pages s' = 7"
proof -
  have "card (alloc demo_state) + Suc (l1_size demo_state 0) = 7"
    using demo_wf(3) demo_facts(3) by simp
  then show ?thesis
    using fork_cow_outcome [OF demo_facts(1,2) demo_wf(2)] demo_facts(3,5)
    by (cases "vms_fork_copy_on_write demo_state") (auto simp: step_def grows_def pages_inv_def)
qed

lemma demo_fork_cow_twice:
  assumes fork: "vms_fork_copy_on_write demo_state = Inr (child1, s1)"
  shows "\<exists>child2 s2. vms_fork_copy_on_write s1 = Inr (child2, s2)"
proof -
  have sub: "{2} \<subseteq> alloc demo_state" using demo_facts(3) by simp
  obtain r' where f: "step {2} (protecting {2}) {} demo_state s1" "at s1 = at demo_state"
      "pages_inv s1" "root_page_table s1 = root_page_table demo_state"
    using fork_cow_ok [OF demo_facts(1,2) demo_wf(2) sub fork] by metis
  have wf: "cow_wf {2} s1 0" "{2} \<subseteq> alloc s1"
    using cow_wf_step [OF f(1) demo_wf(2)] step_alloc [OF f(1)] sub by auto
  have used: "used_pages s1 = 7" using demo_fork_cow fork by simp
  have size: "card (alloc s1) + Suc (l1_size s1 0) = 10"
    using cow_size_step [OF f(1) demo_wf(2)] demo_wf(3) f(3) used by (simp add: pages_inv_def)
  show ?thesis
    using fork_cow_outcome [OF f(3) _ wf] f(2,4) demo_facts(2) size used
    by (cases "vms_fork_copy_on_write s1") auto
qed

section \<open>Page table entries\<close>

text \<open>
  C30. An entry written with \<open>vms_pte_set_ppn\<close> reads back the low 44 bits of the page number, and
  each flag function changes the flag it names, no other flag and not the page number.
\<close>

theorem pte_functions:
  assumes "mapped s entry 8"
  defines "flags \<equiv> \<lambda>s. (map_sum id fst (vms_pte_valid entry s), map_sum id fst (vms_pte_read entry s),
    map_sum id fst (vms_pte_write entry s), map_sum id fst (vms_pte_custom entry s))"
    and "number \<equiv> \<lambda>s. map_sum id fst (vms_pte_get_ppn entry s)"
    and "after \<equiv> \<lambda>m. case m s of Inl e \<Rightarrow> s | Inr (_, s') \<Rightarrow> s'"
  shows "number (after (vms_pte_set_ppn entry ppn)) = Inr (take_bit 44 ppn) \<and>
    flags (after (vms_pte_set_ppn entry ppn)) = flags s \<and>
    flags (after (vms_pte_valid_set entry)) = (Inr True, snd (flags s)) \<and>
    flags (after (vms_pte_valid_clear entry)) = (Inr False, snd (flags s)) \<and>
    flags (after (vms_pte_read_set entry)) = (fst (flags s), Inr True, snd (snd (flags s))) \<and>
    flags (after (vms_pte_read_clear entry)) = (fst (flags s), Inr False, snd (snd (flags s))) \<and>
    flags (after (vms_pte_write_set entry)) =
      (fst (flags s), fst (snd (flags s)), Inr True, snd (snd (snd (flags s)))) \<and>
    flags (after (vms_pte_write_clear entry)) =
      (fst (flags s), fst (snd (flags s)), Inr False, snd (snd (snd (flags s)))) \<and>
    flags (after (vms_pte_custom_set entry)) =
      (fst (flags s), fst (snd (flags s)), fst (snd (snd (flags s))), Inr True) \<and>
    flags (after (vms_pte_custom_clear entry)) =
      (fst (flags s), fst (snd (flags s)), fst (snd (snd (flags s))), Inr False) \<and>
    (\<forall>f \<in> {vms_pte_valid_set, vms_pte_valid_clear, vms_pte_read_set, vms_pte_read_clear,
            vms_pte_write_set, vms_pte_write_clear, vms_pte_custom_set, vms_pte_custom_clear}.
       number (after (f entry)) = number s)"
  using assms(1) by (simp add: flags_def number_def after_def pte_prog_simps get_ppn_set_ppn)

lemma demo_entry_mapped: "mapped demo_state (at demo_state 0 0) 8"
  using demo_facts(6) by (intro mapped_page) simp_all

theorem pte_functions_witness:
  "\<exists>s'. vms_pte_set_ppn (at demo_state 0 0) 7 demo_state = Inr ((), s') \<and>
     map_sum id fst (vms_pte_get_ppn (at demo_state 0 0) s') = Inr 7"
proof -
  have "vms_pte_set_ppn (at demo_state 0 0) 7 demo_state =
      Inr ((), wr64 (at demo_state 0 0) (set_ppn (pte demo_state 0 0) 7) demo_state)"
    using demo_entry_mapped by (simp add: pte_prog_simps pte_def)
  then show ?thesis using pte_functions [OF demo_entry_mapped, of 7] by simp
qed

text \<open>
  A page address below \<open>2 ^ 56\<close> survives the way through a page table entry:
  \<open>vms_page_to_ppn\<close>, \<open>vms_pte_set_ppn\<close>, \<open>vms_pte_get_ppn\<close> and \<open>vms_ppn_to_page\<close> give it back.
\<close>

theorem page_number_roundtrip:
  assumes "mapped s entry 8" "unat page mod PAGE_SIZE = 0" "unat page < 2 ^ 56"
  shows "\<exists>s'. bnd (vms_page_to_ppn page) (\<lambda>ppn. seq (vms_pte_set_ppn entry ppn)
      (bnd (vms_pte_get_ppn entry) (\<lambda>p. ret (vms_ppn_to_page p)))) s = Inr (page, s')"
  using assms ppn_to_page_of_ppn [of page] page_to_ppn_ok [of page]
  by (simp add: pte_prog_simps get_ppn_set_ppn)

theorem page_number_roundtrip_witness:
  "\<exists>s'. bnd (vms_page_to_ppn (at demo_state 3 0)) (\<lambda>ppn. seq (vms_pte_set_ppn (at demo_state 0 0) ppn)
      (bnd (vms_pte_get_ppn (at demo_state 0 0)) (\<lambda>p. ret (vms_ppn_to_page p)))) demo_state =
    Inr (at demo_state 3 0, s')"
proof (rule page_number_roundtrip)
  show "mapped demo_state (at demo_state 0 0) 8" by (fact demo_entry_mapped)
  show "unat (at demo_state 3 0) mod PAGE_SIZE = 0" using demo_facts(6) by (intro at_page_aligned) simp_all
  show "unat (at demo_state 3 0) < 2 ^ 56" using demo_facts(6) by (intro at_less) simp_all
qed

text \<open>
  The assertion of \<open>vms_page_to_ppn\<close> lets addresses pass that an entry cannot hold: the page
  address \<open>2 ^ 56\<close> comes back as 0.
\<close>

theorem page_number_truncated:
  "bnd (vms_page_to_ppn (2 ^ 56)) (\<lambda>ppn. seq (vms_pte_set_ppn (at demo_state 0 0) ppn)
     (bnd (vms_pte_get_ppn (at demo_state 0 0)) (\<lambda>p. ret (vms_ppn_to_page p)))) demo_state =
   Inr (0, wr64 (at demo_state 0 0) (set_ppn (pte demo_state 0 0) (2 ^ 44)) demo_state)"
proof -
  note demo_entry_mapped
  moreover have "vms_page_to_ppn (2 ^ 56) demo_state = Inr (2 ^ 44, demo_state)"
    by (simp add: vms_page_to_ppn_def check_page_aligned_def prog_simps)
  ultimately show ?thesis
    by (simp add: pte_prog_simps get_ppn_set_ppn vms_ppn_to_page_def pte_def)
qed

section \<open>Allocation\<close>

text \<open>
  C32. \<open>vms_init\<close> on a fresh mapping leaves an allocator that satisfies its invariant with every page
  free; it aborts when the system's page size is not 4096 and exits with the error of a failed
  \<open>mmap\<close>.
\<close>

theorem vms_init_establishes:
  "vms_init page_size result (vms_initial m err) =
     (if page_size \<noteq> int PAGE_SIZE then Inl Assertion
      else case result of
        Inl e \<Rightarrow> Inl (Exit e)
      | Inr a \<Rightarrow> vms_init (int PAGE_SIZE) (Inr a) (vms_initial m err)) \<and>
   (good_base a \<longrightarrow> (\<exists>s. vms_init (int PAGE_SIZE) (Inr a) (vms_initial m err) = Inr ((), s) \<and>
      pages_inv s \<and> alloc s = {}))"
  using init_inv [of a m err] by (auto simp: vms_init_def prog_simps split: sum.split)

theorem vms_init_establishes_witness:
  "\<exists>s. vms_init (int PAGE_SIZE) (Inr demo_base) (vms_initial (\<lambda>_. 7) 0) = Inr ((), s) \<and>
      pages_inv s \<and> alloc s = {}"
  using vms_init_establishes [of "int PAGE_SIZE" "Inr demo_base" "\<lambda>_. 7" 0 demo_base] demo_base_good
  by blast

text \<open>
  \<open>vms_new_page\<close> returns the lowest free page, which is all zero, marks it used and changes no
  memory; when all 256 pages are used it exits with \<open>ENOMEM\<close>.
\<close>

theorem vms_new_page_lowest:
  assumes "pages_inv s"
  shows "case vms_new_page s of
      Inl e \<Rightarrow> e = Exit ENOMEM \<and> alloc s = {..<MAX_PAGES}
    | Inr (a, s') \<Rightarrow> \<exists>p < MAX_PAGES. a = at s p 0 \<and> p \<notin> alloc s \<and> (\<forall>q < p. q \<in> alloc s) \<and>
        alloc s' = insert p (alloc s) \<and> pages_inv s' \<and> used_pages s' = used_pages s + 1 \<and>
        memory s' = memory s \<and> (\<forall>off < PAGE_SIZE. byte s' p off = 0)"
  using assms
proof (cases rule: pages.new_page_cases)
  case full
  then show ?thesis by simp
next
  case (ok p s')
  have "byte s' p off = 0" if "off < PAGE_SIZE" for off
    using pages.fresh_zero [OF assms ok(2,3) that] by (simp add: only_allocates_view [OF ok(7)])
  then show ?thesis
    using ok only_allocates_fields(1) [OF ok(7)] by (auto intro!: exI [of _ p])
qed

theorem vms_new_page_lowest_witness:
  "\<exists>s'. vms_new_page demo_state = Inr (at demo_state 4 0, s')"
proof -
  have "5 \<notin> alloc demo_state" using demo_facts(3) by simp
  moreover have "(5 :: nat) \<in> {..<MAX_PAGES}" by simp
  ultimately have "alloc demo_state \<noteq> {..<MAX_PAGES}" by metis
  then obtain a s' where new: "vms_new_page demo_state = Inr (a, s')"
    using pages.new_page_ok [OF demo_facts(1)] by blast
  then obtain p where p: "a = at demo_state p 0" "p \<notin> alloc demo_state" "\<forall>q < p. q \<in> alloc demo_state"
    using vms_new_page_lowest [OF demo_facts(1)] unfolding new sum.case prod.case by blast
  have "\<not> p < 4" using p(2) demo_facts(3) by simp
  moreover have "\<not> 4 < p" using p(3) demo_facts(3) by blast
  ultimately have "p = 4" by simp
  then show ?thesis using new p(1) by blast
qed

text \<open>
  \<open>vms_free_page\<close> of a used page makes it free and zero, keeps the invariant and every other
  page; freeing a page that is not used fails an assertion.
\<close>

theorem vms_free_page_frees:
  assumes "pages_inv s" "p < MAX_PAGES"
  shows "case vms_free_page (at s p 0) s of
      Inl e \<Rightarrow> e = Assertion \<and> p \<notin> alloc s
    | Inr (_, s') \<Rightarrow> p \<in> alloc s \<and> alloc s' = alloc s - {p} \<and> pages_inv s' \<and>
        used_pages s' = used_pages s - 1 \<and> (\<forall>off < PAGE_SIZE. byte s' p off = 0) \<and>
        (\<forall>q < MAX_PAGES. q \<noteq> p \<longrightarrow> same_page s s' q)"
proof (cases "p \<in> alloc s")
  case False
  then show ?thesis using pages.free_page_twice [OF assms] by simp
next
  case True
  then obtain s' where s': "vms_free_page (at s p 0) s = Inr ((), s')" "alloc s' = alloc s - {p}"
      "pages_inv s'" "used_pages s' = used_pages s - 1"
      "\<forall>q < MAX_PAGES. \<forall>off < PAGE_SIZE. q \<noteq> p \<longrightarrow> byte s' q off = byte s q off"
    using pages.free_page_ok [OF assms(1)] by blast
  have "byte s' p off = 0" if "off < PAGE_SIZE" for off
    using pages.fresh_zero [OF s'(3) assms(2) _ that] s'(2) by simp
  then show ?thesis using s' True by (simp add: same_page_def)
qed

theorem vms_free_page_frees_witness:
  "\<exists>s'. vms_free_page (at demo_state 3 0) demo_state = Inr ((), s') \<and> alloc s' = {..<4} - {3}"
proof -
  have in3: "3 \<in> alloc demo_state" using demo_facts(3) by simp
  then obtain s' where s': "vms_free_page (at demo_state 3 0) demo_state = Inr ((), s')"
    using pages.free_page_ok [OF demo_facts(1)] by blast
  then show ?thesis
    using vms_free_page_frees [OF demo_facts(1), of 3] demo_facts(3) by auto
qed

section \<open>The memory management unit\<close>

text \<open>
  C26. The loop of \<open>mmu\<close> with its flag \<open>faulted\<close> is, in every state, the descent \<open>resolve\<close> through the three
  levels from the root page table, which has no flag and no second look.  Each level reads its entry (one outside of the pages is a memory fault);
  an entry that faults there costs exactly one call of the page fault handler, also when a level above has already
  needed one; if the entry still faults in the state the handler leaves, the process exits with \<open>EFAULT\<close>;
  otherwise the descent goes on, in that state, at the page the repaired entry names, and at level 0 returns
  the entry.
\<close>

theorem mmu_resolves: "mmu va s = resolve va 2 (root_page_table s) s"
  by (simp add: mmu_def prog_simps mmu_from_resolve)

text \<open>
  Reading or writing an address whose walk meets an entry that is not valid ends the process
  with \<open>EFAULT\<close>.
\<close>

theorem invalid_access_exits:
  assumes "walk s va 2 (root_page_table s) = Bad level t"
    and "\<not> valid (rd64 s (vms_page_table_pte_entry t va level))"
  shows "vms_read va s = Inl (Exit EFAULT) \<and> vms_write va v s = Inl (Exit EFAULT)"
  using access_invalid [OF assms] by blast

theorem invalid_access_exits_witness: "vms_read 0 demo_state = Inl (Exit EFAULT)"
proof -
  have base: "good_base (base_pointer demo_state)" by (fact demo_facts)
  have v2: "vpn 0 2 = vpn demo_address 2" and v1: "vpn 0 1 \<noteq> vpn demo_address 1"
    by (simp_all add: demo_address_def vpn_eq)
  have root: "\<not> faults 2 (pte demo_state 0 (vpn 0 2))" "entry_page (pte demo_state 0 (vpn 0 2)) = at demo_state 1 0"
    using demo_maps(1) unfolding v2 by (simp_all add: maps_def)
  have "\<not> valid (pte demo_state 1 (vpn 0 1))"
    using one_page_entries(1) [OF demo_one_page, rule_format, of 1 "vpn 0 1"] v1 by auto
  then have inv: "\<not> valid (rd64 demo_state (vms_page_table_pte_entry (at demo_state 1 0) 0 1))"
    by (simp add: pte_entry_at pte_def)
  have "walk demo_state 0 2 (at demo_state 0 0) = Bad 1 (at demo_state 1 0)"
    using root inv by (simp add: walk_at [OF base] faults_def pte_entry_at flip: pte_def)
  then have "walk demo_state 0 2 (root_page_table demo_state) = Bad 1 (at demo_state 1 0)"
    by (simp add: demo_facts(2))
  from invalid_access_exits [OF this inv] show ?thesis by blast
qed

theorem main_prints_witness:
  "\<exists>s. vms_main (int PAGE_SIZE) (Inr demo_base) (vms_initial (\<lambda>_. 0) 0) = Inr ([1, 2], s)"
  using main_prints [OF demo_base_good] .

theorem write_read_same_witness:
  "\<exists>s'. vms_write demo_address 5 demo_state = Inr ((), s') \<and> vms_read demo_address s' = Inr (5, s')"
  using write_read_same [OF demo_facts(6,2) demo_maps(1) _ demo_maps(2-4), of 5] by simp

section \<open>Page faults\<close>

text \<open>
  C23. The four outcomes of \<open>page_fault_handler\<close> at a valid entry without write permission: an
  uncounted page is left alone; the last owner gets the write permission back, if the custom flag
  says that there was one; a shared page is copied to a new page that the entry then refers to,
  or the process exits with \<open>ENOMEM\<close> if there is none.
\<close>

theorem page_fault_handler_outcomes:
  assumes "pages_inv s" "guarded s t (vpn va level) p"
  shows "if ref_num s ! p \<le> 0 then page_fault_handler va level (at s t 0) s = Inr ((), s)
    else if ref_num s ! p = 1 then
      page_fault_handler va level (at s t 0) s =
        Inr ((), if custom (pte s t (vpn va level))
                 then wr64 (at s t (8 * vpn va level)) (restored (pte s t (vpn va level))) s else s)
    else if alloc s = {..<MAX_PAGES} then
      page_fault_handler va level (at s t 0) s = Inl (Exit ENOMEM)
    else \<exists>d s1. vms_new_page s = Inr (at s d 0, s1) \<and> d \<notin> alloc s \<and>
      page_fault_handler va level (at s t 0) s = Inr ((), cow_copied s1 t (vpn va level) p d)"
proof -
  have "\<exists>d s1. vms_new_page s = Inr (at s d 0, s1) \<and> d \<notin> alloc s \<and>
      page_fault_handler va level (at s t 0) s = Inr ((), cow_copied s1 t (vpn va level) p d)"
    if "1 < ref_num s ! p" "alloc s \<noteq> {..<MAX_PAGES}"
    using handler_copies [OF assms refl that] by blast
  then show ?thesis
    using handler_unshared [OF assms refl] handler_last [OF assms refl] handler_no_memory [OF assms refl]
    by auto
qed

lemma demo_shared:
  "\<exists>child s'. vms_fork_copy_on_write demo_state = Inr (child, s') \<and> used_pages s' = 7 \<and>
     shared_cow s' 0 demo_address 1 2 3"
proof -
  obtain child s' where "vms_fork_copy_on_write demo_state = Inr (child, s')" "used_pages s' = 7"
    using demo_fork_cow by blast
  then show ?thesis
    using fork_cow_shared [OF demo_facts(1,2) demo_wf(2) _ _ _ demo_maps(1-3), of child s'] demo_facts(3,4)
    by auto
qed

theorem page_fault_handler_outcomes_witness:
  "\<exists>s' d s1. shared_cow s' 0 demo_address 1 2 3 \<and> 1 < ref_num s' ! 3 \<and>
     page_fault_handler demo_address 0 (at s' 2 0) s' = Inr ((), cow_copied s1 2 (vpn demo_address 0) 3 d)"
proof -
  obtain child s' where s': "used_pages s' = 7" "shared_cow s' 0 demo_address 1 2 3"
    using demo_shared by blast
  then have inv: "pages_inv s'" "1 < ref_num s' ! 3" by (simp_all add: shared_cow_def)
  have "card (alloc s') = 7" using s'(1) inv(1) by (simp add: pages_inv_def)
  then have "alloc s' \<noteq> {..<MAX_PAGES}" by force
  then show ?thesis
    using page_fault_handler_outcomes [OF inv(1) shared_cow_guarded [OF s'(2)]] inv(2) s'(2) by auto
qed

text \<open>
  C19. The first write to a shared copy-on-write page, when a page is free and the four bytes lie within the page, succeeds: the writer gets a new page that holds
  the value and otherwise the old contents, the count of the shared page drops by one, and no
  page but the writer's innermost table changes.
\<close>

theorem first_write_copies:
  assumes "shared_cow s r va t1 t0 p" "alloc s \<noteq> {..<MAX_PAGES}" "offset va + 4 \<le> PAGE_SIZE"
  shows "\<exists>d s'. vms_write va v s = Inr ((), s') \<and> vms_read va s' = Inr (v, s') \<and>
    d \<notin> alloc s \<and> alloc s' = insert d (alloc s) \<and> maps s' r va t1 t0 d \<and>
    (\<forall>k < PAGE_SIZE. k < offset va \<or> offset va + 4 \<le> k \<longrightarrow> byte s' d k = byte s p k) \<and>
    (\<forall>q \<in> alloc s - {t0}. same_page s s' q) \<and>
    ref_num s' = (ref_num s)[p := ref_num s ! p - 1, d := ref_num s ! d + 1]"
proof -
  obtain d s' where w: "vms_write va v s = Inr ((), s')" "d \<notin> alloc s" "alloc s' = insert d (alloc s)"
      "base_pointer s' = base_pointer s" "root_page_table s' = root_page_table s"
      "maps s' r va t1 t0 d" "rd32 s' (at s' d (offset va)) = v"
      "\<And>k. k < PAGE_SIZE \<Longrightarrow> k < offset va \<or> offset va + 4 \<le> k \<Longrightarrow> byte s' d k = byte s p k"
      "\<And>q. q \<in> alloc s \<Longrightarrow> q \<noteq> t0 \<Longrightarrow> same_page s s' q" "readable (pte s' t0 (vpn va 0))"
      "ref_num s' = (ref_num s)[p := ref_num s ! p - 1, d := ref_num s ! d + 1]"
    using cow_write_effect [OF assms, of v] by blast
  have "good_base (base_pointer s')" "root_page_table s' = at s' r 0"
    using assms(1) w(4,5) at_base [OF w(4)] by (simp_all add: shared_cow_def pages_inv_def)
  then have "vms_read va s' = Inr (v, s')"
    using vms_read_maps [OF _ _ w(6,10) assms(3)] w(7) by simp
  then show ?thesis using w by blast
qed

theorem first_write_copies_witness:
  "\<exists>s d s'. shared_cow s 0 demo_address 1 2 3 \<and> vms_write demo_address 9 s = Inr ((), s') \<and>
     vms_read demo_address s' = Inr (9, s') \<and> maps s' 0 demo_address 1 2 d \<and> same_page s s' 3"
proof -
  obtain child s where s: "used_pages s = 7" "shared_cow s 0 demo_address 1 2 3"
    using demo_shared by blast
  then have inv: "pages_inv s" "3 \<in> alloc s" by (simp_all add: shared_cow_def)
  have "card (alloc s) = 7" using s(1) inv(1) by (simp add: pages_inv_def)
  then have "alloc s \<noteq> {..<MAX_PAGES}" by force
  then show ?thesis
    using first_write_copies [OF s(2) _ demo_maps(4), of 9] s(2) inv(2) by (metis Diff_iff empty_iff insert_iff numeral_eq_iff semiring_norm(88))
qed

section \<open>The forks\<close>

text \<open>
  C18. \<open>vms_fork_copy\<close> of a well formed address space fails in two ways only: it is refused when
  more than half of the pages are in use, and it exits with \<open>ENOMEM\<close> when the pages do not
  suffice.  Otherwise it returns the root of a deep copy made of fresh pages, changes no page that
  was in use and no reference count, and uses one page for each page copied.
\<close>

theorem vms_fork_copy_result:
  assumes "pages_inv s" "root_page_table s = at s r 0" "tree_wf s r"
  shows "case vms_fork_copy s of
      Inl e \<Rightarrow> e = Exit (errno s) \<and> int (MAX_PAGES div 2) < used_pages s \<or>
        e = Exit ENOMEM \<and> MAX_PAGES < card (alloc s) + Suc (tree_size s r)
    | Inr (a, s') \<Rightarrow> \<exists>r'. a = at s r' 0 \<and> pages_inv s' \<and> tree_copy (alloc s) s r s' r' \<and>
        (\<forall>q \<in> alloc s. same_page s s' q) \<and> ref_num s' = ref_num s \<and>
        card (alloc s') = card (alloc s) + Suc (tree_size s r)"
proof (cases "int (MAX_PAGES div 2) < used_pages s")
  case True
  then show ?thesis by (simp add: fork_copy_refused)
next
  case False
  then show ?thesis
    using fork_copy_outcome [OF assms]
    by (fastforce simp: grows_def split: sum.splits)
qed

theorem vms_fork_copy_result_witness:
  "\<exists>child s'. vms_fork_copy demo_state = Inr (child, s') \<and> card (alloc s') = 8"
proof -
  obtain child s' where f: "vms_fork_copy demo_state = Inr (child, s')" using demo_fork by blast
  have "card (alloc demo_state) = 4" using demo_facts(3) by simp
  then show ?thesis
    using vms_fork_copy_result [OF demo_facts(1,2) demo_wf(1)] demo_wf(4) unfolding f by auto
qed

theorem fork_copy_same_reads_witness:
  "\<exists>child s' x s2. vms_fork_copy demo_state = Inr (child, s') \<and>
     vms_read demo_address demo_state = Inr (x, demo_state) \<and>
     seq (vms_set_root_page_table child) (vms_read demo_address) s' = Inr (x, s2)"
proof -
  obtain child s' where f: "vms_fork_copy demo_state = Inr (child, s')" using demo_fork by blast
  then show ?thesis
    using fork_copy_same_reads [OF demo_facts(1,2) demo_wf(1) f demo_maps(1,2,4)] by blast
qed

theorem fork_copy_isolates_witness:
  "\<exists>child s' x s2 s3. vms_fork_copy demo_state = Inr (child, s') \<and>
     vms_read demo_address demo_state = Inr (x, demo_state) \<and>
     seq (vms_set_root_page_table child) (seq (vms_write demo_address 9)
       (seq (vms_set_root_page_table (root_page_table demo_state)) (vms_read demo_address))) s' = Inr (x, s2) \<and>
     seq (vms_set_root_page_table (root_page_table demo_state)) (seq (vms_write demo_address 9)
       (seq (vms_set_root_page_table child) (vms_read demo_address))) s' = Inr (x, s3)"
proof -
  obtain child s' where f: "vms_fork_copy demo_state = Inr (child, s')" using demo_fork by blast
  then show ?thesis
    using fork_copy_isolates [OF demo_facts(1,2) demo_wf(1) f demo_maps(1,1,3,2,4,4), of 9] by blast
qed

theorem fork_cow_no_shared_write_witness:
  "\<exists>child s' u1 u0 r'. vms_fork_copy_on_write demo_state = Inr (child, s') \<and>
     maps s' 0 demo_address 1 2 3 \<and> maps s' r' demo_address u1 u0 3 \<and> 2 \<le> ref_num s' ! 3"
proof -
  obtain child s' where f: "vms_fork_copy_on_write demo_state = Inr (child, s')"
    using demo_fork_cow by blast
  have "{2} \<subseteq> alloc demo_state" "\<forall>q < MAX_PAGES. 0 \<le> ref_num demo_state ! q"
    using demo_facts(3,4) by simp_all
  then show ?thesis
    using fork_cow_no_shared_write [OF demo_facts(1,2) demo_wf(2) _ _ f demo_maps(1,2)] f by blast
qed

theorem fork_cow_isolates_witness:
  "\<exists>child s' x s2 s3. vms_fork_copy_on_write demo_state = Inr (child, s') \<and>
     vms_read demo_address demo_state = Inr (x, demo_state) \<and>
     seq (vms_set_root_page_table child) (seq (vms_write demo_address 9)
       (seq (vms_set_root_page_table (root_page_table demo_state)) (vms_read demo_address))) s' = Inr (x, s2) \<and>
     seq (vms_set_root_page_table (root_page_table demo_state)) (seq (vms_write demo_address 9)
       (seq (vms_set_root_page_table child) (vms_read demo_address))) s' = Inr (x, s3)"
proof -
  obtain child s' where f: "vms_fork_copy_on_write demo_state = Inr (child, s')" "used_pages s' = 7"
    using demo_fork_cow by blast
  have "{2} \<subseteq> alloc demo_state" "\<forall>q < MAX_PAGES. 0 \<le> ref_num demo_state ! q"
      "used_pages s' < int MAX_PAGES" "3 \<notin> insert 0 (insert 1 {2 :: nat})" "3 \<notin> {2 :: nat}"
    using demo_facts(3,4) f(2) by simp_all
  then show ?thesis
    using fork_cow_isolates [OF demo_facts(1,2) demo_wf(2) _ _ f(1) _ demo_maps(1,1,2,3,2) _ _ demo_maps(4,4),
        of 9] f(1) by blast
qed

theorem fork_cow_twice_witness:
  "\<exists>child1 s1 child2 s2 r1 r2 u1 u0 w1 w0. vms_fork_copy_on_write demo_state = Inr (child1, s1) \<and>
     vms_fork_copy_on_write s1 = Inr (child2, s2) \<and> distinct [0, r1, r2] \<and>
     maps s2 r1 demo_address u1 u0 3 \<and> maps s2 r2 demo_address w1 w0 3 \<and> 4 \<le> ref_num s2 ! 3"
proof -
  obtain child1 s1 where f: "vms_fork_copy_on_write demo_state = Inr (child1, s1)"
    using demo_fork_cow by blast
  obtain child2 s2 where g: "vms_fork_copy_on_write s1 = Inr (child2, s2)"
    using demo_fork_cow_twice [OF f] by blast
  have "{2} \<subseteq> alloc demo_state" "\<forall>q < MAX_PAGES. 0 \<le> ref_num demo_state ! q"
    using demo_facts(3,4) by simp_all
  then show ?thesis
    using fork_cow_twice [OF demo_facts(1,2) demo_wf(2) _ _ f g demo_maps(1,2)] f g by blast
qed

end
