(* ===== verification/Vms_Processes.thy ===== *)
theory Vms_Processes
  imports Vms_Children Vms_Properties
begin

text \<open>
  Processes that read, write and fork, as programs on the simulator's interface \<open>vms/include/vms.h\<close>
  do by setting the root page table of the process that runs next.  The specification knows no
  tables, entries or counts: a process has a memory of its own, a partial map from page numbers to
  the bytes of a page and what may be done to it.  Every sequence of calls on the machine that comes
  to its end gives the results of the specification (\<open>run_refines\<close>), and a call that ends the
  program does so because the specification says so or because memory is short.
\<close>

section \<open>Calls\<close>

datatype request = Read addr | Write addr u32 | Fork_copy | Fork_on_write
datatype answer = Value u32 | Done

text \<open>\<open>A\<close> has the root page tables, in the order in which the processes were made.\<close>

definition vms_call :: "addr list \<Rightarrow> nat \<Rightarrow> request \<Rightarrow> (answer \<times> addr list) vm" where
  "vms_call A k q =
     seq (vms_set_root_page_table (A ! k))
     (case q of
        Read va \<Rightarrow> bnd (vms_read va) (\<lambda>x. ret (Value x, A))
      | Write va v \<Rightarrow> seq (vms_write va v) (ret (Done, A))
      | Fork_copy \<Rightarrow> bnd vms_fork_copy (\<lambda>a. ret (Done, A @ [a]))
      | Fork_on_write \<Rightarrow> bnd vms_fork_copy_on_write (\<lambda>a. ret (Done, A @ [a])))"

fun vms_run :: "addr list \<Rightarrow> (nat \<times> request) list \<Rightarrow> (answer list \<times> addr list) vm" where
  "vms_run A [] = ret ([], A)"
| "vms_run A ((k, q) # calls) =
     bnd (vms_call A k q) (\<lambda>(x, B). bnd (vms_run B calls) (\<lambda>(xs, D). ret (x # xs, D)))"

section \<open>The specification\<close>

text \<open>\<open>None\<close>: the call ends the program with \<open>EFAULT\<close>.\<close>

fun memory_call :: "space list \<Rightarrow> nat \<Rightarrow> request \<Rightarrow> (answer \<times> space list) option" where
  "memory_call M k (Read va) =
     (case (M ! k) (vpage_of va) of
        None \<Rightarrow> None
      | Some (a, bs) \<Rightarrow> Some (Value (word_at (offset va) bs), M))"
| "memory_call M k (Write va v) =
     (case (M ! k) (vpage_of va) of
        None \<Rightarrow> None
      | Some (a, bs) \<Rightarrow>
          if On_write \<le> a
          then Some (Done, M[k := (M ! k)(vpage_of va \<mapsto> (Writable, put_word (offset va) v bs))])
          else None)"
| "memory_call M k Fork_copy = Some (Done, M @ [map_access copied_access (M ! k)])"
| "memory_call M k Fork_on_write =
     Some (Done, M[k := map_access shared_access (M ! k)] @ [map_access shared_access (M ! k)])"

fun memory_run :: "space list \<Rightarrow> (nat \<times> request) list \<Rightarrow> (answer list \<times> space list) option" where
  "memory_run M [] = Some ([], M)"
| "memory_run M ((k, q) # calls) =
     Option.bind (memory_call M k q) (\<lambda>(x, N). map_option (\<lambda>(xs, P). (x # xs, P)) (memory_run N calls))"

text \<open>A request does not cross the end of a page, and is of a process that there is by then.\<close>

definition in_page :: "request \<Rightarrow> bool" where
  "in_page q \<longleftrightarrow> (case q of Read va \<Rightarrow> offset va + 4 \<le> PAGE_SIZE | Write va v \<Rightarrow> offset va + 4 \<le> PAGE_SIZE | _ \<Rightarrow> True)"

fun forks :: "request \<Rightarrow> nat" where
  "forks (Read va) = 0" | "forks (Write va v) = 0" | "forks Fork_copy = 1" | "forks Fork_on_write = 1"

fun well_formed :: "nat \<Rightarrow> (nat \<times> request) list \<Rightarrow> bool" where
  "well_formed n [] = True"
| "well_formed n ((k, q) # calls) \<longleftrightarrow> k < n \<and> in_page q \<and> well_formed (n + forks q) calls"

section \<open>The refinement\<close>

definition represents :: "addr list \<Rightarrow> vms \<Rightarrow> space list \<Rightarrow> bool" where
  "represents A s M \<longleftrightarrow> (\<exists>R. A = map (\<lambda>r. at s r 0) R \<and> processes_inv R s \<and> M = map (view s) R)"

text \<open>The pages that a call may take.\<close>

fun pages_needed :: "request \<Rightarrow> vms \<Rightarrow> nat \<Rightarrow> nat" where
  "pages_needed (Read va) s r = 0"
| "pages_needed (Write va v) s r = 1"
| "pages_needed Fork_copy s r = Suc (tree_size s r)"
| "pages_needed Fork_on_write s r = Suc (l1_size s r)"

text \<open>
  Why a call may end the program: by the specification, because the pages it needs are not left, or
  because a fork is refused once more than half of the pages are in use.
\<close>

definition may_end :: "addr list \<Rightarrow> vms \<Rightarrow> space list \<Rightarrow> nat \<Rightarrow> request \<Rightarrow> stop \<Rightarrow> bool" where
  "may_end A s M k q e \<longleftrightarrow>
     e = Exit EFAULT \<and> memory_call M k q = None \<or>
     e = Exit ENOMEM \<and> (\<exists>r < MAX_PAGES. A ! k = at s r 0 \<and> MAX_PAGES < card (alloc s) + pages_needed q s r) \<or>
     e = Exit (errno s) \<and> forks q = 1 \<and> int (MAX_PAGES div 2) < used_pages s"

lemma size_root:
  "l1_size (s\<lparr>root_page_table := a\<rparr>) t = l1_size s t" "tree_size (s\<lparr>root_page_table := a\<rparr>) t = tree_size s t"
  by (simp_all add: table_size_def weight_def kid_def vms_get_page_index_def cong: if_cong)

lemma forked_represents:
  assumes R: "A = map (\<lambda>r. at s r 0) R" and k: "k < length R" and f: "forked R s k f g a s'"
  shows "represents (A @ [a]) s'
    ((map (view s) R)[k := map_access f (view s (R ! k))] @ [map_access g (view s (R ! k))])"
proof -
  obtain r' where r': "a = at s r' 0" "processes_inv (R @ [r']) s'" "base_pointer s' = base_pointer s"
      "view s' r' = map_access g (view s (R ! k))"
      "\<And>j. j < length R \<Longrightarrow> view s' (R ! j) = (if j = k then map_access f (view s (R ! k)) else view s (R ! j))"
    using f by (auto simp: forked_def)
  have "at s' = at s" using r'(3) by (rule at_base)
  then have "A @ [a] = map (\<lambda>r. at s' r 0) (R @ [r'])" using R r'(1) by simp
  moreover have "map (view s') R = (map (view s) R)[k := map_access f (view s (R ! k))]"
    using r'(5) by (intro nth_equalityI) (auto simp: nth_list_update)
  ultimately show ?thesis using r'(2,4) unfolding represents_def by (intro exI [of _ "R @ [r']"]) simp
qed

text \<open>A call starts by setting the root page table of its process.\<close>

lemma call_start:
  assumes rep: "represents A s M" and k: "k < length A"
  obtains R where "A = map (\<lambda>r. at s r 0) R" "M = map (view s) R" "k < length R" "R ! k < MAX_PAGES"
    "processes_inv R (under (R ! k) s)" "vms_set_root_page_table (A ! k) s = Inr ((), under (R ! k) s)"
proof -
  obtain R where R: "A = map (\<lambda>r. at s r 0) R" "processes_inv R s" "M = map (view s) R"
    using rep by (auto simp: represents_def)
  have k': "k < length R" using k R(1) by simp
  have lt: "R ! k < MAX_PAGES" using processes_invD(3) [OF R(2) k'] by (auto simp: space_wf_def dest: alloc_less)
  have "vms_set_root_page_table (A ! k) s = Inr ((), under (R ! k) s)"
    using set_root_at [OF processes_invD(6) [OF R(2)] lt] R(1) k' by simp
  then show thesis using that R k' lt by simp
qed

text \<open>What a call may do: agree with the specification, or end the program for one of the reasons.\<close>

definition call_ok :: "addr list \<Rightarrow> vms \<Rightarrow> space list \<Rightarrow> nat \<Rightarrow> request \<Rightarrow> bool" where
  "call_ok A s M k q \<longleftrightarrow> (case vms_call A k q s of
      Inr ((x, B), s') \<Rightarrow> \<exists>N. memory_call M k q = Some (x, N) \<and> represents B s' N \<and> length B = length A + forks q
    | Inl e \<Rightarrow> may_end A s M k q e)"

lemmas call_simps = vms_call_def seq_apply bnd_apply

lemma read_ok:
  assumes rep: "represents A s M" and k: "k < length A" and page: "in_page (Read va)"
  shows "call_ok A s M k (Read va)"
  using rep k
proof (rule call_start)
  fix R assume R: "A = map (\<lambda>r. at s r 0) R" "M = map (view s) R" "k < length R"
    and inv: "processes_inv R (under (R ! k) s)"
    and set: "vms_set_root_page_table (A ! k) s = Inr ((), under (R ! k) s)"
  let ?s = "under (R ! k) s"
  have root: "root_page_table ?s = at ?s (R ! k) 0" by simp
  note base = processes_invD(6) [OF inv] and wf = processes_invD(3) [OF inv R(3)]
  have Mk: "M ! k = view s (R ! k)" using R by simp
  show ?thesis
  proof (cases "view s (R ! k) (vpage_of va)")
    case None
    then have "vms_read va ?s = Inl (Exit EFAULT)" using access_unmapped(1) [OF base root wf] by simp
    then show ?thesis using None by (simp add: call_ok_def call_simps set may_end_def Mk)
  next
    case (Some b)
    then obtain a bs where b: "b = (a, bs)" by (cases b)
    have "vms_read va ?s = Inr (word_at (offset va) bs, ?s)"
      using read_view [OF base root wf, of va a bs] Some b page by (simp add: in_page_def)
    moreover have "represents A ?s M" using R inv by (auto simp: represents_def)
    ultimately show ?thesis using Some b by (simp add: call_ok_def call_simps set Mk)
  qed
qed

lemma write_ok:
  assumes rep: "represents A s M" and k: "k < length A" and page: "in_page (Write va v)"
  shows "call_ok A s M k (Write va v)"
  using rep k
proof (rule call_start)
  fix R assume R: "A = map (\<lambda>r. at s r 0) R" "M = map (view s) R" "k < length R" "R ! k < MAX_PAGES"
    and inv: "processes_inv R (under (R ! k) s)"
    and set: "vms_set_root_page_table (A ! k) s = Inr ((), under (R ! k) s)"
  let ?s = "under (R ! k) s" and ?q = "Write va v"
  have root: "root_page_table ?s = at ?s (R ! k) 0" by simp
  note base = processes_invD(6) [OF inv] and wf = processes_invD(3) [OF inv R(3)]
  have Mk: "M ! k = view s (R ! k)" and Ak: "A ! k = at s (R ! k) 0" using R by simp_all
  show ?thesis
  proof (cases "view s (R ! k) (vpage_of va)")
    case None
    then have "vms_write va v ?s = Inl (Exit EFAULT)" using access_unmapped(2) [OF base root wf] by simp
    then show ?thesis using None by (simp add: call_ok_def call_simps set may_end_def Mk)
  next
    case (Some b)
    then obtain a bs where b: "b = (a, bs)" by (cases b)
    have "write_result R ?s k va v a bs (vms_write va v ?s)"
      using Some b page by (intro write_space [OF inv R(3) root]) (simp_all add: in_page_def)
    then consider e where "vms_write va v ?s = Inl e" "e = Exit EFAULT" "a < On_write"
      | e where "vms_write va v ?s = Inl e" "e = Exit ENOMEM" "alloc s = {..<MAX_PAGES}"
      | s' where "vms_write va v ?s = Inr ((), s')" "On_write \<le> a" "written R ?s k va v bs s'"
      by (auto simp: write_result_def split: sum.splits)
    then show ?thesis
    proof cases
      case 1
      then have "memory_call M k ?q = None" using Some b by (auto simp: Mk)
      then show ?thesis using 1 by (simp add: call_ok_def call_simps set may_end_def)
    next
      case 2
      then have "MAX_PAGES < card (alloc s) + pages_needed ?q s (R ! k)" by simp
      then have "may_end A s M k ?q e" using 2(2) Ak R(4) unfolding may_end_def by blast
      then show ?thesis using 2(1) by (simp add: call_ok_def call_simps set)
    next
      case 3
      let ?N = "M[k := (M ! k)(vpage_of va \<mapsto> (Writable, put_word (offset va) v bs))]"
      have "at s' = at s" using 3(3) by (intro at_base) (simp add: written_def)
      then have "A = map (\<lambda>r. at s' r 0) R" using R(1) by simp
      moreover have "map (view s') R = ?N"
        using 3(3) R(2,3) by (intro nth_equalityI) (auto simp: written_def nth_list_update)
      ultimately have "represents A s' ?N" using 3(3) by (auto simp: represents_def written_def)
      then show ?thesis using 3(1,2) Some b by (auto simp: call_ok_def call_simps set Mk)
    qed
  qed
qed

text \<open>A fork refuses, finds too few pages, or returns a child.\<close>

lemma fork_ends:
  assumes A: "A ! k = at s r 0" "r < MAX_PAGES" and q: "forks q = 1"
    and full: "used_pages s \<le> int (MAX_PAGES div 2) \<Longrightarrow>
      e = Exit ENOMEM \<and> MAX_PAGES < card (alloc s) + pages_needed q s r"
    and refused: "int (MAX_PAGES div 2) < used_pages s \<Longrightarrow> e = Exit (errno s)"
  shows "may_end A s M k q e"
proof (cases "used_pages s \<le> int (MAX_PAGES div 2)")
  case True
  then show ?thesis using full A unfolding may_end_def by blast
next
  case False
  then show ?thesis using refused q by (simp add: may_end_def)
qed

lemma fork_copy_ok_call:
  assumes rep: "represents A s M" and k: "k < length A"
  shows "call_ok A s M k Fork_copy"
  using rep k
proof (rule call_start)
  fix R assume R: "A = map (\<lambda>r. at s r 0) R" "M = map (view s) R" "k < length R" "R ! k < MAX_PAGES"
    and inv: "processes_inv R (under (R ! k) s)"
    and set: "vms_set_root_page_table (A ! k) s = Inr ((), under (R ! k) s)"
  let ?s = "under (R ! k) s"
  have root: "root_page_table ?s = at ?s (R ! k) 0" by simp
  have Ak: "A ! k = at s (R ! k) 0" using R by simp
  note outcome = fork_copy_outcome [OF processes_invD(1) [OF inv] root space_tree_wf [OF processes_invD(3) [OF inv R(3)]]]
  show ?thesis
  proof (cases "vms_fork_copy ?s")
    case (Inl e)
    have "may_end A s M k Fork_copy e"
      by (rule fork_ends [OF Ak R(4)]) (use outcome fork_copy_refused [of ?s] Inl in \<open>simp_all add: size_root\<close>)
    then show ?thesis using Inl by (simp add: call_ok_def call_simps set)
  next
    case (Inr y)
    then obtain a s' where s': "vms_fork_copy ?s = Inr (a, s')" by (cases y) auto
    have f: "forked R ?s k id copied_access a s'" by (rule fork_copy_space [OF inv R(3) root s'])
    have "(map (view s) R)[k := view s (R ! k)] = map (view s) R" using R(3) by (metis list_update_id nth_map)
    with forked_represents [OF _ R(3) f, of A]
    have "represents (A @ [a]) s' (M @ [map_access copied_access (M ! k)])" using R by simp
    then show ?thesis using s' by (simp add: call_ok_def call_simps set)
  qed
qed

lemma fork_on_write_ok:
  assumes rep: "represents A s M" and k: "k < length A"
  shows "call_ok A s M k Fork_on_write"
  using rep k
proof (rule call_start)
  fix R assume R: "A = map (\<lambda>r. at s r 0) R" "M = map (view s) R" "k < length R" "R ! k < MAX_PAGES"
    and inv: "processes_inv R (under (R ! k) s)"
    and set: "vms_set_root_page_table (A ! k) s = Inr ((), under (R ! k) s)"
  let ?s = "under (R ! k) s"
  have root: "root_page_table ?s = at ?s (R ! k) 0" by simp
  have Ak: "A ! k = at s (R ! k) 0" using R by simp
  note outcome = fork_cow_outcome [OF processes_invD(1) [OF inv] root space_cow_wf [OF inv R(3)]]
  show ?thesis
  proof (cases "vms_fork_copy_on_write ?s")
    case (Inl e)
    have "may_end A s M k Fork_on_write e"
      by (rule fork_ends [OF Ak R(4)]) (use outcome fork_cow_refused [of ?s] Inl in \<open>simp_all add: size_root\<close>)
    then show ?thesis using Inl by (simp add: call_ok_def call_simps set)
  next
    case (Inr y)
    then obtain a s' where s': "vms_fork_copy_on_write ?s = Inr (a, s')" by (cases y) auto
    have f: "forked R ?s k shared_access shared_access a s'" by (rule fork_cow_space [OF inv R(3) root s'])
    from forked_represents [OF _ R(3) f, of A]
    have "represents (A @ [a]) s' (M[k := map_access shared_access (M ! k)] @ [map_access shared_access (M ! k)])"
      using R by simp
    then show ?thesis using s' by (simp add: call_ok_def call_simps set)
  qed
qed

lemma vms_call_refines:
  assumes "represents A s M" "k < length A" "in_page q"
  shows "call_ok A s M k q"
  using assms read_ok write_ok fork_copy_ok_call fork_on_write_ok by (cases q) simp_all

lemma call_cases:
  assumes "represents A s M" "k < length A" "in_page q"
  obtains (returns) x B s' N where "vms_call A k q s = Inr ((x, B), s')" "memory_call M k q = Some (x, N)"
      "represents B s' N" "length B = length A + forks q"
    | (stops) e where "vms_call A k q s = Inl e" "may_end A s M k q e"
proof (cases "vms_call A k q s")
  case (Inl e)
  then show ?thesis using vms_call_refines [OF assms] by (intro stops) (simp_all add: call_ok_def)
next
  case (Inr y)
  obtain x B s' where y: "y = ((x, B), s')" by (metis prod.collapse)
  obtain N where "memory_call M k q = Some (x, N)" "represents B s' N" "length B = length A + forks q"
    using vms_call_refines [OF assms] Inr y by (auto simp: call_ok_def)
  then show ?thesis using Inr y by (intro returns) simp_all
qed

lemma represents_length: "represents A s M \<Longrightarrow> length M = length A"
  by (auto simp: represents_def)

text \<open>What a read answers is in the memory of the process.\<close>

definition memory_read :: "space \<Rightarrow> addr \<Rightarrow> stop + answer" where
  "memory_read sp va = (case sp (vpage_of va) of
     None \<Rightarrow> Inl (Exit EFAULT) | Some (a, bs) \<Rightarrow> Inr (Value (word_at (offset va) bs)))"

abbreviation call_answer :: "addr list \<Rightarrow> nat \<Rightarrow> request \<Rightarrow> vms \<Rightarrow> stop + answer" where
  "call_answer A k q s \<equiv> map_sum id (\<lambda>y. fst (fst y)) (vms_call A k q s)"

lemma read_answer:
  assumes rep: "represents A s M" and k: "k < length A" and page: "in_page (Read va)"
  shows "call_answer A k (Read va) s = memory_read (M ! k) va"
  using assms
proof (cases rule: call_cases)
  case (returns x B s' N)
  then show ?thesis by (auto simp: memory_read_def split: option.splits)
next
  case (stops e)
  have "card (alloc s) \<le> MAX_PAGES" using card_mono [OF _ alloc_subset [of s]] by simp
  then have "e = Exit EFAULT" "memory_call M k (Read va) = None"
    using stops(2) by (auto simp: may_end_def)
  then show ?thesis using stops(1) by (auto simp: memory_read_def split: option.splits)
qed

text \<open>Calls of other processes leave the memory of a process.\<close>

lemma memory_call_other:
  "memory_call M k q = Some (x, N) \<Longrightarrow> k \<noteq> j \<Longrightarrow> j < length M \<Longrightarrow> N ! j = M ! j \<and> length M \<le> length N"
  by (cases q) (auto simp: nth_append nth_list_update split: option.splits if_splits)

lemma memory_run_other:
  "memory_run M calls = Some (xs, N) \<Longrightarrow> j \<notin> fst ` set calls \<Longrightarrow> j < length M \<Longrightarrow>
     N ! j = M ! j \<and> length M \<le> length N"
proof (induction calls arbitrary: M xs)
  case Nil
  then show ?case by simp
next
  case (Cons c calls)
  obtain k q where c: "c = (k, q)" by (cases c)
  obtain x M' ys where "memory_call M k q = Some (x, M')" "memory_run M' calls = Some (ys, N)"
    using Cons.prems(1) by (auto simp: c bind_eq_Some_conv)
  moreover from this have "M' ! j = M ! j \<and> length M \<le> length M'"
    using Cons.prems(2,3) by (intro memory_call_other) (auto simp: c)
  ultimately show ?case using Cons.IH [of M' ys] Cons.prems(2,3) by (auto simp: c)
qed

lemma run_refines:
  "represents A s M \<Longrightarrow> well_formed (length A) calls \<Longrightarrow> vms_run A calls s = Inr ((xs, B), s') \<Longrightarrow>
     \<exists>N. memory_run M calls = Some (xs, N) \<and> represents B s' N"
proof (induction calls arbitrary: A s M xs)
  case Nil
  then show ?case by (auto simp: ret_def)
next
  case (Cons c calls)
  obtain k q where c: "c = (k, q)" by (cases c)
  have k: "k < length A" "in_page q" using Cons.prems(2) by (simp_all add: c)
  from Cons.prems(1) k show ?case
  proof (cases rule: call_cases)
    case (returns x A' s1 N)
    obtain ys where ys: "vms_run A' calls s1 = Inr ((ys, B), s')" "xs = x # ys"
      using Cons.prems(3) returns(1) by (auto simp: c bnd_apply ret_def split: sum.splits)
    obtain P where "memory_run N calls = Some (ys, P)" "represents B s' P"
      using Cons.IH [OF returns(3) _ ys(1)] Cons.prems(2) returns(4) by (auto simp: c)
    then show ?thesis using returns(2) ys(2) by (auto simp: c)
  next
    case (stops e)
    then show ?thesis using Cons.prems(3) by (simp add: c bnd_apply)
  qed
qed

lemma run_stops:
  "represents A s M \<Longrightarrow> well_formed (length A) calls \<Longrightarrow> vms_run A calls s = Inl e \<Longrightarrow>
     \<exists>pre k q rest xs B s' N. calls = pre @ (k, q) # rest \<and> vms_run A pre s = Inr ((xs, B), s') \<and>
       memory_run M pre = Some (xs, N) \<and> represents B s' N \<and> may_end B s' N k q e"
proof (induction calls arbitrary: A s M)
  case Nil
  then show ?case by (simp add: ret_def)
next
  case (Cons c calls)
  obtain k q where c: "c = (k, q)" by (cases c)
  have k: "k < length A" "in_page q" using Cons.prems(2) by (simp_all add: c)
  from Cons.prems(1) k show ?case
  proof (cases rule: call_cases)
    case (returns x A' s1 N)
    have "vms_run A' calls s1 = Inl e"
      using Cons.prems(3) returns(1) by (auto simp: c bnd_apply ret_def split: sum.splits)
    then obtain pre k' q' rest xs B s' P where IH: "calls = pre @ (k', q') # rest"
        "vms_run A' pre s1 = Inr ((xs, B), s')" "memory_run N pre = Some (xs, P)" "represents B s' P" "may_end B s' P k' q' e"
      using Cons.IH [OF returns(3)] Cons.prems(2) returns(4) by (auto simp: c)
    have "vms_run A (c # pre) s = Inr ((x # xs, B), s')" "memory_run M (c # pre) = Some (x # xs, P)"
      using returns(1,2) IH(2,3) by (simp_all add: c bnd_apply ret_def)
    then show ?thesis using IH(1,4,5) by (intro exI [of _ "c # pre"]) auto
  next
    case (stops e')
    then have "e' = e" using Cons.prems(3) by (simp add: c bnd_apply)
    then show ?thesis
      using stops(2) Cons.prems(1) by (intro exI [of _ "[]"]) (auto simp: c ret_def)
  qed
qed

text \<open>A write to a page that is lost.\<close>

lemma write_lost:
  assumes rep: "represents A s M" and k: "k < length A" and page: "in_page (Write va v)"
    and lost: "(M ! k) (vpage_of va) = Some (Lost, bs)"
  shows "vms_call A k (Write va v) s = Inl (Exit EFAULT)"
  using rep k
proof (rule call_start)
  fix R assume R: "M = map (view s) R" "k < length R" and inv: "processes_inv R (under (R ! k) s)"
    and set: "vms_set_root_page_table (A ! k) s = Inr ((), under (R ! k) s)"
  let ?s = "under (R ! k) s"
  have "write_result R ?s k va v Lost bs (vms_write va v ?s)"
    using lost page R by (intro write_space [OF inv R(2)]) (simp_all add: in_page_def)
  then have "vms_write va v ?s = Inl (Exit EFAULT)"
    by (cases "vms_write va v ?s") (auto simp: write_result_def)
  then show ?thesis using set by (simp add: call_simps)
qed

section \<open>The program of main.c has one process\<close>

lemma one_page_next:
  assumes "one_page_space s" "t < 3"
  shows "next_page s t i = (if i = vpn demo_address (2 - t) then Some (t + 1) else None)"
proof -
  note e = one_page_entries [OF assms(1)]
  have "valid (pte s t (vpn demo_address (2 - t)))"
  proof (cases "t = 2")
    case True
    then show ?thesis by (simp add: e(4))
  next
    case False
    then show ?thesis using e(3) [rule_format, of t] assms(2) by (intro faults_valid) simp
  qed
  then show ?thesis
    using e(1) [rule_format, OF assms(2)] e(2) [rule_format, OF assms(2)] vpn_less [of "2 - t" demo_address]
    by (auto simp: next_page_def)
qed

lemma one_page_lookup:
  assumes "one_page_space s"
  shows "upper s 0 = {0, 1}" "leaf_table s 0 x = (if x = fst (vpage_of demo_address) then Some 2 else None)"
    and "page_at s 0 v = (if v = vpage_of demo_address then Some 3 else None)"
proof -
  note kids = one_page_next [OF assms]
  have n: "next_page s 0 i = (if i = vpn demo_address 2 then Some 1 else None)"
      "next_page s (Suc 0) i = (if i = vpn demo_address 1 then Some 2 else None)"
      "next_page s 2 i = (if i = vpn demo_address 0 then Some 3 else None)" for i
    using kids [of 0 i] kids [of 1 i] kids [of 2 i] by (simp_all add: numeral_2_eq_2 numeral_3_eq_3)
  show "upper s 0 = {0, 1}" by (auto simp: upper_def n(1))
  show l: "leaf_table s 0 x = (if x = fst (vpage_of demo_address) then Some 2 else None)" for x
    by (cases x) (auto simp: leaf_table_def n vpage_of_def)
  show "page_at s 0 v = (if v = vpage_of demo_address then Some 3 else None)"
    by (cases v) (auto simp: page_at_def l n(3) vpage_of_def)
qed

lemma one_page_processes:
  assumes one: "one_page_space s"
  shows "processes_inv [0] s" "view s 0 (vpage_of demo_address) = Some (Writable, page_bytes s 3)"
proof -
  note look = one_page_lookup [OF one] and e = one_page_entries [OF one]
  have al: "alloc s = {..<4}" and ref: "ref_num s = replicate MAX_PAGES 0" and inv: "pages_inv s"
    using one by (simp_all add: one_page_space_def)
  have outer: "outer_ok s t (vpn demo_address (2 - t))" if "t < 2" for t
    using e(2,3) that by (auto simp: outer_ok_def faults_def)
  have leaf: "leaf_ok s 2 (vpn demo_address 0)"
    using e(2) [rule_format, of 2] by (simp add: leaf_ok_def e(4))
  have n: "next_page s t i = Some u \<Longrightarrow> t < 3 \<Longrightarrow> i = vpn demo_address (2 - t) \<and> u = t + 1" for t i u
    using one_page_next [OF one, of t i] by (simp split: if_splits)
  have "space_wf s 0"
    unfolding space_wf_def
  proof (intro conjI allI impI)
    show "0 \<in> alloc s" by (simp add: al)
    fix i t1 assume t1: "next_page s 0 i = Some t1"
    show "outer_ok s 0 i" using n [OF t1] outer [of 0] by simp
    fix j t0 assume t0: "next_page s t1 j = Some t0"
    have "t1 = 1" using n [OF t1] by simp
    then show "outer_ok s t1 j" using n [OF t0] outer [of 1] by simp
    fix k p assume p: "next_page s t0 k = Some p"
    have "t0 = 2" using n [OF t0] \<open>t1 = 1\<close> by simp
    then show "leaf_ok s t0 k" using n [OF p] leaf by simp
  qed
  moreover have "counts_ok s" by (simp add: counts_ok_def ref)
  moreover have "placed [0] s"
    by (auto simp: placed_def layout_def look simp del: split_paired_All split: if_splits)
  moreover have "owned [0] s"
  proof -
    have own: "owners 1 (\<lambda>k. page_at s ([0] ! k)) p = (if p = 3 then {0} else {})" for p
      by (auto simp: owners_def look simp del: split_paired_Ex split: if_splits)
    then show ?thesis by (auto simp: owned_def counted_def ref look split: if_splits)
  qed
  ultimately show "processes_inv [0] s" using inv by (simp add: processes_inv_def)
  have "next_page s 2 (snd (vpage_of demo_address)) = Some 3"
    using one_page_next [OF one, of 2] by (simp add: vpage_of_def)
  then show "view s 0 (vpage_of demo_address) = Some (Writable, page_bytes s 3)"
    using e(4) by (simp add: view_def look access_of_def vpage_of_def)
qed

lemma demo_represents:
  "represents [at demo_state 0 0] demo_state [view demo_state 0]"
  "view demo_state 0 (vpage_of demo_address) = Some (Writable, page_bytes demo_state 3)"
  "in_page (Read demo_address)" "in_page (Write demo_address v)"
proof -
  show "represents [at demo_state 0 0] demo_state [view demo_state 0]"
    unfolding represents_def using one_page_processes(1) [OF demo_one_page] by (intro exI [of _ "[0]"]) simp
  show "view demo_state 0 (vpage_of demo_address) = Some (Writable, page_bytes demo_state 3)"
    by (rule one_page_processes(2) [OF demo_one_page])
  show "in_page (Read demo_address)" "in_page (Write demo_address v)"
    using demo_maps(4) by (simp_all add: in_page_def)
qed

text \<open>It forks, and its child writes.\<close>

lemma demo_child_writes:
  obtains B s1 s2 where
    "vms_run [at demo_state 0 0] [(0, Fork_on_write)] demo_state = Inr (([Done], B), s1)"
    "vms_run [at demo_state 0 0] [(0, Fork_on_write), (1, Write demo_address 5)] demo_state = Inr (([Done, Done], B), s2)"
proof -
  let ?A = "[at demo_state 0 0]" and ?sp = "map_access shared_access (view demo_state 0)"
  obtain child s1 where fork: "vms_fork_copy_on_write demo_state = Inr (child, s1)" "used_pages s1 = 7"
    using demo_fork_cow by blast
  have "vms_set_root_page_table (at demo_state 0 0) demo_state = Inr ((), demo_state)"
    using set_root_at [of demo_state 0] demo_facts(2,6) by simp
  then have call: "vms_call ?A 0 Fork_on_write demo_state = Inr ((Done, ?A @ [child]), s1)"
    using fork(1) by (simp add: vms_call_def seq_apply bnd_apply ret_def)
  then obtain N where "memory_call [view demo_state 0] 0 Fork_on_write = Some (Done, N)"
      and rep: "represents (?A @ [child]) s1 N"
    using vms_call_refines [OF demo_represents(1), of 0 Fork_on_write] by (auto simp: in_page_def call_ok_def)
  then have N: "N = [?sp, ?sp]" by simp
  have pg: "?sp (vpage_of demo_address) = Some (On_write, page_bytes demo_state 3)"
    by (simp add: map_access_def demo_represents(2))
  have two: "1 < length (?A @ [child])" by simp
  obtain s2 where "vms_call (?A @ [child]) 1 (Write demo_address 5) s1 = Inr ((Done, ?A @ [child]), s2)"
    using rep two demo_represents(4) [of 5]
  proof (cases rule: call_cases)
    case (returns x B s2 N')
    then have "x = Done" "B = ?A @ [child]"
      using pg N by (auto simp: vms_call_def seq_apply ret_def split: sum.splits)
    then show ?thesis using returns that by blast
  next
    case (stops e)
    have "used_pages s1 = int (card (alloc s1))" using rep by (auto simp: represents_def processes_inv_def pages_inv_def)
    then show ?thesis using stops(2) pg N fork(2) by (auto simp: may_end_def)
  qed
  then show thesis using that [of "?A @ [child]" s1 s2] call by (simp add: bnd_apply ret_def)
qed

text \<open>It forks in both ways.\<close>

lemma leaf_size_step:
  assumes "step L (protecting L) {} s s'" "leaf_wf L s t"
  shows "l0_size s' t = l0_size s t"
  unfolding table_size_def
  by (rule sum.cong) (use cow_step_valid [OF assms(1)] assms(2) in \<open>auto simp: weight_def leaf_wf_def\<close>)

lemma demo_both_forks:
  obtains B s1 where
    "vms_run [at demo_state 0 0] [(0, Fork_on_write), (0, Fork_copy)] demo_state = Inr (([Done, Done], B), s1)"
proof -
  let ?A = "[at demo_state 0 0]"
  obtain child s1 where fork: "vms_fork_copy_on_write demo_state = Inr (child, s1)" "used_pages s1 = 7"
    using demo_fork_cow by blast
  have sub: "{2} \<subseteq> alloc demo_state" using demo_facts(3) by simp
  obtain r' where f: "step {2} (protecting {2}) {} demo_state s1" "at s1 = at demo_state"
      "pages_inv s1" "root_page_table s1 = root_page_table demo_state"
    using fork_cow_ok [OF demo_facts(1,2) demo_wf(2) sub fork(1)] by metis
  have size: "tree_size s1 0 = 3"
    using table_size_step [OF f(1) demo_wf(2), of l1_size] table_size_step [OF f(1), of "leaf_wf {2}" _ l0_size]
      leaf_size_step [OF f(1)] demo_wf(4) by simp
  have set: "vms_set_root_page_table (at demo_state 0 0) demo_state = Inr ((), demo_state)"
    using set_root_at [of demo_state 0] demo_facts(2,6) by simp
  then have call: "vms_call ?A 0 Fork_on_write demo_state = Inr ((Done, ?A @ [child]), s1)"
    using fork(1) by (simp add: vms_call_def seq_apply bnd_apply ret_def)
  then obtain N where rep: "represents (?A @ [child]) s1 N"
    using vms_call_refines [OF demo_represents(1), of 0 Fork_on_write] by (auto simp: in_page_def call_ok_def)
  have page: "in_page Fork_copy" and len: "0 < length (?A @ [child])" by (simp_all add: in_page_def)
  obtain B s2 where "vms_call (?A @ [child]) 0 Fork_copy s1 = Inr ((Done, B), s2)"
    using rep len page
  proof (cases rule: call_cases)
    case (returns x B s2 N')
    then show ?thesis using that by auto
  next
    case (stops e)
    have root: "at demo_state 0 0 = at s1 r 0 \<Longrightarrow> r < MAX_PAGES \<Longrightarrow> r = 0" for r
      using page_index_at [of r 0 s1] page_index_at [of 0 0 s1] f(2) by simp
    have used: "card (alloc s1) = 7" using f(3) fork(2) by (simp add: pages_inv_def)
    obtain r where r: "r < MAX_PAGES" "at demo_state 0 0 = at s1 r 0" "MAX_PAGES < card (alloc s1) + Suc (tree_size s1 r)"
      using stops(2) fork(2) by (auto simp: may_end_def)
    have "r = 0" using root [OF r(2,1)] .
    then show ?thesis using r(3) used size by simp
  qed
  then show thesis using that [of B s2] call by (simp add: bnd_apply ret_def)
qed

section \<open>The properties\<close>

text \<open>
  C1. Processes that share one memory through \<open>vms_fork_copy\<close> and \<open>vms_fork_copy_on_write\<close> behave as
  if each had a memory of its own, as long as no access crosses the end of its page.  Let the machine represent the memories \<open>M\<close> of some
  processes, and take any sequence of reads, writes and forks, in any interleaving, each by a process that exists by
  then, and each read and write of four bytes that lie within one page.  If the sequence
  runs to its end, it gives the answers of the specification, in which a write changes the memory of the
  writer only and a fork hands a copy to the child.  If the program ends early, the calls before it
  agree with the specification, and the last call faults there too, finds fewer pages than it
  needs, or is a fork that is refused because more than half of the pages are in use.
  (An access that does cross the end of its page goes on in the next page of the mapping, whichever process
  has it: \<open>write_crosses_page\<close>.)
\<close>

theorem processes_have_private_memory:
  assumes "represents A s M" and "well_formed (length A) calls"
  shows "case vms_run A calls s of
      Inr ((xs, B), s') \<Rightarrow> \<exists>N. memory_run M calls = Some (xs, N) \<and> represents B s' N
    | Inl e \<Rightarrow> \<exists>pre k q rest xs B s' N. calls = pre @ (k, q) # rest \<and> vms_run A pre s = Inr ((xs, B), s') \<and>
        memory_run M pre = Some (xs, N) \<and> represents B s' N \<and> may_end B s' N k q e"
  using run_refines [OF assms] run_stops [OF assms] by (auto split: sum.split)

theorem processes_have_private_memory_witness:
  "\<exists>B s' N. vms_run [at demo_state 0 0] [(0, Fork_on_write), (1, Write demo_address 5)] demo_state =
      Inr (([Done, Done], B), s') \<and> represents B s' N \<and> N ! 0 = map_access shared_access (view demo_state 0) \<and>
      (N ! 1) (vpage_of demo_address) =
        Some (Writable, put_word (offset demo_address) 5 (page_bytes demo_state 3))"
proof -
  let ?calls = "[(0, Fork_on_write), (1, Write demo_address 5)]"
  obtain B s' where run: "vms_run [at demo_state 0 0] ?calls demo_state = Inr (([Done, Done], B), s')"
    using demo_child_writes by blast
  have "well_formed (length [at demo_state 0 0]) ?calls"
    using demo_represents(4) by (simp add: in_page_def)
  from processes_have_private_memory [OF demo_represents(1) this] run
  obtain N where N: "memory_run [view demo_state 0] ?calls = Some ([Done, Done], N)" "represents B s' N" by auto
  then have "N ! 0 = map_access shared_access (view demo_state 0)"
      "(N ! 1) (vpage_of demo_address) = Some (Writable, put_word (offset demo_address) 5 (page_bytes demo_state 3))"
    by (auto simp: demo_represents(2) map_access_def)
  then show ?thesis using run N(2) by blast
qed

text \<open>
  C11. On a machine that represents the memories of some processes, whatever the other processes read, write and fork, in any
  sequence of such calls that runs to its end, in which each is by a process that exists by then and
  no access crosses the end of its page, what a process reads at an address stays
  what it was, and an address at which it faulted still faults; the address, too, has its four bytes within one page.
\<close>

theorem other_processes_keep_reads:
  assumes "represents A s M" "well_formed (length A) calls" "vms_run A calls s = Inr ((xs, B), s')"
    and "j < length A" "j \<notin> fst ` set calls" "offset va + 4 \<le> PAGE_SIZE"
  shows "call_answer B j (Read va) s' = call_answer A j (Read va) s"
proof -
  obtain N where N: "memory_run M calls = Some (xs, N)" "represents B s' N"
    using run_refines [OF assms(1-3)] by blast
  have page: "in_page (Read va)" using assms(6) by (simp add: in_page_def)
  have "N ! j = M ! j" "j < length B"
    using memory_run_other [OF N(1) assms(5)] assms(1,4) N(2) by (simp_all add: represents_length)
  then show ?thesis
    using read_answer [OF N(2) _ page, of j] read_answer [OF assms(1,4) page] by simp
qed

theorem other_processes_keep_reads_witness:
  "\<exists>B s' s1. vms_run [at demo_state 0 0] [(0, Fork_on_write)] demo_state = Inr (([Done], B), s1) \<and>
     vms_run B [(1, Write demo_address 5)] s1 = Inr (([Done], B), s') \<and>
     call_answer B 0 (Read demo_address) s' = call_answer B 0 (Read demo_address) s1"
proof -
  obtain B s1 s2 where run: "vms_run [at demo_state 0 0] [(0, Fork_on_write)] demo_state = Inr (([Done], B), s1)"
      "vms_run [at demo_state 0 0] [(0, Fork_on_write), (1, Write demo_address 5)] demo_state = Inr (([Done, Done], B), s2)"
    by (rule demo_child_writes)
  have "well_formed (length [at demo_state 0 0]) [(0, Fork_on_write)]" by (simp add: in_page_def)
  from run_refines [OF demo_represents(1) this run(1)]
  obtain N where rep: "represents B s1 N" "memory_run [view demo_state 0] [(0, Fork_on_write)] = Some ([Done], N)" by blast
  have len: "length B = 2" using rep represents_length [OF rep(1)] by auto
  have w: "vms_run B [(1, Write demo_address 5)] s1 = Inr (([Done], B), s2)"
    using run by (auto simp: bnd_apply ret_def split: sum.splits)
  have "call_answer B 0 (Read demo_address) s2 = call_answer B 0 (Read demo_address) s1"
    by (rule other_processes_keep_reads [OF rep(1) _ w])
      (use len demo_represents(3,4) in \<open>simp_all add: in_page_def\<close>)
  then show ?thesis using run(1) w by blast
qed

text \<open>
  C33. A page that a process shares after a copy-on-write fork and then copies to a new process with
  \<open>vms_fork_copy\<close> is lost for that process: it can be read, but a write, which was allowed to the
  process that forked, ends the program with \<open>EFAULT\<close>.  The copy takes over the custom flag in place
  of the write permission, but the count of the new page stays 0, and the fault handler gives the
  permission back for counted pages only.
\<close>

theorem copied_child_cannot_write:
  assumes "represents A s M" "k < length A" "(M ! k) (vpage_of va) = Some (Writable, bs)"
    and "offset va + 4 \<le> PAGE_SIZE"
    and "vms_run A [(k, Fork_on_write), (k, Fork_copy)] s = Inr ((xs, B), s')"
  shows "call_answer B (length A + 1) (Read va) s' = Inr (Value (word_at (offset va) bs)) \<and>
    vms_call B (length A + 1) (Write va v) s' = Inl (Exit EFAULT)"
proof -
  have "well_formed (length A) [(k, Fork_on_write), (k, Fork_copy)]" using assms(2) by (simp add: in_page_def)
  from run_refines [OF assms(1) this assms(5)] obtain N where
    N: "memory_run M [(k, Fork_on_write), (k, Fork_copy)] = Some (xs, N)" "represents B s' N" by blast
  have k: "k < length M" using assms(1,2) by (simp add: represents_length)
  then have "(N ! (length A + 1)) (vpage_of va) = Some (Lost, bs)" "length N = length A + 2"
    using N(1) assms(1,3) by (auto simp: nth_append map_access_def represents_length)
  moreover have "length B = length N" using N(2) by (simp add: represents_length)
  ultimately show ?thesis
    using read_answer [OF N(2), of "length A + 1" va] write_lost [OF N(2), of "length A + 1" va v bs] assms(4)
    by (simp add: in_page_def memory_read_def)
qed

theorem copied_child_cannot_write_witness:
  "\<exists>xs B s'. vms_run [at demo_state 0 0] [(0, Fork_on_write), (0, Fork_copy)] demo_state = Inr ((xs, B), s') \<and>
     call_answer B 2 (Read demo_address) s' = Inr (Value (word_at (offset demo_address) (page_bytes demo_state 3))) \<and>
     vms_call B 2 (Write demo_address 5) s' = Inl (Exit EFAULT)"
proof -
  obtain xs B s' where run:
      "vms_run [at demo_state 0 0] [(0, Fork_on_write), (0, Fork_copy)] demo_state = Inr ((xs, B), s')"
    by (rule demo_both_forks)
  show ?thesis
    using copied_child_cannot_write [OF demo_represents(1) _ _ demo_maps(4) run] demo_represents(2) run
    by (auto simp: numeral_2_eq_2)
qed

end
