(* ===== verification/Pht_Strings.thy ===== *)
theory Pht_Strings
  imports Prelude
begin

text \<open>
  C strings in a buffer, and the hash function of \<open>pht/src/hash-table-common.c\<close>.

  A buffer is the list of its bytes and a pointer into it is an offset.  The string at a pointer
  is what precedes the first NUL byte; reading on past the end of the buffer is undefined.
  \<open>strcmp\<close> of the C library is described by its documented result on two strings.
\<close>

section \<open>Strings\<close>

definition cstring :: "u8 list \<Rightarrow> nat \<Rightarrow> u8 list option" where
  "cstring buf p =
     (if 0 \<in> set (drop p buf) then Some (takeWhile (\<lambda>c. c \<noteq> 0) (drop p buf)) else None)"

lemma cstring_step:
  "cstring buf p =
     (if p < length buf
      then if buf ! p = 0 then Some [] else map_option (Cons (buf ! p)) (cstring buf (Suc p))
      else None)"
proof (cases "p < length buf")
  case True
  then have "drop p buf = buf ! p # drop (Suc p) buf" by (rule Cons_nth_drop_Suc [symmetric])
  then show ?thesis using True by (auto simp: cstring_def)
qed (simp add: cstring_def)

lemma cstring_NilD: "cstring buf p = Some [] \<Longrightarrow> p < length buf \<and> buf ! p = 0"
  by (subst (asm) cstring_step) (simp split: if_splits)

lemma cstring_ConsD:
  "cstring buf p = Some (c # s) \<Longrightarrow> p < length buf \<and> buf ! p = c \<and> c \<noteq> 0 \<and> cstring buf (Suc p) = Some s"
  by (subst (asm) cstring_step) (auto split: if_splits)

lemma cstring_no_nul: "cstring buf p = Some s \<Longrightarrow> 0 \<notin> set s"
  by (auto simp: cstring_def split: if_splits dest: set_takeWhileD)

text \<open>\<open>strcmp(a, b) == 0\<close>.\<close>

definition strcmp_equal :: "u8 list \<Rightarrow> nat \<Rightarrow> nat \<Rightarrow> stop + bool" where
  "strcmp_equal buf a b =
     (case (cstring buf a, cstring buf b) of
        (Some s, Some t) \<Rightarrow> Inr (s = t)
      | _ \<Rightarrow> Inl Undefined)"

section \<open>bernstein\_hash\<close>

text \<open>
  The loop from index \<open>i\<close>.  The characters are of type \<open>char\<close>, which is signed here, so a byte
  is sign extended before it is added to the 32-bit sum.
\<close>

definition hash_step :: "u32 \<Rightarrow> u8 \<Rightarrow> u32" where
  "hash_step hash c = (33 * hash) + scast c"

function bernstein_from :: "u8 list \<Rightarrow> nat \<Rightarrow> u32 \<Rightarrow> stop + u32" where
  "bernstein_from buf i hash =
     (if i < length buf
      then let c = buf ! i in
           if c = 0 then Inr hash else bernstein_from buf (Suc i) (hash_step hash c)
      else Inl Undefined)"
  by pat_completeness auto
termination
  by (relation "measure (\<lambda>(buf, i, hash). length buf - i)") auto

declare bernstein_from.simps [simp del]

definition bernstein_hash :: "u8 list \<Rightarrow> nat \<Rightarrow> stop + u32" where
  "bernstein_hash buf string = bernstein_from buf string 0"

text \<open>The hash of a string as a polynomial in 33, and that the loop computes it.\<close>

definition string_hash :: "u8 list \<Rightarrow> u32" where
  "string_hash s = foldl hash_step 0 s"

lemma bernstein_from_eq:
  "bernstein_from buf i hash =
     (case cstring buf i of None \<Rightarrow> Inl Undefined | Some s \<Rightarrow> Inr (foldl hash_step hash s))"
proof (induction buf i hash rule: bernstein_from.induct)
  case (1 buf i hash)
  show ?case
  proof (cases "i < length buf \<and> buf ! i \<noteq> 0")
    case True
    then show ?thesis
      using 1 by (subst bernstein_from.simps, subst cstring_step) (simp add: Let_def split: option.split)
  next
    case False
    then show ?thesis
      by (subst bernstein_from.simps, subst cstring_step) auto
  qed
qed

lemma bernstein_hash_eq:
  "bernstein_hash buf p =
     (case cstring buf p of None \<Rightarrow> Inl Undefined | Some s \<Rightarrow> Inr (string_hash s))"
  by (simp add: bernstein_hash_def bernstein_from_eq string_hash_def split: option.split)

lemma string_hash_foldl:
  "foldl hash_step h s = 33 ^ length s * h + (\<Sum>i < length s. 33 ^ (length s - Suc i) * scast (s ! i))"
proof (induction s rule: rev_induct)
  case Nil
  then show ?case by simp
next
  case (snoc c s)
  have "(\<Sum>i < length s. 33 ^ (length s - i) * scast (s ! i) :: u32) =
      33 * (\<Sum>i < length s. 33 ^ (length s - Suc i) * scast (s ! i))"
    unfolding sum_distrib_left
  proof (rule sum.cong)
    fix i assume "i \<in> {..<length s}"
    then have "length s - i = Suc (length s - Suc i)" by simp
    then show "33 ^ (length s - i) * scast (s ! i) = 33 * (33 ^ (length s - Suc i) * scast (s ! i) :: u32)"
      by simp
  qed simp
  then show ?case
    using snoc by (simp add: hash_step_def nth_append algebra_simps)
qed

lemma string_hash_polynomial:
  "string_hash s = (\<Sum>i < length s. 33 ^ (length s - Suc i) * scast (s ! i))"
  by (simp add: string_hash_def string_hash_foldl)

end
