(* ===== verification/Pht_Table.thy ===== *)
theory Pht_Table
  imports Pht_Strings
begin

text \<open>
  The buckets of the hash tables and the table without locks (\<open>pht/src/hash-table-base.c\<close>).

  The three variants share the list entries, the choice of the bucket and the search of its
  list, which C repeats in each file; here they are functions on the list of the buckets.  A
  bucket is the list of its entries in the order of the \<open>SLIST\<close> macros, and a pointer to an
  entry is its position.

  Locale \<open>string_map\<close> is the contract of a table, a map from strings to numbers, and holds the
  lemmas on filling and checking a table that the tester relies on.
\<close>

declare upt_rec_numeral [simp del]

section \<open>Data\<close>

text \<open>A key is a pointer into the buffer \<open>data\<close> of the tester, or \<open>NULL\<close>.\<close>

record list_entry =
  key :: nat
  val :: u32

type_synonym bucket = "list_entry list"

abbreviation HASH_TABLE_CAPACITY :: nat where "HASH_TABLE_CAPACITY \<equiv> 4096"

text \<open>
  The buffer of the keys, how many more allocations will succeed, and how many allocations are
  in use.
\<close>

record heap =
  data :: "u8 list"
  room :: nat
  live :: nat

text \<open>\<open>calloc\<close>: whether it returned memory; \<open>free\<close>.\<close>

definition calloc :: "('a heap_scheme, bool) prog" where
  "calloc = (\<lambda>s. if room s = 0 then Inr (False, s)
                 else Inr (True, s\<lparr>room := room s - 1, live := live s + 1\<rparr>))"

definition free :: "('a heap_scheme, unit) prog" where
  "free = upd (\<lambda>s. s\<lparr>room := room s + 1, live := live s - 1\<rparr>)"

section \<open>Searching a bucket\<close>

text \<open>\<open>bernstein_hash(key) % HASH_TABLE_CAPACITY\<close>, after \<open>assert(key != NULL)\<close>.\<close>

definition bucket_index :: "u8 list \<Rightarrow> nat option \<Rightarrow> stop + nat" where
  "bucket_index buf k =
     (case k of
        None \<Rightarrow> Inl Assertion
      | Some p \<Rightarrow> (case bernstein_hash buf p of
            Inl e \<Rightarrow> Inl e
          | Inr h \<Rightarrow> Inr (unat (h mod of_nat HASH_TABLE_CAPACITY))))"

text \<open>The loop of \<open>get_list_entry\<close>: the position of the first entry with the key.\<close>

fun find_entry :: "u8 list \<Rightarrow> nat \<Rightarrow> bucket \<Rightarrow> stop + nat option" where
  "find_entry buf k [] = Inr None"
| "find_entry buf k (e # es) =
     (case strcmp_equal buf (key e) k of
        Inl err \<Rightarrow> Inl err
      | Inr True \<Rightarrow> Inr (Some 0)
      | Inr False \<Rightarrow> map_sum id (map_option Suc) (find_entry buf k es))"

definition get_list_entry :: "u8 list \<Rightarrow> bucket \<Rightarrow> nat option \<Rightarrow> stop + nat option" where
  "get_list_entry buf list_head k =
     (case k of None \<Rightarrow> Inl Assertion | Some p \<Rightarrow> find_entry buf p list_head)"

section \<open>Parts that the variants share\<close>

record buckets = heap +
  entries :: "bucket list"

text \<open>The bucket of a key, and the position of the key in a bucket.\<close>

definition get_list_head :: "nat option \<Rightarrow> ('a buckets_scheme, nat) prog" where
  "get_list_head k = lift (\<lambda>s. bucket_index (data s) k)"

definition find_in :: "nat \<Rightarrow> nat option \<Rightarrow> ('a buckets_scheme, nat option) prog" where
  "find_in b k = lift (\<lambda>s. get_list_entry (data s) (entries s ! b) k)"

text \<open>\<open>list_entry->value = value;\<close>\<close>

definition set_value :: "nat \<Rightarrow> nat \<Rightarrow> u32 \<Rightarrow> ('a buckets_scheme, unit) prog" where
  "set_value b n v = upd (\<lambda>s. s\<lparr>entries := (entries s)[b := (entries s ! b)[n :=
     (entries s ! b ! n)\<lparr>val := v\<rparr>]]\<rparr>)"

text \<open>\<open>calloc\<close> an entry, whose result is not checked before it is used, and insert it at the head.\<close>

definition insert_new :: "nat \<Rightarrow> nat option \<Rightarrow> u32 \<Rightarrow> ('a buckets_scheme, unit) prog" where
  "insert_new b k v =
     bnd calloc (\<lambda>ok.
     seq (check Fault (\<lambda>_. ok))
         (upd (\<lambda>s. s\<lparr>entries := (entries s)[b := \<lparr>key = the k, val = v\<rparr> # entries s ! b]\<rparr>)))"

text \<open>\<open>while (!SLIST_EMPTY(list_head))\<close> take the first entry off the list and free it.\<close>

definition free_bucket :: "bucket \<Rightarrow> ('a heap_scheme, unit) prog" where
  "free_bucket list_head = for_each (\<lambda>_. free) list_head"

definition free_entries :: "nat \<Rightarrow> ('a buckets_scheme, unit) prog" where
  "free_entries i =
     bnd (gets (\<lambda>s. entries s ! i)) (\<lambda>list_head.
     seq (free_bucket list_head) (upd (\<lambda>s. s\<lparr>entries := (entries s)[i := []]\<rparr>)))"

section \<open>The functions of hash-table-base.c\<close>

type_synonym hash_table_base = buckets

text \<open>
  \<open>create\<close> sets up the state of a new table; the caller's pointer to it is the state.  The
  entries in the memory from \<open>calloc\<close> are zero, and the loop makes empty lists of them.
\<close>

definition hash_table_base_create :: "(hash_table_base, unit) prog" where
  "hash_table_base_create =
     bnd calloc (\<lambda>ok.
     seq (check Assertion (\<lambda>_. ok))
    (seq (upd (\<lambda>s. s\<lparr>entries := replicate HASH_TABLE_CAPACITY []\<rparr>))
         (for_each (\<lambda>i. upd (\<lambda>s. s\<lparr>entries := (entries s)[i := []]\<rparr>)) [0..<HASH_TABLE_CAPACITY])))"

definition hash_table_base_contains :: "nat option \<Rightarrow> (hash_table_base, bool) prog" where
  "hash_table_base_contains k =
     bnd (get_list_head k) (\<lambda>list_head.
     bnd (find_in list_head k) (\<lambda>list_entry.
     ret (list_entry \<noteq> None)))"

definition hash_table_base_add_entry :: "nat option \<Rightarrow> u32 \<Rightarrow> (hash_table_base, unit) prog" where
  "hash_table_base_add_entry k v =
     bnd (get_list_head k) (\<lambda>list_head.
     bnd (find_in list_head k) (\<lambda>list_entry.
     case list_entry of
       Some n \<Rightarrow> set_value list_head n v
     | None \<Rightarrow> insert_new list_head k v))"

definition hash_table_base_get_value :: "nat option \<Rightarrow> (hash_table_base, u32) prog" where
  "hash_table_base_get_value k =
     bnd (get_list_head k) (\<lambda>list_head.
     bnd (find_in list_head k) (\<lambda>list_entry.
     seq (check Assertion (\<lambda>_. list_entry \<noteq> None))
         (gets (\<lambda>s. val (entries s ! list_head ! the list_entry)))))"

definition hash_table_base_destroy :: "(hash_table_base, unit) prog" where
  "hash_table_base_destroy = seq (for_each free_entries [0..<HASH_TABLE_CAPACITY]) free"

section \<open>Buckets as a map\<close>

definition bucket_of :: "u8 list \<Rightarrow> nat" where
  "bucket_of s = unat (string_hash s mod of_nat HASH_TABLE_CAPACITY)"

definition entry_string :: "u8 list \<Rightarrow> list_entry \<Rightarrow> u8 list" where
  "entry_string buf e = the (cstring buf (key e))"

definition bucket_ok :: "u8 list \<Rightarrow> nat \<Rightarrow> bucket \<Rightarrow> bool" where
  "bucket_ok buf b es \<longleftrightarrow>
     (\<forall>e \<in> set es. cstring buf (key e) \<noteq> None \<and> bucket_of (entry_string buf e) = b) \<and>
     distinct (map (entry_string buf) es)"

definition buckets_ok :: "u8 list \<Rightarrow> bucket list \<Rightarrow> bool" where
  "buckets_ok buf bs \<longleftrightarrow> length bs = HASH_TABLE_CAPACITY \<and>
     (\<forall>b < HASH_TABLE_CAPACITY. bucket_ok buf b (bs ! b))"

definition bucket_map :: "u8 list \<Rightarrow> bucket \<Rightarrow> u8 list \<Rightarrow> u32 option" where
  "bucket_map buf es = map_of (map (\<lambda>e. (entry_string buf e, val e)) es)"

definition table_map :: "u8 list \<Rightarrow> bucket list \<Rightarrow> u8 list \<Rightarrow> u32 option" where
  "table_map buf bs s = bucket_map buf (bs ! bucket_of s) s"

lemma bucket_of_less [simp]: "bucket_of s < HASH_TABLE_CAPACITY"
proof -
  have "unat (string_hash s mod 4096) = unat (string_hash s) mod 4096"
    by (simp add: unat_mod_distrib)
  then show ?thesis by (simp add: bucket_of_def)
qed

lemma bucket_index_eq:
  "bucket_index buf (Some p) =
     (case cstring buf p of None \<Rightarrow> Inl Undefined | Some s \<Rightarrow> Inr (bucket_of s))"
  by (simp add: bucket_index_def bernstein_hash_eq bucket_of_def split: option.split)

lemma buckets_okD: "buckets_ok buf bs \<Longrightarrow> bucket_ok buf (bucket_of s) (bs ! bucket_of s)"
  by (simp add: buckets_ok_def)

lemma find_entry_eq:
  assumes "cstring buf p = Some s" and "\<forall>e \<in> set es. cstring buf (key e) \<noteq> None"
  shows "find_entry buf p es = Inr (first_index (\<lambda>e. entry_string buf e = s) es)"
  using assms(2)
proof (induction es)
  case (Cons e es)
  then obtain u where "cstring buf (key e) = Some u" by auto
  then show ?case using Cons assms(1) by (simp add: strcmp_equal_def entry_string_def)
qed simp

lemma get_list_entry_eq:
  assumes "cstring buf p = Some s" and "bucket_ok buf b es"
  shows "get_list_entry buf es (Some p) = Inr (first_index (\<lambda>e. entry_string buf e = s) es)"
  using assms by (simp add: get_list_entry_def find_entry_eq bucket_ok_def)

lemma bucket_map_first:
  "bucket_map buf es s = map_option (\<lambda>n. val (es ! n)) (first_index (\<lambda>e. entry_string buf e = s) es)"
  by (induction es) (auto simp: bucket_map_def option.map_comp comp_def)

lemma first_index_map: "first_index P (map f xs) = first_index (\<lambda>x. P (f x)) xs"
  by (induction xs) auto

text \<open>What an update and an insertion do to a bucket.\<close>

lemma bucket_update:
  assumes ok: "bucket_ok buf b es" and n: "first_index (\<lambda>e. entry_string buf e = s) es = Some n"
  shows "bucket_ok buf b (es[n := (es ! n)\<lparr>val := v\<rparr>])"
    and "bucket_map buf (es[n := (es ! n)\<lparr>val := v\<rparr>]) = (bucket_map buf es)(s \<mapsto> v)"
proof -
  let ?es = "es[n := (es ! n)\<lparr>val := v\<rparr>]"
  have n': "n < length es" "entry_string buf (es ! n) = s" "\<forall>j < n. entry_string buf (es ! j) \<noteq> s"
    using first_index_SomeD [OF n] by auto
  have strings: "map (entry_string buf) ?es = map (entry_string buf) es"
    by (rule nth_equalityI) (use n' in \<open>auto simp: nth_list_update entry_string_def\<close>)
  have keys: "map key ?es = map key es"
    by (rule nth_equalityI) (use n' in \<open>auto simp: nth_list_update\<close>)
  show "bucket_ok buf b ?es"
    unfolding bucket_ok_def
  proof (intro conjI ballI)
    fix e assume "e \<in> set ?es"
    then have "key e \<in> set (map key es)" unfolding keys [symmetric] by auto
    then obtain e' where "e' \<in> set es" "key e' = key e" by auto
    then show "cstring buf (key e) \<noteq> None" "bucket_of (entry_string buf e) = b"
      using ok by (auto simp: bucket_ok_def entry_string_def)
  next
    show "distinct (map (entry_string buf) ?es)" using ok unfolding strings by (simp add: bucket_ok_def)
  qed
  have first: "first_index (\<lambda>e. entry_string buf e = t) ?es =
      first_index (\<lambda>e. entry_string buf e = t) es" for t
    using arg_cong [OF strings, of "first_index (\<lambda>x. x = t)"] by (simp add: first_index_map)
  show "bucket_map buf ?es = (bucket_map buf es)(s \<mapsto> v)"
  proof
    fix t
    show "bucket_map buf ?es t = ((bucket_map buf es)(s \<mapsto> v)) t"
    proof (cases "t = s")
      case True
      then show ?thesis using n n'(1) by (simp add: bucket_map_first first)
    next
      case False
      have "m \<noteq> n" if "first_index (\<lambda>e. entry_string buf e = t) es = Some m" for m
        using first_index_SomeD [OF that] n'(2) False by auto
      then show ?thesis
        using False by (cases "first_index (\<lambda>e. entry_string buf e = t) es")
          (auto simp: bucket_map_first first)
    qed
  qed
qed

lemma bucket_insert:
  assumes ok: "bucket_ok buf b es" and s: "cstring buf p = Some s" "bucket_of s = b"
    and new: "first_index (\<lambda>e. entry_string buf e = s) es = None"
  shows "bucket_ok buf b (\<lparr>key = p, val = v\<rparr> # es)"
    and "bucket_map buf (\<lparr>key = p, val = v\<rparr> # es) = (bucket_map buf es)(s \<mapsto> v)"
  using assms by (auto simp: bucket_ok_def bucket_map_def entry_string_def first_index_None_iff)

lemma table_map_set:
  assumes ok: "buckets_ok buf bs" and b: "b = bucket_of s" and es: "bucket_ok buf b es"
    and m: "bucket_map buf es = (bucket_map buf (bs ! b))(s \<mapsto> v)"
  shows "buckets_ok buf (bs[b := es])" and "table_map buf (bs[b := es]) = (table_map buf bs)(s \<mapsto> v)"
proof -
  have "b < length bs" using ok b by (simp add: buckets_ok_def)
  then show "buckets_ok buf (bs[b := es])"
    using ok es by (auto simp: buckets_ok_def nth_list_update)
  show "table_map buf (bs[b := es]) = (table_map buf bs)(s \<mapsto> v)"
  proof
    fix t
    show "table_map buf (bs[b := es]) t = ((table_map buf bs)(s \<mapsto> v)) t"
      using m b \<open>b < length bs\<close>
      by (cases "bucket_of t = b") (auto simp: table_map_def)
  qed
qed

lemma buckets_empty: "buckets_ok buf (replicate HASH_TABLE_CAPACITY [])"
  "table_map buf (replicate HASH_TABLE_CAPACITY []) = Map.empty"
  by (auto simp: buckets_ok_def bucket_ok_def table_map_def bucket_map_def fun_eq_iff)

section \<open>The interface of a table\<close>

text \<open>
  \<open>abs s\<close> is the map in state \<open>s\<close>; \<open>ready s k\<close> says that a writer of string \<open>k\<close> need not wait;
  \<open>owned s\<close> is the number of allocations that belong to the table.
\<close>

locale string_map =
  fixes add :: "nat option \<Rightarrow> u32 \<Rightarrow> ('a heap_scheme, unit) prog"
    and contains :: "nat option \<Rightarrow> ('a heap_scheme, bool) prog"
    and get_value :: "nat option \<Rightarrow> ('a heap_scheme, u32) prog"
    and inv :: "'a heap_scheme \<Rightarrow> bool"
    and abs :: "'a heap_scheme \<Rightarrow> u8 list \<Rightarrow> u32 option"
    and ready :: "'a heap_scheme \<Rightarrow> u8 list \<Rightarrow> bool"
    and owned :: "'a heap_scheme \<Rightarrow> nat"
  assumes add_new:
      "inv s \<Longrightarrow> cstring (data s) p = Some k \<Longrightarrow> ready s k \<Longrightarrow> abs s k = None \<Longrightarrow> 0 < room s \<Longrightarrow>
       \<exists>s'. add (Some p) v s = Inr ((), s') \<and> inv s' \<and> abs s' = (abs s)(k \<mapsto> v) \<and>
         data s' = data s \<and> room s' = room s - 1 \<and> live s' = live s + 1 \<and>
         owned s' = owned s + 1 \<and> ready s' = ready s"
    and add_old:
      "inv s \<Longrightarrow> cstring (data s) p = Some k \<Longrightarrow> ready s k \<Longrightarrow> abs s k = Some u \<Longrightarrow>
       \<exists>s'. add (Some p) v s = Inr ((), s') \<and> inv s' \<and> abs s' = (abs s)(k \<mapsto> v) \<and>
         data s' = data s \<and> room s' = room s \<and> live s' = live s \<and> owned s' = owned s"
    and add_no_memory:
      "inv s \<Longrightarrow> cstring (data s) p = Some k \<Longrightarrow> ready s k \<Longrightarrow> abs s k = None \<Longrightarrow> room s = 0 \<Longrightarrow>
       add (Some p) v s = Inl Fault"
    and add_waits:
      "inv s \<Longrightarrow> cstring (data s) p = Some k \<Longrightarrow> \<not> ready s k \<Longrightarrow> add (Some p) v s = Inl Blocked"
    and contains_eq:
      "inv s \<Longrightarrow> cstring (data s) p = Some k \<Longrightarrow> contains (Some p) s = Inr (abs s k \<noteq> None, s)"
    and get_value_eq:
      "inv s \<Longrightarrow> cstring (data s) p = Some k \<Longrightarrow>
       get_value (Some p) s = (case abs s k of None \<Rightarrow> Inl Assertion | Some v \<Rightarrow> Inr (v, s))"
    and null_key: "contains None s = Inl Assertion" "get_value None s = Inl Assertion"
begin

text \<open>After an insertion that returned, the key is there with the value; others are unchanged.\<close>

lemma add_then_get:
  assumes "inv s" "cstring (data s) p = Some k" "add (Some p) v s = Inr ((), s')"
  shows "get_value (Some p) s' = Inr (v, s') \<and>
    (\<forall>q j. cstring (data s) q = Some j \<longrightarrow> j \<noteq> k \<longrightarrow>
       map_sum id fst (get_value (Some q) s') = map_sum id fst (get_value (Some q) s))"
proof -
  have ready: "ready s k" using add_waits [OF assms(1,2)] assms(3) by force
  have "\<exists>s'. add (Some p) v s = Inr ((), s') \<and> inv s' \<and> abs s' = (abs s)(k \<mapsto> v) \<and> data s' = data s"
  proof (cases "abs s k")
    case None
    then show ?thesis
      using add_new [OF assms(1,2) ready] add_no_memory [OF assms(1,2) ready] assms(3)
      by (cases "room s = 0") fastforce+
  next
    case (Some u)
    then show ?thesis using add_old [OF assms(1,2) ready] by blast
  qed
  then have s': "inv s'" "abs s' = (abs s)(k \<mapsto> v)" "data s' = data s" using assms(3) by auto
  then show ?thesis
    using assms(1,2) by (auto simp: get_value_eq split: option.split)
qed

text \<open>Filling a table with distinct new strings.\<close>

lemma add_all:
  assumes "inv s" "\<forall>p \<in> set ps. cstring (data s) p \<noteq> None \<and> ready s (the (cstring (data s) p)) \<and>
      abs s (the (cstring (data s) p)) = None"
    and "distinct (map (\<lambda>p. the (cstring (data s) p)) ps)" and "length ps \<le> room s"
  shows "\<exists>s'. for_each (\<lambda>p. add (Some p) (f p)) ps s = Inr ((), s') \<and> inv s' \<and> data s' = data s \<and>
    abs s' = abs s ++ map_of (map (\<lambda>p. (the (cstring (data s) p), f p)) ps) \<and>
    live s' = live s + length ps \<and> owned s' = owned s + length ps \<and> ready s' = ready s \<and>
    room s' = room s - length ps"
  using assms
proof (induction ps arbitrary: s)
  case Nil
  then show ?case by simp
next
  case (Cons p ps)
  let ?str = "\<lambda>p. the (cstring (data s) p)"
  from Cons.prems have "cstring (data s) p = Some (?str p)" "ready s (?str p)" "abs s (?str p) = None" "0 < room s"
    by auto
  from add_new [OF Cons.prems(1) this]
  obtain s1 where s1: "add (Some p) (f p) s = Inr ((), s1)" "inv s1"
      "abs s1 = (abs s)(?str p \<mapsto> f p)" "data s1 = data s" "room s1 = room s - 1"
      "live s1 = live s + 1" "owned s1 = owned s + 1" "ready s1 = ready s" by blast
  have ne: "?str q \<noteq> ?str p" if "q \<in> set ps" for q using Cons.prems(3) imageI [OF that, of ?str] by auto
  have "\<exists>s'. for_each (\<lambda>p. add (Some p) (f p)) ps s1 = Inr ((), s') \<and> inv s' \<and> data s' = data s1 \<and>
    abs s' = abs s1 ++ map_of (map (\<lambda>p. (the (cstring (data s1) p), f p)) ps) \<and>
    live s' = live s1 + length ps \<and> owned s' = owned s1 + length ps \<and> ready s' = ready s1 \<and>
    room s' = room s1 - length ps"
    using Cons.prems ne by (intro Cons.IH) (auto simp: s1)
  then obtain s' where s': "for_each (\<lambda>p. add (Some p) (f p)) ps s1 = Inr ((), s')" "inv s'"
      "data s' = data s" "abs s' = abs s1 ++ map_of (map (\<lambda>p. (?str p, f p)) ps)"
      "live s' = live s1 + length ps" "owned s' = owned s1 + length ps" "ready s' = ready s1"
      "room s' = room s1 - length ps"
    by (auto simp: s1(4))
  have "map_of (map (\<lambda>p. (?str p, f p)) ps) (?str p) = None"
    using ne by (force simp: map_of_eq_None_iff)
  then have "abs s' = abs s ++ map_of (map (\<lambda>p. (?str p, f p)) (p # ps))"
    unfolding s'(4) s1(3) by (auto simp: fun_eq_iff map_add_def split: option.split)
  moreover have "for_each (\<lambda>p. add (Some p) (f p)) (p # ps) s = Inr ((), s')"
    using s1(1) s'(1) by (simp add: seq_apply)
  ultimately show ?case
    using s1(5-8) s'(2,3,5-8) by (intro exI [of _ s'] conjI) (assumption | simp)+
qed

lemma add_all_contains:
  assumes "inv s" "for_each (\<lambda>p. add (Some p) (f p)) ps s = Inr ((), s')" "inv s'" "data s' = data s"
    "abs s' = abs s ++ map_of (map (\<lambda>p. (the (cstring (data s) p), f p)) ps)"
    "p \<in> set ps" "cstring (data s) p \<noteq> None"
  shows "contains (Some p) s' = Inr (True, s')"
proof -
  obtain k where k: "cstring (data s) p = Some k" using assms(7) by auto
  have "k \<in> fst ` set (map (\<lambda>p. (the (cstring (data s) p), f p)) ps)" using assms(6) k by force
  then have "abs s' k \<noteq> None"
    unfolding assms(5) by (force simp: map_add_def map_of_eq_None_iff split: option.split)
  then show ?thesis using contains_eq [OF assms(3), of p k] k assms(4) by simp
qed

end

text \<open>A table whose writers never wait takes any strings, repeated ones too.\<close>

locale open_map = string_map +
  assumes always_ready: "inv s \<Longrightarrow> ready s k"
begin

lemma add_any:
  assumes inv: "inv s" and p: "cstring (data s) p = Some k" and room: "0 < room s"
  shows "\<exists>s'. add (Some p) v s = Inr ((), s') \<and> inv s' \<and> data s' = data s \<and>
    abs s' = (abs s)(k \<mapsto> v) \<and> room s \<le> room s' + 1 \<and> live s' + owned s = live s + owned s' \<and>
    room s' + live s' = room s + live s"
proof (cases "abs s k")
  case None
  then show ?thesis using add_new [OF inv p always_ready [OF inv] None room, of v] room by auto
next
  case (Some u)
  then show ?thesis using add_old [OF inv p always_ready [OF inv] Some, of v] by auto
qed

lemma add_any_all:
  assumes "inv s" "\<forall>x \<in> set xs. cstring (data s) (fst x) \<noteq> None" "length xs \<le> room s"
  shows "\<exists>s'. for_each (\<lambda>x. add (Some (fst x)) (snd x)) xs s = Inr ((), s') \<and> inv s' \<and>
    data s' = data s \<and> live s' + owned s = live s + owned s' \<and> room s' + live s' = room s + live s \<and>
    (\<forall>k. abs s k \<noteq> None \<or> k \<in> (\<lambda>x. the (cstring (data s) (fst x))) ` set xs \<longrightarrow> abs s' k \<noteq> None)"
  using assms
proof (induction xs arbitrary: s)
  case Nil
  then show ?case by simp
next
  case (Cons x xs)
  then obtain k where k: "cstring (data s) (fst x) = Some k" by auto
  from add_any [OF Cons.prems(1) k, of "snd x"] Cons.prems(3)
  obtain s1 where s1: "add (Some (fst x)) (snd x) s = Inr ((), s1)" "inv s1" "data s1 = data s"
      "abs s1 = (abs s)(k \<mapsto> snd x)" "room s \<le> room s1 + 1" "live s1 + owned s = live s + owned s1"
      "room s1 + live s1 = room s + live s"
    by auto
  from Cons.IH [of s1] s1 Cons.prems(2,3)
  obtain s' where s': "for_each (\<lambda>x. add (Some (fst x)) (snd x)) xs s1 = Inr ((), s')" "inv s'"
      "data s' = data s" "live s' + owned s1 = live s1 + owned s'" "room s' + live s' = room s1 + live s1"
      "\<forall>j. abs s1 j \<noteq> None \<or> j \<in> (\<lambda>x. the (cstring (data s) (fst x))) ` set xs \<longrightarrow> abs s' j \<noteq> None"
    by auto
  have "for_each (\<lambda>x. add (Some (fst x)) (snd x)) (x # xs) s = Inr ((), s')"
    using s1(1) s'(1) by (simp add: seq_apply)
  moreover have "abs s' j \<noteq> None"
    if "abs s j \<noteq> None \<or> j \<in> (\<lambda>x. the (cstring (data s) (fst x))) ` set (x # xs)" for j
    using that s'(6) [rule_format, of j] k s1(4) by auto
  ultimately show ?case using s' s1(6,7) by (intro exI [of _ s']) auto
qed

end

text \<open>A table that can also be destroyed, when no lock is held; nothing of it stays allocated.\<close>

locale disposable_map = string_map +
  fixes destroy :: "('a heap_scheme, unit) prog"
  assumes destroy_ok:
    "inv s \<Longrightarrow> (\<forall>k. ready s k) \<Longrightarrow> owned s \<le> live s \<Longrightarrow>
      \<exists>s'. destroy s = Inr ((), s') \<and> data s' = data s \<and> live s' = live s - owned s \<and>
        room s' = room s + owned s"
begin

lemma fill_then_destroy:
  assumes "inv s" "\<forall>k. ready s k" "\<forall>p \<in> set ps. cstring (data s) p \<noteq> None"
    "abs s = Map.empty" "distinct (map (\<lambda>p. the (cstring (data s) p)) ps)" "length ps \<le> room s"
    "owned s \<le> live s"
  shows "\<exists>s'. seq (for_each (\<lambda>p. add (Some p) (f p)) ps) destroy s = Inr ((), s') \<and>
    data s' = data s \<and> live s' = live s - owned s \<and> room s' = room s + owned s"
proof -
  obtain s1 where s1: "for_each (\<lambda>p. add (Some p) (f p)) ps s = Inr ((), s1)" "inv s1"
      "live s1 = live s + length ps" "owned s1 = owned s + length ps" "ready s1 = ready s"
      "room s1 = room s - length ps" "data s1 = data s"
    using add_all [of s ps f] assms by auto
  then have "\<exists>s'. destroy s1 = Inr ((), s') \<and> data s' = data s1 \<and> live s' = live s1 - owned s1 \<and>
      room s' = room s1 + owned s1"
    using assms(2,7) by (intro destroy_ok) auto
  then show ?thesis using s1 assms(6) by (auto simp: seq_apply)
qed

end

section \<open>The base table is a map\<close>

definition buckets_inv :: "'a buckets_scheme \<Rightarrow> bool" where
  "buckets_inv s \<longleftrightarrow> buckets_ok (data s) (entries s)"

definition buckets_abs :: "'a buckets_scheme \<Rightarrow> u8 list \<Rightarrow> u32 option" where
  "buckets_abs s = table_map (data s) (entries s)"

text \<open>The table itself and its entries.\<close>

definition owned_by :: "bucket list \<Rightarrow> nat" where
  "owned_by bs = Suc (sum_list (map length bs))"

lemma owned_by_update:
  "b < length bs \<Longrightarrow> owned_by (bs[b := es]) + length (bs ! b) = owned_by bs + length es"
  using member_le_sum_list [of "length (bs ! b)" "map length bs"]
  by (auto simp: owned_by_def map_update sum_list_update)

text \<open>The steps of the operations, in terms of the map.\<close>

lemma get_list_head_eq:
  "cstring (data s) p = Some k \<Longrightarrow> get_list_head (Some p) s = Inr (bucket_of k, s)"
  by (simp add: get_list_head_def lift_apply bucket_index_eq)

lemma get_list_head_null: "get_list_head None s = Inl Assertion"
  by (simp add: get_list_head_def lift_apply bucket_index_def)

lemma find_in_eq:
  assumes "buckets_inv s" and "cstring (data s) p = Some k"
  shows "find_in (bucket_of k) (Some p) s =
    Inr (first_index (\<lambda>e. entry_string (data s) e = k) (entries s ! bucket_of k), s)"
  using get_list_entry_eq [OF assms(2) buckets_okD [of "data s" "entries s" k]] assms(1)
  by (simp add: find_in_def lift_apply buckets_inv_def)

lemma buckets_abs_first:
  "buckets_abs s k = map_option (\<lambda>n. val (entries s ! bucket_of k ! n))
     (first_index (\<lambda>e. entry_string (data s) e = k) (entries s ! bucket_of k))"
  by (simp add: buckets_abs_def table_map_def bucket_map_first)

lemma set_value_eq:
  assumes inv: "buckets_inv s"
    and n: "first_index (\<lambda>e. entry_string (data s) e = k) (entries s ! bucket_of k) = Some n"
  shows "\<exists>bs. set_value (bucket_of k) n v s = Inr ((), s\<lparr>entries := bs\<rparr>) \<and>
    buckets_ok (data s) bs \<and> table_map (data s) bs = (buckets_abs s)(k \<mapsto> v) \<and>
    owned_by bs = owned_by (entries s)"
proof -
  let ?b = "bucket_of k"
  let ?es = "(entries s ! ?b)[n := (entries s ! ?b ! n)\<lparr>val := v\<rparr>]"
  have ok: "buckets_ok (data s) (entries s)" using inv by (simp add: buckets_inv_def)
  note u = bucket_update [OF buckets_okD [OF ok] n, of v]
  have "owned_by ((entries s)[?b := ?es]) = owned_by (entries s)"
    using owned_by_update [of ?b "entries s" ?es] ok by (simp add: buckets_ok_def)
  then show ?thesis
    using table_map_set [OF ok refl u] by (auto simp: set_value_def buckets_abs_def)
qed

lemma insert_new_eq:
  assumes inv: "buckets_inv s" and p: "cstring (data s) p = Some k"
    and new: "first_index (\<lambda>e. entry_string (data s) e = k) (entries s ! bucket_of k) = None"
  shows "room s = 0 \<Longrightarrow> insert_new (bucket_of k) (Some p) v s = Inl Fault"
    and "0 < room s \<Longrightarrow> \<exists>bs. insert_new (bucket_of k) (Some p) v s =
      Inr ((), s\<lparr>room := room s - 1, live := live s + 1, entries := bs\<rparr>) \<and>
    buckets_ok (data s) bs \<and> table_map (data s) bs = (buckets_abs s)(k \<mapsto> v) \<and>
    owned_by bs = owned_by (entries s) + 1"
proof -
  show "room s = 0 \<Longrightarrow> insert_new (bucket_of k) (Some p) v s = Inl Fault"
    by (simp add: insert_new_def calloc_def prog_simps)
  assume room: "0 < room s"
  let ?b = "bucket_of k"
  let ?es = "\<lparr>key = p, val = v\<rparr> # entries s ! ?b"
  have ok: "buckets_ok (data s) (entries s)" using inv by (simp add: buckets_inv_def)
  note u = bucket_insert [OF buckets_okD [OF ok] p refl new, of v]
  have "owned_by ((entries s)[?b := ?es]) = owned_by (entries s) + 1"
    using owned_by_update [of ?b "entries s" ?es] ok by (simp add: buckets_ok_def)
  then show "\<exists>bs. insert_new ?b (Some p) v s =
      Inr ((), s\<lparr>room := room s - 1, live := live s + 1, entries := bs\<rparr>) \<and>
    buckets_ok (data s) bs \<and> table_map (data s) bs = (buckets_abs s)(k \<mapsto> v) \<and>
    owned_by bs = owned_by (entries s) + 1"
    using table_map_set [OF ok refl u] room
    by (auto simp: insert_new_def calloc_def prog_simps buckets_abs_def)
qed

text \<open>Freeing every entry of every bucket.\<close>

lemma free_bucket_eq:
  "length es \<le> live s \<Longrightarrow> free_bucket es s =
     Inr ((), s\<lparr>room := room s + length es, live := live s - length es\<rparr>)"
  by (induction es arbitrary: s) (simp_all add: free_bucket_def free_def seq_apply)

lemma free_entries_all:
  assumes "length (entries s) = HASH_TABLE_CAPACITY" and "owned_by (entries s) \<le> live s"
  shows "\<exists>s'. for_each free_entries [0..<HASH_TABLE_CAPACITY] s = Inr ((), s') \<and>
    live s' + owned_by (entries s) = live s + 1 \<and> room s' + 1 = room s + owned_by (entries s) \<and>
    data s' = data s \<and> buckets.more s' = buckets.more s \<and>
    entries s' = replicate HASH_TABLE_CAPACITY []"
proof -
  define I where "I = (\<lambda>i t. length (entries t) = HASH_TABLE_CAPACITY \<and>
    (\<forall>j < i. entries t ! j = []) \<and> (\<forall>j < HASH_TABLE_CAPACITY. i \<le> j \<longrightarrow> entries t ! j = entries s ! j) \<and>
    live t + owned_by (entries s) = live s + owned_by (entries t) \<and> owned_by (entries t) \<le> live t \<and>
    room t + owned_by (entries t) = room s + owned_by (entries s) \<and> data t = data s \<and>
    buckets.more t = buckets.more s)"
  have step: "triple (I i) (free_entries i) (\<lambda>_. I (Suc i)) (\<lambda>_. False)" if i: "i < HASH_TABLE_CAPACITY" for i
  proof (rule tripleI)
    fix t assume I: "I i t"
    have own: "owned_by ((entries t)[i := []]) + length (entries t ! i) = owned_by (entries t)"
      using owned_by_update [of i "entries t" "[]"] I i by (simp add: I_def)
    then have "length (entries t ! i) \<le> live t" using I by (simp add: I_def)
    then show "case free_entries i t of Inl e \<Rightarrow> False | Inr (x, t') \<Rightarrow> I (Suc i) t'"
      using I own i by (auto simp: free_entries_def prog_simps free_bucket_eq I_def nth_list_update less_Suc_eq)
  qed
  have "I 0 s" using assms by (simp add: I_def)
  with triple_for_upt [of HASH_TABLE_CAPACITY I free_entries "\<lambda>_. False", OF step]
  obtain s' where s': "for_each free_entries [0..<HASH_TABLE_CAPACITY] s = Inr ((), s')"
      "I HASH_TABLE_CAPACITY s'" by (rule triple_total) auto
  then have "entries s' = replicate HASH_TABLE_CAPACITY []"
    by (intro nth_equalityI) (auto simp: I_def)
  then show ?thesis using s' by (auto simp: I_def owned_by_def sum_list_replicate)
qed

interpretation base: disposable_map hash_table_base_add_entry hash_table_base_contains
    hash_table_base_get_value buckets_inv buckets_abs "\<lambda>_ _. True" "\<lambda>s. owned_by (entries s)"
    hash_table_base_destroy
proof
  fix s :: hash_table_base and p k and v :: u32
  assume inv: "buckets_inv s" and p: "cstring (data s) p = Some k"
  note head = get_list_head_eq [OF p] and find = find_in_eq [OF inv p]
  show "\<exists>s'. hash_table_base_add_entry (Some p) v s = Inr ((), s') \<and> buckets_inv s' \<and>
      buckets_abs s' = (buckets_abs s)(k \<mapsto> v) \<and> data s' = data s \<and> room s' = room s - 1 \<and>
      live s' = live s + 1 \<and> owned_by (entries s') = owned_by (entries s) + 1 \<and>
      (\<lambda>_. True) = (\<lambda>_. True)" if "buckets_abs s k = None" "0 < room s"
  proof -
    have new: "first_index (\<lambda>e. entry_string (data s) e = k) (entries s ! bucket_of k) = None"
      using that(1) by (simp add: buckets_abs_first)
    from insert_new_eq(2) [OF inv p new that(2), of v] show ?thesis
      by (auto simp: hash_table_base_add_entry_def bnd_apply head find new buckets_inv_def buckets_abs_def)
  qed
  show "hash_table_base_add_entry (Some p) v s = Inl Fault" if "buckets_abs s k = None" "room s = 0"
  proof -
    have new: "first_index (\<lambda>e. entry_string (data s) e = k) (entries s ! bucket_of k) = None"
      using that(1) by (simp add: buckets_abs_first)
    from insert_new_eq(1) [OF inv p new that(2), of v] show ?thesis
      by (simp add: hash_table_base_add_entry_def bnd_apply head find new)
  qed
  show "\<exists>s'. hash_table_base_add_entry (Some p) v s = Inr ((), s') \<and> buckets_inv s' \<and>
      buckets_abs s' = (buckets_abs s)(k \<mapsto> v) \<and> data s' = data s \<and> room s' = room s \<and>
      live s' = live s \<and> owned_by (entries s') = owned_by (entries s)" if old: "buckets_abs s k = Some u" for u
  proof -
    obtain n where n: "first_index (\<lambda>e. entry_string (data s) e = k) (entries s ! bucket_of k) = Some n"
      using old by (auto simp: buckets_abs_first)
    from set_value_eq [OF inv n, of v] show ?thesis
      by (auto simp: hash_table_base_add_entry_def bnd_apply head find n buckets_inv_def buckets_abs_def)
  qed
  show "hash_table_base_contains (Some p) s = Inr (buckets_abs s k \<noteq> None, s)"
    by (simp add: hash_table_base_contains_def bnd_apply head find buckets_abs_first)
  show "hash_table_base_get_value (Some p) s =
      (case buckets_abs s k of None \<Rightarrow> Inl Assertion | Some v \<Rightarrow> Inr (v, s))"
    by (auto simp: hash_table_base_get_value_def prog_simps head find buckets_abs_first
        split: option.split)
next
  fix s :: hash_table_base
  assume "buckets_inv s" "owned_by (entries s) \<le> live s"
  then show "\<exists>s'. hash_table_base_destroy s = Inr ((), s') \<and> data s' = data s \<and>
      live s' = live s - owned_by (entries s) \<and> room s' = room s + owned_by (entries s)"
    using free_entries_all [of s]
    by (auto simp: hash_table_base_destroy_def seq_apply free_def buckets_inv_def buckets_ok_def)
qed (simp_all add: hash_table_base_contains_def hash_table_base_get_value_def bnd_apply get_list_head_null)

interpretation base: open_map hash_table_base_add_entry hash_table_base_contains
    hash_table_base_get_value buckets_inv buckets_abs "\<lambda>_ _. True" "\<lambda>s. owned_by (entries s)"
  by unfold_locales simp

lemma for_each_clear:
  "for_each (\<lambda>i. upd (\<lambda>s. s\<lparr>entries := (entries s)[i := []]\<rparr>)) is
     (s\<lparr>entries := replicate n []\<rparr>) = Inr ((), s\<lparr>entries := replicate n []\<rparr>)"
proof -
  have "(replicate n [])[i := []] = replicate n ([] :: bucket)" for i
    using list_update_id [of "replicate n ([] :: bucket)" i] by (cases "i < n") (simp_all add: list_update_beyond)
  then show ?thesis by (intro for_each_skip) simp
qed

lemma init_entries:
  "seq (upd (\<lambda>s. s\<lparr>entries := replicate n []\<rparr>))
     (for_each (\<lambda>i. upd (\<lambda>s. s\<lparr>entries := (entries s)[i := []]\<rparr>)) is) s =
   Inr ((), s\<lparr>entries := replicate n []\<rparr>)"
  by (simp add: seq_apply for_each_clear)

lemma base_create:
  "hash_table_base_create s =
     (if room s = 0 then Inl Assertion
      else Inr ((), s\<lparr>room := room s - 1, live := live s + 1,
        entries := replicate HASH_TABLE_CAPACITY []\<rparr>))"
proof (cases "room s = 0")
  case True
  then show ?thesis by (simp add: hash_table_base_create_def calloc_def prog_simps)
next
  case False
  then have "calloc s = Inr (True, s\<lparr>room := room s - 1, live := live s + 1\<rparr>)"
    by (simp add: calloc_def)
  then show ?thesis
    unfolding hash_table_base_create_def using False
    by (simp only: bnd_apply seq_apply [of "check e p" for e p] check_apply init_entries
        sum.case prod.case if_True if_False)
qed

end
