(* ===== verification/Pht_Locked.thy ===== *)
theory Pht_Locked
  imports Pht_Table
begin

text \<open>
  The two tables with locks, called from one thread: one mutex for the whole table
  (\<open>pht/src/hash-table-v1.c\<close>) and one for each bucket (\<open>pht/src/hash-table-v2.c\<close>).

  A mutex is the flag whether it is locked; locking a locked one does not return (\<open>Blocked\<close>).
  Both \<open>add_entry\<close> functions return without unlocking when they update a key, so both tables
  satisfy \<open>string_map\<close> with a \<open>ready\<close> that an update ends, for the table or for the bucket.
\<close>

section \<open>The functions of hash-table-v1.c\<close>

record hash_table_v1 = buckets +
  mutex :: bool

text \<open>\<open>hash-table-v1.c\<close> has its own copies of the two lookups, with the text of the others.\<close>

abbreviation v1_get_hash_table_entry :: "nat option \<Rightarrow> (hash_table_v1, nat) prog" where
  "v1_get_hash_table_entry \<equiv> get_list_head"

abbreviation v1_get_list_entry :: "nat \<Rightarrow> nat option \<Rightarrow> (hash_table_v1, nat option) prog" where
  "v1_get_list_entry \<equiv> find_in"

definition mutex_lock :: "(hash_table_v1, unit) prog" where
  "mutex_lock = seq (check Blocked (\<lambda>s. \<not> mutex s)) (upd (\<lambda>s. s\<lparr>mutex := True\<rparr>))"

definition mutex_unlock :: "(hash_table_v1, unit) prog" where
  "mutex_unlock = upd (\<lambda>s. s\<lparr>mutex := False\<rparr>)"

text \<open>Destroying a locked mutex is undefined.\<close>

definition mutex_destroy :: "(hash_table_v1, unit) prog" where
  "mutex_destroy = check Undefined (\<lambda>s. \<not> mutex s)"

definition hash_table_v1_create :: "(hash_table_v1, unit) prog" where
  "hash_table_v1_create =
     bnd calloc (\<lambda>ok.
     seq (check Assertion (\<lambda>_. ok))
    (seq (seq (upd (\<lambda>s. s\<lparr>entries := replicate HASH_TABLE_CAPACITY []\<rparr>))
              (for_each (\<lambda>i. upd (\<lambda>s. s\<lparr>entries := (entries s)[i := []]\<rparr>)) [0..<HASH_TABLE_CAPACITY]))
         (upd (\<lambda>s. s\<lparr>mutex := False\<rparr>))))"

definition hash_table_v1_contains :: "nat option \<Rightarrow> (hash_table_v1, bool) prog" where
  "hash_table_v1_contains k =
     bnd (v1_get_hash_table_entry k) (\<lambda>hash_table_entry.
     bnd (v1_get_list_entry hash_table_entry k) (\<lambda>list_entry.
     ret (list_entry \<noteq> None)))"

definition hash_table_v1_add_entry :: "nat option \<Rightarrow> u32 \<Rightarrow> (hash_table_v1, unit) prog" where
  "hash_table_v1_add_entry k v =
     seq mutex_lock
    (bnd (v1_get_hash_table_entry k) (\<lambda>hash_table_entry.
     bnd (v1_get_list_entry hash_table_entry k) (\<lambda>list_entry.
     case list_entry of
       Some n \<Rightarrow> set_value hash_table_entry n v
     | None \<Rightarrow> seq (insert_new hash_table_entry k v) mutex_unlock)))"

definition hash_table_v1_get_value :: "nat option \<Rightarrow> (hash_table_v1, u32) prog" where
  "hash_table_v1_get_value k =
     bnd (v1_get_hash_table_entry k) (\<lambda>hash_table_entry.
     bnd (v1_get_list_entry hash_table_entry k) (\<lambda>list_entry.
     seq (check Assertion (\<lambda>_. list_entry \<noteq> None))
         (gets (\<lambda>s. val (entries s ! hash_table_entry ! the list_entry)))))"

definition hash_table_v1_destroy :: "(hash_table_v1, unit) prog" where
  "hash_table_v1_destroy =
     seq (for_each free_entries [0..<HASH_TABLE_CAPACITY]) (seq mutex_destroy free)"

section \<open>The functions of hash-table-v2.c\<close>

text \<open>\<open>write_mutexes s ! i\<close> is \<open>write_mutex\<close> of \<open>entries[i]\<close>, whose list is \<open>entries s ! i\<close>.\<close>

record hash_table_v2 = buckets +
  write_mutexes :: "bool list"

abbreviation v2_get_hash_table_entry :: "nat option \<Rightarrow> (hash_table_v2, nat) prog" where
  "v2_get_hash_table_entry \<equiv> get_list_head"

abbreviation v2_get_list_entry :: "nat \<Rightarrow> nat option \<Rightarrow> (hash_table_v2, nat option) prog" where
  "v2_get_list_entry \<equiv> find_in"

definition hash_table_v2_create :: "(hash_table_v2, unit) prog" where
  "hash_table_v2_create =
     bnd calloc (\<lambda>ok.
     seq (check Assertion (\<lambda>_. ok))
    (seq (upd (\<lambda>s. s\<lparr>entries := replicate HASH_TABLE_CAPACITY [],
                     write_mutexes := replicate HASH_TABLE_CAPACITY False\<rparr>))
         (for_each (\<lambda>i. upd (\<lambda>s. s\<lparr>entries := (entries s)[i := []],
                                    write_mutexes := (write_mutexes s)[i := False]\<rparr>))
            [0..<HASH_TABLE_CAPACITY])))"

definition set_start :: "nat \<Rightarrow> (hash_table_v2, unit) prog" where
  "set_start entry =
     seq (check Blocked (\<lambda>s. \<not> write_mutexes s ! entry))
         (upd (\<lambda>s. s\<lparr>write_mutexes := (write_mutexes s)[entry := True]\<rparr>))"

definition set_end :: "nat \<Rightarrow> (hash_table_v2, unit) prog" where
  "set_end entry = upd (\<lambda>s. s\<lparr>write_mutexes := (write_mutexes s)[entry := False]\<rparr>)"

definition hash_table_v2_contains :: "nat option \<Rightarrow> (hash_table_v2, bool) prog" where
  "hash_table_v2_contains k =
     bnd (v2_get_hash_table_entry k) (\<lambda>hash_table_entry.
     bnd (v2_get_list_entry hash_table_entry k) (\<lambda>list_entry.
     ret (list_entry \<noteq> None)))"

definition hash_table_v2_add_entry :: "nat option \<Rightarrow> u32 \<Rightarrow> (hash_table_v2, unit) prog" where
  "hash_table_v2_add_entry k v =
     bnd (v2_get_hash_table_entry k) (\<lambda>hash_table_entry.
     seq (set_start hash_table_entry)
    (bnd (v2_get_list_entry hash_table_entry k) (\<lambda>list_entry.
     case list_entry of
       Some n \<Rightarrow> set_value hash_table_entry n v
     | None \<Rightarrow> seq (insert_new hash_table_entry k v) (set_end hash_table_entry))))"

definition hash_table_v2_get_value :: "nat option \<Rightarrow> (hash_table_v2, u32) prog" where
  "hash_table_v2_get_value k =
     bnd (v2_get_hash_table_entry k) (\<lambda>hash_table_entry.
     bnd (v2_get_list_entry hash_table_entry k) (\<lambda>list_entry.
     seq (check Assertion (\<lambda>_. list_entry \<noteq> None))
         (gets (\<lambda>s. val (entries s ! hash_table_entry ! the list_entry)))))"

text \<open>
  \<open>free(entry->write_mtx_ptr)\<close> is given the address of \<open>write_mutex\<close>, which lies inside the
  allocation of the table: 16 bytes, two pointers, into the entry, each of 56 bytes.  Freeing
  anything but the start of an allocation is undefined.
\<close>

definition free_inside :: "nat \<Rightarrow> ('a heap_scheme, unit) prog" where
  "free_inside off = (if off = 0 then free else stop Undefined)"

definition hash_table_v2_destroy :: "(hash_table_v2, unit) prog" where
  "hash_table_v2_destroy =
     seq (for_each (\<lambda>i. seq (free_inside (56 * i + 16)) (free_entries i)) [0..<HASH_TABLE_CAPACITY])
         free"

section \<open>The first variant is a map\<close>

lemma data_update [simp]:
  "buckets_inv (mutex_update f s) = buckets_inv s" "buckets_abs (mutex_update f s) = buckets_abs s"
  "buckets_inv (write_mutexes_update g t) = buckets_inv t"
  "buckets_abs (write_mutexes_update g t) = buckets_abs t"
  by (simp_all add: buckets_inv_def buckets_abs_def)

text \<open>The two halves of an insertion, for any of the tables.\<close>

lemma add_step_new:
  assumes inv: "buckets_inv s" and p: "cstring (data s) p = Some k" and new: "buckets_abs s k = None"
  shows "find_in (bucket_of k) (Some p) s = Inr (None, s)"
    and "room s = 0 \<Longrightarrow> insert_new (bucket_of k) (Some p) v s = Inl Fault"
    and "0 < room s \<Longrightarrow> \<exists>bs. insert_new (bucket_of k) (Some p) v s =
      Inr ((), s\<lparr>room := room s - 1, live := live s + 1, entries := bs\<rparr>) \<and>
    buckets_ok (data s) bs \<and> table_map (data s) bs = (buckets_abs s)(k \<mapsto> v) \<and>
    owned_by bs = owned_by (entries s) + 1"
proof -
  have first: "first_index (\<lambda>e. entry_string (data s) e = k) (entries s ! bucket_of k) = None"
    using new by (simp add: buckets_abs_first)
  show "find_in (bucket_of k) (Some p) s = Inr (None, s)" using find_in_eq [OF inv p] first by simp
  show "room s = 0 \<Longrightarrow> insert_new (bucket_of k) (Some p) v s = Inl Fault"
    by (rule insert_new_eq(1) [OF inv p first])
  show "0 < room s \<Longrightarrow> \<exists>bs. insert_new (bucket_of k) (Some p) v s =
      Inr ((), s\<lparr>room := room s - 1, live := live s + 1, entries := bs\<rparr>) \<and>
    buckets_ok (data s) bs \<and> table_map (data s) bs = (buckets_abs s)(k \<mapsto> v) \<and>
    owned_by bs = owned_by (entries s) + 1"
    by (rule insert_new_eq(2) [OF inv p first])
qed

lemma add_step_old:
  assumes inv: "buckets_inv s" and p: "cstring (data s) p = Some k" and old: "buckets_abs s k = Some u"
  shows "\<exists>n bs. find_in (bucket_of k) (Some p) s = Inr (Some n, s) \<and>
    set_value (bucket_of k) n v s = Inr ((), s\<lparr>entries := bs\<rparr>) \<and>
    buckets_ok (data s) bs \<and> table_map (data s) bs = (buckets_abs s)(k \<mapsto> v) \<and>
    owned_by bs = owned_by (entries s)"
proof -
  obtain n where n: "first_index (\<lambda>e. entry_string (data s) e = k) (entries s ! bucket_of k) = Some n"
    using old by (auto simp: buckets_abs_first)
  then show ?thesis using find_in_eq [OF inv p] set_value_eq [OF inv n, of v] by auto
qed

lemma mutex_apply:
  "mutex_lock s = (if mutex s then Inl Blocked else Inr ((), s\<lparr>mutex := True\<rparr>))"
  "mutex_unlock s = Inr ((), s\<lparr>mutex := False\<rparr>)"
  by (simp_all add: mutex_lock_def mutex_unlock_def seq_apply)

interpretation v1: disposable_map hash_table_v1_add_entry hash_table_v1_contains
    hash_table_v1_get_value buckets_inv buckets_abs "\<lambda>s _. \<not> mutex s" "\<lambda>s. owned_by (entries s)"
    hash_table_v1_destroy
proof
  fix s :: hash_table_v1 and p k and v :: u32
  assume inv: "buckets_inv s" and p: "cstring (data s) p = Some k"
  let ?s = "s\<lparr>mutex := True\<rparr>"
  have inv': "buckets_inv ?s" and p': "cstring (data ?s) p = Some k" using inv p by simp_all
  note head = get_list_head_eq [OF p] get_list_head_eq [OF p']
  show "\<exists>s'. hash_table_v1_add_entry (Some p) v s = Inr ((), s') \<and> buckets_inv s' \<and>
      buckets_abs s' = (buckets_abs s)(k \<mapsto> v) \<and> data s' = data s \<and> room s' = room s - 1 \<and>
      live s' = live s + 1 \<and> owned_by (entries s') = owned_by (entries s) + 1 \<and>
      (\<lambda>_. \<not> mutex s') = (\<lambda>_. \<not> mutex s)"
    if r: "\<not> mutex s" and new: "buckets_abs s k = None" and room: "0 < room s"
  proof -
    have new': "buckets_abs ?s k = None" using new by simp
    show ?thesis
      using add_step_new(3) [OF inv' p' new', of v] r room
      by (auto simp: hash_table_v1_add_entry_def bnd_apply seq_apply mutex_apply head
          add_step_new(1) [OF inv' p' new'] buckets_inv_def buckets_abs_def)
  qed
  show "hash_table_v1_add_entry (Some p) v s = Inl Fault"
    if r: "\<not> mutex s" and new: "buckets_abs s k = None" and room: "room s = 0"
  proof -
    have new': "buckets_abs ?s k = None" using new by simp
    show ?thesis
      using add_step_new(2) [OF inv' p' new', of v] r room
      by (simp add: hash_table_v1_add_entry_def bnd_apply seq_apply mutex_apply head
          add_step_new(1) [OF inv' p' new'])
  qed
  show "\<exists>s'. hash_table_v1_add_entry (Some p) v s = Inr ((), s') \<and> buckets_inv s' \<and>
      buckets_abs s' = (buckets_abs s)(k \<mapsto> v) \<and> data s' = data s \<and> room s' = room s \<and>
      live s' = live s \<and> owned_by (entries s') = owned_by (entries s)"
    if r: "\<not> mutex s" and old: "buckets_abs s k = Some u" for u
  proof -
    have old': "buckets_abs ?s k = Some u" using old by simp
    show ?thesis
      using add_step_old [OF inv' p' old', of v] r
      by (auto simp: hash_table_v1_add_entry_def bnd_apply seq_apply mutex_apply head
          buckets_inv_def buckets_abs_def)
  qed
  show "hash_table_v1_add_entry (Some p) v s = Inl Blocked" if "\<not> \<not> mutex s"
    using that by (simp add: hash_table_v1_add_entry_def seq_apply mutex_apply)
  show "hash_table_v1_contains (Some p) s = Inr (buckets_abs s k \<noteq> None, s)"
    using find_in_eq [OF inv p]
    by (simp add: hash_table_v1_contains_def bnd_apply head buckets_abs_first)
  show "hash_table_v1_get_value (Some p) s =
      (case buckets_abs s k of None \<Rightarrow> Inl Assertion | Some v \<Rightarrow> Inr (v, s))"
    using find_in_eq [OF inv p]
    by (auto simp: hash_table_v1_get_value_def prog_simps head buckets_abs_first split: option.split)
next
  fix s :: hash_table_v1
  assume s: "buckets_inv s" "\<forall>k :: u8 list. \<not> mutex s" "owned_by (entries s) \<le> live s"
  then obtain s' where s': "for_each free_entries [0..<HASH_TABLE_CAPACITY] s = Inr ((), s')"
      "live s' + owned_by (entries s) = live s + 1" "room s' + 1 = room s + owned_by (entries s)"
      "data s' = data s" "buckets.more s' = buckets.more s"
    using free_entries_all [of s] by (auto simp: buckets_inv_def buckets_ok_def)
  from s'(5) have "mutex s' = mutex s"
    by (cases s; cases s') simp
  then show "\<exists>s'. hash_table_v1_destroy s = Inr ((), s') \<and> data s' = data s \<and>
      live s' = live s - owned_by (entries s) \<and> room s' = room s + owned_by (entries s)"
    using s s' by (auto simp: hash_table_v1_destroy_def seq_apply mutex_destroy_def free_def)
qed (simp_all add: hash_table_v1_contains_def hash_table_v1_get_value_def bnd_apply get_list_head_null)

text \<open>An update never unlocks: the next insertion, of any key, does not return.\<close>

lemma v1_update_keeps_lock:
  assumes inv: "buckets_inv s" and p: "cstring (data s) p = Some k" and old: "buckets_abs s k \<noteq> None"
    and r: "\<not> mutex s"
  shows "\<exists>s'. hash_table_v1_add_entry (Some p) v s = Inr ((), s') \<and> mutex s' \<and>
    (\<forall>q w. hash_table_v1_add_entry q w s' = Inl Blocked)"
proof -
  let ?s = "s\<lparr>mutex := True\<rparr>"
  have inv': "buckets_inv ?s" and p': "cstring (data ?s) p = Some k" using inv p by simp_all
  obtain u where "buckets_abs ?s k = Some u" using old by auto
  from add_step_old [OF inv' p' this, of v] show ?thesis
    using r by (auto simp: hash_table_v1_add_entry_def bnd_apply seq_apply mutex_apply
        get_list_head_eq [OF p'])
qed

section \<open>The second variant is a map\<close>

definition v2_inv :: "hash_table_v2 \<Rightarrow> bool" where
  "v2_inv s \<longleftrightarrow> buckets_inv s \<and> length (write_mutexes s) = HASH_TABLE_CAPACITY"

definition v2_ready :: "hash_table_v2 \<Rightarrow> u8 list \<Rightarrow> bool" where
  "v2_ready s k \<longleftrightarrow> \<not> write_mutexes s ! bucket_of k"

lemma set_apply:
  "set_start i s = (if write_mutexes s ! i then Inl Blocked
     else Inr ((), s\<lparr>write_mutexes := (write_mutexes s)[i := True]\<rparr>))"
  "set_end i s = Inr ((), s\<lparr>write_mutexes := (write_mutexes s)[i := False]\<rparr>)"
  by (simp_all add: set_start_def set_end_def seq_apply)

interpretation v2: string_map hash_table_v2_add_entry hash_table_v2_contains
    hash_table_v2_get_value v2_inv buckets_abs v2_ready "\<lambda>s. owned_by (entries s)"
proof
  fix s :: hash_table_v2 and p k and v :: u32
  assume "v2_inv s" and p: "cstring (data s) p = Some k"
  then have inv: "buckets_inv s" and len: "length (write_mutexes s) = HASH_TABLE_CAPACITY"
    by (simp_all add: v2_inv_def)
  let ?b = "bucket_of k"
  let ?s = "s\<lparr>write_mutexes := (write_mutexes s)[?b := True]\<rparr>"
  have inv': "buckets_inv ?s" and p': "cstring (data ?s) p = Some k" using inv p by simp_all
  note head = get_list_head_eq [OF p]
  have unlock: "(write_mutexes s)[?b := False] = write_mutexes s" if "v2_ready s k"
    using that list_update_id [of "write_mutexes s" ?b] by (simp add: v2_ready_def)
  show "\<exists>s'. hash_table_v2_add_entry (Some p) v s = Inr ((), s') \<and> v2_inv s' \<and>
      buckets_abs s' = (buckets_abs s)(k \<mapsto> v) \<and> data s' = data s \<and> room s' = room s - 1 \<and>
      live s' = live s + 1 \<and> owned_by (entries s') = owned_by (entries s) + 1 \<and>
      v2_ready s' = v2_ready s"
    if r: "v2_ready s k" and new: "buckets_abs s k = None" and room: "0 < room s"
  proof -
    have new': "buckets_abs ?s k = None" using new by simp
    have lock: "\<not> write_mutexes s ! ?b" using r by (simp add: v2_ready_def)
    show ?thesis
      using add_step_new(3) [OF inv' p' new', of v] room len unlock [OF r] lock
      by (auto simp: hash_table_v2_add_entry_def bnd_apply seq_apply set_apply head v2_ready_def [abs_def]
          add_step_new(1) [OF inv' p' new'] v2_inv_def buckets_inv_def buckets_abs_def)
  qed
  show "hash_table_v2_add_entry (Some p) v s = Inl Fault"
    if r: "v2_ready s k" and new: "buckets_abs s k = None" and room: "room s = 0"
  proof -
    have new': "buckets_abs ?s k = None" using new by simp
    show ?thesis
      using add_step_new(2) [OF inv' p' new', of v] r room
      by (simp add: hash_table_v2_add_entry_def bnd_apply seq_apply set_apply head v2_ready_def
          add_step_new(1) [OF inv' p' new'])
  qed
  show "\<exists>s'. hash_table_v2_add_entry (Some p) v s = Inr ((), s') \<and> v2_inv s' \<and>
      buckets_abs s' = (buckets_abs s)(k \<mapsto> v) \<and> data s' = data s \<and> room s' = room s \<and>
      live s' = live s \<and> owned_by (entries s') = owned_by (entries s)"
    if r: "v2_ready s k" and old: "buckets_abs s k = Some u" for u
  proof -
    have old': "buckets_abs ?s k = Some u" using old by simp
    show ?thesis
      using add_step_old [OF inv' p' old', of v] r len
      by (auto simp: hash_table_v2_add_entry_def bnd_apply seq_apply set_apply head v2_ready_def
          v2_inv_def buckets_inv_def buckets_abs_def)
  qed
  show "hash_table_v2_add_entry (Some p) v s = Inl Blocked" if "\<not> v2_ready s k"
    using that by (simp add: hash_table_v2_add_entry_def bnd_apply seq_apply set_apply head v2_ready_def)
  show "hash_table_v2_contains (Some p) s = Inr (buckets_abs s k \<noteq> None, s)"
    using find_in_eq [OF inv p]
    by (simp add: hash_table_v2_contains_def bnd_apply head buckets_abs_first)
  show "hash_table_v2_get_value (Some p) s =
      (case buckets_abs s k of None \<Rightarrow> Inl Assertion | Some v \<Rightarrow> Inr (v, s))"
    using find_in_eq [OF inv p]
    by (auto simp: hash_table_v2_get_value_def prog_simps head buckets_abs_first split: option.split)
qed (simp_all add: hash_table_v2_contains_def hash_table_v2_get_value_def bnd_apply get_list_head_null)

text \<open>An update keeps the bucket locked: the next insertion into it does not return.\<close>

lemma v2_update_keeps_lock:
  assumes inv: "v2_inv s" and p: "cstring (data s) p = Some k" and old: "buckets_abs s k \<noteq> None"
    and r: "v2_ready s k"
  shows "\<exists>s'. hash_table_v2_add_entry (Some p) v s = Inr ((), s') \<and>
    (\<forall>q j w. cstring (data s) q = Some j \<longrightarrow> bucket_of j = bucket_of k \<longrightarrow>
       hash_table_v2_add_entry (Some q) w s' = Inl Blocked) \<and>
    (\<forall>j. bucket_of j \<noteq> bucket_of k \<longrightarrow> v2_ready s' j = v2_ready s j)"
proof -
  let ?b = "bucket_of k"
  let ?s = "s\<lparr>write_mutexes := (write_mutexes s)[?b := True]\<rparr>"
  have inv': "buckets_inv ?s" and p': "cstring (data ?s) p = Some k" using inv p by (simp_all add: v2_inv_def)
  have len: "?b < length (write_mutexes s)" using inv by (simp add: v2_inv_def)
  obtain u where "buckets_abs ?s k = Some u" using old by auto
  from add_step_old [OF inv' p' this, of v] obtain n bs where
    n: "find_in ?b (Some p) ?s = Inr (Some n, ?s)" "set_value ?b n v ?s = Inr ((), ?s\<lparr>entries := bs\<rparr>)"
    by blast
  have add: "hash_table_v2_add_entry (Some p) v s = Inr ((), ?s\<lparr>entries := bs\<rparr>)"
    using r n get_list_head_eq [OF p]
    by (simp add: hash_table_v2_add_entry_def bnd_apply seq_apply set_apply v2_ready_def)
  have "hash_table_v2_add_entry (Some q) w (?s\<lparr>entries := bs\<rparr>) = Inl Blocked"
    if "cstring (data s) q = Some j" "bucket_of j = ?b" for q j w
    using get_list_head_eq [of "?s\<lparr>entries := bs\<rparr>" q j] that len
    by (simp add: hash_table_v2_add_entry_def bnd_apply seq_apply set_apply)
  then show ?thesis using add by (auto simp: v2_ready_def)
qed

text \<open>Destroying the second table is undefined, whatever it holds.\<close>

lemma v2_destroy_undefined: "hash_table_v2_destroy s = Inl Undefined"
proof -
  have "[0..<HASH_TABLE_CAPACITY] = 0 # [Suc 0..<HASH_TABLE_CAPACITY]" by (rule upt_conv_Cons) simp
  then show ?thesis
    by (simp add: hash_table_v2_destroy_def seq_apply free_inside_def)
qed

section \<open>New tables\<close>

lemma v1_create:
  assumes "room s \<noteq> 0"
  shows "hash_table_v1_create s = Inr ((), s\<lparr>room := room s - 1, live := live s + 1,
    entries := replicate HASH_TABLE_CAPACITY [], mutex := False\<rparr>)"
proof -
  have "calloc s = Inr (True, s\<lparr>room := room s - 1, live := live s + 1\<rparr>)"
    using assms by (simp add: calloc_def)
  then show ?thesis
    unfolding hash_table_v1_create_def
    by (simp only: bnd_apply seq_apply [of "check e p" for e p] check_apply init_entries if_True
        seq_apply [of "seq a b" for a b] upd_apply sum.case prod.case)
qed

lemma replicate_update: "(replicate n x)[i := x] = replicate n x"
  using list_update_id [of "replicate n x" i] by (cases "i < n") (simp_all add: list_update_beyond)

lemma v2_create:
  assumes "room s \<noteq> 0"
  shows "hash_table_v2_create s = Inr ((), s\<lparr>room := room s - 1, live := live s + 1,
    entries := replicate HASH_TABLE_CAPACITY [], write_mutexes := replicate HASH_TABLE_CAPACITY False\<rparr>)"
proof -
  have calloc: "calloc s = Inr (True, s\<lparr>room := room s - 1, live := live s + 1\<rparr>)"
    using assms by (simp add: calloc_def)
  have loop: "seq (upd (\<lambda>s. s\<lparr>entries := replicate n [], write_mutexes := replicate n False\<rparr>))
         (for_each (\<lambda>i. upd (\<lambda>s. s\<lparr>entries := (entries s)[i := []],
            write_mutexes := (write_mutexes s)[i := False]\<rparr>)) is) t =
      Inr ((), t\<lparr>entries := replicate n [], write_mutexes := replicate n False\<rparr>)" for n "is" and t :: hash_table_v2
    unfolding seq_apply upd_apply sum.case prod.case
    by (rule for_each_skip) (simp add: replicate_update)
  show ?thesis
    unfolding hash_table_v2_create_def
    by (simp only: bnd_apply calloc seq_apply [of "check e p" for e p] check_apply loop if_True
        sum.case prod.case)
qed

end
