(* ===== verification/Pht_Threads.thy ===== *)
theory Pht_Threads
  imports Pht_Locked
begin

text \<open>
  The insertions of several threads into one table (\<open>add_entry\<close> of the two variants with locks,
  as \<open>run_v1\<close> and \<open>run_v2\<close> of \<open>pht/src/pht-tester.c\<close> call it), interleaved step by step.

  A step is what one thread does between two points where others may run: taking the lock,
  searching the list, changing a value, linking a new entry in front of the list it read, making
  it the head, and unlocking.  \<open>lock_of\<close> is the mutex that guards a key: the only one of the first
  variant, that of the bucket in the second.  The theorems are proved once, in locale \<open>locking\<close>,
  whose law is that keys of one bucket have one mutex, and both variants are instances.
\<close>

section \<open>Steps of the threads\<close>

datatype pc =
    Start              \<comment> \<open>before \<open>add_entry\<close> takes the lock\<close>
  | Search             \<comment> \<open>locked, before \<open>get_list_entry\<close>\<close>
  | Update nat         \<comment> \<open>the key is at this position\<close>
  | Fresh              \<comment> \<open>the key is not in the list\<close>
  | Publish bucket     \<comment> \<open>the new entry is linked in front of this list\<close>
  | Unlock             \<comment> \<open>the new entry is the head\<close>
  | Crashed            \<comment> \<open>\<open>calloc\<close> returned \<open>NULL\<close>\<close>

text \<open>
  The shared table, who holds which mutex, where each thread is, and the keys and values that it
  still has to insert, the one it is at first.
\<close>

record conf =
  shared :: buckets
  holder :: "nat \<Rightarrow> nat option"
  pcs :: "nat \<Rightarrow> pc"
  todo :: "nat \<Rightarrow> (nat \<times> u32) list"

definition at_key :: "conf \<Rightarrow> nat \<Rightarrow> nat \<Rightarrow> u8 list \<Rightarrow> u32 \<Rightarrow> (nat \<times> u32) list \<Rightarrow> bool" where
  "at_key c t p k v rest \<longleftrightarrow> todo c t = (p, v) # rest \<and> cstring (data (shared c)) p = Some k"

definition go :: "nat \<Rightarrow> pc \<Rightarrow> conf \<Rightarrow> conf" where
  "go t pc c = c\<lparr>pcs := (pcs c)(t := pc)\<rparr>"

definition next_key :: "nat \<Rightarrow> conf \<Rightarrow> conf" where
  "next_key t c = c\<lparr>pcs := (pcs c)(t := Start), todo := (todo c)(t := tl (todo c t))\<rparr>"

definition set_entries :: "nat \<Rightarrow> bucket \<Rightarrow> conf \<Rightarrow> conf" where
  "set_entries b es c = c\<lparr>shared := (shared c)\<lparr>entries := (entries (shared c))[b := es]\<rparr>\<rparr>"

inductive add_step :: "(u8 list \<Rightarrow> nat) \<Rightarrow> nat \<Rightarrow> conf \<Rightarrow> conf \<Rightarrow> bool" for lock_of where
  lock: "at_key c t p k v rest \<Longrightarrow> pcs c t = Start \<Longrightarrow> holder c (lock_of k) = None \<Longrightarrow>
    add_step lock_of t c (go t Search (c\<lparr>holder := (holder c)(lock_of k \<mapsto> t)\<rparr>))"
| found: "at_key c t p k v rest \<Longrightarrow> pcs c t = Search \<Longrightarrow>
    find_in (bucket_of k) (Some p) (shared c) = Inr (Some n, shared c) \<Longrightarrow>
    add_step lock_of t c (go t (Update n) c)"
| not_found: "at_key c t p k v rest \<Longrightarrow> pcs c t = Search \<Longrightarrow>
    find_in (bucket_of k) (Some p) (shared c) = Inr (None, shared c) \<Longrightarrow>
    add_step lock_of t c (go t Fresh c)"
| update: "at_key c t p k v rest \<Longrightarrow> pcs c t = Update n \<Longrightarrow>
    es = entries (shared c) ! bucket_of k \<Longrightarrow>
    add_step lock_of t c (next_key t (set_entries (bucket_of k) (es[n := (es ! n)\<lparr>val := v\<rparr>]) c))"
| link: "at_key c t p k v rest \<Longrightarrow> pcs c t = Fresh \<Longrightarrow> 0 < room (shared c) \<Longrightarrow>
    add_step lock_of t c (go t (Publish (entries (shared c) ! bucket_of k))
      (c\<lparr>shared := (shared c)\<lparr>room := room (shared c) - 1, live := live (shared c) + 1\<rparr>\<rparr>))"
| crash: "at_key c t p k v rest \<Longrightarrow> pcs c t = Fresh \<Longrightarrow> room (shared c) = 0 \<Longrightarrow>
    add_step lock_of t c (go t Crashed c)"
| publish: "at_key c t p k v rest \<Longrightarrow> pcs c t = Publish es \<Longrightarrow>
    add_step lock_of t c (go t Unlock (set_entries (bucket_of k) (\<lparr>key = p, val = v\<rparr> # es) c))"
| unlock: "at_key c t p k v rest \<Longrightarrow> pcs c t = Unlock \<Longrightarrow>
    add_step lock_of t c (next_key t (c\<lparr>holder := (holder c)(lock_of k := None)\<rparr>))"

text \<open>The runs of \<open>n\<close> threads.\<close>

inductive run :: "(u8 list \<Rightarrow> nat) \<Rightarrow> nat \<Rightarrow> conf \<Rightarrow> conf \<Rightarrow> bool" for lock_of n where
  nothing: "run lock_of n c c"
| further: "run lock_of n c c' \<Longrightarrow> t < n \<Longrightarrow> add_step lock_of t c' c'' \<Longrightarrow> run lock_of n c c''"

text \<open>The same, with the number of steps counted.\<close>

inductive run_steps :: "(u8 list \<Rightarrow> nat) \<Rightarrow> nat \<Rightarrow> nat \<Rightarrow> conf \<Rightarrow> conf \<Rightarrow> bool" for lock_of n where
  no_step: "run_steps lock_of n 0 c c"
| one_step: "run_steps lock_of n m c c' \<Longrightarrow> t < n \<Longrightarrow> add_step lock_of t c' c'' \<Longrightarrow>
    run_steps lock_of n (Suc m) c c''"

lemma run_steps_run: "run_steps lock_of n m c c' \<Longrightarrow> run lock_of n c c'"
  by (induction rule: run_steps.induct) (blast intro: run.intros)+

lemma run_run_steps: "run lock_of n c c' \<Longrightarrow> \<exists>m. run_steps lock_of n m c c'"
  by (induction rule: run.induct) (blast intro: run_steps.intros)+

definition all_done :: "nat \<Rightarrow> conf \<Rightarrow> bool" where
  "all_done n c \<longleftrightarrow> (\<forall>t < n. todo c t = [])"

definition stuck :: "(u8 list \<Rightarrow> nat) \<Rightarrow> nat \<Rightarrow> conf \<Rightarrow> bool" where
  "stuck lock_of n c \<longleftrightarrow> \<not> all_done n c \<and> (\<forall>t < n. \<forall>c'. \<not> add_step lock_of t c c')"

definition started :: "buckets \<Rightarrow> (nat \<Rightarrow> (nat \<times> u32) list) \<Rightarrow> conf" where
  "started s work = \<lparr>shared = s, holder = (\<lambda>_. None), pcs = (\<lambda>_. Start), todo = work\<rparr>"

lemma conf_simps [simp]:
  "shared (go t pc c) = shared c" "holder (go t pc c) = holder c" "todo (go t pc c) = todo c"
  "pcs (go t pc c) = (pcs c)(t := pc)"
  "shared (next_key t c) = shared c" "holder (next_key t c) = holder c"
  "todo (next_key t c) = (todo c)(t := tl (todo c t))" "pcs (next_key t c) = (pcs c)(t := Start)"
  "holder (set_entries b es c) = holder c" "todo (set_entries b es c) = todo c"
  "pcs (set_entries b es c) = pcs c"
  "shared (set_entries b es c) = (shared c)\<lparr>entries := (entries (shared c))[b := es]\<rparr>"
  by (simp_all add: go_def next_key_def set_entries_def)

section \<open>The invariant\<close>

abbreviation table :: "conf \<Rightarrow> u8 list \<Rightarrow> u32 option" where
  "table c \<equiv> buckets_abs (shared c)"

text \<open>What a thread that holds the lock of its key knows about the bucket.\<close>

definition knows :: "conf \<Rightarrow> u8 list \<Rightarrow> pc \<Rightarrow> bool" where
  "knows c k pc \<longleftrightarrow> (case pc of
      Start \<Rightarrow> True | Search \<Rightarrow> True | Crashed \<Rightarrow> True
    | Update n \<Rightarrow> first_index (\<lambda>e. entry_string (data (shared c)) e = k) (entries (shared c) ! bucket_of k) = Some n
    | Fresh \<Rightarrow> table c k = None
    | Publish es \<Rightarrow> table c k = None \<and> es = entries (shared c) ! bucket_of k
    | Unlock \<Rightarrow> table c k \<noteq> None)"

definition strings_ok :: "u8 list \<Rightarrow> (nat \<times> u32) list \<Rightarrow> bool" where
  "strings_ok buf w \<longleftrightarrow> (\<forall>(p, v) \<in> set w. cstring buf p \<noteq> None)"

text \<open>
  \<open>work\<close> is what the threads had to insert at the start: what a thread no longer has to do is in
  the table, and a thread past \<open>Start\<close> holds the lock of its key.
\<close>

definition threads_inv :: "(u8 list \<Rightarrow> nat) \<Rightarrow> (nat \<Rightarrow> (nat \<times> u32) list) \<Rightarrow> conf \<Rightarrow> bool" where
  "threads_inv lock_of work c \<longleftrightarrow> buckets_inv (shared c) \<and>
     (\<forall>t. strings_ok (data (shared c)) (work t)) \<and>
     (\<forall>t. \<exists>did. work t = did @ todo c t \<and>
        (\<forall>(p, v) \<in> set did. table c (the (cstring (data (shared c)) p)) \<noteq> None)) \<and>
     (\<forall>t. pcs c t \<noteq> Start \<longrightarrow> (\<exists>p k v rest. at_key c t p k v rest \<and>
        holder c (lock_of k) = Some t \<and> knows c k (pcs c t)))"

lemma publish_table:
  assumes "buckets_inv s" "cstring (data s) p = Some k" "buckets_abs s k = None"
  defines "s' v \<equiv> s\<lparr>entries := (entries s)[bucket_of k := \<lparr>key = p, val = v\<rparr> # entries s ! bucket_of k]\<rparr>"
  shows "buckets_inv (s' v)" and "buckets_abs (s' v) = (buckets_abs s)(k \<mapsto> v)"
proof -
  have ok: "buckets_ok (data s) (entries s)" using assms(1) by (simp add: buckets_inv_def)
  have "first_index (\<lambda>e. entry_string (data s) e = k) (entries s ! bucket_of k) = None"
    using assms(3) by (simp add: buckets_abs_first)
  note b = bucket_insert [OF buckets_okD [OF ok] assms(2) refl this, of v]
  show "buckets_inv (s' v)" "buckets_abs (s' v) = (buckets_abs s)(k \<mapsto> v)"
    using table_map_set [OF ok refl b] by (simp_all add: s'_def buckets_inv_def buckets_abs_def)
qed

lemma update_table:
  assumes "buckets_inv s"
    and "first_index (\<lambda>e. entry_string (data s) e = k) (entries s ! bucket_of k) = Some n"
  defines "s' v \<equiv> s\<lparr>entries := (entries s)[bucket_of k :=
    (entries s ! bucket_of k)[n := (entries s ! bucket_of k ! n)\<lparr>val := v\<rparr>]]\<rparr>"
  shows "buckets_inv (s' v)" and "buckets_abs (s' v) = (buckets_abs s)(k \<mapsto> v)"
proof -
  have ok: "buckets_ok (data s) (entries s)" using assms(1) by (simp add: buckets_inv_def)
  note b = bucket_update [OF buckets_okD [OF ok] assms(2), of v]
  show "buckets_inv (s' v)" "buckets_abs (s' v) = (buckets_abs s)(k \<mapsto> v)"
    using table_map_set [OF ok refl b] by (simp_all add: s'_def buckets_inv_def buckets_abs_def)
qed

lemma knows_cong:
  "data (shared c') = data (shared c) \<Longrightarrow>
   entries (shared c') ! bucket_of k = entries (shared c) ! bucket_of k \<Longrightarrow>
   knows c' k pc = knows c k pc"
  by (simp add: knows_def buckets_abs_first split: pc.split)

lemma threads_invD:
  assumes "threads_inv lock_of work c"
  shows "buckets_inv (shared c)" "strings_ok (data (shared c)) (work t)"
    and "pcs c t \<noteq> Start \<Longrightarrow> at_key c t p k v rest \<Longrightarrow> holder c (lock_of k) = Some t \<and> knows c k (pcs c t)"
    and "\<exists>did. work t = did @ todo c t \<and>
        (\<forall>(p, v) \<in> set did. table c (the (cstring (data (shared c)) p)) \<noteq> None)"
  using assms by (fastforce simp: threads_inv_def at_key_def)+

locale locking =
  fixes lock_of :: "u8 list \<Rightarrow> nat"
  assumes same_bucket: "bucket_of k = bucket_of k' \<Longrightarrow> lock_of k = lock_of k'"
begin

text \<open>A thread is at work on a bucket only while no other thread is.\<close>

lemma exclusive:
  assumes "threads_inv lock_of work c" "pcs c t \<noteq> Start" "pcs c u \<noteq> Start"
    and "at_key c t p k v rest" "at_key c u p' k' v' rest'" and "bucket_of k = bucket_of k'"
  shows "t = u"
  using threads_invD(3) [OF assms(1,2,4)] threads_invD(3) [OF assms(1,3,5)] same_bucket [OF assms(6)]
  by simp

text \<open>What is to be shown of a step of thread \<open>t\<close>.\<close>

lemma threads_inv_step:
  assumes inv: "threads_inv lock_of work c" and key: "at_key c t p k v rest"
    and data: "data (shared c') = data (shared c)" and buckets: "buckets_inv (shared c')"
    and grows: "\<And>j. table c j \<noteq> None \<Longrightarrow> table c' j \<noteq> None"
    and others: "\<And>u. u \<noteq> t \<Longrightarrow> pcs c' u = pcs c u \<and> todo c' u = todo c u"
    and theirs: "\<And>u p' k' v' rest'. u \<noteq> t \<Longrightarrow> pcs c u \<noteq> Start \<Longrightarrow> at_key c u p' k' v' rest' \<Longrightarrow>
      holder c (lock_of k') = Some u \<Longrightarrow>
      holder c' (lock_of k') = Some u \<and> entries (shared c') ! bucket_of k' = entries (shared c) ! bucket_of k'"
    and own: "todo c' t = todo c t \<and> holder c' (lock_of k) = Some t \<and> knows c' k (pcs c' t) \<or>
      todo c' t = rest \<and> pcs c' t = Start \<and> table c' k \<noteq> None"
  shows "threads_inv lock_of work c'"
  unfolding threads_inv_def
proof (intro conjI allI impI)
  show "buckets_inv (shared c')" by (fact buckets)
  show "strings_ok (data (shared c')) (work u)" for u
    using threads_invD(2) [OF inv] by (simp add: data)
next
  fix u
  obtain did where d: "work u = did @ todo c u"
      "\<forall>(p, v) \<in> set did. table c (the (cstring (data (shared c)) p)) \<noteq> None"
    using threads_invD(4) [OF inv] by blast
  have old: "\<forall>(p, v) \<in> set did. table c' (the (cstring (data (shared c')) p)) \<noteq> None"
    using d(2) grows by (fastforce simp: data)
  have "todo c' u = todo c u \<or> u = t \<and> todo c u = (p, v) # todo c' u \<and> table c' k \<noteq> None"
    using others [of u] own key by (cases "u = t") (auto simp: at_key_def)
  then show "\<exists>did. work u = did @ todo c' u \<and>
      (\<forall>(p, v) \<in> set did. table c' (the (cstring (data (shared c')) p)) \<noteq> None)"
  proof
    assume "todo c' u = todo c u"
    then show ?thesis using d(1) old by auto
  next
    assume new: "u = t \<and> todo c u = (p, v) # todo c' u \<and> table c' k \<noteq> None"
    have "the (cstring (data (shared c')) p) = k" using key by (simp add: at_key_def data)
    then show ?thesis using d(1) old new by (intro exI [of _ "did @ [(p, v)]"]) auto
  qed
next
  fix u assume pc: "pcs c' u \<noteq> Start"
  show "\<exists>p k v rest. at_key c' u p k v rest \<and> holder c' (lock_of k) = Some u \<and> knows c' k (pcs c' u)"
  proof (cases "u = t")
    case True
    then show ?thesis using own pc key data by (auto simp: at_key_def)
  next
    case False
    then have pc': "pcs c u \<noteq> Start" using others pc by simp
    then obtain p' k' v' rest' where k: "at_key c u p' k' v' rest'" using inv by (auto simp: threads_inv_def)
    note h = threads_invD(3) [OF inv pc' k]
    have t: "holder c' (lock_of k') = Some u" "entries (shared c') ! bucket_of k' = entries (shared c) ! bucket_of k'"
      using theirs [OF False pc' k] h by auto
    have "knows c' k' (pcs c' u)"
      using h knows_cong [OF data t(2)] others [OF False] by simp
    moreover have "at_key c' u p' k' v' rest'" using k others [OF False] by (simp add: at_key_def data)
    ultimately show ?thesis using t(1) by blast
  qed
qed

text \<open>A thread in the middle of an insertion works on a bucket of its own.\<close>

lemma other_bucket:
  "threads_inv lock_of work c \<Longrightarrow> pcs c t \<noteq> Start \<Longrightarrow> at_key c t p k v rest \<Longrightarrow>
   u \<noteq> t \<Longrightarrow> pcs c u \<noteq> Start \<Longrightarrow> at_key c u p' k' v' rest' \<Longrightarrow> bucket_of k' \<noteq> bucket_of k"
  using exclusive by metis

text \<open>What is to be shown of a step of thread \<open>t\<close> that changes no bucket but its own.\<close>

lemma threads_inv_bucket:
  assumes inv: "threads_inv lock_of work c" and key: "at_key c t p k v rest" and pc: "pcs c t \<noteq> Start"
    and kept: "data (shared c') = data (shared c)" "buckets_inv (shared c')" "\<And>j. table c j \<noteq> None \<Longrightarrow> table c' j \<noteq> None"
      "\<And>u. u \<noteq> t \<Longrightarrow> pcs c' u = pcs c u \<and> todo c' u = todo c u"
      "\<And>l u. u \<noteq> t \<Longrightarrow> holder c l = Some u \<Longrightarrow> holder c' l = Some u"
      "\<And>b. b \<noteq> bucket_of k \<Longrightarrow> entries (shared c') ! b = entries (shared c) ! b"
    and own: "todo c' t = todo c t \<and> holder c' (lock_of k) = Some t \<and> knows c' k (pcs c' t) \<or>
      todo c' t = rest \<and> pcs c' t = Start \<and> table c' k \<noteq> None"
  shows "threads_inv lock_of work c'"
  by (rule threads_inv_step [OF inv key kept(1-4) _ own]) (use other_bucket [OF inv pc key] kept(5,6) in auto)

lemma inv_preserved:
  assumes step: "add_step lock_of t c c'" and inv: "threads_inv lock_of work c"
  shows "threads_inv lock_of work c'"
proof -
  note I = threads_invD(1) [OF inv] and H = threads_invD(3) [OF inv]
  show ?thesis
    using step
  proof cases
    case (lock p k v rest)
    then show ?thesis using I by (intro threads_inv_step [OF inv lock(2)]) (auto simp: knows_def)
  next
    case (found p k v rest n)
    then show ?thesis
      using I H [OF _ found(2)] find_in_eq [of "shared c" p k]
      by (intro threads_inv_step [OF inv found(2)]) (auto simp: knows_def at_key_def)
  next
    case (not_found p k v rest)
    then show ?thesis
      using I H [OF _ not_found(2)] find_in_eq [of "shared c" p k]
      by (intro threads_inv_step [OF inv not_found(2)]) (auto simp: knows_def buckets_abs_first at_key_def)
  next
    case (update p k v rest n es)
    have "knows c k (Update n)" using H [OF _ update(2)] update(3) by simp
    then have "first_index (\<lambda>e. entry_string (data (shared c)) e = k) (entries (shared c) ! bucket_of k) = Some n"
      by (simp add: knows_def)
    note u = update_table [OF I this, of v]
    show ?thesis
      by (rule threads_inv_bucket [OF inv update(2)]) (use u update in \<open>auto simp: at_key_def\<close>)
  next
    case (link p k v rest)
    then show ?thesis
      using I H [OF _ link(2)]
      by (intro threads_inv_step [OF inv link(2)]) (auto simp: knows_def buckets_inv_def buckets_abs_def)
  next
    case (crash p k v rest)
    then show ?thesis
      using I H [OF _ crash(2)] by (intro threads_inv_step [OF inv crash(2)]) (auto simp: knows_def)
  next
    case (publish p k v rest es)
    have h: "holder c (lock_of k) = Some t" "knows c k (Publish es)" using H [OF _ publish(2)] publish(3) by simp_all
    have k: "cstring (data (shared c)) p = Some k" using publish(2) by (simp add: at_key_def)
    have "table c k = None" "es = entries (shared c) ! bucket_of k" using h(2) by (simp_all add: knows_def)
    note u = publish_table [OF I k this(1), of v, folded this(2)]
    show ?thesis by (rule threads_inv_bucket [OF inv publish(2)]) (use u publish h(1) in \<open>auto simp: knows_def\<close>)
  next
    case (unlock p k v rest)
    have h: "holder c (lock_of k) = Some t" "knows c k Unlock" using H [OF _ unlock(2)] unlock(3) by simp_all
    then have "lock_of k' \<noteq> lock_of k" if "u \<noteq> t" "holder c (lock_of k') = Some u" for u k' using that by auto
    then show ?thesis
      using I unlock h by (intro threads_inv_step [OF inv unlock(2)]) (auto simp: knows_def at_key_def)
  qed
qed

lemma inv_run: "run lock_of n c c' \<Longrightarrow> threads_inv lock_of work c \<Longrightarrow> threads_inv lock_of work c'"
  by (induction rule: run.induct) (auto intro: inv_preserved)

lemma inv_started:
  "buckets_inv s \<Longrightarrow> \<forall>t. strings_ok (data s) (work t) \<Longrightarrow> threads_inv lock_of work (started s work)"
  by (auto simp: threads_inv_def started_def)

text \<open>When all threads are done, everything they inserted is in the table.\<close>

lemma nothing_lost:
  assumes "buckets_inv s" "\<forall>t. strings_ok (data s) (work t)"
    and run: "run lock_of n (started s work) c" and fin: "all_done n c" and t: "t < n" "(p, v) \<in> set (work t)"
  shows "table c (the (cstring (data (shared c)) p)) \<noteq> None"
proof -
  have inv: "threads_inv lock_of work c"
    using run inv_started [OF assms(1,2)] by (rule inv_run)
  obtain did where "work t = did @ todo c t"
      "\<forall>(p, v) \<in> set did. table c (the (cstring (data (shared c)) p)) \<noteq> None"
    using threads_invD(4) [OF inv] by blast
  then show ?thesis using fin t by (auto simp: all_done_def)
qed

end

section \<open>Threads with distinct keys finish\<close>

text \<open>No two of the keys that remain are the same string.\<close>

definition distinct_keys :: "u8 list \<Rightarrow> nat \<Rightarrow> (nat \<Rightarrow> (nat \<times> u32) list) \<Rightarrow> bool" where
  "distinct_keys buf n w \<longleftrightarrow> (\<forall>t < n. \<forall>u < n. \<forall>i < length (w t). \<forall>j < length (w u).
     cstring buf (fst (w t ! i)) = cstring buf (fst (w u ! j)) \<longrightarrow> t = u \<and> i = j)"

lemma distinct_keys_tl:
  assumes "distinct_keys buf n w"
  shows "distinct_keys buf n (w(t := tl (w t)))"
  unfolding distinct_keys_def
proof (intro allI impI)
  fix u x i j
  let ?w = "w(t := tl (w t))"
  assume less: "u < n" "x < n" "i < length (?w u)" "j < length (?w x)"
    and eq: "cstring buf (fst (?w u ! i)) = cstring buf (fst (?w x ! j))"
  let ?f = "\<lambda>u i. if u = t then Suc i else i"
  have nth: "?w u ! i = w u ! ?f u i \<and> ?f u i < length (w u)" if "i < length (?w u)" for u i
    using that by (auto simp: nth_tl split: if_splits)
  have "u = x \<and> ?f u i = ?f x j"
    using assms nth [OF less(3)] nth [OF less(4)] less(1,2) eq by (auto simp: distinct_keys_def)
  then show "u = x \<and> i = j" by (auto split: if_splits)
qed

text \<open>How many allocations a thread still needs, and how many steps it can still make.\<close>

definition need :: "conf \<Rightarrow> nat \<Rightarrow> nat" where
  "need c t = length (todo c t) - (case pcs c t of Publish es \<Rightarrow> 1 | Unlock \<Rightarrow> 1 | _ \<Rightarrow> 0)"

definition phase :: "pc \<Rightarrow> nat" where
  "phase pc = (case pc of Start \<Rightarrow> 0 | Search \<Rightarrow> 1 | Update n \<Rightarrow> 2 | Fresh \<Rightarrow> 2 | Publish es \<Rightarrow> 3
     | Unlock \<Rightarrow> 4 | Crashed \<Rightarrow> 4)"

definition steps_left :: "nat \<Rightarrow> conf \<Rightarrow> nat" where
  "steps_left n c = (\<Sum>t < n. 5 * length (todo c t) - phase (pcs c t))"

lemma sum_one:
  fixes f g :: "nat \<Rightarrow> nat"
  assumes "t < n" and "\<And>u. u \<noteq> t \<Longrightarrow> g u = f u"
  shows "(\<Sum>u < n. g u) + f t = (\<Sum>u < n. f u) + g t"
proof -
  have "(\<Sum>u < n. g u) = g t + sum g ({..<n} - {t})" and "(\<Sum>u < n. f u) = f t + sum f ({..<n} - {t})"
    using assms(1) by (auto intro: sum.remove)
  moreover have "sum g ({..<n} - {t}) = sum f ({..<n} - {t})" using assms(2) by (intro sum.cong) auto
  ultimately show ?thesis by simp
qed

text \<open>Every step uses up one of the steps left, whoever makes it.\<close>

lemma step_decreases:
  assumes "add_step lock_of t c c'" and "t < n"
  shows "steps_left n c' < steps_left n c"
proof -
  let ?f = "\<lambda>c u. 5 * length (todo c u) - phase (pcs c u)"
  have other: "?f c' u = ?f c u" if "u \<noteq> t" for u
    using assms(1) that by cases simp_all
  have "?f c' t < ?f c t"
    using assms(1) by cases (simp_all add: at_key_def phase_def)
  then show ?thesis
    using sum_one [OF assms(2), of "?f c'" "?f c", OF other] by (simp add: steps_left_def)
qed

lemma run_steps_bound: "run_steps lock_of n m c c' \<Longrightarrow> m + steps_left n c' \<le> steps_left n c"
proof (induction rule: run_steps.induct)
  case (one_step m c c' t c'')
  then show ?case using step_decreases [OF one_step(3,2)] by simp
qed simp

text \<open>
  While the keys are distinct, no remaining key is in the table but the one being unlocked, a
  mutex is held by a thread at work under it only, and there is room for the remaining keys.
\<close>

definition progress_inv :: "(u8 list \<Rightarrow> nat) \<Rightarrow> nat \<Rightarrow> conf \<Rightarrow> bool" where
  "progress_inv lock_of n c \<longleftrightarrow> distinct_keys (data (shared c)) n (todo c) \<and>
     (\<forall>t < n. \<forall>i < length (todo c t).
        table c (the (cstring (data (shared c)) (fst (todo c t ! i)))) \<noteq> None \<longrightarrow> i = 0 \<and> pcs c t = Unlock) \<and>
     (\<forall>l t. holder c l = Some t \<longrightarrow> t < n \<and> pcs c t \<noteq> Start \<and>
        (\<exists>p k v rest. at_key c t p k v rest \<and> lock_of k = l)) \<and>
     (\<forall>t. (\<forall>m. pcs c t \<noteq> Update m) \<and> pcs c t \<noteq> Crashed) \<and>
     (\<Sum>t < n. need c t) \<le> room (shared c)"

lemma progress_invD:
  assumes "progress_inv lock_of n c"
  shows "distinct_keys (data (shared c)) n (todo c)"
    and "t < n \<Longrightarrow> i < length (todo c t) \<Longrightarrow>
        table c (the (cstring (data (shared c)) (fst (todo c t ! i)))) \<noteq> None \<Longrightarrow> i = 0 \<and> pcs c t = Unlock"
    and "holder c l = Some t \<Longrightarrow> t < n \<and> pcs c t \<noteq> Start \<and>
        (\<exists>p k v rest. at_key c t p k v rest \<and> lock_of k = l)"
    and "pcs c t \<noteq> Update m" "pcs c t \<noteq> Crashed" "(\<Sum>t < n. need c t) \<le> room (shared c)"
  using assms unfolding progress_inv_def by blast+

text \<open>A key that is being searched or inserted is not in the table.\<close>

lemma current_is_new:
  assumes "progress_inv lock_of n c" "at_key c t p k v rest" "t < n" "pcs c t \<noteq> Unlock"
  shows "table c k = None"
  using progress_invD(2) [OF assms(1,3), of 0] assms(2,4)
  by (cases "table c k") (auto simp: at_key_def)

lemma other_is_different:
  assumes "progress_inv lock_of n c" "at_key c t p k v rest" "t < n" "u < n" "i < length (todo c u)"
    and "u \<noteq> t \<or> i \<noteq> 0"
  shows "cstring (data (shared c)) (fst (todo c u ! i)) \<noteq> Some k"
  using progress_invD(1) [OF assms(1)] assms(2-6) unfolding distinct_keys_def at_key_def
  by (metis fst_conv length_greater_0_conv list.distinct(1) nth_Cons_0)

context locking
begin

lemma todo_strings:
  assumes "threads_inv lock_of work c" and "i < length (todo c t)"
  shows "cstring (data (shared c)) (fst (todo c t ! i)) \<noteq> None"
proof -
  obtain did where "work t = did @ todo c t" using threads_invD(4) [OF assms(1)] by blast
  then have "todo c t ! i \<in> set (work t)" using assms(2) by simp
  then show ?thesis using threads_invD(2) [OF assms(1), of t] by (auto simp: strings_ok_def)
qed

lemma progress_go:
  assumes pr: "progress_inv lock_of n c" and t: "t < n" and key: "at_key c t p k v rest"
    and pc: "pcs c t \<noteq> Unlock" and c': "shared c' = (shared c)\<lparr>room := r, live := l'\<rparr>"
      "todo c' = todo c" "pcs c' = (pcs c)(t := pc')"
    and pc': "pc' \<noteq> Start" "\<And>m. pc' \<noteq> Update m" "pc' \<noteq> Crashed"
    and holder: "\<And>l u. holder c' l = Some u \<Longrightarrow> holder c l = Some u \<or> u = t \<and> l = lock_of k"
    and need: "(\<Sum>u < n. need c' u) \<le> r"
  shows "progress_inv lock_of n c'"
  unfolding progress_inv_def
proof (intro conjI allI impI)
  note D = progress_invD [OF pr]
  have same: "data (shared c') = data (shared c)" "table c' = table c"
    by (simp_all add: c' buckets_abs_def)
  show "distinct_keys (data (shared c')) n (todo c')" using D(1) by (simp add: same c'(2))
  show "(\<Sum>u < n. need c' u) \<le> room (shared c')" using need by (simp add: c'(1))
  show "pcs c' u \<noteq> Update m" "pcs c' u \<noteq> Crashed" for u m using D(4,5) pc' by (simp_all add: c'(3))
  show "i = 0" "pcs c' u = Unlock" if "u < n" "i < length (todo c' u)"
    "table c' (the (cstring (data (shared c')) (fst (todo c' u ! i)))) \<noteq> None" for u i
    using D(2) [of u i] that pc by (auto simp: same c'(2,3))
  show "u < n" "pcs c' u \<noteq> Start" "\<exists>p k v rest. at_key c' u p k v rest \<and> lock_of k = l"
    if "holder c' l = Some u" for l u
    using holder [OF that] D(3) [of l u] t key pc' by (auto simp: c'(2,3) same at_key_def)
qed

lemma progress_publish:
  assumes inv: "threads_inv lock_of work c" and pr: "progress_inv lock_of n c" and t: "t < n"
    and key: "at_key c t p k v rest" and pc: "pcs c t = Publish es"
  shows "progress_inv lock_of n (go t Unlock (set_entries (bucket_of k) (\<lparr>key = p, val = v\<rparr> # es) c))"
    (is "progress_inv _ _ ?c")
proof -
  note D = progress_invD [OF pr]
  have k: "cstring (data (shared c)) p = Some k" using key by (simp add: at_key_def)
  have "table c k = None" "es = entries (shared c) ! bucket_of k"
    using threads_invD(3) [OF inv _ key] pc by (simp_all add: knows_def)
  note table = publish_table(2) [OF threads_invD(1) [OF inv] k this(1), of v, folded this(2)]
  have need: "need ?c u = need c u" for u using pc by (simp add: need_def)
  have later: "i = 0 \<and> pcs ?c u = Unlock"
    if u: "u < n" "i < length (todo c u)" "table ?c (the (cstring (data (shared c)) (fst (todo c u ! i)))) \<noteq> None" for u i
  proof (cases "u = t \<and> i = 0")
    case False
    then have "the (cstring (data (shared c)) (fst (todo c u ! i))) \<noteq> k"
      using other_is_different [OF pr key t u(1,2)] todo_strings [OF inv u(2)] by auto
    then have "table c (the (cstring (data (shared c)) (fst (todo c u ! i)))) \<noteq> None"
      using u(3) table by simp
    then show ?thesis using D(2) [OF u(1,2)] pc by auto
  qed simp
  show ?thesis
    unfolding progress_inv_def need
    using D(1,3-6) later table by (auto simp: at_key_def)
qed

lemma progress_unlock:
  assumes pr: "progress_inv lock_of n c" and t: "t < n" and key: "at_key c t p k v rest"
    and pc: "pcs c t = Unlock"
  shows "progress_inv lock_of n (next_key t (c\<lparr>holder := (holder c)(lock_of k := None)\<rparr>))"
    (is "progress_inv _ _ ?c")
proof -
  note D = progress_invD [OF pr]
  have tl: "todo c t = (p, v) # rest" using key by (simp add: at_key_def)
  have need: "need ?c u = need c u" for u using pc tl by (simp add: need_def)
  have "distinct_keys (data (shared ?c)) n (todo ?c)"
    using distinct_keys_tl [OF D(1), of t] by simp
  moreover have "i = 0 \<and> pcs ?c u = Unlock"
    if "u < n" "i < length (todo ?c u)" "table ?c (the (cstring (data (shared ?c)) (fst (todo ?c u ! i)))) \<noteq> None" for u i
    using D(2) [of u i] D(2) [of t "Suc i"] that tl by (cases "u = t") auto
  moreover have "u < n \<and> pcs ?c u \<noteq> Start \<and> (\<exists>p k v rest. at_key ?c u p k v rest \<and> lock_of k = l)"
    if l: "holder ?c l = Some u" for l u
  proof -
    have h: "holder c l = Some u" "l \<noteq> lock_of k" using l by (auto split: if_splits)
    obtain p' k' v' rest' where k': "at_key c u p' k' v' rest'" "lock_of k' = l" using D(3) [OF h(1)] by blast
    then have "u \<noteq> t" using key h(2) by (auto simp: at_key_def)
    then show ?thesis using D(3) [OF h(1)] by (auto simp: at_key_def)
  qed
  ultimately show ?thesis
    unfolding progress_inv_def need using D(4-6) by auto
qed

lemma progress_preserved:
  assumes step: "add_step lock_of t c c'" and inv: "threads_inv lock_of work c"
    and pr: "progress_inv lock_of n c" and t: "t < n"
  shows "progress_inv lock_of n c'"
  using step
proof cases
  case (lock p k v rest)
  have "need c' u = need c u" for u using lock by (simp add: need_def)
  then show ?thesis
    using progress_invD(6) [OF pr] lock
    by (intro progress_go [OF pr t lock(2), where r = "room (shared c)" and l' = "live (shared c)"])
      (auto split: if_splits)
next
  case (found p k v rest m)
  have "table c k = None" using current_is_new [OF pr found(2) t] found(3) by simp
  then have False
    using found(2,4) find_in_eq [OF threads_invD(1) [OF inv], of p k]
    by (auto simp: at_key_def buckets_abs_first)
  then show ?thesis ..
next
  case (not_found p k v rest)
  have "need c' u = need c u" for u using not_found by (simp add: need_def)
  then show ?thesis
    using progress_invD(6) [OF pr] not_found
    by (intro progress_go [OF pr t not_found(2), where r = "room (shared c)" and l' = "live (shared c)"]) auto
next
  case update
  then show ?thesis using progress_invD(4) [OF pr] by blast
next
  case (link p k v rest)
  have other: "need c' u = need c u" if "u \<noteq> t" for u using that link by (simp add: need_def)
  have "need c' t + 1 = need c t" using link by (simp add: need_def at_key_def)
  then have "(\<Sum>u < n. need c' u) \<le> room (shared c) - 1"
    using sum_one [OF t, of "need c'" "need c", OF other] progress_invD(6) [OF pr] link(4) by simp
  then show ?thesis
    using link by (intro progress_go [OF pr t link(2), where r = "room (shared c) - 1" and l' = "live (shared c) + 1"]) auto
next
  case (crash p k v rest)
  have "need c t \<le> (\<Sum>u < n. need c u)" using t by (intro member_le_sum) auto
  then have False
    using crash progress_invD(6) [OF pr] by (simp add: need_def at_key_def)
  then show ?thesis ..
next
  case publish
  then show ?thesis using progress_publish [OF inv pr t] by simp
next
  case unlock
  then show ?thesis using progress_unlock [OF pr t] by simp
qed

text \<open>A thread at work can go on, and if nobody is at work the lock of a waiting thread is free.\<close>

lemma worker_steps:
  assumes "threads_inv lock_of work c" "progress_inv lock_of n c" "pcs c t \<noteq> Start"
  shows "\<exists>c'. add_step lock_of t c c'"
proof -
  obtain p k v rest where key: "at_key c t p k v rest"
    using assms(1,3) by (auto simp: threads_inv_def)
  then have k: "cstring (data (shared c)) p = Some k" by (simp add: at_key_def)
  show ?thesis
  proof (cases "pcs c t")
    case Search
    then show ?thesis
      using found [OF key] not_found [OF key] find_in_eq [OF threads_invD(1) [OF assms(1)] k]
      by (cases "first_index (\<lambda>e. entry_string (data (shared c)) e = k) (entries (shared c) ! bucket_of k)")
        fastforce+
  next
    case Fresh
    then show ?thesis using link [OF key] crash [OF key] by (cases "room (shared c) = 0") blast+
  qed (use assms(3) update [OF key] publish [OF key] unlock [OF key] progress_invD(5) [OF assms(2)] in blast)+
qed

lemma someone_steps:
  assumes inv: "threads_inv lock_of work c" and pr: "progress_inv lock_of n c" and "\<not> all_done n c"
  shows "\<exists>t < n. \<exists>c'. add_step lock_of t c c'"
proof -
  obtain t where t: "t < n" "todo c t \<noteq> []" using assms(3) by (auto simp: all_done_def)
  then obtain p v rest where "todo c t = (p, v) # rest" by (cases "todo c t") auto
  moreover obtain k where "cstring (data (shared c)) p = Some k"
    using todo_strings [OF inv, of 0 t] calculation by auto
  ultimately have key: "at_key c t p k v rest" by (simp add: at_key_def)
  show ?thesis
  proof (cases "pcs c t = Start")
    case False
    then show ?thesis using worker_steps [OF inv pr] t(1) by blast
  next
    case True
    show ?thesis
    proof (cases "holder c (lock_of k)")
      case None
      then show ?thesis using lock [OF key True] t(1) by blast
    next
      case (Some u)
      then have "u < n" "pcs c u \<noteq> Start" using progress_invD(3) [OF pr] by auto
      then show ?thesis using worker_steps [OF inv pr] by blast
    qed
  qed
qed

lemma progress_started:
  assumes "buckets_inv s" "\<forall>t < n. \<forall>(p, v) \<in> set (work t). cstring (data s) p \<noteq> None"
    and "buckets_abs s = Map.empty"
    and "distinct_keys (data s) n work" "(\<Sum>t < n. length (work t)) \<le> room s"
  shows "progress_inv lock_of n (started s work)"
  using assms by (auto simp: progress_inv_def started_def need_def)

lemma progress_run:
  "run lock_of n c c' \<Longrightarrow> threads_inv lock_of work c \<Longrightarrow> progress_inv lock_of n c \<Longrightarrow>
     progress_inv lock_of n c'"
proof (induction rule: run.induct)
  case (further c c' t c'')
  then show ?case by (blast intro: progress_preserved inv_run)
qed

text \<open>Distinct keys into an empty table: whatever the threads do, none is ever stuck.\<close>

lemma never_stuck:
  assumes "buckets_inv s" "\<forall>t. strings_ok (data s) (work t)" "buckets_abs s = Map.empty"
    and "distinct_keys (data s) n work" "(\<Sum>t < n. length (work t)) \<le> room s"
    and run: "run lock_of n (started s work) c"
  shows "\<not> stuck lock_of n c"
proof -
  have inv: "threads_inv lock_of work (started s work)" using assms(1,2) by (rule inv_started)
  have "progress_inv lock_of n (started s work)"
    using assms by (intro progress_started) (auto simp: strings_ok_def)
  then have "progress_inv lock_of n c" using run inv by (blast intro: progress_run)
  then show ?thesis using someone_steps inv_run [OF run inv] by (auto simp: stuck_def)
qed

end

interpretation v1_locking: locking "\<lambda>_. 0"
  by unfold_locales simp

interpretation v2_locking: locking bucket_of
  by unfold_locales simp

section \<open>A lock that is never released\<close>

text \<open>
  Mutex \<open>l\<close> is leaked if its holder is not at work under it: the thread returned from \<open>add_entry\<close>
  after an update.
\<close>

definition leaked :: "(u8 list \<Rightarrow> nat) \<Rightarrow> nat \<Rightarrow> nat \<Rightarrow> conf \<Rightarrow> bool" where
  "leaked lock_of l t c \<longleftrightarrow> holder c l = Some t \<and>
     (\<forall>p k v rest. at_key c t p k v rest \<longrightarrow> lock_of k = l \<longrightarrow> pcs c t = Start)"

definition waits_for :: "(u8 list \<Rightarrow> nat) \<Rightarrow> nat \<Rightarrow> conf \<Rightarrow> nat \<times> u32 \<Rightarrow> bool" where
  "waits_for lock_of l c x \<longleftrightarrow> (\<exists>k. cstring (data (shared c)) (fst x) = Some k \<and> lock_of k = l)"

lemma add_step_data: "add_step lock_of t c c' \<Longrightarrow> data (shared c') = data (shared c)"
  by (cases rule: add_step.cases) auto

lemma leakedD:
  "leaked lock_of l t c \<Longrightarrow> at_key c t p k v rest \<Longrightarrow> lock_of k = l \<Longrightarrow> pcs c t = Start"
  unfolding leaked_def by blast

lemma leaked_other:
  assumes "threads_inv lock_of work c" "leaked lock_of l t c" "at_key c u p k v rest" "pcs c u \<noteq> Start"
  shows "lock_of k \<noteq> l"
proof
  assume l: "lock_of k = l"
  have "holder c (lock_of k) = Some u" using threads_invD(3) [OF assms(1,4,3)] by simp
  then have "u = t" using assms(2) l by (simp add: leaked_def)
  then show False using leakedD [OF assms(2) _ l] assms(3,4) by simp
qed

lemma leaked_step:
  assumes step: "add_step lock_of u c c'" and leak: "leaked lock_of l t c"
    and inv: "threads_inv lock_of work c"
  shows "leaked lock_of l t c'"
proof -
  have h: "holder c l = Some t" using leak by (simp add: leaked_def)
  show ?thesis
    using step
  proof cases
    case (unlock p k v rest)
    have "lock_of k \<noteq> l" using leaked_other [OF inv leak unlock(2)] unlock(3) by simp
    then show ?thesis using leak unlock by (auto simp: leaked_def at_key_def)
  qed (use leak h in \<open>auto simp: leaked_def at_key_def\<close>)
qed

text \<open>Whoever still has a key under a leaked mutex keeps it: the thread never finishes.\<close>

lemma leaked_waits_step:
  assumes step: "add_step lock_of u c c'" and leak: "leaked lock_of l t c"
    and inv: "threads_inv lock_of work c"
    and x: "x \<in> set (todo c w)" "waits_for lock_of l c x"
  shows "x \<in> set (todo c' w)"
proof -
  have tl: "x \<in> set (tl (todo c u))"
    if "w = u" "pcs c u \<noteq> Start" "at_key c u p k v rest" for p k v rest
  proof -
    have "lock_of k \<noteq> l" using leaked_other [OF inv leak that(3,2)] .
    then have "x \<noteq> (p, v)" using x(2) that(3) by (auto simp: waits_for_def at_key_def)
    then show ?thesis using x(1) that by (auto simp: at_key_def)
  qed
  from step show ?thesis
  proof cases
    case (update p k v rest m es)
    then show ?thesis using tl [OF _ _ update(2)] x(1) by (cases "w = u") auto
  next
    case (unlock p k v rest)
    then show ?thesis using tl [OF _ _ unlock(2)] x(1) by (cases "w = u") auto
  qed (use x(1) in auto)
qed

context locking
begin

lemma leaked_forever:
  assumes "run lock_of n c c'" and "threads_inv lock_of work c" and "leaked lock_of l t c"
    and "x \<in> set (todo c w)" "waits_for lock_of l c x"
  shows "leaked lock_of l t c' \<and> x \<in> set (todo c' w)"
  using assms
proof (induction rule: run.induct)
  case (nothing c)
  then show ?case by simp
next
  case (further c c' u c'')
  have inv: "threads_inv lock_of work c'" using further by (blast intro: inv_run)
  have same: "data (shared c') = data (shared c)"
    using further(1) by (induction rule: run.induct) (auto dest: add_step_data)
  have "leaked lock_of l t c' \<and> x \<in> set (todo c' w)" using further by blast
  moreover have "waits_for lock_of l c' x" using further.prems(4) by (simp add: waits_for_def same)
  ultimately show ?case
    using leaked_step [OF further(3) _ inv] leaked_waits_step [OF further(3) _ inv] by blast
qed

text \<open>An update leaks the mutex of its key.\<close>

lemma update_leaks:
  assumes inv: "threads_inv lock_of work c" and key: "at_key c t p k v rest"
    and pc: "pcs c t = Update m" and step: "add_step lock_of t c c'"
  shows "leaked lock_of (lock_of k) t c'"
proof -
  have "holder c (lock_of k) = Some t" using threads_invD(3) [OF inv _ key] pc by simp
  moreover have "holder c' = holder c" "pcs c' t = Start"
    using step by (cases; use pc in simp)+
  ultimately show ?thesis by (simp add: leaked_def)
qed

end

end
