(* ===== verification/Pht_Tester.thy ===== *)
theory Pht_Tester
  imports Pht_Threads
begin

text \<open>
  The tester of the hash tables (\<open>pht/src/pht-tester.c\<close>): its command line numbers, the layout
  and generation of the keys, and what its phases compute.  \<open>rand\<close> is an argument, the sequence of
  its results.  The work of the threads is \<open>tester_work\<close>, and its interleavings are those of
  \<open>Pht_Threads\<close>; their creation and the times are in \<open>Pht_Main\<close>.
\<close>

definition EINVAL :: int where "EINVAL = 22"

section \<open>parse\_uint32\_t\<close>

text \<open>The loop at index \<open>i\<close>; the comparisons are of \<open>char\<close>s, which are signed.\<close>

function parse_from :: "u8 list \<Rightarrow> nat \<Rightarrow> nat \<Rightarrow> u32 \<Rightarrow> stop + u32" where
  "parse_from buf string i current =
     (if string + i < length buf
      then let c = buf ! (string + i) in
        if c = 0 then Inr current
        else if i = 10 then Inl (Exit EINVAL)
        else if sint c < 0x30 \<or> sint c > 0x39 then Inl (Exit EINVAL)
        else let digit = c - 0x30 in
          if i = 9 \<and> current > 429496729 then Inl (Exit EINVAL)
          else if i = 9 \<and> current = 429496729 \<and> digit > 5 then Inl (Exit EINVAL)
          else parse_from buf string (Suc i) (current * 10 + ucast digit)
      else Inl Undefined)"
  by pat_completeness auto
termination
  by (relation "measure (\<lambda>(buf, string, i, current). length buf - (string + i))") auto

declare parse_from.simps [simp del]

definition parse_uint32_t :: "u8 list \<Rightarrow> nat \<Rightarrow> stop + u32" where
  "parse_uint32_t buf string = parse_from buf string 0 0"

record arguments =
  threads :: u32
  size' :: u32

text \<open>\<open>parse_opt\<close> on the option \<open>opt\<close> with argument \<open>arg\<close>; it always returns 0.\<close>

definition parse_opt :: "u8 list \<Rightarrow> char \<Rightarrow> nat \<Rightarrow> arguments \<Rightarrow> stop + arguments" where
  "parse_opt buf opt arg a =
     (if opt = CHR ''t'' then map_sum id (\<lambda>n. a\<lparr>threads := n\<rparr>) (parse_uint32_t buf arg)
      else if opt = CHR ''s'' then map_sum id (\<lambda>n. a\<lparr>size' := n\<rparr>) (parse_uint32_t buf arg)
      else Inr a)"

definition digit :: "u8 \<Rightarrow> bool" where
  "digit c \<longleftrightarrow> 48 \<le> unat c \<and> unat c \<le> 57"

definition decimal_from :: "nat \<Rightarrow> u8 list \<Rightarrow> nat" where
  "decimal_from d s = foldl (\<lambda>n c. 10 * n + (unat c - 48)) d s"

lemma sint_byte: "sint (c :: u8) = (if uint c < 128 then uint c else uint c - 256)"
proof -
  have less: "uint c < 256" using uint_lt2p [of c] by simp
  have a: "sint c = take_bit 8 (uint c) - 256 * of_bool (bit (uint c) 7)"
    by (simp add: sint_uint signed_take_bit_eq_take_bit_minus)
  have b: "take_bit 8 (uint c) = uint c"
    using less by (intro take_bit_int_eq_self) simp_all
  have "uint c div 128 = (if 128 \<le> uint c then 1 else 0)" using less by auto
  then have d: "bit (uint c) 7 \<longleftrightarrow> 128 \<le> uint c" by (simp add: bit_iff_odd)
  show ?thesis unfolding a b d by simp
qed

lemma digit_sint: "digit c \<longleftrightarrow> \<not> (sint c < 0x30 \<or> sint c > 0x39)"
proof -
  define x where "x = uint c"
  have "0 \<le> x" "x < 256" "unat c = nat x"
    using uint_lt2p [of c] by (simp_all add: x_def)
  then show ?thesis
    unfolding digit_def sint_byte x_def [symmetric] by auto
qed

text \<open>\<open>d\<close> is the number that the \<open>i\<close> digits before make.\<close>

lemma decimal_from_Cons [simp]: "decimal_from d (c # s) = decimal_from (10 * d + (unat c - 48)) s"
  by (simp add: decimal_from_def)

text \<open>One character: it ends the parsing, or it is a digit; the tenth must not take the number past \<open>2 ^ 32\<close>.\<close>

lemma parse_from_step:
  assumes c: "string + i < length buf" "buf ! (string + i) = c" "c \<noteq> 0" and d: "d < 2 ^ 32" and i: "i \<le> 10"
  shows "parse_from buf string i (of_nat d) =
    (if i = 10 \<or> \<not> digit c \<or> i = 9 \<and> (429496729 < d \<or> d = 429496729 \<and> 5 < unat c - 48) then Inl (Exit EINVAL)
     else parse_from buf string (Suc i) (of_nat (10 * d + (unat c - 48))))"
proof -
  have unfold: "parse_from buf string i (of_nat d) =
    (if i = 10 then Inl (Exit EINVAL) else if \<not> digit c then Inl (Exit EINVAL)
     else if i = 9 \<and> (of_nat d :: u32) > 429496729 then Inl (Exit EINVAL)
     else if i = 9 \<and> (of_nat d :: u32) = 429496729 \<and> c - 48 > 5 then Inl (Exit EINVAL)
     else parse_from buf string (Suc i) (of_nat d * 10 + ucast (c - 48)))"
    using c by (subst parse_from.simps) (simp add: Let_def digit_sint)
  show ?thesis
  proof (cases "digit c")
    case True
    then have dig: "unat (c - 48) = unat c - 48" by (auto simp: digit_def unat_sub_if')
    have "ucast (c - 48) = (of_nat (unat c - 48) :: u32)" unfolding dig [symmetric] by (simp only: of_nat_unat)
    then have arg: "of_nat d * 10 + ucast (c - 48) = (of_nat (10 * d + (unat c - 48)) :: u32)" by simp
    have cmp: "(of_nat d :: u32) > 429496729 \<longleftrightarrow> 429496729 < d" "(of_nat d :: u32) = 429496729 \<longleftrightarrow> d = 429496729"
        "c - 48 > 5 \<longleftrightarrow> 5 < unat c - 48"
      using d dig by (simp_all add: word_less_nat_alt unat_of_nat_small word_unat_eq_iff)
    show ?thesis unfolding unfold arg cmp using True by auto
  qed (use unfold i in auto)
qed

text \<open>A number that does not fit 32 bits has its tenth digit here, and the tests of the code see that it does not fit.\<close>

lemma tenth_digit:
  fixes d :: nat
  assumes "d < 10 ^ i" "i < 10" "n \<le> 9" "\<not> 10 * d + n < 2 ^ 32"
  shows "i = 9" "429496729 < d \<or> d = 429496729 \<and> 5 < n"
proof -
  show "i = 9"
  proof (rule ccontr)
    assume "i \<noteq> 9"
    then have "(10::nat) ^ Suc i \<le> 10 ^ 9" using assms(2) by (intro power_increasing) auto
    then show False using assms(1,3,4) by simp
  qed
  show "429496729 < d \<or> d = 429496729 \<and> 5 < n" using assms(3,4) by auto
qed

lemma parse_from_eq:
  assumes "cstring buf (string + i) = Some s" and "i \<le> 10" "d < 10 ^ i" "d < 2 ^ 32"
  shows "parse_from buf string i (of_nat d) =
    (if list_all digit s \<and> i + length s \<le> 10 \<and> decimal_from d s < 2 ^ 32
     then Inr (of_nat (decimal_from d s)) else Inl (Exit EINVAL))"
  using assms
proof (induction s arbitrary: i d)
  case Nil
  from cstring_NilD [OF this(1)] show ?case
    using Nil by (subst parse_from.simps) (simp add: decimal_from_def)
next
  case (Cons c s)
  from cstring_ConsD [OF Cons.prems(1)]
  have c: "string + i < length buf" "buf ! (string + i) = c" "c \<noteq> 0"
      and s: "cstring buf (string + Suc i) = Some s" by simp_all
  note step = parse_from_step [OF c Cons.prems(4,2)]
  let ?n = "unat c - 48"
  show ?case
  proof (cases "i < 10 \<and> digit c")
    case False
    then show ?thesis using Cons.prems(2) step by auto
  next
    case True
    then have n: "?n \<le> 9" by (auto simp: digit_def)
    show ?thesis
    proof (cases "10 * d + ?n < 2 ^ 32")
      case fits: True
      then have "\<not> (429496729 < d \<or> d = 429496729 \<and> 5 < ?n)" by auto
      then have "parse_from buf string i (of_nat d) = parse_from buf string (Suc i) (of_nat (10 * d + ?n))"
        unfolding step using True by auto
      moreover have "10 * d + ?n < 10 ^ Suc i" using Cons.prems(3) n by simp
      ultimately show ?thesis using Cons.IH [OF s _ _ fits] True by simp
    next
      case big: False
      note last = tenth_digit [OF Cons.prems(3) _ n big]
      then have "parse_from buf string i (of_nat d) = Inl (Exit EINVAL)" using step True by simp
      moreover have "\<not> (i + length (c # s) \<le> 10 \<and> decimal_from d (c # s) < 2 ^ 32)"
        using last(1) True big by (auto simp: decimal_from_def)
      ultimately show ?thesis by auto
    qed
  qed
qed

lemma parse_uint32_t_eq:
  assumes "cstring buf string = Some s"
  shows "parse_uint32_t buf string =
    (if list_all digit s \<and> length s \<le> 10 \<and> decimal_from 0 s < 2 ^ 32
     then Inr (of_nat (decimal_from 0 s)) else Inl (Exit EINVAL))"
  using parse_from_eq [of buf string 0 s 0] assms by (simp add: parse_uint32_t_def)

section \<open>The layout of the keys\<close>

abbreviation BYTES_PER_STRING :: nat where "BYTES_PER_STRING \<equiv> 8"

text \<open>\<open>thread * arguments.size + index\<close> is computed in 32 bits and then widened.\<close>

definition get_global_index :: "arguments \<Rightarrow> u32 \<Rightarrow> u32 \<Rightarrow> u64" where
  "get_global_index a thread index = ucast (thread * size' a + index)"

text \<open>A pointer into \<open>data\<close>, as its offset.\<close>

definition get_string :: "u64 \<Rightarrow> nat" where
  "get_string global_index = unat (global_index * of_nat BYTES_PER_STRING)"

text \<open>\<open>struct timeval\<close>, and the difference in microseconds as an unsigned 64-bit number.\<close>

record timeval =
  tv_sec :: int
  tv_usec :: int

definition usec_diff :: "timeval \<Rightarrow> timeval \<Rightarrow> u64" where
  "usec_diff a b =
     of_int ((tv_sec b - tv_sec a) * 1000000) + of_int (tv_usec b - tv_usec a)"

lemma usec_diff_later:
  assumes "0 \<le> (tv_sec b - tv_sec a) * 1000000 + (tv_usec b - tv_usec a)"
    and "(tv_sec b - tv_sec a) * 1000000 + (tv_usec b - tv_usec a) < 2 ^ 64"
  shows "uint (usec_diff a b) = (tv_sec b * 1000000 + tv_usec b) - (tv_sec a * 1000000 + tv_usec a)"
proof -
  have "usec_diff a b = of_int ((tv_sec b - tv_sec a) * 1000000 + (tv_usec b - tv_usec a))"
    by (simp add: usec_diff_def)
  then have "uint (usec_diff a b) = ((tv_sec b - tv_sec a) * 1000000 + (tv_usec b - tv_usec a)) mod 2 ^ 64"
    by (simp only: uint_word_of_int) simp
  also have "\<dots> = (tv_sec b - tv_sec a) * 1000000 + (tv_usec b - tv_usec a)"
    using assms by (intro mod_pos_pos_trivial)
  finally show ?thesis by (simp add: algebra_simps)
qed

text \<open>While the number of strings fits 32 bits, the index is what it looks like.\<close>

lemma global_index_fits:
  assumes "t < unat (threads a)" "j < unat (size' a)" "unat (threads a) * unat (size' a) < 2 ^ 32"
  shows "unat (get_global_index a (of_nat t) (of_nat j)) = t * unat (size' a) + j"
    and "t * unat (size' a) + j < unat (threads a) * unat (size' a)"
    and "get_string (get_global_index a (of_nat t) (of_nat j)) = BYTES_PER_STRING * (t * unat (size' a) + j)"
proof -
  let ?n = "unat (size' a)"
  have "(t + 1) * ?n \<le> unat (threads a) * ?n" using assms(1) by (intro mult_right_mono) auto
  then show less: "t * ?n + j < unat (threads a) * ?n" using assms(2) by simp
  let ?i = "t * ?n + j"
  have small: "?i < 2 ^ 32" using less assms(3) by simp
  have "(of_nat t :: u32) * size' a + of_nat j = of_nat ?i" by simp
  then have "get_global_index a (of_nat t) (of_nat j) = of_nat (unat (of_nat ?i :: u32))"
    unfolding get_global_index_def of_nat_unat by (simp only:)
  moreover have "unat (of_nat ?i :: u32) = ?i" using small by (intro unat_of_nat_small) simp
  ultimately have idx: "get_global_index a (of_nat t) (of_nat j) = of_nat ?i" by (simp only:)
  show "unat (get_global_index a (of_nat t) (of_nat j)) = ?i"
    unfolding idx using small by (intro unat_of_nat_small) simp
  have "get_string (get_global_index a (of_nat t) (of_nat j)) = unat (of_nat (?i * 8) :: u64)"
    unfolding get_string_def idx by (simp only: of_nat_mult)
  moreover have "unat (of_nat (?i * 8) :: u64) = ?i * 8" using small by (intro unat_of_nat_small) simp
  ultimately show "get_string (get_global_index a (of_nat t) (of_nat j)) = BYTES_PER_STRING * ?i" by simp
qed

section \<open>Generating the keys\<close>

text \<open>\<open>data[offset] = c\<close>\<close>

definition store_char :: "nat \<Rightarrow> u8 \<Rightarrow> ('a heap_scheme, unit) prog" where
  "store_char off c =
     seq (check Undefined (\<lambda>s. off < length (data s))) (upd (\<lambda>s. s\<lparr>data := (data s)[off := c]\<rparr>))"

text \<open>
  \<open>calloc(arguments.threads * arguments.size, BYTES_PER_STRING)\<close>: the product has 32 bits.  The
  result is not checked; behind a null pointer there are no bytes.
\<close>

definition allocate_data :: "arguments \<Rightarrow> ('a heap_scheme, unit) prog" where
  "allocate_data a =
     bnd calloc (\<lambda>ok.
     upd (\<lambda>s. s\<lparr>data := if ok then replicate (unat (threads a * size' a) * BYTES_PER_STRING) 0 else []\<rparr>))"

definition random_letter :: "nat \<Rightarrow> u8" where
  "random_letter x =
     (let r = x mod 52 in if r < 26 then of_nat (r + 0x41) else of_nat (r + 0x47))"

text \<open>
  \<open>rand m\<close> is the result of the \<open>m\<close>-th call.  The loops over the threads and over the strings of
  a thread are \<open>for_strings\<close>, which the later phases of \<open>main\<close> repeat.
\<close>

definition for_strings :: "arguments \<Rightarrow> (nat \<Rightarrow> nat \<Rightarrow> ('s, unit) prog) \<Rightarrow> ('s, unit) prog" where
  "for_strings a body =
     for_each (\<lambda>i. for_each (\<lambda>j. body i j) [0..<unat (size' a)]) [0..<unat (threads a)]"

definition generate_string :: "arguments \<Rightarrow> (nat \<Rightarrow> nat) \<Rightarrow> nat \<Rightarrow> nat \<Rightarrow> ('a heap_scheme, unit) prog" where
  "generate_string a rand i j =
     (let global_index = get_global_index a (of_nat i) (of_nat j);
          string = get_string global_index;
          calls = (BYTES_PER_STRING - 1) * (i * unat (size' a) + j)
      in seq (for_each (\<lambda>k. store_char (string + k) (random_letter (rand (calls + k))))
                [0..<BYTES_PER_STRING - 1])
             (store_char (string + (BYTES_PER_STRING - 1)) 0))"

definition generate :: "arguments \<Rightarrow> (nat \<Rightarrow> nat) \<Rightarrow> ('a heap_scheme, unit) prog" where
  "generate a rand = seq (allocate_data a) (for_strings a (generate_string a rand))"

lemma random_letter_nonzero: "random_letter x \<noteq> 0"
proof -
  have "x mod 52 < 52" by simp
  then have "unat (random_letter x) \<noteq> 0"
    by (auto simp: random_letter_def Let_def unat_of_nat simp del: of_nat_add)
  then show ?thesis by auto
qed

lemma cstring_nth:
  assumes "p + n < length buf" "buf ! (p + n) = 0" "\<forall>k < n. buf ! (p + k) \<noteq> 0"
  shows "cstring buf p = Some (map (\<lambda>k. buf ! (p + k)) [0..<n])"
  using assms
proof (induction n arbitrary: p)
  case 0
  then show ?case by (subst cstring_step) simp
next
  case (Suc n)
  have "cstring buf (Suc p) = Some (map (\<lambda>k. buf ! (Suc p + k)) [0..<n])"
    using Suc.prems by (intro Suc.IH) auto
  moreover have "[0..<Suc n] = 0 # map Suc [0..<n]" by (simp add: upt_conv_Cons map_Suc_upt del: upt_Suc)
  moreover have "buf ! p \<noteq> 0" using Suc.prems(3) by (metis add_0_right zero_less_Suc)
  ultimately show ?case using Suc.prems(1) by (subst cstring_step) (simp del: upt_Suc)
qed

text \<open>The first \<open>g\<close> strings have been generated.\<close>

definition letter :: "(nat \<Rightarrow> nat) \<Rightarrow> nat \<Rightarrow> nat \<Rightarrow> u8" where
  "letter rand g k = random_letter (rand (7 * g + k))"

definition generated :: "(nat \<Rightarrow> nat) \<Rightarrow> nat \<Rightarrow> nat \<Rightarrow> u8 list \<Rightarrow> bool" where
  "generated rand m g buf \<longleftrightarrow> length buf = 8 * m \<and>
     (\<forall>h < g. (\<forall>k < 7. buf ! (8 * h + k) = letter rand h k) \<and> buf ! (8 * h + 7) = 0)"

lemma generated_string:
  assumes "generated rand m g buf" "h < g" "h < m"
  shows "cstring buf (8 * h) = Some (map (letter rand h) [0..<7])"
proof -
  have "cstring buf (8 * h) = Some (map (\<lambda>k. buf ! (8 * h + k)) [0..<7])"
    using assms by (intro cstring_nth) (auto simp: generated_def letter_def random_letter_nonzero)
  also have "map (\<lambda>k. buf ! (8 * h + k)) [0..<7] = map (letter rand h) [0..<7]"
    using assms by (intro map_cong) (auto simp: generated_def)
  finally show ?thesis .
qed

lemma generate_string_step:
  assumes i: "i < unat (threads a)" "j < unat (size' a)"
    and fits: "unat (threads a) * unat (size' a) < 2 ^ 32"
  shows "triple (\<lambda>s. generated rand (unat (threads a) * unat (size' a)) (i * unat (size' a) + j) (data s))
    (generate_string a rand i j)
    (\<lambda>_ s. generated rand (unat (threads a) * unat (size' a)) (Suc (i * unat (size' a) + j)) (data s))
    (\<lambda>_. False)"
proof -
  let ?m = "unat (threads a) * unat (size' a)" and ?g = "i * unat (size' a) + j"
  have g: "?g < ?m" and string: "get_string (get_global_index a (of_nat i) (of_nat j)) = 8 * ?g"
    using global_index_fits [OF i fits] by simp_all
  define I where "I = (\<lambda>k (s :: 'a heap_scheme). generated rand ?m ?g (data s) \<and>
    (\<forall>k' < k. data s ! (8 * ?g + k') = letter rand ?g k'))"
  have step: "triple (I k) (store_char (8 * ?g + k) (random_letter (rand (7 * ?g + k)))) (\<lambda>_. I (Suc k)) (\<lambda>_. False)"
    if k: "k < 7" for k
  proof (rule tripleI)
    fix s assume s: "I k s"
    have len: "length (data s) = 8 * ?m" using s by (simp add: I_def generated_def)
    have off: "8 * ?g + k < 8 * ?m" using g k by simp
    have "(data s)[8 * ?g + k := x] ! (8 * h + k') = data s ! (8 * h + k')" if "h < ?g" "k' < 8" for x h k'
      using that by (intro nth_list_update_neq) simp
    then have "I (Suc k) (s\<lparr>data := (data s)[8 * ?g + k := letter rand ?g k]\<rparr>)"
      using s off by (auto simp: I_def generated_def nth_list_update less_Suc_eq)
    then show "case store_char (8 * ?g + k) (random_letter (rand (7 * ?g + k))) s of
        Inl e \<Rightarrow> False | Inr (x, s') \<Rightarrow> I (Suc k) s'"
      using off len by (simp add: store_char_def prog_simps letter_def)
  qed
  have last: "triple (I 7) (store_char (8 * ?g + 7) 0) (\<lambda>_ s. generated rand ?m (Suc ?g) (data s)) (\<lambda>_. False)"
  proof (rule tripleI)
    fix s assume s: "I 7 s"
    have len: "length (data s) = 8 * ?m" using s by (simp add: I_def generated_def)
    have off: "8 * ?g + 7 < 8 * ?m" using g by simp
    have "(data s)[8 * ?g + 7 := x] ! (8 * h + k') = data s ! (8 * h + k')"
      if "h < ?g \<and> k' < 8 \<or> h = ?g \<and> k' < 7" for x h k'
      using that by (intro nth_list_update_neq) auto
    then have "generated rand ?m (Suc ?g) ((data s)[8 * ?g + 7 := 0])"
      using s off by (auto simp: I_def generated_def nth_list_update less_Suc_eq)
    then show "case store_char (8 * ?g + 7) 0 s of
        Inl e \<Rightarrow> False | Inr (x, s') \<Rightarrow> generated rand ?m (Suc ?g) (data s')"
      using off len by (simp add: store_char_def prog_simps)
  qed
  have loop: "triple (I 0) (for_each (\<lambda>k. store_char (8 * ?g + k) (random_letter (rand (7 * ?g + k)))) [0..<7])
      (\<lambda>_. I 7) (\<lambda>_. False)"
    by (rule triple_for_upt) (rule step)
  have "triple (I 0) (seq (for_each (\<lambda>k. store_char (8 * ?g + k) (random_letter (rand (7 * ?g + k)))) [0..<7])
      (store_char (8 * ?g + 7) 0)) (\<lambda>_ s. generated rand ?m (Suc ?g) (data s)) (\<lambda>_. False)"
    by (rule triple_seq [OF loop last])
  then show ?thesis
    by (simp add: I_def generate_string_def Let_def string)
qed

text \<open>Two nested loops over \<open>T\<close> times \<open>S\<close> strings, with an invariant on the number done.\<close>

lemma triple_nested:
  assumes "\<And>i j. i < T \<Longrightarrow> j < S \<Longrightarrow> triple (I (i * S + j)) (body i j) (\<lambda>_. I (Suc (i * S + j))) E"
  shows "triple (I 0) (for_each (\<lambda>i. for_each (\<lambda>j. body i j) [0..<S]) [0..<T]) (\<lambda>_. I (T * S)) E"
proof -
  have inner: "triple (I (i * S)) (for_each (\<lambda>j. body i j) [0..<S]) (\<lambda>_. I (Suc i * S)) E" if "i < T" for i
  proof -
    have "triple (I (i * S + 0)) (for_each (\<lambda>j. body i j) [0..<S]) (\<lambda>_. I (i * S + S)) E"
      by (rule triple_for_upt [of S "\<lambda>j. I (i * S + j)"]) (use assms that in simp)
    then show ?thesis by (simp add: add.commute)
  qed
  have "triple (I (0 * S)) (for_each (\<lambda>i. for_each (\<lambda>j. body i j) [0..<S]) [0..<T]) (\<lambda>_. I (T * S)) E"
    by (rule triple_for_upt [of T "\<lambda>i. I (i * S)"]) (rule inner)
  then show ?thesis by simp
qed

text \<open>Writing the keys allocates nothing.\<close>

lemma generation_allocates_nothing:
  "triple (\<lambda>s. room s = r \<and> live s = l) (for_strings a (generate_string a rand))
     (\<lambda>_ s. room s = r \<and> live s = l) (\<lambda>_. True)"
proof -
  have store: "triple (\<lambda>s. room s = r \<and> live s = l) (store_char off c)
      (\<lambda>_ s. room s = r \<and> live s = l) (\<lambda>_. True)" for off c
    by (auto simp: triple_def store_char_def prog_simps)
  show ?thesis
    unfolding for_strings_def generate_string_def Let_def
    by (intro triple_for_each triple_seq [where R = "\<lambda>s. room s = r \<and> live s = l"] store)
qed

lemma generate_ok:
  fixes s :: "'a heap_scheme"
  assumes fits: "unat (threads a) * unat (size' a) < 2 ^ 32" and memory: "0 < room s"
  shows "\<exists>s'. generate a rand s = Inr ((), s') \<and> room s' = room s - 1 \<and> live s' = live s + 1 \<and>
    length (data s') = 8 * (unat (threads a) * unat (size' a)) \<and>
    (\<forall>i < unat (threads a). \<forall>j < unat (size' a).
       cstring (data s') (get_string (get_global_index a (of_nat i) (of_nat j))) =
         Some (map (letter rand (i * unat (size' a) + j)) [0..<7]))"
proof -
  let ?m = "unat (threads a) * unat (size' a)"
  let ?s = "s\<lparr>room := room s - 1, live := live s + 1,
    data := replicate (unat (threads a * size' a) * BYTES_PER_STRING) 0\<rparr>"
  have "unat (threads a * size' a) = ?m"
    using fits by (simp add: unat_mult_lem [THEN iffD1])
  then have start: "generated rand ?m 0 (data ?s)" by (simp add: generated_def)
  have "triple (\<lambda>s :: 'a heap_scheme. generated rand ?m 0 (data s)) (for_strings a (generate_string a rand))
      (\<lambda>_ s. generated rand ?m ?m (data s)) (\<lambda>_. False)"
    unfolding for_strings_def
    by (rule triple_nested [where I = "\<lambda>g s. generated rand ?m g (data s)"])
      (rule generate_string_step [OF _ _ fits])
  then obtain s' where s': "for_strings a (generate_string a rand) ?s = Inr ((), s')"
      "generated rand ?m ?m (data s')"
    using start by (rule triple_total) auto
  have memory': "room s' = room s - 1 \<and> live s' = live s + 1"
    by (rule tripleD_Inr [OF generation_allocates_nothing _ s'(1)]) simp
  have "cstring (data s') (get_string (get_global_index a (of_nat i) (of_nat j))) =
      Some (map (letter rand (i * unat (size' a) + j)) [0..<7])"
    if "i < unat (threads a)" "j < unat (size' a)" for i j
    unfolding global_index_fits(3) [OF that fits]
    using global_index_fits(2) [OF that fits] by (intro generated_string [OF s'(2)])
  then show ?thesis
    using s' memory memory'
    by (auto simp: generate_def allocate_data_def bnd_apply calloc_def seq_apply generated_def)
qed

text \<open>Where there are no bytes, the first key cannot be written.\<close>

lemma first_key_undefined:
  assumes "threads a \<noteq> 0" "size' a \<noteq> 0" "data s = []"
  shows "for_strings a (generate_string a rand) s = Inl Undefined"
proof -
  have "unat (threads a) \<noteq> 0" "unat (size' a) \<noteq> 0" using assms(1,2) by (simp_all add: unat_eq_0)
  then have loops: "[0..<unat (threads a)] = 0 # [Suc 0..<unat (threads a)]"
      "[0..<unat (size' a)] = 0 # [Suc 0..<unat (size' a)]" "[0..<BYTES_PER_STRING - 1] = 0 # [Suc 0..<7]"
    by (simp_all add: upt_conv_Cons)
  show ?thesis
    unfolding for_strings_def generate_string_def Let_def loops
    using assms(3) by (simp add: seq_apply store_char_def)
qed

lemma generate_no_memory:
  "room s = 0 \<Longrightarrow> threads a \<noteq> 0 \<Longrightarrow> size' a \<noteq> 0 \<Longrightarrow> generate a rand s = Inl Undefined"
  by (simp add: generate_def allocate_data_def bnd_apply calloc_def seq_apply first_key_undefined)

section \<open>The table without locks\<close>

definition add_string ::
  "(nat option \<Rightarrow> u32 \<Rightarrow> ('s, unit) prog) \<Rightarrow> arguments \<Rightarrow> nat \<Rightarrow> nat \<Rightarrow> ('s, unit) prog" where
  "add_string add a i j =
     (let global_index = get_global_index a (of_nat i) (of_nat j);
          string = get_string global_index
      in add (Some string) (ucast global_index))"

text \<open>The pointers in the order of the loops, and the count of those that are not in the table.\<close>

definition tester_strings :: "arguments \<Rightarrow> nat list" where
  "tester_strings a = concat (map (\<lambda>i. map (\<lambda>j. get_string (get_global_index a (of_nat i) (of_nat j)))
     [0..<unat (size' a)]) [0..<unat (threads a)])"

primrec count_missing :: "(nat option \<Rightarrow> ('s, bool) prog) \<Rightarrow> nat list \<Rightarrow> u64 \<Rightarrow> ('s, u64) prog" where
  "count_missing contains [] missing = ret missing"
| "count_missing contains (p # ps) missing =
     bnd (contains (Some p)) (\<lambda>b. count_missing contains ps (if \<not> b then missing + 1 else missing))"

definition base_phase :: "arguments \<Rightarrow> (hash_table_base, u64) prog" where
  "base_phase a =
     seq hash_table_base_create
    (seq (for_strings a (add_string hash_table_base_add_entry a))
    (bnd (count_missing hash_table_base_contains (tester_strings a) 0) (\<lambda>missing.
     seq hash_table_base_destroy (ret missing))))"

text \<open>One thread's work: \<open>run_v1\<close> and \<open>run_v2\<close> when no other thread runs.\<close>

definition run_v1 :: "arguments \<Rightarrow> nat \<Rightarrow> (hash_table_v1, unit) prog" where
  "run_v1 a thread = for_each (\<lambda>j. add_string hash_table_v1_add_entry a thread j) [0..<unat (size' a)]"

definition run_v2 :: "arguments \<Rightarrow> nat \<Rightarrow> (hash_table_v2, unit) prog" where
  "run_v2 a thread = for_each (\<lambda>j. add_string hash_table_v2_add_entry a thread j) [0..<unat (size' a)]"

text \<open>The keys and values of each thread, for the interleaved runs of \<open>Pht_Threads\<close>.\<close>

definition tester_work :: "arguments \<Rightarrow> nat \<Rightarrow> (nat \<times> u32) list" where
  "tester_work a thread =
     (if thread < unat (threads a)
      then map (\<lambda>j. let global_index = get_global_index a (of_nat thread) (of_nat j)
                   in (get_string global_index, ucast global_index)) [0..<unat (size' a)]
      else [])"

lemma for_each_map: "for_each b (map h xs) s = for_each (\<lambda>x. b (h x)) xs s"
  by (induction xs arbitrary: s) (auto simp: seq_apply split: sum.split)

lemma for_each_concat: "for_each (\<lambda>i. for_each b (g i)) is s = for_each b (concat (map g is)) s"
  by (induction "is" arbitrary: s) (auto simp: for_each_append seq_apply split: sum.split)

lemma for_each_cong: "(\<And>x. x \<in> set xs \<Longrightarrow> b x = b' x) \<Longrightarrow> for_each b xs s = for_each b' xs s"
  by (induction xs arbitrary: s) (auto simp: seq_apply split: sum.split)

definition all_work :: "arguments \<Rightarrow> (nat \<times> u32) list" where
  "all_work a = concat (map (tester_work a) [0..<unat (threads a)])"

lemma work_strings: "map fst (all_work a) = tester_strings a"
  unfolding all_work_def tester_strings_def map_concat map_map
  by (rule arg_cong [where f = concat]) (simp add: tester_work_def Let_def comp_def)

lemma for_strings_work:
  "for_strings a (add_string add a) s = for_each (\<lambda>x. add (Some (fst x)) (snd x)) (all_work a) s"
proof -
  have "for_strings a (add_string add a) s =
      for_each (\<lambda>i. for_each (\<lambda>x. add (Some (fst x)) (snd x)) (tester_work a i)) [0..<unat (threads a)] s"
    unfolding for_strings_def
    by (rule for_each_cong) (auto simp: tester_work_def add_string_def [abs_def] Let_def for_each_map fun_eq_iff)
  then show ?thesis by (simp add: for_each_concat all_work_def)
qed

lemma count_missing_none:
  "(\<And>p. p \<in> set ps \<Longrightarrow> contains (Some p) s = Inr (True, s)) \<Longrightarrow>
     count_missing contains ps m s = Inr (m, s)"
  by (induction ps) (auto simp: bnd_apply)

lemma base_phase_ok:
  assumes "\<forall>p \<in> set (tester_strings a). cstring (data s) p \<noteq> None"
    and "length (tester_strings a) < room s"
  shows "\<exists>s'. base_phase a s = Inr (0, s') \<and> data s' = data s \<and> live s' = live s \<and> room s' = room s"
proof -
  let ?s = "s\<lparr>room := room s - 1, live := live s + 1, entries := replicate HASH_TABLE_CAPACITY []\<rparr>"
  have create: "hash_table_base_create s = Inr ((), ?s)" using assms(2) by (simp add: base_create)
  have inv: "buckets_inv ?s" using buckets_empty(1) by (simp add: buckets_inv_def)
  have owned: "owned_by (entries ?s) = 1" by (simp add: owned_by_def sum_list_replicate)
  have valid: "\<forall>x \<in> set (all_work a). cstring (data ?s) (fst x) \<noteq> None"
    using assms(1) by (auto simp: work_strings [symmetric])
  have len: "length (all_work a) \<le> room ?s"
    using assms(2) by (simp add: work_strings [symmetric])
  obtain s1 where s1: "for_each (\<lambda>x. hash_table_base_add_entry (Some (fst x)) (snd x)) (all_work a) ?s = Inr ((), s1)"
      "buckets_inv s1" "data s1 = data s" "live s1 + 1 = live s + 1 + owned_by (entries s1)"
      "room s1 + live s1 = room s + live s"
      "\<forall>k. k \<in> (\<lambda>x. the (cstring (data s) (fst x))) ` set (all_work a) \<longrightarrow> buckets_abs s1 k \<noteq> None"
    using base.add_any_all [OF inv valid len] owned assms(2) by auto
  have contains: "hash_table_base_contains (Some p) s1 = Inr (True, s1)"
    if p: "p \<in> set (tester_strings a)" for p
  proof -
    obtain k where k: "cstring (data s) p = Some k" using assms(1) p by auto
    have "p \<in> fst ` set (all_work a)" using p by (simp add: work_strings [symmetric])
    then have "buckets_abs s1 k \<noteq> None" using s1(6) k by force
    then show ?thesis using base.contains_eq [OF s1(2), of p k] k s1(3) by simp
  qed
  obtain s2 where s2: "hash_table_base_destroy s1 = Inr ((), s2)" "data s2 = data s1"
      "live s2 = live s1 - owned_by (entries s1)" "room s2 = room s1 + owned_by (entries s1)"
    using base.destroy_ok [OF s1(2)] s1(4) by auto
  have "base_phase a s = Inr (0, s2)"
    using create s1(1) s2(1) count_missing_none [of "tester_strings a" hash_table_base_contains s1, OF contains]
    by (simp add: base_phase_def seq_apply bnd_apply for_strings_work)
  then show ?thesis using s1(3,4,5) s2(2-4) by auto
qed

end
