(* ===== verification/Pht_Phases.thy ===== *)
theory Pht_Phases
  imports Pht_Tester
begin

text \<open>
  The phases of \<open>main\<close> in \<open>pht/src/pht-tester.c\<close> that fill the tables with locks from several
  threads: create the table, start the threads and join them, count the missing keys and destroy
  the table.  The threads run interleaved, so a phase is a relation between the state before and
  its outcomes; a phase whose threads never finish has none.
\<close>

section \<open>The phases\<close>

text \<open>The table that the joined threads leave behind.\<close>

definition v1_of :: "conf \<Rightarrow> hash_table_v1" where
  "v1_of c = buckets.extend (shared c) (hash_table_v1.fields (holder c 0 \<noteq> None))"

definition v2_of :: "conf \<Rightarrow> hash_table_v2" where
  "v2_of c = buckets.extend (shared c)
     (hash_table_v2.fields (map (\<lambda>b. holder c b \<noteq> None) [0..<HASH_TABLE_CAPACITY]))"

definition v1_check :: "arguments \<Rightarrow> (hash_table_v1, u64) prog" where
  "v1_check a = bnd (count_missing hash_table_v1_contains (tester_strings a) 0) (\<lambda>missing.
     seq hash_table_v1_destroy (ret missing))"

definition v2_check :: "arguments \<Rightarrow> (hash_table_v2, u64) prog" where
  "v2_check a = bnd (count_missing hash_table_v2_contains (tester_strings a) 0) (\<lambda>missing.
     seq hash_table_v2_destroy (ret missing))"

inductive v1_phase :: "arguments \<Rightarrow> hash_table_v1 \<Rightarrow> stop + (u64 \<times> hash_table_v1) \<Rightarrow> bool" for a s where
  v1_stops: "hash_table_v1_create s = Inl e \<Longrightarrow> v1_phase a s (Inl e)"
| v1_crashes: "hash_table_v1_create s = Inr ((), s0) \<Longrightarrow>
    run (\<lambda>_. 0) (unat (threads a)) (started (buckets.truncate s0) (tester_work a)) c \<Longrightarrow>
    pcs c t = Crashed \<Longrightarrow> v1_phase a s (Inl Fault)"
| v1_joins: "hash_table_v1_create s = Inr ((), s0) \<Longrightarrow>
    run (\<lambda>_. 0) (unat (threads a)) (started (buckets.truncate s0) (tester_work a)) c \<Longrightarrow>
    all_done (unat (threads a)) c \<Longrightarrow> v1_phase a s (v1_check a (v1_of c))"

inductive v2_phase :: "arguments \<Rightarrow> hash_table_v2 \<Rightarrow> stop + (u64 \<times> hash_table_v2) \<Rightarrow> bool" for a s where
  v2_stops: "hash_table_v2_create s = Inl e \<Longrightarrow> v2_phase a s (Inl e)"
| v2_crashes: "hash_table_v2_create s = Inr ((), s0) \<Longrightarrow>
    run bucket_of (unat (threads a)) (started (buckets.truncate s0) (tester_work a)) c \<Longrightarrow>
    pcs c t = Crashed \<Longrightarrow> v2_phase a s (Inl Fault)"
| v2_joins: "hash_table_v2_create s = Inr ((), s0) \<Longrightarrow>
    run bucket_of (unat (threads a)) (started (buckets.truncate s0) (tester_work a)) c \<Longrightarrow>
    all_done (unat (threads a)) c \<Longrightarrow> v2_phase a s (v2_check a (v2_of c))"

inductive_cases v1_phaseE: "v1_phase a s r"
inductive_cases v2_phaseE: "v2_phase a s r"

section \<open>Every allocation is accounted for\<close>

text \<open>Allocated are the table, its entries, and the entries that are linked but not yet the head.\<close>

definition linking :: "nat \<Rightarrow> conf \<Rightarrow> nat" where
  "linking n c = (\<Sum>u < n. case pcs c u of Publish es \<Rightarrow> 1 | _ \<Rightarrow> 0)"

definition accounted :: "nat \<Rightarrow> nat \<Rightarrow> conf \<Rightarrow> bool" where
  "accounted l n c \<longleftrightarrow> live (shared c) + 1 = l + owned_by (entries (shared c)) + linking n c"

lemma linking_go:
  assumes "t < n" "pcs c' = (pcs c)(t := pc)"
  shows "linking n c' + (case pcs c t of Publish es \<Rightarrow> 1 | _ \<Rightarrow> 0) =
    linking n c + (case pc of Publish es \<Rightarrow> 1 | _ \<Rightarrow> 0)"
  using sum_one [OF assms(1), of "\<lambda>u. case pcs c' u of Publish es \<Rightarrow> 1 | _ \<Rightarrow> 0"
      "\<lambda>u. case pcs c u of Publish es \<Rightarrow> 1 | _ \<Rightarrow> 0"] assms(2)
  by (simp add: linking_def)

lemma accounted_step:
  assumes step: "add_step lock_of t c c'" and inv: "threads_inv lock_of work c" and t: "t < n"
    and acc: "accounted l n c"
  shows "accounted l n c'"
proof -
  have len: "length (entries (shared c)) = HASH_TABLE_CAPACITY"
    using threads_invD(1) [OF inv] by (simp add: buckets_inv_def buckets_ok_def)
  have own: "owned_by ((entries (shared c))[bucket_of k := es]) + length (entries (shared c) ! bucket_of k) =
      owned_by (entries (shared c)) + length es" for k es
    by (rule owned_by_update) (simp add: len)
  from step show ?thesis
  proof cases
    case (update p k v rest m es)
    have "owned_by (entries (shared c')) = owned_by (entries (shared c))"
      using own [of k "es[m := (es ! m)\<lparr>val := v\<rparr>]"] update by simp
    then show ?thesis using acc update linking_go [OF t, of c' c Start] by (simp add: accounted_def)
  next
    case (publish p k v rest es)
    have "es = entries (shared c) ! bucket_of k"
      using threads_invD(3) [OF inv _ publish(2)] publish(3) by (simp add: knows_def)
    then have "owned_by (entries (shared c')) = owned_by (entries (shared c)) + 1"
      using own [of k "\<lparr>key = p, val = v\<rparr> # es"] publish by simp
    then show ?thesis using acc publish linking_go [OF t, of c' c Unlock] by (simp add: accounted_def)
  next
    case (lock p k v rest)
    then show ?thesis using acc linking_go [OF t, of c' c Search] by (simp add: accounted_def)
  next
    case (found p k v rest m)
    then show ?thesis using acc linking_go [OF t, of c' c "Update m"] by (simp add: accounted_def)
  next
    case (not_found p k v rest)
    then show ?thesis using acc linking_go [OF t, of c' c Fresh] by (simp add: accounted_def)
  next
    case (link p k v rest)
    then show ?thesis
      using acc linking_go [OF t, of c' c "Publish (entries (shared c) ! bucket_of k)"]
      by (simp add: accounted_def)
  next
    case (crash p k v rest)
    then show ?thesis using acc linking_go [OF t, of c' c Crashed] by (simp add: accounted_def)
  next
    case (unlock p k v rest)
    then show ?thesis using acc linking_go [OF t, of c' c Start] by (simp add: accounted_def)
  qed
qed

lemma run_data: "run lock_of n c c' \<Longrightarrow> data (shared c') = data (shared c)"
  by (induction rule: run.induct) (auto dest: add_step_data)

lemma run_memory: "run lock_of n c c' \<Longrightarrow>
    room (shared c') + live (shared c') = room (shared c) + live (shared c)"
proof (induction rule: run.induct)
  case (further c c' t c'')
  from further(3) have "room (shared c'') + live (shared c'') = room (shared c') + live (shared c')"
    by cases auto
  then show ?case using further.IH by simp
qed simp

lemma run_trans: "run lock_of n c1 c2 \<Longrightarrow> run lock_of n c c1 \<Longrightarrow> run lock_of n c c2"
  by (induction rule: run.induct) (auto intro: run.further)

context locking
begin

lemma accounted_run:
  "run lock_of n c c' \<Longrightarrow> threads_inv lock_of work c \<Longrightarrow> accounted l n c \<Longrightarrow> accounted l n c'"
proof (induction rule: run.induct)
  case (further c c' t c'')
  then show ?case by (blast intro: accounted_step inv_run)
qed

text \<open>The table after threads with distinct keys have been joined.\<close>

lemma finished:
  assumes s: "buckets_inv s" "\<forall>t. strings_ok (data s) (work t)" "buckets_abs s = Map.empty"
      "distinct_keys (data s) n work" "(\<Sum>t < n. length (work t)) \<le> room s"
    and empty: "owned_by (entries s) = 1"
    and run: "run lock_of n (started s work) c" and fin: "all_done n c"
  shows "buckets_inv (shared c)" "data (shared c) = data s" "holder c l = None"
    "live (shared c) + 1 = live s + owned_by (entries (shared c))"
    "room (shared c) + live (shared c) = room s + live s"
proof -
  have inv: "threads_inv lock_of work (started s work)" using s(1,2) by (rule inv_started)
  show "buckets_inv (shared c)" using inv_run [OF run inv] by (rule threads_invD)
  show "data (shared c) = data s" using run_data [OF run] by (simp add: started_def)
  have "progress_inv lock_of n (started s work)"
    using s by (intro progress_started) (auto simp: strings_ok_def)
  then have pr: "progress_inv lock_of n c" using run inv by (blast intro: progress_run)
  show "holder c l = None"
  proof (cases "holder c l")
    case (Some t)
    with progress_invD(3) [OF pr Some] fin show ?thesis by (auto simp: all_done_def at_key_def)
  qed
  have "pcs c u = Start" if "u < n" for u
  proof (rule ccontr)
    assume "pcs c u \<noteq> Start"
    then obtain p k v rest where "at_key c u p k v rest"
      using inv_run [OF run inv] by (auto simp: threads_inv_def)
    then show False using fin that by (simp add: all_done_def at_key_def)
  qed
  then have "linking n c = 0" by (simp add: linking_def)
  moreover have "accounted (live s) n c"
    using accounted_run [OF run inv] empty by (simp add: accounted_def started_def linking_def)
  ultimately show "live (shared c) + 1 = live s + owned_by (entries (shared c))"
    by (simp add: accounted_def)
  show "room (shared c) + live (shared c) = room s + live s"
    using run_memory [OF run] by (simp add: started_def)
qed

text \<open>Such threads can always be run to the end, and none of them crashes.\<close>

lemma completes_from:
  "threads_inv lock_of work c \<Longrightarrow> progress_inv lock_of n c \<Longrightarrow> \<exists>c'. run lock_of n c c' \<and> all_done n c'"
proof (induction "steps_left n c" arbitrary: c rule: less_induct)
  case less
  show ?case
  proof (cases "all_done n c")
    case True
    then show ?thesis using run.nothing by blast
  next
    case False
    obtain t c1 where t: "t < n" "add_step lock_of t c c1"
      using someone_steps [OF less.prems False] by blast
    obtain c2 where "run lock_of n c1 c2" "all_done n c2"
      using less.hyps [OF step_decreases [OF t(2,1)] inv_preserved [OF t(2) less.prems(1)]
          progress_preserved [OF t(2) less.prems t(1)]] by blast
    moreover have "run lock_of n c c1" using run.further [OF run.nothing t] .
    ultimately show ?thesis using run_trans by blast
  qed
qed

lemma completes:
  assumes "buckets_inv s" "\<forall>t. strings_ok (data s) (work t)" "buckets_abs s = Map.empty"
    and "distinct_keys (data s) n work" "(\<Sum>t < n. length (work t)) \<le> room s"
  shows "\<exists>c. run lock_of n (started s work) c \<and> all_done n c"
    and "run lock_of n (started s work) c \<Longrightarrow> pcs c t \<noteq> Crashed"
proof -
  have inv: "threads_inv lock_of work (started s work)" using assms(1,2) by (rule inv_started)
  have pr: "progress_inv lock_of n (started s work)"
    using assms by (intro progress_started) (auto simp: strings_ok_def)
  show "\<exists>c. run lock_of n (started s work) c \<and> all_done n c" by (rule completes_from [OF inv pr])
  assume "run lock_of n (started s work) c"
  then show "pcs c t \<noteq> Crashed" by (rule progress_invD(5) [OF progress_run [OF _ inv pr]])
qed

end

section \<open>What the phases print\<close>

lemma v1_of_simps [simp]:
  "data (v1_of c) = data (shared c)" "live (v1_of c) = live (shared c)" "room (v1_of c) = room (shared c)"
  "entries (v1_of c) = entries (shared c)" "mutex (v1_of c) = (holder c 0 \<noteq> None)"
  by (simp_all add: v1_of_def buckets.defs hash_table_v1.defs)

lemma v2_of_simps [simp]:
  "data (v2_of c) = data (shared c)" "live (v2_of c) = live (shared c)" "room (v2_of c) = room (shared c)"
  "entries (v2_of c) = entries (shared c)"
  "write_mutexes (v2_of c) = map (\<lambda>b. holder c b \<noteq> None) [0..<HASH_TABLE_CAPACITY]"
  by (simp_all add: v2_of_def buckets.defs hash_table_v2.defs)

lemma truncate_simps [simp]:
  "data (buckets.truncate s) = data s" "live (buckets.truncate s) = live s"
  "room (buckets.truncate s) = room s" "entries (buckets.truncate s) = entries s"
  by (simp_all add: buckets.defs)

text \<open>The keys as \<open>main\<close> generates them: in the buffer, distinct, and memory for all of them.\<close>

definition tester_ready :: "arguments \<Rightarrow> 'a heap_scheme \<Rightarrow> bool" where
  "tester_ready a s \<longleftrightarrow> (\<forall>p \<in> set (tester_strings a). cstring (data s) p \<noteq> None) \<and>
     distinct_keys (data s) (unat (threads a)) (tester_work a) \<and>
     length (tester_strings a) < room s"

text \<open>The table that a phase starts with.\<close>

definition fresh_table :: "'a heap_scheme \<Rightarrow> buckets" where
  "fresh_table s = \<lparr>data = data s, room = room s - 1, live = live s + 1,
     entries = replicate HASH_TABLE_CAPACITY []\<rparr>"

lemma fresh_table_simps [simp]:
  "data (fresh_table s) = data s" "room (fresh_table s) = room s - 1" "live (fresh_table s) = live s + 1"
  "entries (fresh_table s) = replicate HASH_TABLE_CAPACITY []"
  by (simp_all add: fresh_table_def)

lemma length_work: "(\<Sum>t < unat (threads a). length (tester_work a t)) = length (tester_strings a)"
  unfolding work_strings [symmetric] length_map all_work_def
  by (simp only: length_concat map_map comp_def interv_sum_list_conv_sum_set_nat set_upt atLeast0LessThan)

lemma work_in_strings:
  assumes "(p, v) \<in> set (tester_work a t)"
  shows "p \<in> set (tester_strings a)"
proof -
  have "t < unat (threads a)" using assms by (simp add: tester_work_def split: if_splits)
  then have "(p, v) \<in> set (all_work a)" using assms by (auto simp: all_work_def)
  then show ?thesis unfolding work_strings [symmetric] by force
qed

lemma strings_in_work: "p \<in> set (tester_strings a) \<Longrightarrow>
  \<exists>t v. t < unat (threads a) \<and> (p, v) \<in> set (tester_work a t)"
  unfolding work_strings [symmetric] all_work_def by fastforce

lemma tester_start:
  assumes "tester_ready a s"
  defines "s0 \<equiv> fresh_table s"
  shows "buckets_inv s0" "\<forall>t. strings_ok (data s0) (tester_work a t)" "buckets_abs s0 = Map.empty"
    "distinct_keys (data s0) (unat (threads a)) (tester_work a)"
    "(\<Sum>t < unat (threads a). length (tester_work a t)) \<le> room s0" "owned_by (entries s0) = 1"
proof -
  show "buckets_inv s0" "buckets_abs s0 = Map.empty"
    using buckets_empty by (simp_all add: s0_def buckets_inv_def buckets_abs_def)
  show "owned_by (entries s0) = 1" by (simp add: s0_def owned_by_def sum_list_replicate)
  have strings: "\<forall>p \<in> set (tester_strings a). cstring (data s0) p \<noteq> None"
    using assms(1) by (simp add: tester_ready_def s0_def)
  show "\<forall>t. strings_ok (data s0) (tester_work a t)"
    unfolding strings_ok_def using strings work_in_strings by blast
  show "distinct_keys (data s0) (unat (threads a)) (tester_work a)"
      "(\<Sum>t < unat (threads a). length (tester_work a t)) \<le> room s0"
    using assms(1) by (auto simp: tester_ready_def s0_def length_work)
qed

lemma v1_check_ok:
  assumes "buckets_inv (shared c)" "holder c 0 = None" "owned_by (entries (shared c)) \<le> live (shared c)"
    and "\<And>p. p \<in> set (tester_strings a) \<Longrightarrow> \<exists>k. cstring (data (shared c)) p = Some k \<and> table c k \<noteq> None"
  shows "\<exists>s'. v1_check a (v1_of c) = Inr (0, s') \<and> data s' = data (shared c) \<and>
    live s' = live (shared c) - owned_by (entries (shared c)) \<and>
    room s' = room (shared c) + owned_by (entries (shared c))"
proof -
  have inv: "buckets_inv (v1_of c)" using assms(1) by (simp add: buckets_inv_def)
  have "hash_table_v1_contains (Some p) (v1_of c) = Inr (True, v1_of c)"
    if p: "p \<in> set (tester_strings a)" for p
  proof -
    obtain k where "cstring (data (shared c)) p = Some k" "table c k \<noteq> None" using assms(4) p by blast
    then show ?thesis using v1.contains_eq [OF inv, of p k] by (simp add: buckets_abs_def)
  qed
  then have "count_missing hash_table_v1_contains (tester_strings a) 0 (v1_of c) = Inr (0, v1_of c)"
    by (rule count_missing_none)
  then show ?thesis
    using v1.destroy_ok [OF inv] assms(2,3) by (auto simp: v1_check_def bnd_apply seq_apply)
qed

lemma count_missing_keeps:
  "(\<And>p. p \<in> set ps \<Longrightarrow> \<exists>b. contains (Some p) s = Inr (b, s)) \<Longrightarrow>
     \<exists>n. count_missing contains ps m s = Inr (n, s)"
proof (induction ps arbitrary: m)
  case (Cons p ps)
  obtain b where "contains (Some p) s = Inr (b, s)" using Cons.prems [of p] by auto
  then show ?case using Cons by (auto simp: bnd_apply)
qed simp

lemma v2_check_undefined:
  assumes "buckets_inv (shared c)"
    and "\<And>p. p \<in> set (tester_strings a) \<Longrightarrow> cstring (data (shared c)) p \<noteq> None"
  shows "v2_check a (v2_of c) = Inl Undefined"
proof -
  have inv: "v2_inv (v2_of c)" using assms(1) by (simp add: v2_inv_def buckets_inv_def)
  have "\<exists>b. hash_table_v2_contains (Some p) (v2_of c) = Inr (b, v2_of c)"
    if p: "p \<in> set (tester_strings a)" for p
    using v2.contains_eq [OF inv, of p] assms(2) [OF p] by auto
  then obtain n where
    "count_missing hash_table_v2_contains (tester_strings a) 0 (v2_of c) = Inr (n, v2_of c)"
    using count_missing_keeps [of "tester_strings a" hash_table_v2_contains "v2_of c" 0] by blast
  then show ?thesis by (simp add: v2_check_def bnd_apply seq_apply v2_destroy_undefined)
qed

section \<open>No interleaving is stuck or endless\<close>

text \<open>
  The threads of the tester, from a new table: whoever runs next, at most five steps for each key, and
  as long as a thread is not done, some thread can go on.
\<close>

definition always_ends :: "(u8 list \<Rightarrow> nat) \<Rightarrow> arguments \<Rightarrow> buckets \<Rightarrow> bool" where
  "always_ends lock_of a s \<longleftrightarrow> (\<forall>m c. run_steps lock_of (unat (threads a)) m (started s (tester_work a)) c \<longrightarrow>
     m \<le> 5 * (unat (threads a) * unat (size' a)) \<and>
     (all_done (unat (threads a)) c \<or> (\<exists>t c'. t < unat (threads a) \<and> add_step lock_of t c c')))"

lemma always_endsD:
  assumes "always_ends lock_of a s" "run_steps lock_of (unat (threads a)) m (started s (tester_work a)) c"
  shows "m \<le> 5 * (unat (threads a) * unat (size' a))"
    and "all_done (unat (threads a)) c \<or> (\<exists>t c'. t < unat (threads a) \<and> add_step lock_of t c c')"
  using assms by (auto simp: always_ends_def)

lemma tester_ends:
  assumes ready: "tester_ready a s" and variant: "lock_of \<in> {\<lambda>_. 0, bucket_of}"
  shows "always_ends lock_of a (fresh_table s)"
  unfolding always_ends_def
proof (intro allI impI)
  let ?n = "unat (threads a)" and ?start = "started (fresh_table s) (tester_work a)"
  fix m c assume run: "run_steps lock_of ?n m ?start c"
  have "steps_left ?n ?start = (\<Sum>t < ?n. 5 * length (tester_work a t))"
    by (simp add: steps_left_def started_def phase_def)
  also have "\<dots> = 5 * (?n * unat (size' a))" by (simp add: tester_work_def)
  finally have bound: "m \<le> 5 * (?n * unat (size' a))" using run_steps_bound [OF run] by simp
  note t = tester_start [OF ready] and r = run_steps_run [OF run]
  have "\<not> stuck lock_of ?n c"
    using variant v1_locking.never_stuck [OF t(1-5)] v2_locking.never_stuck [OF t(1-5)] r by auto
  with bound show "m \<le> 5 * (?n * unat (size' a)) \<and>
      (all_done ?n c \<or> (\<exists>t c'. t < ?n \<and> add_step lock_of t c c'))" by (auto simp: stuck_def)
qed

text \<open>The table that \<open>main\<close> starts the threads on is a new one.\<close>

lemma v1_created_fresh:
  "room s \<noteq> 0 \<Longrightarrow> \<exists>s0. hash_table_v1_create s = Inr ((), s0) \<and> buckets.truncate s0 = fresh_table s"
  using v1_create [of s] by (auto simp: buckets.defs fresh_table_def)

lemma v2_created_fresh:
  "room s \<noteq> 0 \<Longrightarrow> \<exists>s0. hash_table_v2_create s = Inr ((), s0) \<and> buckets.truncate s0 = fresh_table s"
  using v2_create [of s] by (auto simp: buckets.defs fresh_table_def)

text \<open>With distinct keys and memory for them the first variant always ends well, and frees everything.\<close>

lemma v1_phase_ok:
  assumes ready: "tester_ready a s"
  shows "(\<exists>r. v1_phase a s r) \<and>
    (\<forall>r. v1_phase a s r \<longrightarrow> (\<exists>s'. r = Inr (0, s') \<and> data s' = data s \<and> live s' = live s \<and> room s' = room s))"
proof -
  let ?s0 = "s\<lparr>room := room s - 1, live := live s + 1, entries := replicate HASH_TABLE_CAPACITY [], mutex := False\<rparr>"
  let ?b = "fresh_table s"
  have create: "hash_table_v1_create s = Inr ((), ?s0)" using ready by (intro v1_create) (simp add: tester_ready_def)
  have cut: "buckets.truncate ?s0 = ?b" by (simp add: buckets.defs fresh_table_def)
  note start = tester_start [OF ready]
  have room: "0 < room s" using ready by (auto simp: tester_ready_def)
  have "\<exists>s'. v1_check a (v1_of c) = Inr (0, s') \<and> data s' = data s \<and> live s' = live s \<and> room s' = room s"
    if run: "run (\<lambda>_. 0) (unat (threads a)) (started ?b (tester_work a)) c"
      and fin: "all_done (unat (threads a)) c" for c
  proof -
    note joined = v1_locking.finished [OF start run fin]
    have keys: "\<exists>k. cstring (data (shared c)) p = Some k \<and> table c k \<noteq> None"
      if p: "p \<in> set (tester_strings a)" for p
    proof -
      obtain t v where t: "t < unat (threads a)" "(p, v) \<in> set (tester_work a t)"
        using strings_in_work [OF p] by blast
      obtain k where "cstring (data (shared c)) p = Some k"
        using joined(2) ready p by (auto simp: tester_ready_def)
      then show ?thesis
        using v1_locking.nothing_lost [OF start(1,2) run fin t] by simp
    qed
    show ?thesis
      using v1_check_ok [OF joined(1,3) _ keys] joined(2,4,5) room by auto
  qed
  note check = this
  note joined = v1_locking.completes [OF start(1-5)]
  have "\<exists>s'. r = Inr (0, s') \<and> data s' = data s \<and> live s' = live s \<and> room s' = room s" if "v1_phase a s r" for r
    using that
  proof cases
    case (v1_crashes s0 c t)
    then have "s0 = ?s0" using create by simp
    with v1_crashes(3) have "run (\<lambda>_. 0) (unat (threads a)) (started ?b (tester_work a)) c"
      by (simp only: cut)
    then show ?thesis using v1_crashes(4) joined(2) [of c t] by simp
  next
    case (v1_joins s0 c)
    then have "s0 = ?s0" using create by simp
    with v1_joins(3) have "run (\<lambda>_. 0) (unat (threads a)) (started ?b (tester_work a)) c"
      by (simp only: cut)
    then show ?thesis using v1_joins(1,4) check [of c] by simp
  qed (use create in simp)
  moreover have "\<exists>r. v1_phase a s r"
    using joined(1) v1_phase.v1_joins [OF create] unfolding cut by blast
  ultimately show ?thesis by blast
qed

text \<open>Under the same conditions every outcome of the second variant is undefined behaviour.\<close>

lemma v2_phase_ok:
  assumes ready: "tester_ready a s"
  shows "(\<exists>r. v2_phase a s r) \<and> (\<forall>r. v2_phase a s r \<longrightarrow> r = Inl Undefined)"
proof -
  let ?s0 = "s\<lparr>room := room s - 1, live := live s + 1, entries := replicate HASH_TABLE_CAPACITY [],
    write_mutexes := replicate HASH_TABLE_CAPACITY False\<rparr>"
  let ?b = "fresh_table s"
  have create: "hash_table_v2_create s = Inr ((), ?s0)" using ready by (intro v2_create) (simp add: tester_ready_def)
  have cut: "buckets.truncate ?s0 = ?b" by (simp add: buckets.defs fresh_table_def)
  note start = tester_start [OF ready]
  have "v2_check a (v2_of c) = Inl Undefined"
    if run: "run bucket_of (unat (threads a)) (started ?b (tester_work a)) c"
      and fin: "all_done (unat (threads a)) c" for c
    using v2_locking.finished(1,2) [OF start run fin] ready
    by (intro v2_check_undefined) (auto simp: tester_ready_def)
  note check = this
  note joined = v2_locking.completes [OF start(1-5)]
  have "r = Inl Undefined" if "v2_phase a s r" for r
    using that
  proof cases
    case (v2_crashes s0 c t)
    then have "s0 = ?s0" using create by simp
    with v2_crashes(3) have "run bucket_of (unat (threads a)) (started ?b (tester_work a)) c"
      by (simp only: cut)
    then show ?thesis using v2_crashes(4) joined(2) [of c t] by simp
  next
    case (v2_joins s0 c)
    then have "s0 = ?s0" using create by simp
    with v2_joins(3) have "run bucket_of (unat (threads a)) (started ?b (tester_work a)) c"
      by (simp only: cut)
    then show ?thesis using v2_joins(1,4) check [of c] by simp
  qed (use create in simp)
  moreover have "\<exists>r. v2_phase a s r"
    using joined(1) v2_phase.v2_joins [OF create] unfolding cut by blast
  ultimately show ?thesis by blast
qed

end
