(* ===== verification/Pht_Main.thy ===== *)
theory Pht_Main
  imports Pht_Phases
begin

text \<open>
  \<open>main\<close> of \<open>pht/src/pht-tester.c\<close>: the options, the generation of the keys, the table without
  locks, and the two tables that threads fill, one after the other on one heap.

  What the rest of the system answers is the record \<open>environment\<close>.  The outcome is why the process
  stops, or the lines it has printed and the status that \<open>main\<close> returns.  It is a relation, since
  the threads interleave; the lines that a process which stops has printed before are left out (its
  standard output may not have been written).
\<close>

section \<open>What main asks of the system\<close>

text \<open>
  The options and the offsets of their arguments that \<open>argp_parse\<close> passes to \<open>parse_opt\<close>, the
  results of \<open>rand\<close>, the times that \<open>gettimeofday\<close> returns, and the results of \<open>pthread_create\<close> and
  \<open>pthread_join\<close> for thread \<open>i\<close> of each of the two phases with threads (0 for success).
\<close>

record environment =
  options :: "(char \<times> nat) list"
  argument_bytes :: "u8 list"
  rand_values :: "nat \<Rightarrow> nat"
  clock :: "nat \<Rightarrow> timeval"
  creates1 :: "nat \<Rightarrow> int"
  joins1 :: "nat \<Rightarrow> int"
  creates2 :: "nat \<Rightarrow> int"
  joins2 :: "nat \<Rightarrow> int"

datatype line = Time string u64 | Missing u64 | Create_failed int | Join_failed int

text \<open>The \<open>k\<close>-th pair of calls of \<open>gettimeofday\<close>.\<close>

definition elapsed :: "environment \<Rightarrow> nat \<Rightarrow> u64" where
  "elapsed env k = usec_diff (clock env (2 * k)) (clock env (2 * k + 1))"

section \<open>Up to the threads\<close>

fun parse_all :: "u8 list \<Rightarrow> (char \<times> nat) list \<Rightarrow> arguments \<Rightarrow> stop + arguments" where
  "parse_all buf [] a = Inr a"
| "parse_all buf ((opt, arg) # opts) a =
     (case parse_opt buf opt arg a of Inl e \<Rightarrow> Inl e | Inr a' \<Rightarrow> parse_all buf opts a')"

definition parse_options :: "environment \<Rightarrow> stop + arguments" where
  "parse_options env = parse_all (argument_bytes env) (options env) \<lparr>threads = 4, size' = 25000\<rparr>"

text \<open>The same heap with a table, and without it.\<close>

definition as_base :: "heap \<Rightarrow> hash_table_base" where
  "as_base s = \<lparr>data = data s, room = room s, live = live s, entries = []\<rparr>"

definition as_v1 :: "heap \<Rightarrow> hash_table_v1" where
  "as_v1 s = \<lparr>data = data s, room = room s, live = live s, entries = [], mutex = False\<rparr>"

definition as_v2 :: "heap \<Rightarrow> hash_table_v2" where
  "as_v2 s = \<lparr>data = data s, room = room s, live = live s, entries = [], write_mutexes = []\<rparr>"

definition base_part :: "arguments \<Rightarrow> (heap, u64) prog" where
  "base_part a = (\<lambda>s. case base_phase a (as_base s) of
     Inl e \<Rightarrow> Inl e | Inr (missing, t) \<Rightarrow> Inr (missing, heap.truncate t))"

text \<open>
  The keys, the table without locks, and the array of the threads.  Its allocation is not checked;
  but if it fails, so does that of the next table, and the assertion there ends the process.
\<close>

definition tester_setup :: "environment \<Rightarrow> (heap, arguments \<times> u64) prog" where
  "tester_setup env =
     bnd (lift (\<lambda>_. parse_options env)) (\<lambda>a.
     seq (generate a (rand_values env))
    (bnd (base_part a) (\<lambda>missing.
     bnd calloc (\<lambda>_.
     ret (a, missing)))))"

section \<open>Creating and joining threads\<close>

definition first_failure :: "(nat \<Rightarrow> int) \<Rightarrow> nat \<Rightarrow> nat option" where
  "first_failure err n = first_index (\<lambda>i. err i \<noteq> 0) [0..<n]"

definition work_before :: "arguments \<Rightarrow> nat \<Rightarrow> nat \<Rightarrow> (nat \<times> u32) list" where
  "work_before a i t = (if t < i then tester_work a t else [])"

text \<open>
  A call fails: \<open>main\<close> prints its result and returns it, while the threads created before it are
  somewhere in their work, unless one of them has crashed first.  A failing \<open>pthread_join\<close> is
  reached when the threads before it are done.
\<close>

inductive threads_fail ::
  "(u8 list \<Rightarrow> nat) \<Rightarrow> arguments \<Rightarrow> (nat \<Rightarrow> int) \<Rightarrow> (nat \<Rightarrow> int) \<Rightarrow> buckets \<Rightarrow> stop + line \<times> int \<Rightarrow> bool"
  for lock_of a creates joins s where
  create_fails: "first_failure creates (unat (threads a)) = Some i \<Longrightarrow>
    run lock_of (unat (threads a)) (started s (work_before a i)) c \<Longrightarrow> \<forall>t. pcs c t \<noteq> Crashed \<Longrightarrow>
    threads_fail lock_of a creates joins s (Inr (Create_failed (creates i), creates i))"
| create_crash: "first_failure creates (unat (threads a)) = Some i \<Longrightarrow>
    run lock_of (unat (threads a)) (started s (work_before a i)) c \<Longrightarrow> pcs c t = Crashed \<Longrightarrow>
    threads_fail lock_of a creates joins s (Inl Fault)"
| join_fails: "first_failure creates (unat (threads a)) = None \<Longrightarrow>
    first_failure joins (unat (threads a)) = Some j \<Longrightarrow>
    run lock_of (unat (threads a)) (started s (tester_work a)) c \<Longrightarrow> \<forall>t. pcs c t \<noteq> Crashed \<Longrightarrow>
    \<forall>t < j. todo c t = [] \<Longrightarrow>
    threads_fail lock_of a creates joins s (Inr (Join_failed (joins j), joins j))"
| join_crash: "first_failure creates (unat (threads a)) = None \<Longrightarrow>
    first_failure joins (unat (threads a)) = Some j \<Longrightarrow>
    run lock_of (unat (threads a)) (started s (tester_work a)) c \<Longrightarrow> pcs c t = Crashed \<Longrightarrow>
    threads_fail lock_of a creates joins s (Inl Fault)"

inductive_cases threads_failE: "threads_fail lock_of a creates joins s r"

definition all_succeed :: "(nat \<Rightarrow> int) \<Rightarrow> (nat \<Rightarrow> int) \<Rightarrow> arguments \<Rightarrow> bool" where
  "all_succeed creates joins a \<longleftrightarrow>
     first_failure creates (unat (threads a)) = None \<and> first_failure joins (unat (threads a)) = None"

text \<open>A phase with threads: why it stops, the line and status of a failure, or what it leaves.\<close>

inductive v1_part :: "environment \<Rightarrow> arguments \<Rightarrow> hash_table_v1 \<Rightarrow>
    stop + (line \<times> int + u64 \<times> hash_table_v1) \<Rightarrow> bool" for env a s where
  v1_no_table: "hash_table_v1_create s = Inl e \<Longrightarrow> v1_part env a s (Inl e)"
| v1_fails: "hash_table_v1_create s = Inr ((), s0) \<Longrightarrow>
    threads_fail (\<lambda>_. 0) a (creates1 env) (joins1 env) (buckets.truncate s0) r \<Longrightarrow>
    v1_part env a s (map_sum id Inl r)"
| v1_succeeds: "all_succeed (creates1 env) (joins1 env) a \<Longrightarrow> v1_phase a s r \<Longrightarrow>
    v1_part env a s (map_sum id Inr r)"

inductive v2_part :: "environment \<Rightarrow> arguments \<Rightarrow> hash_table_v2 \<Rightarrow>
    stop + (line \<times> int + u64 \<times> hash_table_v2) \<Rightarrow> bool" for env a s where
  v2_no_table: "hash_table_v2_create s = Inl e \<Longrightarrow> v2_part env a s (Inl e)"
| v2_fails: "hash_table_v2_create s = Inr ((), s0) \<Longrightarrow>
    threads_fail bucket_of a (creates2 env) (joins2 env) (buckets.truncate s0) r \<Longrightarrow>
    v2_part env a s (map_sum id Inl r)"
| v2_succeeds: "all_succeed (creates2 env) (joins2 env) a \<Longrightarrow> v2_phase a s r \<Longrightarrow>
    v2_part env a s (map_sum id Inr r)"

inductive_cases v1_partE: "v1_part env a s r"
inductive_cases v2_partE: "v2_part env a s r"

section \<open>The whole of main\<close>

definition base_lines :: "environment \<Rightarrow> u64 \<Rightarrow> line list" where
  "base_lines env missing =
     [Time ''Generation'' (elapsed env 0), Time ''Hash table base'' (elapsed env 1), Missing missing]"

definition v1_lines :: "environment \<Rightarrow> u64 \<Rightarrow> line list" where
  "v1_lines env missing = [Time ''Hash table v1'' (elapsed env 2), Missing missing]"

definition v2_lines :: "environment \<Rightarrow> u64 \<Rightarrow> line list" where
  "v2_lines env missing = [Time ''Hash table v2'' (elapsed env 3), Missing missing]"

inductive tester_main :: "environment \<Rightarrow> heap \<Rightarrow> stop + line list \<times> int \<Rightarrow> bool" for env s where
  setup_stops: "tester_setup env s = Inl e \<Longrightarrow> tester_main env s (Inl e)"
| v1_stop: "tester_setup env s = Inr ((a, m0), s1) \<Longrightarrow> v1_part env a (as_v1 s1) (Inl e) \<Longrightarrow>
    tester_main env s (Inl e)"
| v1_return: "tester_setup env s = Inr ((a, m0), s1) \<Longrightarrow>
    v1_part env a (as_v1 s1) (Inr (Inl (l, status))) \<Longrightarrow>
    tester_main env s (Inr (base_lines env m0 @ [l], status))"
| v2_stop: "tester_setup env s = Inr ((a, m0), s1) \<Longrightarrow>
    v1_part env a (as_v1 s1) (Inr (Inr (m1, s2))) \<Longrightarrow>
    v2_part env a (as_v2 (heap.truncate s2)) (Inl e) \<Longrightarrow> tester_main env s (Inl e)"
| v2_return: "tester_setup env s = Inr ((a, m0), s1) \<Longrightarrow>
    v1_part env a (as_v1 s1) (Inr (Inr (m1, s2))) \<Longrightarrow>
    v2_part env a (as_v2 (heap.truncate s2)) (Inr (Inl (l, status))) \<Longrightarrow>
    tester_main env s (Inr (base_lines env m0 @ v1_lines env m1 @ [l], status))"
| finishes: "tester_setup env s = Inr ((a, m0), s1) \<Longrightarrow>
    v1_part env a (as_v1 s1) (Inr (Inr (m1, s2))) \<Longrightarrow>
    v2_part env a (as_v2 (heap.truncate s2)) (Inr (Inr (m2, s3))) \<Longrightarrow>
    seq free free (heap.truncate s3) = Inr ((), s4) \<Longrightarrow>
    tester_main env s (Inr (base_lines env m0 @ v1_lines env m1 @ v2_lines env m2, 0))"

inductive_cases tester_mainE: "tester_main env s r"

section \<open>Keys that differ\<close>

definition distinct_letters :: "(nat \<Rightarrow> nat) \<Rightarrow> nat \<Rightarrow> bool" where
  "distinct_letters rand n \<longleftrightarrow>
     (\<forall>g < n. \<forall>h < n. map (letter rand g) [0..<7] = map (letter rand h) [0..<7] \<longrightarrow> g = h)"

lemma row_column_unique:
  fixes i j t u S :: nat
  assumes "t * S + i = u * S + j" "i < S" "j < S"
  shows "t = u \<and> i = j"
proof -
  have "(t * S + i) div S = t" "(t * S + i) mod S = i" "(u * S + j) div S = u" "(u * S + j) mod S = j"
    using assms(2,3) by simp_all
  then show ?thesis using assms(1) by metis
qed

lemma generated_ready:
  assumes fits: "unat (threads a) * unat (size' a) < 2 ^ 32"
    and keys: "distinct_letters rand (unat (threads a) * unat (size' a))"
    and strings: "\<forall>i < unat (threads a). \<forall>j < unat (size' a).
       cstring (data s) (get_string (get_global_index a (of_nat i) (of_nat j))) =
         Some (map (letter rand (i * unat (size' a) + j)) [0..<7])"
    and room: "unat (threads a) * unat (size' a) < room s"
  shows "tester_ready a s"
proof -
  let ?S = "unat (size' a)"
  have len: "length (tester_strings a) = unat (threads a) * ?S"
    by (simp add: tester_strings_def length_concat comp_def sum_list_triv)
  have work: "cstring (data s) (fst (tester_work a t ! i)) = Some (map (letter rand (t * ?S + i)) [0..<7]) \<and>
      t * ?S + i < unat (threads a) * ?S \<and> i < ?S"
    if "t < unat (threads a)" "i < length (tester_work a t)" for t i
    using that strings global_index_fits(2) [OF _ _ fits] by (simp add: tester_work_def Let_def)
  have "distinct_keys (data s) (unat (threads a)) (tester_work a)"
    unfolding distinct_keys_def
  proof (intro allI impI)
    fix t u i j
    assume t: "t < unat (threads a)" "i < length (tester_work a t)"
      and u: "u < unat (threads a)" "j < length (tester_work a u)"
      and eq: "cstring (data s) (fst (tester_work a t ! i)) = cstring (data s) (fst (tester_work a u ! j))"
    then have "t * ?S + i = u * ?S + j"
      using work [OF t] work [OF u] keys by (simp add: distinct_letters_def)
    then show "t = u \<and> i = j" using row_column_unique work [OF t] work [OF u] by blast
  qed
  moreover have "\<forall>p \<in> set (tester_strings a). cstring (data s) p \<noteq> None"
    using strings by (fastforce simp: tester_strings_def)
  ultimately show ?thesis using len room by (simp add: tester_ready_def)
qed

section \<open>The parts succeed\<close>

lemma heap_views [simp]:
  "data (as_base s) = data s" "room (as_base s) = room s" "live (as_base s) = live s"
  "data (as_v1 s) = data s" "room (as_v1 s) = room s" "live (as_v1 s) = live s"
  "data (as_v2 s) = data s" "room (as_v2 s) = room s" "live (as_v2 s) = live s"
  "data (heap.truncate t) = data t" "room (heap.truncate t) = room t" "live (heap.truncate t) = live t"
  by (simp_all add: as_base_def as_v1_def as_v2_def heap.defs)

text \<open>What the theorems assume of the options, of \<open>rand\<close> and of the memory.\<close>

definition good_start :: "environment \<Rightarrow> arguments \<Rightarrow> heap \<Rightarrow> bool" where
  "good_start env a s \<longleftrightarrow> parse_options env = Inr a \<and>
     unat (threads a) * unat (size' a) < 2 ^ 32 \<and>
     distinct_letters (rand_values env) (unat (threads a) * unat (size' a)) \<and>
     unat (threads a) * unat (size' a) + 2 < room s"

lemma setup_ok:
  assumes "good_start env a s"
  shows "\<exists>s1. tester_setup env s = Inr ((a, 0), s1) \<and> tester_ready a s1 \<and> live s1 = live s + 2"
proof -
  let ?n = "unat (threads a) * unat (size' a)"
  have fits: "?n < 2 ^ 32" and room: "?n + 2 < room s" and parse: "parse_options env = Inr a"
    and keys: "distinct_letters (rand_values env) ?n"
    using assms by (simp_all add: good_start_def)
  obtain s' where g: "generate a (rand_values env) s = Inr ((), s')"
      "room s' = room s - 1" "live s' = live s + 1"
      "\<forall>i < unat (threads a). \<forall>j < unat (size' a).
         cstring (data s') (get_string (get_global_index a (of_nat i) (of_nat j))) =
           Some (map (letter (rand_values env) (i * unat (size' a) + j)) [0..<7])"
    using generate_ok [OF fits, of s "rand_values env"] room by auto
  have ready: "tester_ready a t" if "data t = data s'" "?n < room t" for t :: "'b heap_scheme"
    using that g(4) by (intro generated_ready [OF fits keys]) simp_all
  have "tester_ready a (as_base s')" using g(2) room by (intro ready) simp_all
  then obtain t where t: "base_phase a (as_base s') = Inr (0, t)" "data t = data s'" "room t = room s'"
      "live t = live s'"
    using base_phase_ok [of a "as_base s'"] by (auto simp: tester_ready_def)
  then have base: "base_part a s' = Inr (0, heap.truncate t)" by (simp add: base_part_def)
  define s1 where "s1 = (heap.truncate t)\<lparr>room := room t - 1, live := live t + 1\<rparr>"
  have s1: "calloc (heap.truncate t) = Inr (True, s1)" "data s1 = data s'" "room s1 = room s' - 1"
      "live s1 = live s' + 1"
    using t g(2) room by (simp_all add: calloc_def s1_def)
  have "tester_ready a s1" using s1 g(2) room by (intro ready) simp_all
  moreover have "tester_setup env s = Inr ((a, 0), s1)"
    using g(1) base s1(1) parse by (simp add: tester_setup_def lift_apply bnd_apply seq_apply)
  ultimately show ?thesis using s1(4) g(3) by simp
qed

lemma first_failure_None: "first_failure err n = None \<longleftrightarrow> (\<forall>i < n. err i = 0)"
  by (auto simp: first_failure_def first_index_None_iff)

lemma all_succeedD: "all_succeed creates joins a \<Longrightarrow> \<not> threads_fail lock_of a creates joins s r"
  by (auto simp: all_succeed_def elim: threads_failE)

lemma ready_cong: "data t = data s \<Longrightarrow> room t = room s \<Longrightarrow> tester_ready a t = tester_ready a s"
  by (simp add: tester_ready_def)

lemma v1_part_ok:
  assumes ready: "tester_ready a s" and ok: "all_succeed (creates1 env) (joins1 env) a"
  shows "(\<exists>r. v1_part env a s r) \<and>
    (\<forall>r. v1_part env a s r \<longrightarrow> (\<exists>s'. r = Inr (Inr (0, s')) \<and> data s' = data s \<and> live s' = live s \<and>
      room s' = room s))"
proof
  note phase = v1_phase_ok [OF ready]
  show "\<exists>r. v1_part env a s r" using phase v1_succeeds [OF ok] by blast
  have create: "hash_table_v1_create s \<noteq> Inl e" for e
    using v1_create [of s] ready by (auto simp: tester_ready_def)
  show "\<forall>r. v1_part env a s r \<longrightarrow> (\<exists>s'. r = Inr (Inr (0, s')) \<and> data s' = data s \<and> live s' = live s \<and>
      room s' = room s)"
    using phase create all_succeedD [OF ok] by (fastforce elim!: v1_partE)
qed

lemma v2_part_undefined:
  assumes ready: "tester_ready a s" and ok: "all_succeed (creates2 env) (joins2 env) a"
  shows "(\<exists>r. v2_part env a s r) \<and> (\<forall>r. v2_part env a s r \<longrightarrow> r = Inl Undefined)"
proof
  note phase = v2_phase_ok [OF ready]
  show "\<exists>r. v2_part env a s r" using phase v2_succeeds [OF ok] by blast
  have create: "hash_table_v2_create s \<noteq> Inl e" for e
    using v2_create [of s] ready by (auto simp: tester_ready_def)
  show "\<forall>r. v2_part env a s r \<longrightarrow> r = Inl Undefined"
    using phase create all_succeedD [OF ok] by (fastforce elim!: v2_partE)
qed

lemma main_undefined:
  assumes start: "good_start env a s" and ok: "all_succeed (creates1 env) (joins1 env) a"
    "all_succeed (creates2 env) (joins2 env) a"
  shows "\<exists>r. tester_main env s r" "tester_main env s r \<Longrightarrow> r = Inl Undefined"
    and "\<exists>s1. tester_setup env s = Inr ((a, 0), s1) \<and>
      (\<exists>t0. hash_table_v1_create (as_v1 s1) = Inr ((), t0) \<and> always_ends (\<lambda>_. 0) a (buckets.truncate t0)) \<and>
      (\<forall>m s2. v1_part env a (as_v1 s1) (Inr (Inr (m, s2))) \<longrightarrow>
        (\<exists>t0. hash_table_v2_create (as_v2 (heap.truncate s2)) = Inr ((), t0) \<and>
          always_ends bucket_of a (buckets.truncate t0)))"
proof -
  obtain s1 where s1: "tester_setup env s = Inr ((a, 0), s1)" "tester_ready a (as_v1 s1)"
    using setup_ok [OF start] ready_cong [of "as_v1 _"] by force
  note one = v1_part_ok [OF s1(2) ok(1)]
  have ready2: "tester_ready a (as_v2 (heap.truncate t))" if "v1_part env a (as_v1 s1) (Inr (Inr (m, t)))" for m t
  proof -
    have "data t = data (as_v1 s1)" "room t = room (as_v1 s1)" using one that by fastforce+
    then show ?thesis using s1(2) by (subst ready_cong [of _ "as_v1 s1"]) simp_all
  qed
  note two = v2_part_undefined [OF ready2 ok(2)]
  obtain t where t: "v1_part env a (as_v1 s1) (Inr (Inr (0, t)))" using one by fastforce
  then show "\<exists>r. tester_main env s r" using two [OF t] v2_stop [OF s1(1) t] by blast
  show "tester_main env s r \<Longrightarrow> r = Inl Undefined"
    using s1(1) one two by (fastforce elim!: tester_mainE)
  have new: "\<exists>t0. hash_table_v1_create u = Inr ((), t0) \<and> always_ends (\<lambda>_. 0) a (buckets.truncate t0)"
    if "tester_ready a u" for u
    using v1_created_fresh [of u] tester_ends [OF that, of "\<lambda>_. 0"] that by (force simp: tester_ready_def)
  have new2: "\<exists>t0. hash_table_v2_create u = Inr ((), t0) \<and> always_ends bucket_of a (buckets.truncate t0)"
    if "tester_ready a u" for u
    using v2_created_fresh [of u] tester_ends [OF that, of bucket_of] that by (force simp: tester_ready_def)
  show "\<exists>s1. tester_setup env s = Inr ((a, 0), s1) \<and>
      (\<exists>t0. hash_table_v1_create (as_v1 s1) = Inr ((), t0) \<and> always_ends (\<lambda>_. 0) a (buckets.truncate t0)) \<and>
      (\<forall>m s2. v1_part env a (as_v1 s1) (Inr (Inr (m, s2))) \<longrightarrow>
        (\<exists>t0. hash_table_v2_create (as_v2 (heap.truncate s2)) = Inr ((), t0) \<and>
          always_ends bucket_of a (buckets.truncate t0)))"
    using s1 new new2 ready2 by blast
qed

section \<open>A thread that cannot be created\<close>

lemma distinct_keys_before:
  "distinct_keys buf n w \<Longrightarrow> distinct_keys buf n (\<lambda>t. if t < i then w t else [])"
  by (auto simp: distinct_keys_def)

text \<open>The threads created before the failure do not crash, so \<open>main\<close> returns the error.\<close>

lemma create_fails_only:
  assumes ready: "tester_ready a s" and fail: "first_failure creates (unat (threads a)) = Some i"
    and run: "run (\<lambda>_. 0) (unat (threads a)) (started (fresh_table s) (work_before a i)) c"
  shows "pcs c t \<noteq> Crashed"
proof (rule v1_locking.completes(2) [OF _ _ _ _ _ run])
  note start = tester_start [OF ready]
  show "buckets_inv (fresh_table s)" "buckets_abs (fresh_table s) = Map.empty" by (fact start)+
  show "\<forall>t. strings_ok (data (fresh_table s)) (work_before a i t)"
    using start(2) by (auto simp: work_before_def strings_ok_def)
  show "distinct_keys (data (fresh_table s)) (unat (threads a)) (work_before a i)"
    unfolding work_before_def [abs_def] by (rule distinct_keys_before [OF start(4)])
  have "(\<Sum>t < unat (threads a). length (work_before a i t)) \<le> (\<Sum>t < unat (threads a). length (tester_work a t))"
    by (rule sum_mono) (simp add: work_before_def)
  then show "(\<Sum>t < unat (threads a). length (work_before a i t)) \<le> room (fresh_table s)"
    using start(5) by simp
qed

lemma main_create_fails:
  assumes start: "good_start env a s" and fail: "first_failure (creates1 env) (unat (threads a)) = Some i"
  shows "(\<exists>r. tester_main env s r) \<and> (\<forall>r. tester_main env s r \<longrightarrow>
    r = Inr (base_lines env 0 @ [Create_failed (creates1 env i)], creates1 env i))"
proof
  obtain s1 where s1: "tester_setup env s = Inr ((a, 0), s1)" "tester_ready a (as_v1 s1)"
    using setup_ok [OF start] ready_cong [of "as_v1 _"] by force
  then have room: "room (as_v1 s1) \<noteq> 0" unfolding tester_ready_def by auto
  let ?t = "fresh_table (as_v1 s1)"
  obtain s0 where s0: "hash_table_v1_create (as_v1 s1) = Inr ((), s0)" "buckets.truncate s0 = ?t"
    using v1_create [OF room] by (simp add: fresh_table_def buckets.defs)
  have safe: "pcs c t \<noteq> Crashed"
    if "run (\<lambda>_. 0) (unat (threads a)) (started ?t (work_before a i)) c" for c t
    using create_fails_only [OF s1(2) fail that] .
  have outcome: "v1_part env a (as_v1 s1) r \<longleftrightarrow>
      r = Inr (Inl (Create_failed (creates1 env i), creates1 env i))" for r
  proof
    assume "v1_part env a (as_v1 s1) r"
    then show "r = Inr (Inl (Create_failed (creates1 env i), creates1 env i))"
    proof cases
      case (v1_fails s0' r')
      then have "threads_fail (\<lambda>_. 0) a (creates1 env) (joins1 env) ?t r'" using s0 by simp
      then have "r' = Inr (Create_failed (creates1 env i), creates1 env i)"
        by cases (use fail safe in simp_all)
      then show ?thesis using v1_fails(1) by simp
    qed (use s0 fail in \<open>simp_all add: all_succeed_def\<close>)
  next
    assume r: "r = Inr (Inl (Create_failed (creates1 env i), creates1 env i))"
    show "v1_part env a (as_v1 s1) r"
      unfolding r using v1_fails [OF s0(1) create_fails [OF fail run.nothing]] by (simp add: started_def)
  qed
  then show "\<exists>r. tester_main env s r" using v1_return [OF s1(1)] by blast
  show "\<forall>r. tester_main env s r \<longrightarrow>
      r = Inr (base_lines env 0 @ [Create_failed (creates1 env i)], creates1 env i)"
  proof (intro allI impI)
    fix r assume "tester_main env s r"
    then show "r = Inr (base_lines env 0 @ [Create_failed (creates1 env i)], creates1 env i)"
      by cases (use s1(1) outcome in simp_all)
  qed
qed

end
