(* ===== verification/Pht_Properties.thy ===== *)
theory Pht_Properties
  imports Pht_Main
begin

text \<open>
  What the hash tables of \<open>pht/\<close> and their tester guarantee, as theorems about the functions of
  \<open>pht/src/\<close>.  The instance at which hypotheses hold is a buffer with two keys, that a tester
  with two threads of one key each has generated.
\<close>

section \<open>Two keys\<close>

definition two_keys :: "u8 list" where
  "two_keys = [65, 0, 0, 0, 0, 0, 0, 0, 66, 0, 0, 0, 0, 0, 0, 0]"

definition two_threads :: arguments where
  "two_threads = \<lparr>threads = 2, size' = 1\<rparr>"

definition new_base :: hash_table_base where
  "new_base = \<lparr>data = two_keys, room = 10, live = 0, entries = replicate HASH_TABLE_CAPACITY []\<rparr>"

definition new_v1 :: hash_table_v1 where
  "new_v1 = \<lparr>data = two_keys, room = 10, live = 0, entries = replicate HASH_TABLE_CAPACITY [], mutex = False\<rparr>"

definition new_v2 :: hash_table_v2 where
  "new_v2 = \<lparr>data = two_keys, room = 10, live = 0, entries = replicate HASH_TABLE_CAPACITY [],
    write_mutexes = replicate HASH_TABLE_CAPACITY False\<rparr>"

lemma two_keys_strings: "cstring two_keys 0 = Some [65]" "cstring two_keys 8 = Some [66]"
  by (simp_all add: two_keys_def cstring_def)

lemma new_simps [simp]:
  "data new_base = two_keys" "data new_v1 = two_keys" "data new_v2 = two_keys"
  "room new_base = 10" "room new_v1 = 10" "room new_v2 = 10"
  "mutex new_v1 = False"
  by (simp_all add: new_base_def new_v1_def new_v2_def)

lemma new_tables:
  "buckets_inv new_base" "buckets_inv new_v1" "v2_inv new_v2"
  "buckets_abs new_base = Map.empty" "buckets_abs new_v1 = Map.empty" "buckets_abs new_v2 = Map.empty"
  "v2_ready new_v2 k"
  using buckets_empty bucket_of_less [of k]
  by (simp_all add: new_base_def new_v1_def new_v2_def v2_inv_def buckets_inv_def buckets_abs_def
      v2_ready_def nth_replicate del: bucket_of_less)

lemma two_threads_work: "tester_work two_threads t =
    (if t = 0 then [(0, 0)] else if t = 1 then [(8, 1)] else [])"
  by (auto simp: tester_work_def two_threads_def get_global_index_def get_string_def)

lemma two_threads_strings: "tester_strings two_threads = [0, 8]"
  by (simp add: tester_strings_def two_threads_def get_global_index_def get_string_def upt_rec)

lemma two_threads_ready: "data s = two_keys \<Longrightarrow> 2 < room s \<Longrightarrow> tester_ready two_threads s"
  by (auto simp: tester_ready_def two_threads_strings two_keys_strings distinct_keys_def
      two_threads_work)

section \<open>The tables are maps\<close>

text \<open>
  \<open>bernstein_hash\<close> of a string of bytes \<open>c\<^sub>0, ..., c\<^sub>n\<^sub>-\<^sub>1\<close> is the sum of \<open>33 ^ (n - 1 - i) * c\<^sub>i\<close>
  in 32 bits, the bytes taken as signed; without a terminating NUL byte the loop leaves the buffer.
\<close>

theorem bernstein_hash_polynomial:
  "bernstein_hash buf p = (case cstring buf p of
      None \<Rightarrow> Inl Undefined
    | Some s \<Rightarrow> Inr (\<Sum>i < length s. 33 ^ (length s - Suc i) * scast (s ! i)))"
  by (simp add: bernstein_hash_eq string_hash_polynomial split: option.split)

text \<open>
  C25. The table without locks is a map from strings to numbers: \<open>add_entry\<close> sets the value of its
  key and fails only when a new key finds no memory; \<open>contains\<close> and \<open>get_value\<close> read the map, and
  \<open>get_value\<close> of a key that is not there fails its assertion.
\<close>

theorem base_table_refines_map:
  assumes "buckets_inv s" "cstring (data s) p = Some k"
  shows "(case hash_table_base_add_entry (Some p) v s of
      Inl e \<Rightarrow> e = Fault \<and> buckets_abs s k = None \<and> room s = 0
    | Inr (_, s') \<Rightarrow> buckets_inv s' \<and> buckets_abs s' = (buckets_abs s)(k \<mapsto> v) \<and> data s' = data s \<and>
        live s' + owned_by (entries s) = live s + owned_by (entries s')) \<and>
    hash_table_base_contains (Some p) s = Inr (buckets_abs s k \<noteq> None, s) \<and>
    hash_table_base_get_value (Some p) s =
      (case buckets_abs s k of None \<Rightarrow> Inl Assertion | Some v \<Rightarrow> Inr (v, s))"
  (is "?add \<and> ?contains \<and> ?get")
proof (intro conjI)
  show ?contains ?get by (rule base.contains_eq [OF assms], rule base.get_value_eq [OF assms])
  consider "buckets_abs s k = None" "room s = 0" | "buckets_abs s k = None" "0 < room s"
    | u where "buckets_abs s k = Some u" by fastforce
  then show ?add
  proof cases
    case 1
    then show ?thesis using base.add_no_memory [OF assms] by simp
  next
    case 2
    then show ?thesis using base.add_new [OF assms TrueI 2, of v] by auto
  next
    case 3
    then show ?thesis using base.add_old [OF assms TrueI 3, of v] by auto
  qed
qed

theorem base_table_refines_map_witness:
  "\<exists>s'. hash_table_base_add_entry (Some 0) 7 new_base = Inr ((), s') \<and> buckets_abs s' = [[65] \<mapsto> 7]"
  using base_table_refines_map [of new_base 0 "[65]" 7] new_tables(1,4) two_keys_strings(1)
  by (cases "hash_table_base_add_entry (Some 0) 7 new_base") auto

text \<open>
  C12. The table with one mutex is such a map too, for callers that find the mutex free, but its
  \<open>add_entry\<close> returns with the mutex locked exactly when it updates a key that was there, and then
  no later \<open>add_entry\<close> returns.
\<close>

theorem v1_table_refines_map:
  assumes "buckets_inv s" "cstring (data s) p = Some k"
  shows "(case hash_table_v1_add_entry (Some p) v s of
      Inl e \<Rightarrow> e = Blocked \<and> mutex s \<or> e = Fault \<and> \<not> mutex s \<and> buckets_abs s k = None \<and> room s = 0
    | Inr (_, s') \<Rightarrow> \<not> mutex s \<and> buckets_inv s' \<and> buckets_abs s' = (buckets_abs s)(k \<mapsto> v) \<and>
        (mutex s' \<longleftrightarrow> buckets_abs s k \<noteq> None)) \<and>
    hash_table_v1_contains (Some p) s = Inr (buckets_abs s k \<noteq> None, s) \<and>
    hash_table_v1_get_value (Some p) s =
      (case buckets_abs s k of None \<Rightarrow> Inl Assertion | Some v \<Rightarrow> Inr (v, s))"
  (is "?add \<and> ?contains \<and> ?get")
proof (intro conjI)
  show ?contains ?get by (rule v1.contains_eq [OF assms], rule v1.get_value_eq [OF assms])
  consider "mutex s" | "\<not> mutex s" "buckets_abs s k = None" "room s = 0"
    | "\<not> mutex s" "buckets_abs s k = None" "0 < room s"
    | u where "\<not> mutex s" "buckets_abs s k = Some u" by fastforce
  then show ?add
  proof cases
    case 1
    then show ?thesis using v1.add_waits [OF assms] by simp
  next
    case 2
    then show ?thesis using v1.add_no_memory [OF assms 2] by simp
  next
    case 3
    then show ?thesis using v1.add_new [OF assms 3, of v] by (auto simp: fun_eq_iff)
  next
    case 4
    then show ?thesis
      using v1.add_old [OF assms 4, of v] v1_update_keeps_lock [OF assms _ 4(1), of v] by auto
  qed
qed

theorem v1_table_refines_map_witness:
  "\<exists>s' s''. hash_table_v1_add_entry (Some 0) 7 new_v1 = Inr ((), s') \<and> \<not> mutex s' \<and>
     hash_table_v1_add_entry (Some 0) 8 s' = Inr ((), s'') \<and> mutex s'' \<and> buckets_abs s'' = [[65] \<mapsto> 8]"
proof -
  obtain s' where s': "hash_table_v1_add_entry (Some 0) 7 new_v1 = Inr ((), s')" "buckets_inv s'"
      "buckets_abs s' = [[65] \<mapsto> 7]" "data s' = two_keys" "\<not> mutex s'"
    using v1.add_new [OF new_tables(2), of 0 "[65]" 7] new_tables(5) two_keys_strings(1)
    by (auto simp: fun_eq_iff)
  have "cstring (data s') 0 = Some [65]" using s'(4) two_keys_strings(1) by simp
  from v1_table_refines_map [OF s'(2) this, of 8] show ?thesis
    using s' by (cases "hash_table_v1_add_entry (Some 0) 8 s'") auto
qed

text \<open>
  C13. The table with one mutex for each bucket is such a map for callers that find the mutex of
  their bucket free; an \<open>add_entry\<close> that updates a key leaves the mutex of its bucket locked, and
  no other.
\<close>

theorem v2_table_refines_map:
  assumes "v2_inv s" "cstring (data s) p = Some k"
  shows "(case hash_table_v2_add_entry (Some p) v s of
      Inl e \<Rightarrow> e = Blocked \<and> \<not> v2_ready s k \<or> e = Fault \<and> v2_ready s k \<and> buckets_abs s k = None \<and> room s = 0
    | Inr (_, s') \<Rightarrow> v2_ready s k \<and> v2_inv s' \<and> buckets_abs s' = (buckets_abs s)(k \<mapsto> v) \<and>
        (\<forall>j. v2_ready s' j \<longleftrightarrow> v2_ready s j \<and> (buckets_abs s k = None \<or> bucket_of j \<noteq> bucket_of k))) \<and>
    hash_table_v2_contains (Some p) s = Inr (buckets_abs s k \<noteq> None, s) \<and>
    hash_table_v2_get_value (Some p) s =
      (case buckets_abs s k of None \<Rightarrow> Inl Assertion | Some v \<Rightarrow> Inr (v, s))"
  (is "?add \<and> ?contains \<and> ?get")
proof (intro conjI)
  show ?contains ?get by (rule v2.contains_eq [OF assms], rule v2.get_value_eq [OF assms])
  consider "\<not> v2_ready s k" | "v2_ready s k" "buckets_abs s k = None" "room s = 0"
    | "v2_ready s k" "buckets_abs s k = None" "0 < room s"
    | u where "v2_ready s k" "buckets_abs s k = Some u" by fastforce
  then show ?add
  proof cases
    case 1
    then show ?thesis using v2.add_waits [OF assms] by simp
  next
    case 2
    then show ?thesis using v2.add_no_memory [OF assms 2] by simp
  next
    case 3
    then show ?thesis using v2.add_new [OF assms 3, of v] by auto
  next
    case 4
    then obtain s' where s': "hash_table_v2_add_entry (Some p) v s = Inr ((), s')" "v2_inv s'"
        "buckets_abs s' = (buckets_abs s)(k \<mapsto> v)" "data s' = data s"
      using v2.add_old [OF assms 4, of v] by blast
    have lock: "hash_table_v2_add_entry (Some p) v s' = Inl Blocked"
        "\<forall>j. bucket_of j \<noteq> bucket_of k \<longrightarrow> v2_ready s' j = v2_ready s j"
      using v2_update_keeps_lock [OF assms _ 4(1), of v] s'(1) 4(2) assms(2) by auto
    have "cstring (data s') p = Some k" "buckets_abs s' k = Some v" using s' assms(2) by simp_all
    then have "\<not> v2_ready s' k" using v2.add_old [OF s'(2), of p k v v] lock(1) by auto
    then have "v2_ready s' j \<longleftrightarrow> v2_ready s j \<and> bucket_of j \<noteq> bucket_of k" for j
      using lock(2) by (cases "bucket_of j = bucket_of k") (auto simp: v2_ready_def)
    then show ?thesis using s' 4 by simp
  qed
qed

theorem v2_table_refines_map_witness:
  "\<exists>s'. hash_table_v2_add_entry (Some 0) 7 new_v2 = Inr ((), s') \<and> buckets_abs s' = [[65] \<mapsto> 7] \<and>
     v2_ready s' [65]"
  using v2_table_refines_map [of new_v2 0 "[65]" 7] new_tables(3,6,7) two_keys_strings(1)
  by (cases "hash_table_v2_add_entry (Some 0) 7 new_v2") auto

section \<open>Threads\<close>

text \<open>
  C24. However the threads interleave, two of them are never inside \<open>add_entry\<close>'s critical section
  together: in the first variant at all, in the second on keys of the same bucket.
\<close>

theorem threads_exclude_each_other:
  assumes "buckets_inv s" "\<forall>t. strings_ok (data s) (work t)"
  shows "(run (\<lambda>_. 0) n (started s work) c \<longrightarrow> pcs c t \<noteq> Start \<longrightarrow> pcs c u \<noteq> Start \<longrightarrow> t = u) \<and>
    (run bucket_of n (started s work) c \<longrightarrow> pcs c t \<noteq> Start \<longrightarrow> pcs c u \<noteq> Start \<longrightarrow>
       at_key c t p k v rest \<longrightarrow> at_key c u p' k' v' rest' \<longrightarrow> bucket_of k = bucket_of k' \<longrightarrow> t = u)"
proof (intro conjI impI)
  assume run: "run (\<lambda>_. 0) n (started s work) c" and pc: "pcs c t \<noteq> Start" "pcs c u \<noteq> Start"
  have inv: "threads_inv (\<lambda>_. 0) work c"
    by (rule v1_locking.inv_run [OF run v1_locking.inv_started [OF assms]])
  then have "holder c 0 = Some t" "holder c 0 = Some u" using pc unfolding threads_inv_def by blast+
  then show "t = u" by simp
next
  assume run: "run bucket_of n (started s work) c" and rest: "pcs c t \<noteq> Start" "pcs c u \<noteq> Start"
    "at_key c t p k v rest" "at_key c u p' k' v' rest'" "bucket_of k = bucket_of k'"
  have inv: "threads_inv bucket_of work c"
    by (rule v2_locking.inv_run [OF run v2_locking.inv_started [OF assms]])
  show "t = u" by (rule v2_locking.exclusive [OF inv rest])
qed

lemma strings_two_threads: "\<forall>t. strings_ok two_keys (tester_work two_threads t)"
  by (auto simp: strings_ok_def two_threads_work two_keys_strings)

lemma two_threads_start:
  "at_key (started new_base (tester_work two_threads)) 0 0 [65] 0 []"
  by (simp add: at_key_def started_def two_threads_work two_keys_strings)

text \<open>A first step: thread 0 has the lock.\<close>

definition one_locked :: conf where
  "one_locked = go 0 Search ((started new_base (tester_work two_threads))\<lparr>holder := [0 \<mapsto> 0]\<rparr>)"

lemma one_locked_run: "run (\<lambda>_. 0) 2 (started new_base (tester_work two_threads)) one_locked"
proof -
  have "add_step (\<lambda>_. 0) 0 (started new_base (tester_work two_threads)) one_locked"
    using add_step.lock [OF two_threads_start, of "\<lambda>_. 0"] by (simp add: one_locked_def started_def)
  then show ?thesis by (rule run.further [OF run.nothing, rotated]) simp
qed

theorem threads_exclude_each_other_witness:
  "run (\<lambda>_. 0) 2 (started new_base (tester_work two_threads)) one_locked \<and>
     pcs one_locked 0 = Search \<and> pcs one_locked 1 = Start"
proof -
  have "pcs one_locked 0 = Search" by (simp add: one_locked_def)
  then show ?thesis
    using threads_exclude_each_other [OF new_tables(1), of "tester_work two_threads" 2 one_locked 1 0]
      strings_two_threads one_locked_run by auto
qed

text \<open>
  C8. The first variant in the tester: with distinct keys and memory for them the threads can always
  finish, and however they interleave, \<open>main\<close> finds no key missing and everything is freed.
\<close>

theorem v1_phase_prints_zero:
  assumes ready: "tester_ready a s"
  shows "(\<exists>r. v1_phase a s r) \<and>
    (\<forall>r. v1_phase a s r \<longrightarrow> (\<exists>s'. r = Inr (0, s') \<and> live s' = live s))"
  using v1_phase_ok [OF ready] by blast

theorem v1_phase_prints_zero_witness:
  "\<exists>s'. v1_phase two_threads new_v1 (Inr (0, s')) \<and> live s' = 0"
  using v1_phase_prints_zero [OF two_threads_ready, of new_v1] by (auto simp: new_v1_def)

text \<open>
  The second variant in the tester: under the same conditions the threads can always finish, but
  every outcome of the phase is undefined behaviour, because \<open>hash_table_v2_destroy\<close> frees the
  addresses of the mutexes, which were never allocated.
\<close>

theorem v2_phase_undefined:
  assumes ready: "tester_ready a s"
  shows "(\<exists>r. v2_phase a s r) \<and> (\<forall>r. v2_phase a s r \<longrightarrow> r = Inl Undefined)"
  using v2_phase_ok [OF ready] by blast

theorem v2_phase_undefined_witness: "v2_phase two_threads new_v2 (Inl Undefined)"
  using v2_phase_undefined [OF two_threads_ready, of new_v2] by auto

text \<open>
  Whatever keys the threads insert, repeated ones too: when all are done, every key is in the
  table, in both variants.
\<close>

theorem threads_lose_nothing:
  assumes "buckets_inv s" "\<forall>t. strings_ok (data s) (work t)" "(p, v) \<in> set (work t)" "t < n"
    and "cstring (data s) p = Some k" and run: "run (\<lambda>_. 0) n (started s work) c \<or> run bucket_of n (started s work) c"
    and fin: "all_done n c"
  shows "buckets_inv (shared c) \<and> table c k \<noteq> None"
  using run
proof
  assume run: "run (\<lambda>_. 0) n (started s work) c"
  show ?thesis
    using v1_locking.nothing_lost [OF assms(1,2) run fin assms(4,3)] run_data [OF run] assms(5)
      threads_invD(1) [OF v1_locking.inv_run [OF run v1_locking.inv_started [OF assms(1,2)]]]
    by (simp add: started_def)
next
  assume run: "run bucket_of n (started s work) c"
  show ?thesis
    using v2_locking.nothing_lost [OF assms(1,2) run fin assms(4,3)] run_data [OF run] assms(5)
      threads_invD(1) [OF v2_locking.inv_run [OF run v2_locking.inv_started [OF assms(1,2)]]]
    by (simp add: started_def)
qed

theorem threads_lose_nothing_witness:
  "\<exists>c. run bucket_of 2 (started new_base (tester_work two_threads)) c \<and> table c [66] \<noteq> None"
proof -
  have "distinct_keys (data new_base) 2 (tester_work two_threads)"
    by (auto simp: distinct_keys_def two_threads_work two_keys_strings)
  moreover have "(\<Sum>t < 2. length (tester_work two_threads t)) \<le> room new_base"
    by (simp add: two_threads_work lessThan_nat_numeral)
  ultimately obtain c where c: "run bucket_of 2 (started new_base (tester_work two_threads)) c" "all_done 2 c"
    using v2_locking.completes(1) [of new_base "tester_work two_threads" 2] new_tables(1,4) strings_two_threads
    by auto
  then show ?thesis
    using threads_lose_nothing [OF new_tables(1), of "tester_work two_threads" 8 1 1 2 "[66]" c]
      strings_two_threads two_threads_work two_keys_strings(2) by auto
qed

text \<open>
  C9. The threads end.  Distinct keys and memory for them: whoever runs next, in both variants no run
  of the threads of the tester is longer than five steps for each key, and a run that cannot go on
  has inserted everything.
\<close>

theorem threads_terminate:
  assumes ready: "tester_ready a s" and variant: "lock_of \<in> {\<lambda>_. 0, bucket_of}"
  defines "start \<equiv> started (fresh_table s) (tester_work a)" and "n \<equiv> unat (threads a)"
  assumes run: "run_steps lock_of n m start c"
  shows "m \<le> 5 * (n * unat (size' a)) \<and>
    (all_done n c \<or> (\<exists>t c'. t < n \<and> add_step lock_of t c c'))"
  using always_endsD [OF tester_ends [OF ready variant] run [unfolded n_def start_def]] by (simp add: n_def)

theorem threads_terminate_witness:
  "\<exists>c. run_steps (\<lambda>_. 0) 2 1 (started (fresh_table new_base) (tester_work two_threads)) c \<and>
     (1 :: nat) \<le> 10 \<and> (\<exists>t c'. t < 2 \<and> add_step (\<lambda>_. 0) t c c')"
proof -
  let ?start = "started (fresh_table new_base) (tester_work two_threads)"
  let ?c = "go 0 Search (?start\<lparr>holder := (holder ?start)(0 \<mapsto> 0)\<rparr>)"
  have "at_key ?start 0 0 [65] 0 []"
    using two_threads_start by (simp add: at_key_def started_def)
  then have "add_step (\<lambda>_. 0) 0 ?start ?c"
    using add_step.lock [of ?start 0 0 "[65]" 0 "[]" "\<lambda>_. 0"] by (simp add: started_def)
  then have run: "run_steps (\<lambda>_. 0) 2 1 ?start ?c"
    unfolding One_nat_def by (rule run_steps.one_step [OF run_steps.no_step, rotated]) simp
  have "\<not> all_done 2 ?c" by (auto simp: all_done_def started_def two_threads_work)
  then show ?thesis
    using threads_terminate [OF two_threads_ready [of new_base], of "\<lambda>_. 0" 1 ?c] run
    by (auto simp: two_threads_def new_base_def)
qed

text \<open>
  C28. Once a thread of the first variant has updated a key that was there, the mutex stays locked:
  if any thread still has a key to insert, then in no continuation are all threads done.
\<close>

theorem v1_update_deadlocks:
  assumes "buckets_inv s" "\<forall>t. strings_ok (data s) (work t)"
    and before: "run (\<lambda>_. 0) n (started s work) c" and pc: "pcs c t = Update m"
    and step: "add_step (\<lambda>_. 0) t c c'" and waits: "u < n" "todo c' u \<noteq> []"
    and after: "run (\<lambda>_. 0) n c' c''"
  shows "\<not> all_done n c''"
proof -
  have inv: "threads_inv (\<lambda>_. 0) work c"
    by (rule v1_locking.inv_run [OF before v1_locking.inv_started [OF assms(1,2)]])
  then obtain p k v rest where key: "at_key c t p k v rest"
    using pc unfolding threads_inv_def by (metis pc.distinct(3))
  have leak: "leaked (\<lambda>_. 0) 0 t c'" by (rule v1_locking.update_leaks [OF inv key pc step])
  have inv': "threads_inv (\<lambda>_. 0) work c'" by (rule v1_locking.inv_preserved [OF step inv])
  obtain x where x: "x \<in> set (todo c' u)" using waits(2) by (cases "todo c' u") auto
  then obtain i where i: "i < length (todo c' u)" "todo c' u ! i = x" by (auto simp: in_set_conv_nth)
  then obtain j where "cstring (data (shared c')) (fst x) = Some j"
    using v1_locking.todo_strings [OF inv' i(1)] by auto
  then have "waits_for (\<lambda>_. 0) 0 c' x" by (simp add: waits_for_def)
  then have "x \<in> set (todo c'' u)"
    using v1_locking.leaked_forever [OF after inv' leak x] by simp
  then show ?thesis using waits(1) by (auto simp: all_done_def)
qed

theorem v1_update_deadlocks_witness:
  "\<exists>s c'. run (\<lambda>_. 0) 1 (started s (\<lambda>t. if t = 0 then [(0, 1), (8, 2)] else [])) c' \<and> todo c' 0 = [(8, 2)] \<and>
     (\<forall>c''. run (\<lambda>_. 0) 1 c' c'' \<longrightarrow> \<not> all_done 1 c'')"
proof -
  let ?work = "\<lambda>t :: nat. if t = 0 then [(0, 1), (8, 2)] else [] :: (nat \<times> u32) list"
  let ?lock = "\<lambda>_ :: u8 list. 0 :: nat"
  obtain s :: hash_table_base
    where s: "buckets_inv s" "buckets_abs s = [[65] \<mapsto> 7]" "data s = two_keys"
    using base.add_new [OF new_tables(1), of 0 "[65]" 7] new_tables(4) two_keys_strings(1) by auto
  then obtain m where m: "find_in (bucket_of [65]) (Some 0) s = Inr (Some m, s)"
    using find_in_eq [OF s(1), of 0 "[65]"] two_keys_strings(1) buckets_abs_first [of s "[65]"]
    by (cases "first_index (\<lambda>e. entry_string two_keys e = [65]) (entries s ! bucket_of [65])") auto
  define c0 where "c0 = started s ?work"
  define c1 where "c1 = go 0 Search (c0\<lparr>holder := (holder c0)(0 \<mapsto> 0)\<rparr>)"
  define c2 where "c2 = go 0 (Update m) c1"
  have key: "at_key c0 0 0 [65] 1 [(8, 2)]" "at_key c1 0 0 [65] 1 [(8, 2)]" "at_key c2 0 0 [65] 1 [(8, 2)]"
    using s(3) two_keys_strings(1) by (simp_all add: at_key_def c0_def c1_def c2_def started_def)
  have "add_step ?lock 0 c0 c1" unfolding c1_def
    using add_step.lock [OF key(1), of ?lock] by (simp add: c0_def started_def)
  moreover have "add_step ?lock 0 c1 c2" unfolding c2_def
    using m by (intro add_step.found [OF key(2)]) (simp_all add: c1_def c0_def started_def)
  ultimately have run: "run ?lock 1 c0 c2" by (meson run.intros less_one)
  obtain c' where step: "add_step ?lock 0 c2 c'" and "todo c' 0 = [(8, 2)]"
    using add_step.update [OF key(3) _ refl, of m ?lock] by (simp add: c2_def c1_def c0_def started_def)
  moreover have "\<forall>t. strings_ok (data s) (?work t)" by (auto simp: strings_ok_def s(3) two_keys_strings)
  moreover have "pcs c2 0 = Update m" by (simp add: c2_def)
  ultimately have "\<not> all_done 1 c''" if "run ?lock 1 c' c''" for c''
    using v1_update_deadlocks [OF s(1) _ run [unfolded c0_def] _ step _ _ that, of m 0] by simp
  moreover have "run ?lock 1 (started s ?work) c'"
    using run.further [OF run _ step] by (simp add: c0_def)
  ultimately show ?thesis using \<open>todo c' 0 = [(8, 2)]\<close> by blast
qed

section \<open>The tester\<close>

text \<open>
  C39. \<open>parse_uint32_t\<close> accepts exactly the strings of at most ten decimal digits whose value fits
  32 bits, and returns that value; all others end the program with \<open>EINVAL\<close>.  (The empty string
  is 0.)
\<close>

theorem parse_uint32_t_accepts:
  assumes "cstring buf string = Some s"
  shows "parse_uint32_t buf string =
    (if list_all digit s \<and> length s \<le> 10 \<and> foldl (\<lambda>n c. 10 * n + (unat c - 48)) 0 s < 2 ^ 32
     then Inr (of_nat (foldl (\<lambda>n c. 10 * n + (unat c - 48)) 0 s)) else Inl (Exit EINVAL))"
  using parse_uint32_t_eq [OF assms] by (simp add: decimal_from_def)

theorem parse_uint32_t_accepts_witness:
  "parse_uint32_t [0x34, 0x32, 0] 0 = Inr 42 \<and> parse_uint32_t [0x34, 0x2D, 0] 0 = Inl (Exit EINVAL)"
proof
  have "cstring [0x34, 0x32, 0] 0 = Some [0x34, 0x32]" "cstring [0x34, 0x2D, 0] 0 = Some [0x34, 0x2D]"
    by (simp_all add: cstring_def)
  note eq = this [THEN parse_uint32_t_accepts]
  show "parse_uint32_t [0x34, 0x32, 0] 0 = Inr 42" unfolding eq by (simp add: digit_def)
  show "parse_uint32_t [0x34, 0x2D, 0] 0 = Inl (Exit EINVAL)" unfolding eq by (simp add: digit_def)
qed

text \<open>
  C40. While the number of strings fits 32 bits and there is memory, generation stays inside the
  buffer and every pointer that the phases use is to a string of seven letters taken from \<open>rand\<close> in
  order.  Without memory the first write goes through the null pointer that \<open>calloc\<close> returned.
\<close>

theorem generate_fills_buffer:
  fixes s :: "'a heap_scheme"
  assumes "unat (threads a) * unat (size' a) < 2 ^ 32"
  shows "if 0 < room s then \<exists>s'. generate a rand s = Inr ((), s') \<and>
      length (data s') = 8 * (unat (threads a) * unat (size' a)) \<and>
      (\<forall>i < unat (threads a). \<forall>j < unat (size' a).
         cstring (data s') (get_string (get_global_index a (of_nat i) (of_nat j))) =
           Some (map (\<lambda>k. random_letter (rand (7 * (i * unat (size' a) + j) + k))) [0..<7]))
    else threads a = 0 \<or> size' a = 0 \<or> generate a rand s = Inl Undefined"
proof (cases "0 < room s")
  case True
  then show ?thesis using generate_ok [OF assms True, of rand] unfolding letter_def [abs_def] by auto
next
  case False
  then show ?thesis using generate_no_memory [of s a rand] by auto
qed

theorem generate_fills_buffer_witness:
  "\<exists>s' :: heap. generate two_threads (\<lambda>m. m) \<lparr>data = [], room = 1, live = 0\<rparr> = Inr ((), s') \<and> length (data s') = 16"
  using generate_fills_buffer [of two_threads "\<lparr>data = [], room = 1, live = 0\<rparr>" "\<lambda>m. m"]
  by (auto simp: two_threads_def)

text \<open>
  The number of strings is computed in 32 bits: with 65536 threads of 65536 keys the buffer has no
  bytes, and generation writes past its end at once.
\<close>

theorem generate_overflows:
  "generate \<lparr>threads = 65536, size' = 65536\<rparr> rand s = Inl Undefined"
proof -
  obtain s' where s': "allocate_data \<lparr>threads = 65536, size' = 65536\<rparr> s = Inr ((), s')" "data s' = []"
    by (cases "room s = 0") (auto simp: allocate_data_def bnd_apply calloc_def)
  then show ?thesis
    using first_key_undefined [of "\<lparr>threads = 65536, size' = 65536\<rparr>" s' rand] by (simp add: generate_def)
qed

text \<open>
  The phase of the table without locks: it finds no key missing, repeated keys or not, and frees
  all that it allocated.
\<close>

theorem base_phase_prints_zero:
  assumes "\<forall>p \<in> set (tester_strings a). cstring (data s) p \<noteq> None"
    and "length (tester_strings a) < room s"
  shows "\<exists>s'. base_phase a s = Inr (0, s') \<and> live s' = live s"
  using base_phase_ok [OF assms] by blast

theorem base_phase_prints_zero_witness:
  "\<exists>s'. base_phase two_threads new_base = Inr (0, s') \<and> live s' = 0"
  using base_phase_prints_zero [of two_threads new_base]
  by (simp add: two_threads_strings two_keys_strings new_base_def)

section \<open>The whole of main\<close>

text \<open>Two threads with one key each, asked for on the command line; every call succeeds.\<close>

definition two_environment :: environment where
  "two_environment = \<lparr>options = [(CHR ''t'', 0), (CHR ''s'', 2)], argument_bytes = [0x32, 0, 0x31, 0],
     rand_values = (\<lambda>m. m), clock = (\<lambda>k. \<lparr>tv_sec = int k, tv_usec = 0\<rparr>),
     creates1 = (\<lambda>i. 0), joins1 = (\<lambda>i. 0), creates2 = (\<lambda>i. 0), joins2 = (\<lambda>i. 0)\<rparr>"

definition some_heap :: heap where
  "some_heap = \<lparr>data = [], room = 10, live = 0\<rparr>"

lemma two_parse: "parse_options (two_environment\<lparr>creates1 := f\<rparr>) = Inr two_threads"
proof -
  have "cstring [0x32, 0, 0x31, 0] 0 = Some [0x32]" "cstring [0x32, 0, 0x31, 0] 2 = Some [0x31]"
    by (simp_all add: cstring_def)
  note eq = this [THEN parse_uint32_t_eq]
  show ?thesis
    by (simp add: parse_options_def two_environment_def parse_opt_def eq digit_def decimal_from_def two_threads_def)
qed

lemma two_start: "good_start (two_environment\<lparr>creates1 := f\<rparr>) two_threads some_heap"
proof -
  have "letter (\<lambda>m. m) 0 0 = 65" "letter (\<lambda>m. m) 1 0 = 72" by (simp_all add: letter_def random_letter_def)
  then have first: "map (letter (\<lambda>m. m) 0) [0..<7] \<noteq> map (letter (\<lambda>m. m) 1) [0..<7]"
    by (simp add: upt_rec)
  have "distinct_letters (\<lambda>m. m) 2"
    unfolding distinct_letters_def
  proof (intro allI impI)
    fix g h :: nat
    assume "g < 2" "h < 2" and eq: "map (letter (\<lambda>m. m) g) [0..<7] = map (letter (\<lambda>m. m) h) [0..<7]"
    then have "g = 0 \<or> g = 1" "h = 0 \<or> h = 1" by auto
    then show "g = h" using eq first first [symmetric] by auto
  qed
  then show ?thesis
    unfolding good_start_def two_parse by (simp add: two_environment_def two_threads_def some_heap_def)
qed

text \<open>
  C10. The tester never succeeds.  Let the options be well formed, the number of strings fit into 32 bits, the keys that \<open>rand\<close>
  gives be distinct, memory be there, and every \<open>pthread_create\<close> and \<open>pthread_join\<close> succeed.  Then \<open>main\<close> ends however
  the threads interleave, and always in undefined behaviour: it never returns 0.  It has an outcome, every
  outcome is undefined behaviour, and no interleaving is without one: on the table of the first variant, and after every outcome of
  its phase on the table of the second, every run of the threads has at most five steps for each key, and while
  one of them is not done, some thread can take a step.
\<close>

theorem tester_main_undefined:
  assumes "good_start env a s" "all_succeed (creates1 env) (joins1 env) a"
    "all_succeed (creates2 env) (joins2 env) a"
  shows "(\<exists>r. tester_main env s r) \<and> (\<forall>r. tester_main env s r \<longrightarrow> r = Inl Undefined) \<and>
    (\<exists>s1. tester_setup env s = Inr ((a, 0), s1) \<and>
      (\<exists>t0. hash_table_v1_create (as_v1 s1) = Inr ((), t0) \<and> always_ends (\<lambda>_. 0) a (buckets.truncate t0)) \<and>
      (\<forall>m s2. v1_part env a (as_v1 s1) (Inr (Inr (m, s2))) \<longrightarrow>
        (\<exists>t0. hash_table_v2_create (as_v2 (heap.truncate s2)) = Inr ((), t0) \<and>
          always_ends bucket_of a (buckets.truncate t0))))"
  using main_undefined [OF assms] by blast

theorem tester_main_undefined_witness:
  "tester_main two_environment some_heap (Inl Undefined)"
proof -
  have "two_environment\<lparr>creates1 := \<lambda>i. 0\<rparr> = two_environment" by (simp add: two_environment_def)
  then have "good_start two_environment two_threads some_heap" using two_start [of "\<lambda>i. 0"] by simp
  moreover have "all_succeed (\<lambda>i. 0) (\<lambda>i. 0) two_threads"
    by (simp add: all_succeed_def first_failure_None)
  ultimately show ?thesis
    using tester_main_undefined [of two_environment two_threads some_heap] by (auto simp: two_environment_def)
qed

text \<open>
  C34. If a thread of the first variant cannot be created, \<open>main\<close> has printed that the table without
  locks misses no key; it prints the error and returns it at once, wherever the threads created
  before are in their work.
\<close>

theorem tester_create_fails:
  assumes "good_start env a s" "i < unat (threads a)" "creates1 env i \<noteq> 0" "\<forall>j < i. creates1 env j = 0"
  shows "(\<exists>r. tester_main env s r) \<and> (\<forall>r. tester_main env s r \<longrightarrow>
    r = Inr ([Time ''Generation'' (elapsed env 0), Time ''Hash table base'' (elapsed env 1), Missing 0,
      Create_failed (creates1 env i)], creates1 env i))"
proof -
  have "first_failure (creates1 env) (unat (threads a)) = Some i"
    unfolding first_failure_def using assms(2-4) by (intro first_index_SomeI) auto
  then show ?thesis using main_create_fails [OF assms(1)] by (simp add: base_lines_def)
qed

theorem tester_create_fails_witness:
  "\<exists>ls. tester_main (two_environment\<lparr>creates1 := \<lambda>i. if i = 1 then 11 else 0\<rparr>) some_heap
     (Inr (ls @ [Create_failed 11], 11))"
proof -
  let ?env = "two_environment\<lparr>creates1 := \<lambda>i. if i = 1 then 11 else 0\<rparr>"
  obtain r where "tester_main ?env some_heap r" and "\<forall>r. tester_main ?env some_heap r \<longrightarrow>
    r = Inr ([Time ''Generation'' (elapsed ?env 0), Time ''Hash table base'' (elapsed ?env 1), Missing 0,
      Create_failed 11], 11)"
    using tester_create_fails [OF two_start, of 1 "\<lambda>i. if i = 1 then 11 else 0"]
    by (auto simp: two_threads_def)
  then have "tester_main ?env some_heap (Inr ([Time ''Generation'' (elapsed ?env 0),
      Time ''Hash table base'' (elapsed ?env 1), Missing 0, Create_failed 11], 11))" by blast
  then show ?thesis
    by (intro exI [of _ "[Time ''Generation'' (elapsed ?env 0), Time ''Hash table base'' (elapsed ?env 1),
      Missing 0]"]) simp
qed

end
