(* ===== verification/Wut_Queue.thy ===== *)
theory Wut_Queue
  imports Prelude
begin

text \<open>
  The ready queue of \<open>wut/src/wut.c\<close>: a \<open>TAILQ\<close> of \<open>struct entry\<close>, a doubly linked list through
  the entries, with the operations of \<open>sys/queue.h\<close> on the pointers, as documented there.

  The operations are modelled on the pointers because the library also removes entries that are
  not in the queue, through the stale pointers in them; entries are never freed.  For entries that
  are in the queue, the operations are those of a list, which locale \<open>fifo\<close> states and
  \<open>seg\<close> relates to the pointers.
\<close>

section \<open>The entries\<close>

text \<open>
  \<open>tqe_prev\<close> and \<open>tqh_last\<close> are addresses of pointers to entries: of \<open>tqh_first\<close> in the head, or of
  \<open>tqe_next\<close> in an entry.  An entry is referred to by its index in the list of all entries.
\<close>

datatype loc = Head | NextOf nat

record entry =
  val :: nat
  tqe_next :: "nat option"
  tqe_prev :: loc

record queue =
  tqh_first :: "nat option"
  tqh_last :: loc
  ents :: "entry list"

definition set_entry :: "nat \<Rightarrow> (entry \<Rightarrow> entry) \<Rightarrow> ('a queue_scheme, unit) prog" where
  "set_entry e f = seq (check Fault (\<lambda>s. e < length (ents s)))
     (upd (\<lambda>s. s\<lparr>ents := (ents s)[e := f (ents s ! e)]\<rparr>))"

definition get_entry :: "nat \<Rightarrow> ('a queue_scheme, entry) prog" where
  "get_entry e = seq (check Fault (\<lambda>s. e < length (ents s))) (gets (\<lambda>s. ents s ! e))"

text \<open>\<open>*l = p\<close>\<close>

definition store_at :: "loc \<Rightarrow> nat option \<Rightarrow> ('a queue_scheme, unit) prog" where
  "store_at l p = (case l of
      Head \<Rightarrow> upd (\<lambda>s. s\<lparr>tqh_first := p\<rparr>)
    | NextOf e \<Rightarrow> set_entry e (\<lambda>x. x\<lparr>tqe_next := p\<rparr>))"

section \<open>The operations of sys/queue.h\<close>

definition TAILQ_INIT :: "('a queue_scheme, unit) prog" where
  "TAILQ_INIT = upd (\<lambda>s. s\<lparr>tqh_first := None, tqh_last := Head\<rparr>)"

definition TAILQ_FIRST :: "('a queue_scheme, nat option) prog" where
  "TAILQ_FIRST = gets tqh_first"

definition TAILQ_INSERT_TAIL :: "nat \<Rightarrow> ('a queue_scheme, unit) prog" where
  "TAILQ_INSERT_TAIL e =
     bnd (gets tqh_last) (\<lambda>l.
     seq (set_entry e (\<lambda>x. x\<lparr>tqe_next := None, tqe_prev := l\<rparr>))
    (seq (store_at l (Some e))
         (upd (\<lambda>s. s\<lparr>tqh_last := NextOf e\<rparr>))))"

definition TAILQ_REMOVE :: "nat \<Rightarrow> ('a queue_scheme, unit) prog" where
  "TAILQ_REMOVE e =
     bnd (get_entry e) (\<lambda>x.
     seq (case tqe_next x of
            Some n \<Rightarrow> set_entry n (\<lambda>y. y\<lparr>tqe_prev := tqe_prev x\<rparr>)
          | None \<Rightarrow> upd (\<lambda>s. s\<lparr>tqh_last := tqe_prev x\<rparr>))
         (store_at (tqe_prev x) (tqe_next x)))"

section \<open>The queue as a list\<close>

text \<open>
  \<open>seg es l xs p l' q\<close>: from the pointer \<open>p\<close>, stored at \<open>l\<close>, the links lead through the entries
  \<open>xs\<close> to the pointer \<open>q\<close>, stored at \<open>l'\<close>, and every \<open>tqe_prev\<close> on the way is right.
\<close>

fun seg :: "entry list \<Rightarrow> loc \<Rightarrow> nat list \<Rightarrow> nat option \<Rightarrow> loc \<Rightarrow> nat option \<Rightarrow> bool" where
  "seg es l [] p l' q \<longleftrightarrow> l' = l \<and> q = p"
| "seg es l (x # xs) p l' q \<longleftrightarrow> p = Some x \<and> x < length es \<and> tqe_prev (es ! x) = l \<and>
     seg es (NextOf x) xs (tqe_next (es ! x)) l' q"

definition queued :: "'a queue_scheme \<Rightarrow> nat list \<Rightarrow> bool" where
  "queued s xs \<longleftrightarrow> distinct xs \<and> seg (ents s) Head xs (tqh_first s) (tqh_last s) None"

text \<open>What the operations leave alone: the threads of the entries, and all that is not the queue.\<close>

definition unchanged :: "'a queue_scheme \<Rightarrow> nat list \<times> 'a" where
  "unchanged s = (map val (ents s), queue.more s)"

lemma seg_append:
  "seg es l (xs @ ys) p l' q \<longleftrightarrow> (\<exists>m r. seg es l xs p m r \<and> seg es m ys r l' q)"
  by (induction xs arbitrary: l p) auto

lemma seg_cong:
  "length es' = length es \<Longrightarrow>
   (\<And>x. x \<in> set xs \<Longrightarrow> tqe_next (es' ! x) = tqe_next (es ! x) \<and> tqe_prev (es' ! x) = tqe_prev (es ! x)) \<Longrightarrow>
   seg es' l xs p l' q = seg es l xs p l' q"
  by (induction xs arbitrary: l p) auto

lemma seg_less: "seg es l xs p l' q \<Longrightarrow> x \<in> set xs \<Longrightarrow> x < length es"
  by (induction xs arbitrary: l p) auto

lemma seg_last: "seg es l xs p l' q \<Longrightarrow> xs \<noteq> [] \<Longrightarrow> l' = NextOf (last xs) \<and> q = tqe_next (es ! last xs)"
  by (induction xs arbitrary: l p) (auto split: if_splits)

lemma seg_set_next:
  assumes "seg es l (ys @ [y]) p l' q" "y \<notin> set ys"
  shows "seg (es[y := (es ! y)\<lparr>tqe_next := r\<rparr>]) l (ys @ [y]) p (NextOf y) r"
proof -
  obtain m t where s: "seg es l ys p m t" "t = Some y" "y < length es" "tqe_prev (es ! y) = m"
    using assms(1) by (auto simp: seg_append)
  then have "seg (es[y := (es ! y)\<lparr>tqe_next := r\<rparr>]) l ys p m t"
    using assms(2) by (subst seg_cong [of _ es]) (auto simp: nth_list_update)
  then show ?thesis using s by (auto simp: seg_append)
qed

lemma unchanged_simps [simp]:
  "unchanged (s\<lparr>tqh_first := p\<rparr>) = unchanged s" "unchanged (s\<lparr>tqh_last := l\<rparr>) = unchanged s"
  by (simp_all add: unchanged_def)

lemma unchanged_ents:
  "val x = val (ents s ! e) \<Longrightarrow> unchanged (s\<lparr>ents := (ents s)[e := x]\<rparr>) = unchanged s"
proof -
  assume "val x = val (ents s ! e)"
  then have "map val ((ents s)[e := x]) = map val (ents s)"
    by (auto simp: list_eq_iff_nth_eq) (metis nth_list_update_eq nth_list_update_neq)
  then show ?thesis by (simp add: unchanged_def)
qed

text \<open>Storing the pointer at which the entries \<open>ys\<close> end.\<close>

lemma store_at_end:
  assumes "seg (ents s) Head ys (tqh_first s) m t" "distinct ys"
  shows "\<exists>s'. store_at m r s = Inr ((), s') \<and> seg (ents s') Head ys (tqh_first s') m r \<and>
    length (ents s') = length (ents s) \<and> tqh_last s' = tqh_last s \<and> unchanged s' = unchanged s \<and>
    (\<forall>x. x \<notin> set ys \<longrightarrow> ents s' ! x = ents s ! x)"
proof (cases ys rule: rev_cases)
  case Nil
  then show ?thesis using assms by (simp add: store_at_def)
next
  case (snoc ws w)
  then have m: "m = NextOf w" "w < length (ents s)" using assms by (auto simp: seg_append)
  have "seg ((ents s)[w := (ents s ! w)\<lparr>tqe_next := r\<rparr>]) Head ys (tqh_first s) (NextOf w) r"
    using seg_set_next [of "ents s" Head ws w] assms snoc by simp
  then show ?thesis
    using m snoc by (auto simp: store_at_def set_entry_def seq_apply unchanged_ents)
qed

text \<open>A queue as its clients see it.\<close>

locale fifo =
  fixes contents :: "'s \<Rightarrow> nat list \<Rightarrow> bool"
    and fits :: "'s \<Rightarrow> nat \<Rightarrow> bool"
    and others :: "'s \<Rightarrow> 'r"
    and init :: "('s, unit) prog"
    and head :: "('s, nat option) prog"
    and insert_tail :: "nat \<Rightarrow> ('s, unit) prog"
    and remove :: "nat \<Rightarrow> ('s, unit) prog"
  assumes init: "\<exists>s'. init s = Inr ((), s') \<and> contents s' [] \<and> others s' = others s \<and> fits s' = fits s"
    and head: "contents s xs \<Longrightarrow> head s = Inr (case xs of [] \<Rightarrow> None | x # _ \<Rightarrow> Some x, s)"
    and insert_tail: "contents s xs \<Longrightarrow> fits s e \<Longrightarrow> e \<notin> set xs \<Longrightarrow>
      \<exists>s'. insert_tail e s = Inr ((), s') \<and> contents s' (xs @ [e]) \<and> others s' = others s \<and> fits s' = fits s"
    and remove: "contents s xs \<Longrightarrow> e \<in> set xs \<Longrightarrow>
      \<exists>s'. remove e s = Inr ((), s') \<and> contents s' (remove1 e xs) \<and> others s' = others s \<and> fits s' = fits s"
    and members: "contents s xs \<Longrightarrow> distinct xs \<and> (\<forall>x \<in> set xs. fits s x)"
begin

lemma rotate:
  assumes "contents s (x # xs)"
  shows "\<exists>s'. seq (remove x) (insert_tail x) s = Inr ((), s') \<and> contents s' (xs @ [x]) \<and>
    others s' = others s \<and> fits s' = fits s"
proof -
  obtain s1 where s1: "remove x s = Inr ((), s1)" "contents s1 xs" "others s1 = others s" "fits s1 = fits s"
    using remove [OF assms, of x] by auto
  then have "fits s1 x" "x \<notin> set xs" using members [OF assms] by auto
  from insert_tail [OF s1(2) this] s1 show ?thesis by (auto simp: seq_apply)
qed

lemma head_Cons: "contents s (x # xs) \<Longrightarrow> head s = Inr (Some x, s)"
  using head by simp

end

lemma remove1_split: "distinct (ys @ e # zs) \<Longrightarrow> remove1 e (ys @ e # zs) = ys @ zs"
  by (simp add: remove1_append)

lemma TAILQ_INSERT_TAIL_ok:
  assumes q: "queued s xs" and e: "e < length (ents s)" "e \<notin> set xs"
  shows "\<exists>s'. TAILQ_INSERT_TAIL e s = Inr ((), s') \<and> queued s' (xs @ [e]) \<and> unchanged s' = unchanged s \<and>
    length (ents s') = length (ents s)"
proof -
  let ?x = "(ents s ! e)\<lparr>tqe_next := None, tqe_prev := tqh_last s\<rparr>"
  let ?s = "s\<lparr>ents := (ents s)[e := ?x]\<rparr>"
  have "seg (ents ?s) Head xs (tqh_first ?s) (tqh_last s) None"
    using q e by (subst seg_cong [of _ "ents s"]) (auto simp: queued_def nth_list_update)
  then obtain s' where s': "store_at (tqh_last s) (Some e) ?s = Inr ((), s')"
      "seg (ents s') Head xs (tqh_first s') (tqh_last s) (Some e)" "length (ents s') = length (ents s)"
      "unchanged s' = unchanged ?s" "\<forall>x. x \<notin> set xs \<longrightarrow> ents s' ! x = ents ?s ! x"
    using store_at_end [of ?s xs "tqh_last s" None "Some e"] q by (auto simp: queued_def)
  have "ents s' ! e = ?x" using s'(5) e by simp
  then have "queued (s'\<lparr>tqh_last := NextOf e\<rparr>) (xs @ [e])"
    using q e s'(2,3) by (auto simp: queued_def seg_append)
  then show ?thesis
    using s' e by (auto simp: TAILQ_INSERT_TAIL_def bnd_apply seq_apply set_entry_def unchanged_ents)
qed

lemma TAILQ_REMOVE_ok:
  assumes q: "queued s xs" and e: "e \<in> set xs"
  shows "\<exists>s'. TAILQ_REMOVE e s = Inr ((), s') \<and> queued s' (remove1 e xs) \<and> unchanged s' = unchanged s \<and>
    length (ents s') = length (ents s)"
proof -
  obtain ys zs where xs: "xs = ys @ e # zs" using e by (auto dest: split_list)
  let ?x = "ents s ! e"
  have d: "distinct ys" "distinct zs" "set ys \<inter> set zs = {}" "e \<notin> set ys" "e \<notin> set zs"
    using q xs by (auto simp: queued_def)
  have s: "seg (ents s) Head ys (tqh_first s) (tqe_prev ?x) (Some e)" "e < length (ents s)"
      "seg (ents s) (NextOf e) zs (tqe_next ?x) (tqh_last s) None"
    using q xs by (auto simp: queued_def seg_append)
  have rem: "remove1 e xs = ys @ zs" using d by (simp add: xs remove1_append)
  show ?thesis
  proof (cases zs)
    case Nil
    let ?s = "s\<lparr>tqh_last := tqe_prev ?x\<rparr>"
    obtain s' where s': "store_at (tqe_prev ?x) None ?s = Inr ((), s')"
        "seg (ents s') Head ys (tqh_first s') (tqe_prev ?x) None" "tqh_last s' = tqe_prev ?x"
        "unchanged s' = unchanged s" "length (ents s') = length (ents s)"
      using store_at_end [of ?s ys "tqe_prev ?x" "Some e" None] s(1) d by auto
    then have "queued s' (remove1 e xs)" using d Nil rem by (simp add: queued_def)
    then show ?thesis
      using s' s(2,3) Nil by (auto simp: TAILQ_REMOVE_def get_entry_def bnd_apply seq_apply)
  next
    case (Cons z zs')
    let ?z = "(ents s ! z)\<lparr>tqe_prev := tqe_prev ?x\<rparr>"
    let ?s = "s\<lparr>ents := (ents s)[z := ?z]\<rparr>"
    have z: "tqe_next ?x = Some z" "z < length (ents s)"
        "seg (ents s) (NextOf z) zs' (tqe_next (ents s ! z)) (tqh_last s) None"
      using s(3) Cons by simp_all
    have "seg (ents ?s) Head ys (tqh_first ?s) (tqe_prev ?x) (Some e)"
      using s(1) d Cons z(2) by (subst seg_cong [of _ "ents s"]) (auto simp: nth_list_update)
    then obtain s' where s': "store_at (tqe_prev ?x) (Some z) ?s = Inr ((), s')"
        "seg (ents s') Head ys (tqh_first s') (tqe_prev ?x) (Some z)" "tqh_last s' = tqh_last s"
        "unchanged s' = unchanged s" "length (ents s') = length (ents s)"
        "\<forall>x. x \<notin> set ys \<longrightarrow> ents s' ! x = ents ?s ! x"
      using store_at_end [of ?s ys "tqe_prev ?x" "Some e" "Some z"] d by (auto simp: unchanged_ents)
    have "ents s' ! z = ?z" using s'(6) d Cons z(2) by auto
    moreover have "seg (ents s') (NextOf z) zs' (tqe_next (ents s ! z)) (tqh_last s) None"
      using z s'(5,6) d Cons
      by (subst seg_cong [of _ "ents s"]) (auto simp: nth_list_update)
    ultimately have "queued s' (remove1 e xs)"
      using s' d Cons rem z(2) by (auto simp: queued_def seg_append)
    then show ?thesis
      using s' s(2) z(1,2) by (auto simp: TAILQ_REMOVE_def get_entry_def set_entry_def bnd_apply seq_apply)
  qed
qed

interpretation ready: fifo queued "\<lambda>s e. e < length (ents s)" unchanged TAILQ_INIT TAILQ_FIRST
    TAILQ_INSERT_TAIL TAILQ_REMOVE
proof
  fix s :: "'a queue_scheme" and xs e
  show "\<exists>s'. TAILQ_INIT s = Inr ((), s') \<and> queued s' [] \<and> unchanged s' = unchanged s \<and>
      (\<lambda>e. e < length (ents s')) = (\<lambda>e. e < length (ents s))"
    by (simp add: TAILQ_INIT_def queued_def unchanged_def)
  assume q: "queued s xs"
  show "TAILQ_FIRST s = Inr (case xs of [] \<Rightarrow> None | x # _ \<Rightarrow> Some x, s)"
    using q by (cases xs) (auto simp: TAILQ_FIRST_def queued_def)
  show "distinct xs \<and> (\<forall>x \<in> set xs. x < length (ents s))"
    using q seg_less by (auto simp: queued_def)
  show "\<exists>s'. TAILQ_INSERT_TAIL e s = Inr ((), s') \<and> queued s' (xs @ [e]) \<and> unchanged s' = unchanged s \<and>
      (\<lambda>e. e < length (ents s')) = (\<lambda>e. e < length (ents s))" if "e < length (ents s)" "e \<notin> set xs"
    using TAILQ_INSERT_TAIL_ok [OF q that] by auto
  show "\<exists>s'. TAILQ_REMOVE e s = Inr ((), s') \<and> queued s' (remove1 e xs) \<and> unchanged s' = unchanged s \<and>
      (\<lambda>e. e < length (ents s')) = (\<lambda>e. e < length (ents s))" if "e \<in> set xs"
    using TAILQ_REMOVE_ok [OF q that] by auto
qed

end
