(* ===== verification/Wut_Threads.thy ===== *)
theory Wut_Threads
  imports Wut_Queue
begin

text \<open>
  The user-level threads of \<open>wut/src/wut.c\<close>: the thread array, the ready queue, the scheduler and
  the functions of \<open>wut/include/wut.h\<close>.

  A saved \<open>ucontext_t\<close> is modelled by where its execution continues (\<open>ctx\<close>), so a function that
  switches contexts returns what happens next: its own return to the thread that called it, or
  the resumption of another thread (\<open>event\<close>).  What the threads do between their calls is not
  part of the library.  \<open>memory\<close> is the number of allocations (\<open>malloc\<close>, \<open>realloc\<close>, \<open>mmap\<close>) that
  will succeed; thread control blocks, entries and stacks are never freed.
\<close>

section \<open>The state\<close>

datatype ctx =
    Created          \<comment> \<open>\<open>getcontext\<close> in \<open>create_thread\<close>, whose frame is gone\<close>
  | Enters nat       \<comment> \<open>\<open>makecontext\<close> with this function\<close>
  | In_yield         \<comment> \<open>after the \<open>swapcontext\<close> of \<open>wut_yield\<close>\<close>
  | In_join int      \<comment> \<open>after the \<open>swapcontext\<close> of \<open>wut_join\<close> of this id\<close>
  | In_exit          \<comment> \<open>after the \<open>swapcontext\<close> of \<open>wut_exit\<close>\<close>
  | In_scheduler     \<comment> \<open>the same, called by \<open>schedule\<close>, on the scheduler's stack\<close>

record thread =
  tid :: int
  block_id :: int
  state :: int
  ent :: "nat option"
  ctx_ptr :: ctx
  uc_link :: bool

record wut = queue +
  tcbs :: "thread list"
  threads' :: "nat option list"
  threads_count :: int
  threads_capacity :: int
  memory :: nat
  errno :: int

datatype event =
    Returns int        \<comment> \<open>the call returns to the running thread\<close>
  | Resumes int int    \<comment> \<open>the pending call of the thread with this id returns\<close>
  | Starts int nat     \<comment> \<open>the thread with this id enters its function\<close>
  | Resumes_exit int   \<comment> \<open>\<open>wut_exit\<close> returns in the thread with this id\<close>

definition die :: "(wut, 'a) prog" where
  "die = bnd (gets errno) (\<lambda>err. stop (Exit err))"

text \<open>An allocation, and \<open>die\<close> when it fails with \<open>ENOMEM\<close>.\<close>

definition allocate :: "(wut, unit) prog" where
  "allocate = bnd (gets memory) (\<lambda>n.
     if n = 0 then seq (upd (\<lambda>s. s\<lparr>errno := 12\<rparr>)) die else upd (\<lambda>s. s\<lparr>memory := n - 1\<rparr>))"

definition deref :: "'a option \<Rightarrow> ('s, 'a) prog" where
  "deref p = (case p of None \<Rightarrow> stop Fault | Some x \<Rightarrow> ret x)"

definition get_thread :: "nat \<Rightarrow> (wut, thread) prog" where
  "get_thread t = seq (check Fault (\<lambda>s. t < length (tcbs s))) (gets (\<lambda>s. tcbs s ! t))"

definition set_thread :: "nat \<Rightarrow> (thread \<Rightarrow> thread) \<Rightarrow> (wut, unit) prog" where
  "set_thread t f = seq (check Fault (\<lambda>s. t < length (tcbs s)))
     (upd (\<lambda>s. s\<lparr>tcbs := (tcbs s)[t := f (tcbs s ! t)]\<rparr>))"

text \<open>\<open>threads[id]\<close>, read and written.\<close>

definition get_slot :: "int \<Rightarrow> (wut, nat option) prog" where
  "get_slot i = seq (check Undefined (\<lambda>s. 0 \<le> i \<and> i < int (length (threads' s))))
     (gets (\<lambda>s. threads' s ! nat i))"

definition set_slot :: "int \<Rightarrow> nat option \<Rightarrow> (wut, unit) prog" where
  "set_slot i t = seq (check Undefined (\<lambda>s. 0 \<le> i \<and> i < int (length (threads' s))))
     (upd (\<lambda>s. s\<lparr>threads' := (threads' s)[nat i := t]\<rparr>))"

text \<open>\<open>threads[id]->...\<close>, and the thread of the first entry of the queue.\<close>

definition thread_at :: "int \<Rightarrow> (wut, nat) prog" where
  "thread_at i = bnd (get_slot i) deref"

definition head_entry :: "(wut, nat) prog" where
  "head_entry = bnd TAILQ_FIRST deref"

definition head_thread :: "(wut, nat) prog" where
  "head_thread = bnd head_entry (\<lambda>e. bnd (get_entry e) (\<lambda>x. ret (val x)))"

section \<open>Threads pool, threads and entries\<close>

text \<open>Doubling the capacity overflows an \<open>int\<close> from \<open>2 ^ 30\<close> on.\<close>

definition threads_expand :: "(wut, unit) prog" where
  "threads_expand =
     bnd (gets threads_capacity) (\<lambda>c.
     seq (check Undefined (\<lambda>_. 2 * c < 2 ^ 31))
    (seq allocate
         (upd (\<lambda>s. s\<lparr>threads' := threads' s @ replicate (nat c) None, threads_capacity := 2 * c\<rparr>))))"

definition min_available_id :: "(wut, int) prog" where
  "min_available_id = gets (\<lambda>s.
     case first_index (\<lambda>t. t = None) (take (nat (threads_capacity s)) (threads' s)) of
       None \<Rightarrow> -1
     | Some i \<Rightarrow> int i)"

definition new_stack :: "(wut, unit) prog" where
  "new_stack = allocate"

definition create_thread :: "nat option \<Rightarrow> (wut, nat) prog" where
  "create_thread run =
     seq (upd (\<lambda>s. s\<lparr>threads_count := threads_count s + 1\<rparr>))
    (seq allocate
    (bnd min_available_id (\<lambda>i.
     seq (if i < 0 then die else skip)
    (seq new_stack
    (bnd (gets (\<lambda>s. length (tcbs s))) (\<lambda>new.
     seq (upd (\<lambda>s. s\<lparr>tcbs := tcbs s @ [\<lparr>tid = i, block_id = -1, state = -1, ent = None,
            ctx_ptr = (case run of None \<Rightarrow> Created | Some f \<Rightarrow> Enters f), uc_link = True\<rparr>]\<rparr>))
         (ret new)))))))"

definition delete_thread :: "nat \<Rightarrow> (wut, unit) prog" where
  "delete_thread t = set_thread t (\<lambda>th. th\<lparr>uc_link := False, ent := None\<rparr>)"

definition create_entry :: "nat \<Rightarrow> (wut, nat) prog" where
  "create_entry th =
     seq allocate
    (bnd (gets (\<lambda>s. length (ents s))) (\<lambda>en.
     seq (upd (\<lambda>s. s\<lparr>ents := ents s @ [\<lparr>val = th, tqe_next = None, tqe_prev = Head\<rparr>]\<rparr>))
    (seq (set_thread th (\<lambda>x. x\<lparr>ent := Some en\<rparr>))
    (seq (TAILQ_INSERT_TAIL en)
         (ret en)))))"

section \<open>The scheduler\<close>

text \<open>\<open>TAILQ_INSERT_TAIL(&ready_queue, threads[wake_id]->ent)\<close>, and the thread is alive again.\<close>

definition wake :: "int \<Rightarrow> (wut, unit) prog" where
  "wake wake_id =
     bnd (thread_at wake_id) (\<lambda>w.
     bnd (get_thread w) (\<lambda>th.
     bnd (deref (ent th)) (\<lambda>e.
     seq (TAILQ_INSERT_TAIL e)
         (set_thread w (\<lambda>th. th\<lparr>state := -1\<rparr>)))))"

text \<open>The end of \<open>wut_join\<close>: the status of the thread, whose id becomes free.\<close>

definition reap :: "int \<Rightarrow> (wut, int) prog" where
  "reap i =
     bnd (thread_at i) (\<lambda>t.
     bnd (get_thread t) (\<lambda>th.
     seq (set_slot i None)
         (ret (state th))))"

text \<open>
  What happens when the context of thread \<open>t\<close> is set.  Two contexts cannot be continued: their
  function has returned, or their stack has been used by others since.
\<close>

definition jump :: "nat \<Rightarrow> (wut, event) prog" where
  "jump t =
     bnd (get_thread t) (\<lambda>th. case ctx_ptr th of
       Enters f \<Rightarrow> ret (Starts (tid th) f)
     | In_yield \<Rightarrow> ret (Resumes (tid th) 0)
     | In_join i \<Rightarrow> bnd (reap i) (\<lambda>st. ret (Resumes (tid th) st))
     | In_exit \<Rightarrow> ret (Resumes_exit (tid th))
     | In_scheduler \<Rightarrow> stop Undefined
     | Created \<Rightarrow> stop Undefined)"

text \<open>\<open>wut_exit\<close> up to the switch to the scheduler, and \<open>schedule\<close> for a thread that has exited.\<close>

definition exit_head :: "ctx \<Rightarrow> int \<Rightarrow> (wut, unit) prog" where
  "exit_head c status =
     bnd head_thread (\<lambda>t. set_thread t (\<lambda>th. th\<lparr>state := status mod 256, ctx_ptr := c\<rparr>))"

definition schedule_next :: "(wut, event) prog" where
  "schedule_next =
     bnd TAILQ_FIRST (\<lambda>first. case first of
       None \<Rightarrow> stop (Exit 0)
     | Some head \<Rightarrow>
         bnd (get_entry head) (\<lambda>x.
         bnd (get_thread (val x)) (\<lambda>th.
         seq (if 0 \<le> block_id th then wake (block_id th) else skip)
        (seq (delete_thread (val x))
        (seq (TAILQ_REMOVE head)
        (bnd TAILQ_FIRST (\<lambda>first. case first of
           None \<Rightarrow> stop (Exit 0)
         | Some head \<Rightarrow> bnd (get_entry head) (\<lambda>x. jump (val x)))))))))"

text \<open>
  A thread whose function has returned is still alive, and \<open>schedule\<close> calls \<open>wut_exit(0)\<close> for it,
  which sets the context of the scheduler and so enters \<open>schedule\<close> once more.
\<close>

definition schedule :: "(wut, event) prog" where
  "schedule =
     bnd TAILQ_FIRST (\<lambda>first. case first of
       None \<Rightarrow> stop (Exit 0)
     | Some head \<Rightarrow>
         bnd (get_entry head) (\<lambda>x.
         bnd (get_thread (val x)) (\<lambda>th.
         if state th < 0 then seq (exit_head In_scheduler 0) schedule_next else schedule_next)))"

section \<open>Library functions\<close>

definition wut_init :: "(wut, unit) prog" where
  "wut_init =
     seq (upd (\<lambda>s. s\<lparr>threads_count := 0, threads_capacity := 10\<rparr>))
    (seq allocate
    (seq (upd (\<lambda>s. s\<lparr>threads' := replicate 10 None\<rparr>))
    (seq new_stack
    (bnd (create_thread None) (\<lambda>main_thread.
     bnd (get_thread main_thread) (\<lambda>th.
     seq (set_slot (tid th) (Some main_thread))
    (seq TAILQ_INIT
    (bnd (create_entry main_thread) (\<lambda>_. skip))))))))) "

definition wut_id :: "(wut, int) prog" where
  "wut_id = bnd head_thread (\<lambda>t. bnd (get_thread t) (\<lambda>th. ret (tid th)))"

definition wut_create :: "nat option \<Rightarrow> (wut, int) prog" where
  "wut_create run =
     bnd (gets (\<lambda>s. threads_capacity s \<le> threads_count s)) (\<lambda>full.
     seq (if full then threads_expand else skip)
    (bnd (create_thread run) (\<lambda>new_thread.
     bnd (get_thread new_thread) (\<lambda>th.
     seq (set_slot (tid th) (Some new_thread))
    (bnd (create_entry new_thread) (\<lambda>_.
     ret (tid th)))))))"

text \<open>
  The tests that \<open>wut_cancel\<close> and \<open>wut_join\<close> share, in their order:
  \<open>id < 0 || id > threads_capacity || threads[id] == NULL\<close>, whether \<open>threads[id]\<close> is the running
  thread, and one more on the thread.
\<close>

definition refuses :: "int \<Rightarrow> (thread \<Rightarrow> bool) \<Rightarrow> (wut, bool) prog" where
  "refuses i also_if =
     bnd (gets (\<lambda>s. i < 0 \<or> threads_capacity s < i)) (\<lambda>out.
     if out then ret True
     else bnd (get_slot i) (\<lambda>t. case t of
       None \<Rightarrow> ret True
     | Some t \<Rightarrow>
         bnd head_thread (\<lambda>h.
         bnd (get_thread h) (\<lambda>hd.
         bnd (get_thread t) (\<lambda>th.
         ret (tid hd = i \<or> also_if th))))))"

text \<open>
  The loop over the queue that looks for the thread that blocks \<open>id\<close>.  With more steps than there are
  entries the links lead in a circle, and the loop does not end.
\<close>

fun unblock :: "nat \<Rightarrow> nat option \<Rightarrow> int \<Rightarrow> (wut, unit) prog" where
  "unblock fuel None i = skip"
| "unblock 0 (Some e) i = stop Blocked"
| "unblock (Suc fuel) (Some e) i =
     bnd (get_entry e) (\<lambda>x.
     bnd (get_thread (val x)) (\<lambda>th.
     if block_id th = i then set_thread (val x) (\<lambda>th. th\<lparr>block_id := -1\<rparr>)
     else unblock fuel (tqe_next x) i))"

definition wut_cancel :: "int \<Rightarrow> (wut, int) prog" where
  "wut_cancel i =
     bnd (refuses i (\<lambda>_. False)) (\<lambda>bad.
     if bad then ret (-1)
     else
       bnd TAILQ_FIRST (\<lambda>curr.
       bnd (gets (\<lambda>s. length (ents s))) (\<lambda>n.
       seq (unblock n curr i)
      (bnd (thread_at i) (\<lambda>t.
       bnd (get_thread t) (\<lambda>th.
       seq (if 0 \<le> block_id th then wake (block_id th) else skip)
      (bnd (get_thread t) (\<lambda>th.
       bnd (deref (ent th)) (\<lambda>e.
       seq (TAILQ_REMOVE e)
      (seq (set_thread t (\<lambda>th. th\<lparr>state := 128\<rparr>))
      (seq (delete_thread t)
           (ret 0))))))))))))"

definition wut_join :: "int \<Rightarrow> (wut, event) prog" where
  "wut_join i =
     bnd TAILQ_FIRST (\<lambda>first.
     if first = None then ret (Returns (-1))
     else
       bnd (refuses i (\<lambda>th. 0 \<le> block_id th)) (\<lambda>bad.
       if bad then ret (Returns (-1))
       else
         bnd (thread_at i) (\<lambda>t.
         bnd (get_thread t) (\<lambda>th.
         if 0 \<le> state th then seq (set_slot i None) (ret (Returns (state th)))
         else
           bnd head_entry (\<lambda>old_head.
           bnd head_thread (\<lambda>old.
           bnd (get_thread old) (\<lambda>oldth.
           seq (set_thread old (\<lambda>th. th\<lparr>state := -2\<rparr>))
          (seq (set_thread t (\<lambda>th. th\<lparr>block_id := tid oldth\<rparr>))
          (seq (TAILQ_REMOVE old_head)
          (bnd head_thread (\<lambda>new.
           seq (set_thread old (\<lambda>th. th\<lparr>ctx_ptr := In_join i\<rparr>))
               (jump new))))))))))))"

definition wut_yield :: "(wut, event) prog" where
  "wut_yield =
     bnd head_entry (\<lambda>old_head.
     bnd (get_entry old_head) (\<lambda>x.
     if tqe_next x = None then ret (Returns (-1))
     else
       seq (TAILQ_REMOVE old_head)
      (seq (TAILQ_INSERT_TAIL old_head)
      (bnd head_thread (\<lambda>new.
       seq (set_thread (val x) (\<lambda>th. th\<lparr>ctx_ptr := In_yield\<rparr>))
           (jump new))))))"

definition wut_exit :: "int \<Rightarrow> (wut, event) prog" where
  "wut_exit status = seq (exit_head In_exit status) schedule"

text \<open>A function of a thread returns: \<open>uc_link\<close> leads to the scheduler.\<close>

definition thread_returns :: "(wut, event) prog" where
  "thread_returns = schedule"

end
