(* ===== verification/Wut_Spec.thy ===== *)
theory Wut_Spec
  imports Wut_Threads
begin

text \<open>
  What \<open>wut/include/wut.h\<close> promises, without pointers: a scheduler is a queue of ids, a map from ids
  to jobs, and the size of the id space.  Each call is a function of it; \<open>sched_inv\<close> is what
  holds between calls.
\<close>

section \<open>Schedulers\<close>

datatype status = Alive | Waiting | Exited int

text \<open>\<open>waiter\<close> is the job that waits for this one in \<open>wut_join\<close>, or did when it exited.\<close>

record job =
  status :: status
  waiter :: "nat option"
  resume :: ctx

record sched =
  ready :: "nat list"
  jobs :: "nat \<Rightarrow> job option"
  cap :: nat
  made :: nat

definition exited :: "job \<Rightarrow> bool" where
  "exited j \<longleftrightarrow> (\<exists>n. status j = Exited n)"

lemma exited_simps [simp]:
  "status j = Alive \<Longrightarrow> \<not> exited j" "status j = Waiting \<Longrightarrow> \<not> exited j" "status j = Exited n \<Longrightarrow> exited j"
  by (auto simp: exited_def)

definition exit_code :: "job \<Rightarrow> int" where
  "exit_code j = (case status j of Alive \<Rightarrow> -1 | Waiting \<Rightarrow> -2 | Exited n \<Rightarrow> n)"

text \<open>The first of the queue goes on.\<close>

definition switch :: "sched \<Rightarrow> stop + event \<times> sched" where
  "switch a = (case ready a of
      [] \<Rightarrow> Inl (Exit 0)
    | i # _ \<Rightarrow> (case map_option resume (jobs a i) of
        Some (Enters f) \<Rightarrow> Inr (Starts (int i) f, a)
      | Some In_yield \<Rightarrow> Inr (Resumes (int i) 0, a)
      | Some (In_join k) \<Rightarrow> (case jobs a (nat k) of
          Some l \<Rightarrow> Inr (Resumes (int i) (exit_code l), a\<lparr>jobs := (jobs a)(nat k := None)\<rparr>)
        | None \<Rightarrow> Inl Fault)
      | Some In_exit \<Rightarrow> Inr (Resumes_exit (int i), a)
      | _ \<Rightarrow> Inl Undefined))"

section \<open>The calls\<close>

definition spec_yield :: "sched \<Rightarrow> stop + event \<times> sched" where
  "spec_yield a = (let i = hd (ready a); j = the (jobs a i) in
     if tl (ready a) = [] then Inr (Returns (-1), a)
     else switch (a\<lparr>ready := tl (ready a) @ [i], jobs := (jobs a)(i \<mapsto> j\<lparr>resume := In_yield\<rparr>)\<rparr>))"

text \<open>A job that ends, and its waiter if it has one, are taken off the CPU and put on the queue.\<close>

definition awaken :: "nat option \<Rightarrow> sched \<Rightarrow> sched" where
  "awaken w a = (case w of
      None \<Rightarrow> a
    | Some w \<Rightarrow> a\<lparr>ready := ready a @ [w], jobs := (jobs a)(w \<mapsto> (the (jobs a w))\<lparr>status := Alive\<rparr>)\<rparr>)"

definition finish :: "nat \<Rightarrow> int \<Rightarrow> ctx \<Rightarrow> sched \<Rightarrow> sched" where
  "finish i n c a = (let j = the (jobs a i); a' = awaken (waiter j) a in
     a'\<lparr>ready := remove1 i (ready a'), jobs := (jobs a')(i \<mapsto> j\<lparr>status := Exited n, resume := c\<rparr>)\<rparr>)"

definition spec_exit :: "ctx \<Rightarrow> int \<Rightarrow> sched \<Rightarrow> stop + event \<times> sched" where
  "spec_exit c n a = switch (finish (hd (ready a)) (n mod 256) c a)"

definition spec_join :: "nat \<Rightarrow> sched \<Rightarrow> stop + event \<times> sched" where
  "spec_join k a = (let i = hd (ready a) in case jobs a k of
      None \<Rightarrow> Inr (Returns (-1), a)
    | Some l \<Rightarrow>
        if k = i \<or> waiter l \<noteq> None then Inr (Returns (-1), a)
        else if exited l then Inr (Returns (exit_code l), a\<lparr>jobs := (jobs a)(k := None)\<rparr>)
        else if tl (ready a) = [] then Inl Fault
        else switch (a\<lparr>ready := tl (ready a), jobs := (jobs a)
          (i \<mapsto> (the (jobs a i))\<lparr>status := Waiting, resume := In_join (int k)\<rparr>, k \<mapsto> l\<lparr>waiter := Some i\<rparr>)\<rparr>))"

definition spec_cancel :: "nat \<Rightarrow> sched \<Rightarrow> stop + event \<times> sched" where
  "spec_cancel k a = (case jobs a k of
      None \<Rightarrow> Inr (Returns (-1), a)
    | Some l \<Rightarrow>
        if k = hd (ready a) then Inr (Returns (-1), a)
        else if exited l then Inl Fault
        else Inr (Returns 0, finish k 128 (resume l) a))"

text \<open>The least free id; the id space doubles as soon as as many threads were made as it holds.\<close>

definition spec_create :: "nat \<Rightarrow> sched \<Rightarrow> nat \<times> sched" where
  "spec_create f a = (let c = (if cap a \<le> made a then 2 * cap a else cap a);
       i = (LEAST i. jobs a i = None)
     in (i, a\<lparr>ready := ready a @ [i], cap := c, made := made a + 1,
         jobs := (jobs a)(i \<mapsto> \<lparr>status = Alive, waiter = None, resume = Enters f\<rparr>)\<rparr>))"

section \<open>The invariant\<close>

text \<open>The saved context of job \<open>i\<close> can go on: if it is in \<open>wut_join\<close>, the other job has exited.\<close>

definition can_resume :: "sched \<Rightarrow> nat \<Rightarrow> bool" where
  "can_resume a i \<longleftrightarrow> (\<exists>j. jobs a i = Some j \<and> ((\<exists>f. resume j = Enters f) \<or> resume j = In_yield \<or>
     (\<exists>k l. resume j = In_join (int k) \<and> jobs a k = Some l \<and> waiter l = Some i \<and> exited l)))"

text \<open>
  A waiter waits in \<open>wut_join\<close> for the job whose waiter it is, and the other way round.
\<close>

definition waiters_ok :: "sched \<Rightarrow> bool" where
  "waiters_ok a \<longleftrightarrow> (\<forall>i j w. jobs a i = Some j \<longrightarrow> \<not> exited j \<longrightarrow> waiter j = Some w \<longrightarrow>
     (\<exists>l. jobs a w = Some l \<and> status l = Waiting \<and> resume l = In_join (int i)))"

definition waiting_ok :: "sched \<Rightarrow> bool" where
  "waiting_ok a \<longleftrightarrow> (\<forall>i j. jobs a i = Some j \<longrightarrow> status j = Waiting \<longrightarrow>
     (\<exists>k l. resume j = In_join (int k) \<and> jobs a k = Some l \<and> waiter l = Some i \<and> \<not> exited l))"

definition ready_ok :: "sched \<Rightarrow> bool" where
  "ready_ok a \<longleftrightarrow> distinct (ready a) \<and>
     (\<forall>i. i \<in> set (ready a) \<longleftrightarrow> (\<exists>j. jobs a i = Some j \<and> status j = Alive))"

definition ids_ok :: "sched \<Rightarrow> bool" where
  "ids_ok a \<longleftrightarrow> dom (jobs a) \<subseteq> {..<cap a} \<and> card (dom (jobs a)) \<le> made a \<and> made a \<le> cap a \<and> 0 < cap a \<and>
     (\<forall>i j w. jobs a i = Some j \<longrightarrow> waiter j = Some w \<longrightarrow> w < cap a)"

text \<open>\<open>D\<close> are the jobs whose saved context need not be one that can go on: the running one.\<close>

definition sched_core :: "nat set \<Rightarrow> sched \<Rightarrow> bool" where
  "sched_core D a \<longleftrightarrow> ready_ok a \<and> ids_ok a \<and> waiters_ok a \<and> waiting_ok a \<and>
     (\<forall>i \<in> set (ready a) - D. can_resume a i)"

definition sched_inv :: "sched \<Rightarrow> bool" where
  "sched_inv a \<longleftrightarrow> ready a \<noteq> [] \<and> sched_core {hd (ready a)} a"

lemma sched_coreD:
  assumes "sched_core D a"
  shows "ready_ok a" "ids_ok a" "waiters_ok a" "waiting_ok a"
    and "i \<in> set (ready a) \<Longrightarrow> i \<notin> D \<Longrightarrow> can_resume a i"
  using assms by (simp_all add: sched_core_def)

lemma ready_okD:
  assumes "ready_ok a"
  shows "distinct (ready a)" "i \<in> set (ready a) \<longleftrightarrow> (\<exists>j. jobs a i = Some j \<and> status j = Alive)"
  using assms by (simp_all add: ready_ok_def)

lemma ids_ok_finite: "ids_ok a \<Longrightarrow> finite (dom (jobs a))"
  by (auto simp: ids_ok_def intro: finite_subset)

lemma waiters_okD:
  "waiters_ok a \<Longrightarrow> jobs a i = Some j \<Longrightarrow> \<not> exited j \<Longrightarrow> waiter j = Some w \<Longrightarrow>
     \<exists>l. jobs a w = Some l \<and> status l = Waiting \<and> resume l = In_join (int i)"
  by (simp add: waiters_ok_def)

lemma waiting_okD:
  "waiting_ok a \<Longrightarrow> jobs a i = Some j \<Longrightarrow> status j = Waiting \<Longrightarrow>
     \<exists>k l. resume j = In_join (int k) \<and> jobs a k = Some l \<and> waiter l = Some i \<and> \<not> exited l"
  by (simp add: waiting_ok_def)

lemma sched_core_weaken: "sched_core D a \<Longrightarrow> D \<subseteq> D' \<Longrightarrow> sched_core D' a"
  by (auto simp: sched_core_def)

text \<open>Taking a job that has exited off the map.\<close>

lemma sched_core_reap:
  assumes core: "sched_core D a" and k: "jobs a k = Some l" "exited l"
    and w: "\<And>i. waiter l = Some i \<Longrightarrow> i \<in> D \<or> i \<notin> set (ready a)"
  shows "sched_core D (a\<lparr>jobs := (jobs a)(k := None)\<rparr>)" (is "sched_core D ?a")
proof -
  note D = sched_coreD [OF core]
  have out: "k \<notin> set (ready a)" using ready_okD(2) [OF D(1), of k] k by auto
  have "ready_ok ?a" using D(1) out k by (auto simp: ready_ok_def)
  moreover have "ids_ok ?a"
    using D(2) card_mono [OF ids_ok_finite [OF D(2)], of "dom (jobs a) - {k}"]
    by (auto simp: ids_ok_def)
  moreover have "waiters_ok ?a"
    unfolding waiters_ok_def
  proof (intro allI impI)
    fix i j w assume "jobs ?a i = Some j" and live: "\<not> exited j" "waiter j = Some w"
    then have "jobs a i = Some j" by (simp split: if_splits)
    from waiters_okD [OF D(3) this live] k
    show "\<exists>l. jobs ?a w = Some l \<and> status l = Waiting \<and> resume l = In_join (int i)" by auto
  qed
  moreover have "waiting_ok ?a"
    unfolding waiting_ok_def
  proof (intro allI impI)
    fix i j assume "jobs ?a i = Some j" and wait: "status j = Waiting"
    then have "jobs a i = Some j" by (simp split: if_splits)
    from waiting_okD [OF D(4) this wait] obtain m l'
      where m: "resume j = In_join (int m)" "jobs a m = Some l'" "waiter l' = Some i" "\<not> exited l'" by blast
    then have "m \<noteq> k" using k by auto
    with m show "\<exists>m l. resume j = In_join (int m) \<and> jobs ?a m = Some l \<and> waiter l = Some i \<and> \<not> exited l"
      by (intro exI [of _ m] exI [of _ l']) simp
  qed
  moreover have "can_resume ?a i" if i: "i \<in> set (ready a)" "i \<notin> D" for i
  proof -
    have "i \<noteq> k" "waiter l \<noteq> Some i" using i out w [of i] by auto
    then show ?thesis using D(5) [OF i] k unfolding can_resume_def by fastforce
  qed
  ultimately show ?thesis by (simp add: sched_core_def)
qed

lemma switch_ok:
  assumes core: "sched_core {} a"
  shows "case switch a of Inl e \<Rightarrow> e = Exit 0 \<and> ready a = []
    | Inr (ev, a') \<Rightarrow> sched_inv a' \<and> ready a' = ready a \<and> cap a' = cap a \<and> made a' = made a"
proof (cases "ready a")
  case Nil
  then show ?thesis by (simp add: switch_def)
next
  case (Cons i rest)
  obtain j where j: "jobs a i = Some j" and "(\<exists>f. resume j = Enters f) \<or> resume j = In_yield \<or>
     (\<exists>k l. resume j = In_join (int k) \<and> jobs a k = Some l \<and> waiter l = Some i \<and> exited l)"
    using sched_coreD(5) [OF core, of i] Cons unfolding can_resume_def by auto
  moreover have weak: "sched_core {i} a" by (rule sched_core_weaken [OF core]) simp
  moreover have "sched_core {i} (a\<lparr>jobs := (jobs a)(k := None)\<rparr>)"
    if "jobs a k = Some l" "waiter l = Some i" "exited l" for k l
    using that by (intro sched_core_reap [OF weak that(1,3)]) auto
  ultimately show ?thesis
    using Cons by (auto simp: switch_def sched_inv_def)
qed

section \<open>The calls keep the invariant\<close>

text \<open>A job that is alive gets another saved context, and the queue another order.\<close>

lemma sched_core_resume:
  assumes core: "sched_core D a" and j: "jobs a i = Some j" "status j = Alive"
    and ready: "set xs = set (ready a)" "distinct xs"
  shows "sched_core (insert i D) (a\<lparr>ready := xs, jobs := (jobs a)(i \<mapsto> j\<lparr>resume := c\<rparr>)\<rparr>)"
    (is "sched_core _ ?a")
proof -
  note D = sched_coreD [OF core]
  have "ready_ok ?a" using D(1) j ready by (auto simp: ready_ok_def)
  moreover have "ids_ok ?a" using D(2) j by (auto simp: ids_ok_def insert_absorb domI)
  moreover have "waiters_ok ?a"
    unfolding waiters_ok_def
  proof (intro allI impI)
    fix m l w assume m: "jobs ?a m = Some l" "\<not> exited l" "waiter l = Some w"
    obtain l0 where "jobs a m = Some l0" "exited l0 = exited l" "waiter l0 = waiter l"
      using m(1) j by (auto simp: exited_def split: if_splits)
    then obtain lw where "jobs a w = Some lw" "status lw = Waiting" "resume lw = In_join (int m)"
      using waiters_okD [OF D(3)] m by metis
    then show "\<exists>l. jobs ?a w = Some l \<and> status l = Waiting \<and> resume l = In_join (int m)"
      using j by auto
  qed
  moreover have "waiting_ok ?a"
    unfolding waiting_ok_def
  proof (intro allI impI)
    fix m l assume m: "jobs ?a m = Some l" "status l = Waiting"
    then have "jobs a m = Some l" using j by (auto split: if_splits)
    from waiting_okD [OF D(4) this m(2)] obtain k l'
      where k: "resume l = In_join (int k)" "jobs a k = Some l'" "waiter l' = Some m" "\<not> exited l'" by blast
    let ?l' = "if k = i then j\<lparr>resume := c\<rparr> else l'"
    show "\<exists>k l'. resume l = In_join (int k) \<and> jobs ?a k = Some l' \<and> waiter l' = Some m \<and> \<not> exited l'"
      using k j by (intro exI [of _ k] exI [of _ ?l']) auto
  qed
  moreover have "can_resume ?a m" if m: "m \<in> set (ready a)" "m \<notin> insert i D" for m
    using D(5) [of m] m j unfolding can_resume_def by fastforce
  ultimately show ?thesis using ready by (simp add: sched_core_def)
qed

lemma can_resume_yield: "jobs a i = Some j \<Longrightarrow> resume j = In_yield \<Longrightarrow> can_resume a i"
  by (simp add: can_resume_def)

lemma sched_core_insert: "sched_core (insert i D) a \<Longrightarrow> can_resume a i \<Longrightarrow> sched_core D a"
  by (auto simp: sched_core_def)

text \<open>A job ends that no job waits for, and one that job \<open>w\<close> waits for.\<close>

lemma sched_core_end:
  assumes core: "sched_core D a" and j: "jobs a i = Some j" "status j = Alive" and none: "waiter j = None"
  shows "sched_core (D - {i}) (finish i n c a)" (is "sched_core _ ?a")
proof -
  note D = sched_coreD [OF core]
  note R = ready_okD [OF D(1)]
  have a: "?a = a\<lparr>ready := remove1 i (ready a), jobs := (jobs a)(i \<mapsto> j\<lparr>status := Exited n, resume := c\<rparr>)\<rparr>"
    using j none by (simp add: finish_def awaken_def Let_def)
  have "ready_ok ?a" using R j by (auto simp: a ready_ok_def)
  moreover have "ids_ok ?a" using D(2) j by (auto simp: a ids_ok_def insert_absorb domI)
  moreover have "waiters_ok ?a"
    unfolding waiters_ok_def
  proof (intro allI impI)
    fix m l w assume m: "jobs ?a m = Some l" "\<not> exited l" "waiter l = Some w"
    then have "jobs a m = Some l" by (auto simp: a split: if_splits)
    from waiters_okD [OF D(3) this m(2,3)] j
    show "\<exists>l. jobs ?a w = Some l \<and> status l = Waiting \<and> resume l = In_join (int m)"
      by (auto simp: a)
  qed
  moreover have "waiting_ok ?a"
    unfolding waiting_ok_def
  proof (intro allI impI)
    fix m l assume m: "jobs ?a m = Some l" "status l = Waiting"
    then have "jobs a m = Some l" by (auto simp: a split: if_splits)
    from waiting_okD [OF D(4) this m(2)] obtain k l'
      where k: "resume l = In_join (int k)" "jobs a k = Some l'" "waiter l' = Some m" "\<not> exited l'" by blast
    then have "k \<noteq> i" using j none by auto
    then show "\<exists>k l'. resume l = In_join (int k) \<and> jobs ?a k = Some l' \<and> waiter l' = Some m \<and> \<not> exited l'"
      using k by (intro exI [of _ k] exI [of _ l']) (simp add: a)
  qed
  moreover have "can_resume ?a m" if m: "m \<in> set (ready ?a)" "m \<notin> D - {i}" for m
  proof -
    have "m \<noteq> i" "m \<in> set (ready a)" "m \<notin> D" using m R(1) by (auto simp: a)
    then show ?thesis using D(5) [of m] j unfolding can_resume_def a by fastforce
  qed
  ultimately show ?thesis by (simp add: sched_core_def)
qed

lemma finish_waited:
  assumes "jobs a i = Some j" "waiter j = Some w" "jobs a w = Some lw" "w \<noteq> i"
  shows "ready (finish i n c a) = remove1 i (ready a @ [w])"
    and "jobs (finish i n c a) m = (if m = i then Some (j\<lparr>status := Exited n, resume := c\<rparr>)
      else if m = w then Some (lw\<lparr>status := Alive\<rparr>) else jobs a m)"
  using assms by (simp_all add: finish_def awaken_def Let_def)

lemma finish_waiters:
  assumes ok: "waiters_ok a" and j: "jobs a i = Some j" "status j = Alive" "waiter j = Some w"
    and w: "jobs a w = Some lw" "w \<noteq> i" "status lw = Waiting" "resume lw = In_join (int i)"
  shows "waiters_ok (finish i n c a)"
  unfolding waiters_ok_def
proof (intro allI impI)
  note jobs = finish_waited(2) [OF j(1,3) w(1,2)]
  fix m l v assume m: "jobs (finish i n c a) m = Some l" "\<not> exited l" "waiter l = Some v"
  then have "m \<noteq> i" by (auto simp: jobs split: if_splits)
  obtain l0 where "jobs a m = Some l0" "\<not> exited l0" "waiter l0 = Some v"
    using m w(1,3) by (auto simp: jobs exited_def split: if_splits)
  from waiters_okD [OF ok this] obtain lv
    where v: "jobs a v = Some lv" "status lv = Waiting" "resume lv = In_join (int m)" by blast
  then have "v \<noteq> w" "v \<noteq> i" using w j \<open>m \<noteq> i\<close> by auto
  then show "\<exists>l. jobs (finish i n c a) v = Some l \<and> status l = Waiting \<and> resume l = In_join (int m)"
    using v by (simp add: jobs)
qed

lemma finish_waiting:
  assumes ok: "waiting_ok a" and j: "jobs a i = Some j" "waiter j = Some w"
    and w: "jobs a w = Some lw" "w \<noteq> i" "status lw = Waiting"
  shows "waiting_ok (finish i n c a)"
  unfolding waiting_ok_def
proof (intro allI impI)
  note jobs = finish_waited(2) [OF j w(1,2)]
  fix m l assume m: "jobs (finish i n c a) m = Some l" "status l = Waiting"
  then have m': "jobs a m = Some l" "m \<noteq> w" using w(2) by (auto simp: jobs split: if_splits)
  from waiting_okD [OF ok m'(1) m(2)] obtain k l'
    where k: "resume l = In_join (int k)" "jobs a k = Some l'" "waiter l' = Some m" "\<not> exited l'" by blast
  then have "k \<noteq> i" using j m'(2) by auto
  let ?l' = "if k = w then lw\<lparr>status := Alive\<rparr> else l'"
  show "\<exists>k l'. resume l = In_join (int k) \<and> jobs (finish i n c a) k = Some l' \<and> waiter l' = Some m \<and> \<not> exited l'"
    using k w \<open>k \<noteq> i\<close> by (intro exI [of _ k] exI [of _ ?l']) (auto simp: jobs)
qed

lemma finish_resume:
  assumes can: "can_resume a m" and "m \<noteq> w" "m \<noteq> i" and j: "jobs a i = Some j" "status j = Alive" "waiter j = Some w"
    and w: "jobs a w = Some lw" "w \<noteq> i" "status lw = Waiting"
  shows "can_resume (finish i n c a) m"
proof -
  obtain jm where jm: "jobs a m = Some jm" "(\<exists>f. resume jm = Enters f) \<or> resume jm = In_yield \<or>
      (\<exists>k l. resume jm = In_join (int k) \<and> jobs a k = Some l \<and> waiter l = Some m \<and> exited l)"
    using can unfolding can_resume_def by blast
  have "k \<noteq> i" "k \<noteq> w" if "jobs a k = Some l" "exited l" for k l using that j w by auto
  then show ?thesis
    using jm \<open>m \<noteq> w\<close> \<open>m \<noteq> i\<close> unfolding can_resume_def finish_waited(2) [OF j(1,3) w(1,2)] by fastforce
qed

lemma sched_core_end_waited:
  assumes core: "sched_core D a" and j: "jobs a i = Some j" "status j = Alive" and some: "waiter j = Some w"
  shows "sched_core (D - {i}) (finish i n c a)" (is "sched_core _ ?a")
proof -
  note D = sched_coreD [OF core]
  note R = ready_okD [OF D(1)]
  obtain lw where w: "jobs a w = Some lw" "status lw = Waiting" "resume lw = In_join (int i)"
    using waiters_okD [OF D(3) j(1) _ some] j(2) by auto
  have "w \<noteq> i" using w j by auto
  note f = finish_waited [OF j(1) some w(1) \<open>w \<noteq> i\<close>]
  have out: "w \<notin> set (ready a)" "i \<in> set (ready a)" using R(2) [of w] R(2) [of i] w j by auto
  then have ready: "ready ?a = remove1 i (ready a) @ [w]" by (simp add: f(1) remove1_append)
  have ready_ok: "ready_ok ?a" using R j w \<open>w \<noteq> i\<close> out(1) unfolding ready_ok_def ready by (auto simp: f(2))
  have dom: "dom (jobs ?a) = dom (jobs a)" using j(1) w(1) by (auto simp: f(2) dom_def)
  have "v < cap a" if "jobs ?a m = Some x" "waiter x = Some v" for m x v
    using that D(2) j(1) some w(1) by (auto simp: f(2) ids_ok_def split: if_splits)
  moreover have "cap ?a = cap a" "made ?a = made a" by (simp_all add: finish_def awaken_def j(1) some Let_def)
  ultimately have "ids_ok ?a" using D(2) dom by (simp add: ids_ok_def)
  moreover have "can_resume ?a m" if m: "m \<in> set (ready ?a)" "m \<notin> D - {i}" for m
  proof (cases "m = w")
    case True
    then show ?thesis using w some \<open>w \<noteq> i\<close> by (auto simp: f(2) can_resume_def)
  next
    case False
    then have "m \<noteq> i" "m \<in> set (ready a)" "m \<notin> D" using m R(1) by (auto simp: ready)
    then show ?thesis using finish_resume [OF D(5) False _ j some w(1) \<open>w \<noteq> i\<close> w(2)] by simp
  qed
  ultimately show ?thesis
    using ready_ok finish_waiters [OF D(3) j some w(1) \<open>w \<noteq> i\<close> w(2,3)] finish_waiting [OF D(4) j(1) some w(1) \<open>w \<noteq> i\<close> w(2)]
    by (simp add: sched_core_def)
qed

lemma sched_core_finish:
  "sched_core D a \<Longrightarrow> jobs a i = Some j \<Longrightarrow> status j = Alive \<Longrightarrow> sched_core (D - {i}) (finish i n c a)"
  by (cases "waiter j") (auto intro: sched_core_end sched_core_end_waited)

text \<open>The running job waits for another one: the two jobs that change, and then each part of the invariant.\<close>

definition waits_for :: "nat \<Rightarrow> job \<Rightarrow> nat \<Rightarrow> job \<Rightarrow> sched \<Rightarrow> sched" where
  "waits_for i j k l a = a\<lparr>ready := tl (ready a), jobs := (jobs a)
    (i \<mapsto> j\<lparr>status := Waiting, resume := In_join (int k)\<rparr>, k \<mapsto> l\<lparr>waiter := Some i\<rparr>)\<rparr>"

lemma waits_for_jobs: "jobs (waits_for i j k l a) m = (if m = k then Some (l\<lparr>waiter := Some i\<rparr>)
    else if m = i then Some (j\<lparr>status := Waiting, resume := In_join (int k)\<rparr>) else jobs a m)"
  by (simp add: waits_for_def)

lemma waits_for_waiters:
  assumes ok: "waiters_ok a" and j: "jobs a i = Some j" "status j = Alive"
    and k: "jobs a k = Some l" "k \<noteq> i"
  shows "waiters_ok (waits_for i j k l a)"
  unfolding waiters_ok_def
proof (intro allI impI)
  fix m x w assume m: "jobs (waits_for i j k l a) m = Some x" "\<not> exited x" "waiter x = Some w"
  show "\<exists>y. jobs (waits_for i j k l a) w = Some y \<and> status y = Waiting \<and> resume y = In_join (int m)"
  proof (cases "m = k")
    case True
    then show ?thesis using m k(2) by (auto simp: waits_for_jobs)
  next
    case False
    then obtain x0 where "jobs a m = Some x0" "\<not> exited x0" "waiter x0 = Some w"
      using m j unfolding waits_for_jobs by (auto split: if_splits)
    from waiters_okD [OF ok this] obtain y
      where y: "jobs a w = Some y" "status y = Waiting" "resume y = In_join (int m)" by blast
    then have "w \<noteq> i" using j by auto
    then show ?thesis using y k(1) by (auto simp: waits_for_jobs)
  qed
qed

lemma waits_for_waiting:
  assumes ok: "waiting_ok a" and j: "jobs a i = Some j" "status j = Alive"
    and k: "jobs a k = Some l" "k \<noteq> i" "waiter l = None" "\<not> exited l"
  shows "waiting_ok (waits_for i j k l a)"
  unfolding waiting_ok_def
proof (intro allI impI)
  fix m x assume m: "jobs (waits_for i j k l a) m = Some x" "status x = Waiting"
  show "\<exists>y z. resume x = In_join (int y) \<and> jobs (waits_for i j k l a) y = Some z \<and> waiter z = Some m \<and> \<not> exited z"
  proof (cases "m = i")
    case True
    then show ?thesis using m k by (auto simp: exited_def waits_for_jobs)
  next
    case False
    then obtain x0 where "jobs a m = Some x0" "status x0 = Waiting" "resume x0 = resume x"
      using m k unfolding waits_for_jobs by (auto split: if_splits)
    from waiting_okD [OF ok this(1,2)] this(3) obtain y z where y: "resume x = In_join (int y)"
        "jobs a y = Some z" "waiter z = Some m" "\<not> exited z" by auto
    then have "y \<noteq> k" using k by auto
    let ?z = "if y = i then j\<lparr>status := Waiting, resume := In_join (int k)\<rparr> else z"
    show ?thesis using y j \<open>y \<noteq> k\<close> by (intro exI [of _ y] exI [of _ ?z]) (auto simp: waits_for_jobs)
  qed
qed

lemma waits_for_resume:
  assumes can: "can_resume a m" and "m \<noteq> i" and j: "jobs a i = Some j" "status j = Alive"
    and k: "jobs a k = Some l" "\<not> exited l"
  shows "can_resume (waits_for i j k l a) m"
proof -
  obtain jm where jm: "jobs a m = Some jm" "(\<exists>f. resume jm = Enters f) \<or> resume jm = In_yield \<or>
      (\<exists>k l. resume jm = In_join (int k) \<and> jobs a k = Some l \<and> waiter l = Some m \<and> exited l)"
    using can unfolding can_resume_def by blast
  moreover have "y \<noteq> i" "y \<noteq> k" if "jobs a y = Some z" "exited z" for y z using that j k by auto
  moreover have "jobs (waits_for i j k l a) m = Some (if m = k then l\<lparr>waiter := Some i\<rparr> else jm)"
    using \<open>m \<noteq> i\<close> jm(1) by (simp add: waits_for_jobs)
  ultimately show ?thesis using k(1) unfolding can_resume_def waits_for_jobs by fastforce
qed

lemma sched_core_wait:
  assumes core: "sched_core {i} a" and ready: "ready a = i # rest" and j: "jobs a i = Some j"
    and k: "jobs a k = Some l" "k \<noteq> i" "waiter l = None" "\<not> exited l"
  shows "sched_core {} (a\<lparr>ready := rest, jobs := (jobs a)
    (i \<mapsto> j\<lparr>status := Waiting, resume := In_join (int k)\<rparr>, k \<mapsto> l\<lparr>waiter := Some i\<rparr>)\<rparr>)"
proof -
  note D = sched_coreD [OF core]
  note R = ready_okD [OF D(1)]
  have alive: "status j = Alive" "i \<notin> set rest" using R(2) [of i] R(1) ready j by auto
  let ?a = "waits_for i j k l a"
  have rest: "ready ?a = rest" using ready by (simp add: waits_for_def)
  have "m \<in> set rest \<longleftrightarrow> (\<exists>j. jobs ?a m = Some j \<and> status j = Alive)" for m
    using R(2) [of m] ready alive k by (auto simp: waits_for_jobs)
  then have "ready_ok ?a" using R(1) ready rest by (simp add: ready_ok_def)
  moreover have "ids_ok ?a" using D(2) j k by (auto simp: waits_for_def ids_ok_def insert_absorb domI)
  moreover have "can_resume ?a m" if "m \<in> set rest" for m
  proof -
    have "m \<noteq> i" using that alive by auto
    then show ?thesis using D(5) [of m] that ready waits_for_resume [OF _ _ j alive(1) k(1,4)] by simp
  qed
  ultimately have "sched_core {} ?a"
    using waits_for_waiters [OF D(3) j alive(1) k(1,2)] waits_for_waiting [OF D(4) j alive(1) k] rest
    by (simp add: sched_core_def)
  then show ?thesis using ready by (simp add: waits_for_def)
qed

text \<open>A new job.  A free id below the capacity exists, because ids are counted and never given back.\<close>

lemma free_id:
  assumes "ids_ok a"
  shows "(LEAST i. jobs a i = None) < (if cap a \<le> made a then 2 * cap a else cap a)"
    and "jobs a (LEAST i. jobs a i = None) = None"
proof -
  let ?c = "if cap a \<le> made a then 2 * cap a else cap a"
  have "card (dom (jobs a)) < card {..<?c}" using assms by (auto simp: ids_ok_def)
  then have "\<not> {..<?c} \<subseteq> dom (jobs a)" using card_mono [OF ids_ok_finite [OF assms]] by (meson not_le)
  then obtain i where i: "i < ?c" "jobs a i = None" by blast
  then show "jobs a (LEAST i. jobs a i = None) = None" by (intro LeastI)
  have "(LEAST i. jobs a i = None) \<le> i" by (rule Least_le) (rule i)
  then show "(LEAST i. jobs a i = None) < ?c" using i(1) by simp
qed

lemma sched_core_create:
  assumes core: "sched_core D a" and new: "spec_create f a = (i, a')"
  shows "sched_core D a'" "i \<notin> set (ready a)" "ready a' = ready a @ [i]" "jobs a i = None"
proof -
  note C = sched_coreD [OF core]
  note R = ready_okD [OF C(1)]
  note i = free_id [OF C(2)]
  let ?c = "if cap a \<le> made a then 2 * cap a else cap a"
  let ?j = "\<lparr>status = Alive, waiter = None, resume = Enters f\<rparr>"
  have i_def: "i = (LEAST i. jobs a i = None)" and
    a': "a' = a\<lparr>ready := ready a @ [i], cap := ?c, made := made a + 1, jobs := (jobs a)(i \<mapsto> ?j)\<rparr>"
    using new by (auto simp: spec_create_def Let_def)
  show free: "jobs a i = None" and "ready a' = ready a @ [i]" using i(2) by (simp_all add: i_def a')
  show out: "i \<notin> set (ready a)" using R(2) [of i] free by simp
  have same: "jobs a m = Some x \<Longrightarrow> jobs a' m = Some x" for m x using free by (auto simp: a')
  have old: "jobs a' m = Some x \<Longrightarrow> m \<noteq> i \<Longrightarrow> jobs a m = Some x" for m x by (simp add: a')
  have "ready_ok a'" using R out by (auto simp: ready_ok_def a')
  moreover have "ids_ok a'"
    using C(2) i(1) ids_ok_finite [OF C(2)] free
    by (auto simp: ids_ok_def a' i_def [symmetric] card_insert_if split: if_splits) (metis mult_2 trans_less_add1)
  moreover have "waiters_ok a'"
    unfolding waiters_ok_def
  proof (intro allI impI)
    fix m x w assume m: "jobs a' m = Some x" "\<not> exited x" "waiter x = Some w"
    then have "m \<noteq> i" by (auto simp: a')
    from waiters_okD [OF C(3) old [OF m(1) this] m(2,3)] same
    show "\<exists>l. jobs a' w = Some l \<and> status l = Waiting \<and> resume l = In_join (int m)" by blast
  qed
  moreover have "waiting_ok a'"
    unfolding waiting_ok_def
  proof (intro allI impI)
    fix m x assume m: "jobs a' m = Some x" "status x = Waiting"
    then have "m \<noteq> i" by (auto simp: a')
    from waiting_okD [OF C(4) old [OF m(1) this] m(2)] same
    show "\<exists>k l. resume x = In_join (int k) \<and> jobs a' k = Some l \<and> waiter l = Some m \<and> \<not> exited l" by blast
  qed
  moreover have "can_resume a' m" if m: "m \<in> set (ready a')" "m \<notin> D" for m
  proof (cases "m = i")
    case True
    then show ?thesis by (auto simp: can_resume_def a')
  next
    case False
    then have "can_resume a m" using C(5) m by (simp add: a')
    then show ?thesis unfolding can_resume_def using same by blast
  qed
  ultimately show "sched_core D a'" by (simp add: sched_core_def)
qed

section \<open>What a call does\<close>

text \<open>
  Every call returns with the invariant, or stops in a way that the rules below name.  A job that
  is waiting must not be cancelled.
\<close>

lemma spec_yield_ok:
  assumes inv: "sched_inv a"
  shows "case spec_yield a of Inl e \<Rightarrow> False | Inr (ev, a') \<Rightarrow> sched_inv a' \<and> ready a' = rotate1 (ready a)"
proof -
  obtain i rest where r: "ready a = i # rest" and core: "sched_core {i} a"
    using inv by (cases "ready a") (auto simp: sched_inv_def)
  note R = ready_okD [OF sched_coreD(1) [OF core]]
  obtain j where j: "jobs a i = Some j" "status j = Alive" using R(2) [of i] r by auto
  let ?a = "a\<lparr>ready := rest @ [i], jobs := (jobs a)(i \<mapsto> j\<lparr>resume := In_yield\<rparr>)\<rparr>"
  have "sched_core {i} ?a"
    using sched_core_resume [OF core j, of "rest @ [i]" In_yield] R(1) r by (auto simp: insert_absorb)
  then have "sched_core {} ?a"
    using sched_core_insert [of i "{}" ?a] can_resume_yield [of ?a i] by simp
  from switch_ok [OF this] show ?thesis
    using r j inv by (auto simp: spec_yield_def Let_def split: sum.splits)
qed

lemma spec_exit_ok:
  assumes inv: "sched_inv a"
  shows "case spec_exit c n a of
      Inl e \<Rightarrow> e = Exit 0 \<and> ready (finish (hd (ready a)) (n mod 256) c a) = []
    | Inr (ev, a') \<Rightarrow> sched_inv a'"
proof -
  obtain i rest where r: "ready a = i # rest" and core: "sched_core {i} a"
    using inv by (cases "ready a") (auto simp: sched_inv_def)
  obtain j where j: "jobs a i = Some j" "status j = Alive"
    using ready_okD(2) [OF sched_coreD(1) [OF core], of i] r by auto
  have "sched_core {} (finish i (n mod 256) c a)" using sched_core_finish [OF core j] by simp
  from switch_ok [OF this] show ?thesis using r by (auto simp: spec_exit_def split: sum.splits)
qed

lemma spec_join_ok:
  assumes inv: "sched_inv a"
  shows "case spec_join k a of
      Inl e \<Rightarrow> e = Fault \<and> tl (ready a) = []
    | Inr (ev, a') \<Rightarrow> sched_inv a'"
proof -
  obtain i rest where r: "ready a = i # rest" and core: "sched_core {i} a"
    using inv by (cases "ready a") (auto simp: sched_inv_def)
  obtain j where j: "jobs a i = Some j" "status j = Alive"
    using ready_okD(2) [OF sched_coreD(1) [OF core], of i] r by auto
  show ?thesis
  proof (cases "\<exists>l. jobs a k = Some l \<and> k \<noteq> i \<and> waiter l = None")
    case False
    then show ?thesis using inv r by (auto simp: spec_join_def split: option.split)
  next
    case True
    then obtain l where l: "jobs a k = Some l" "k \<noteq> i" "waiter l = None" by blast
    show ?thesis
    proof (cases "exited l")
      case True
      have "sched_core {i} (a\<lparr>jobs := (jobs a)(k := None)\<rparr>)"
        by (rule sched_core_reap [OF core l(1) True]) (simp add: l(3))
      then show ?thesis using l True r by (simp add: spec_join_def sched_inv_def)
    next
      case False
      let ?a = "a\<lparr>ready := rest, jobs := (jobs a)
          (i \<mapsto> j\<lparr>status := Waiting, resume := In_join (int k)\<rparr>, k \<mapsto> l\<lparr>waiter := Some i\<rparr>)\<rparr>"
      note core' = sched_core_wait [OF core r j(1) l False]
      from switch_ok [OF core'] show ?thesis using l False r j
        by (auto simp: spec_join_def split: sum.splits)
    qed
  qed
qed

lemma spec_cancel_ok:
  assumes inv: "sched_inv a" and k: "\<And>l. jobs a k = Some l \<Longrightarrow> status l \<noteq> Waiting"
  shows "case spec_cancel k a of
      Inl e \<Rightarrow> e = Fault \<and> (\<exists>l. jobs a k = Some l \<and> exited l)
    | Inr (ev, a') \<Rightarrow> sched_inv a'"
proof -
  obtain i rest where r: "ready a = i # rest" and core: "sched_core {i} a"
    using inv by (cases "ready a") (auto simp: sched_inv_def)
  show ?thesis
  proof (cases "\<exists>l. jobs a k = Some l \<and> k \<noteq> i \<and> \<not> exited l")
    case False
    then show ?thesis using inv r by (auto simp: spec_cancel_def split: option.split)
  next
    case True
    then obtain l where l: "jobs a k = Some l" "k \<noteq> i" "\<not> exited l" by blast
    then have alive: "status l = Alive" using k by (cases "status l") auto
    have "sched_core {i} (finish k 128 (resume l) a)"
      using sched_core_finish [OF core l(1) alive] l(2) by (simp add: insert_Diff_if)
    moreover have "hd (ready (finish k 128 (resume l) a)) = i \<and> ready (finish k 128 (resume l) a) \<noteq> []"
      using r l(2) by (auto simp: finish_def awaken_def Let_def split: option.split)
    ultimately show ?thesis using l r by (simp add: spec_cancel_def sched_inv_def)
  qed
qed

lemma spec_create_ok:
  "sched_inv a \<Longrightarrow> spec_create f a = (i, a') \<Longrightarrow> sched_inv a' \<and> i \<notin> dom (jobs a) \<and> ready a' = ready a @ [i]"
  using sched_core_create [of "{hd (ready a)}" a f i a'] by (auto simp: sched_inv_def)

section \<open>When a call stops\<close>

text \<open>The running job is the only one that is ready, and no job waits for it.\<close>

definition alone :: "sched \<Rightarrow> bool" where
  "alone a \<longleftrightarrow> (\<exists>i j. ready a = [i] \<and> jobs a i = Some j \<and> waiter j = None)"

lemma spec_yield_stops: "sched_inv a \<Longrightarrow> spec_yield a \<noteq> Inl e"
  using spec_yield_ok [of a] by auto

lemma spec_exit_stops:
  assumes inv: "sched_inv a"
  shows "spec_exit c n a = Inl e \<longleftrightarrow> e = Exit 0 \<and> alone a"
proof -
  obtain i rest where r: "ready a = i # rest" and core: "sched_core {i} a"
    using inv by (cases "ready a") (auto simp: sched_inv_def)
  obtain j where j: "jobs a i = Some j"
    using ready_okD(2) [OF sched_coreD(1) [OF core], of i] r by auto
  have "ready (finish i (n mod 256) c a) = [] \<longleftrightarrow> alone a"
    using r j by (auto simp: finish_def awaken_def Let_def alone_def split: option.split)
  moreover have "spec_exit c n a = Inl (Exit 0)" if "ready (finish i (n mod 256) c a) = []"
    using that r by (simp add: spec_exit_def switch_def)
  ultimately show ?thesis using spec_exit_ok [OF inv, of n c] r by (auto split: sum.splits)
qed

lemma spec_join_stops:
  assumes inv: "sched_inv a"
  shows "spec_join k a = Inl e \<longleftrightarrow> e = Fault \<and>
    (\<exists>i l. ready a = [i] \<and> k \<noteq> i \<and> jobs a k = Some l \<and> \<not> exited l \<and> waiter l = None)"
proof -
  obtain i rest where r: "ready a = i # rest" using inv by (cases "ready a") (auto simp: sched_inv_def)
  then show ?thesis
    using spec_join_ok [OF inv, of k] by (auto simp: spec_join_def split: option.splits if_splits sum.splits)
qed

lemma spec_cancel_stops:
  assumes inv: "sched_inv a"
  shows "spec_cancel k a = Inl e \<longleftrightarrow> e = Fault \<and> (\<exists>l. jobs a k = Some l \<and> exited l)"
proof -
  obtain i rest where r: "ready a = i # rest" and core: "sched_core {i} a"
    using inv by (cases "ready a") (auto simp: sched_inv_def)
  then show ?thesis
    using ready_okD(2) [OF sched_coreD(1) [OF core], of i]
    by (auto simp: spec_cancel_def split: option.splits)
qed

end
