(* ===== verification/Wut_Refine.thy ===== *)
theory Wut_Refine
  imports Wut_Spec
begin

text \<open>
  The functions of \<open>wut/src/wut.c\<close> implement the calls of \<open>Wut_Spec\<close>.  \<open>rep D s a\<close> relates a state of
  the library to a scheduler: the queue leads through the entries of the ready jobs in order, and
  every slot of the thread array agrees with the job of its id.  For the ids in \<open>D\<close> the pointer
  from the thread to its entry need not be right: threads that are just being ended.
\<close>

section \<open>The relation\<close>

definition job_of :: "thread \<Rightarrow> job" where
  "job_of th =
     \<lparr>status = (if state th = -1 then Alive else if state th = -2 then Waiting else Exited (state th)),
      waiter = (if 0 \<le> block_id th then Some (nat (block_id th)) else None),
      resume = ctx_ptr th\<rparr>"

definition ent_ok :: "wut \<Rightarrow> nat \<Rightarrow> bool" where
  "ent_ok s t \<longleftrightarrow> (case ent (tcbs s ! t) of
      Some e \<Rightarrow> state (tcbs s ! t) < 0 \<and> e < length (ents s) \<and> val (ents s ! e) = t
    | None \<Rightarrow> 0 \<le> state (tcbs s ! t))"

definition thread_ok :: "wut \<Rightarrow> nat \<Rightarrow> nat \<Rightarrow> bool" where
  "thread_ok s i t \<longleftrightarrow> t < length (tcbs s) \<and> tid (tcbs s ! t) = int i \<and>
     -2 \<le> state (tcbs s ! t) \<and> -1 \<le> block_id (tcbs s ! t)"

abbreviation addr_of :: "wut \<Rightarrow> nat \<Rightarrow> nat" where
  "addr_of s i \<equiv> the (threads' s ! i)"

definition queue_ok :: "wut \<Rightarrow> nat list \<Rightarrow> bool" where
  "queue_ok s is \<longleftrightarrow> (\<exists>xs. queued s xs \<and> map (\<lambda>e. val (ents s ! e)) xs = map (addr_of s) is)"

definition rep :: "nat set \<Rightarrow> wut \<Rightarrow> sched \<Rightarrow> bool" where
  "rep D s a \<longleftrightarrow> queue_ok s (ready a) \<and> distinct (map val (ents s)) \<and>
     (\<forall>x \<in> set (ents s). val x < length (tcbs s)) \<and>
     length (threads' s) = cap a \<and> threads_capacity s = int (cap a) \<and> threads_count s = int (made a) \<and>
     (\<forall>i. jobs a i = (if i < cap a then map_option (\<lambda>t. job_of (tcbs s ! t)) (threads' s ! i) else None)) \<and>
     (\<forall>i < cap a. \<forall>t. threads' s ! i = Some t \<longrightarrow> thread_ok s i t \<and> (i \<notin> D \<longrightarrow> ent_ok s t)) \<and>
     set (ready a) \<subseteq> dom (jobs a)"

lemma repD:
  assumes "rep D s a"
  shows "queue_ok s (ready a)" "distinct (map val (ents s))" "\<forall>x \<in> set (ents s). val x < length (tcbs s)"
    "length (threads' s) = cap a" "threads_capacity s = int (cap a)" "threads_count s = int (made a)"
    and "jobs a i = (if i < cap a then map_option (\<lambda>t. job_of (tcbs s ! t)) (threads' s ! i) else None)"
    and "i < cap a \<Longrightarrow> threads' s ! i = Some t \<Longrightarrow> thread_ok s i t"
    and "i < cap a \<Longrightarrow> threads' s ! i = Some t \<Longrightarrow> i \<notin> D \<Longrightarrow> ent_ok s t"
    and "set (ready a) \<subseteq> dom (jobs a)"
  using assms by (simp_all add: rep_def)

text \<open>The thread of a job.\<close>

lemma rep_job:
  assumes "rep D s a" "jobs a i = Some j"
  obtains t where "i < cap a" "threads' s ! i = Some t" "j = job_of (tcbs s ! t)" "t < length (tcbs s)"
    "tid (tcbs s ! t) = int i" "-2 \<le> state (tcbs s ! t)" "-1 \<le> block_id (tcbs s ! t)"
proof -
  from assms(2) repD(7) [OF assms(1), of i] have "i < cap a" "threads' s ! i \<noteq> None"
    by (auto split: if_splits)
  then obtain t where "threads' s ! i = Some t" by blast
  then show thesis
    using that [of t] repD(7,8) [OF assms(1), of i] assms(2) \<open>i < cap a\<close> by (simp add: thread_ok_def)
qed

lemma rep_slot_inj:
  assumes "rep D s a" "i < cap a" "k < cap a" "threads' s ! i = Some t" "threads' s ! k = Some t"
  shows "i = k"
  using repD(8) [OF assms(1,2,4)] repD(8) [OF assms(1,3,5)] by (simp add: thread_ok_def)

lemma job_of_simps [simp]:
  "status (job_of th) = Alive \<longleftrightarrow> state th = -1" "status (job_of th) = Waiting \<longleftrightarrow> state th = -2"
  "resume (job_of th) = ctx_ptr th"
  "waiter (job_of th) = None \<longleftrightarrow> block_id th < 0"
  "waiter (job_of th) = Some w \<longleftrightarrow> block_id th = int w"
  by (auto simp: job_of_def)

lemma job_of_update [simp]:
  "job_of (th\<lparr>ctx_ptr := c\<rparr>) = (job_of th)\<lparr>resume := c\<rparr>"
  "job_of (th\<lparr>uc_link := b\<rparr>) = job_of th" "job_of (th\<lparr>ent := e\<rparr>) = job_of th"
  "job_of (th\<lparr>block_id := int w\<rparr>) = (job_of th)\<lparr>waiter := Some w\<rparr>"
  "job_of (th\<lparr>state := -1\<rparr>) = (job_of th)\<lparr>status := Alive\<rparr>"
  "job_of (th\<lparr>state := -2\<rparr>) = (job_of th)\<lparr>status := Waiting\<rparr>"
  "0 \<le> n \<Longrightarrow> job_of (th\<lparr>state := n\<rparr>) = (job_of th)\<lparr>status := Exited n\<rparr>"
  by (simp_all add: job_of_def)

lemma exited_job_of: "-2 \<le> state th \<Longrightarrow> exited (job_of th) \<longleftrightarrow> 0 \<le> state th"
  by (auto simp: job_of_def exited_def)

lemma exit_code_job_of: "exit_code (job_of th) = state th"
  by (simp add: job_of_def exit_code_def)

lemma get_slot_at: "i < length (threads' s) \<Longrightarrow> get_slot (int i) s = Inr (threads' s ! i, s)"
  by (simp add: get_slot_def seq_apply)

lemma thread_at_eq: "i < length (threads' s) \<Longrightarrow> threads' s ! i = Some t \<Longrightarrow> thread_at (int i) s = Inr (t, s)"
  by (simp add: thread_at_def bnd_apply get_slot_at deref_def)

lemma get_thread_eq: "t < length (tcbs s) \<Longrightarrow> get_thread t s = Inr (tcbs s ! t, s)"
  by (simp add: get_thread_def seq_apply)

lemma set_thread_eq:
  "t < length (tcbs s) \<Longrightarrow> set_thread t f s = Inr ((), s\<lparr>tcbs := (tcbs s)[t := f (tcbs s ! t)]\<rparr>)"
  by (simp add: set_thread_def seq_apply)

lemma get_entry_eq: "e < length (ents s) \<Longrightarrow> get_entry e s = Inr (ents s ! e, s)"
  by (simp add: get_entry_def seq_apply)

text \<open>The first entry of the queue.\<close>

lemma rep_head:
  assumes "rep D s a" "ready a = i # r"
  obtains e t where "TAILQ_FIRST s = Inr (Some e, s)" "e < length (ents s)" "val (ents s ! e) = t"
    "head_entry s = Inr (e, s)" "head_thread s = Inr (t, s)"
    "i < cap a" "threads' s ! i = Some t" "t < length (tcbs s)"
    "jobs a i = Some (job_of (tcbs s ! t))" "tid (tcbs s ! t) = int i"
    "-2 \<le> state (tcbs s ! t)" "-1 \<le> block_id (tcbs s ! t)"
    "tqe_next (ents s ! e) = None \<longleftrightarrow> r = []"
proof -
  obtain xs where q: "queued s xs" "map (\<lambda>e. val (ents s ! e)) xs = map (addr_of s) (ready a)"
    using repD(1) [OF assms(1)] by (auto simp: queue_ok_def)
  then obtain e ys where xs: "xs = e # ys" and e: "val (ents s ! e) = addr_of s i"
      and "map (\<lambda>e. val (ents s ! e)) ys = map (addr_of s) r"
    using assms(2) by (cases xs) auto
  from map_eq_imp_length_eq [OF this(3)] have len: "ys = [] \<longleftrightarrow> r = []" by auto
  have "jobs a i \<noteq> None" using repD(10) [OF assms(1)] assms(2) by auto
  then obtain t where t: "i < cap a" "threads' s ! i = Some t" "t < length (tcbs s)"
      "jobs a i = Some (job_of (tcbs s ! t))" "tid (tcbs s ! t) = int i"
      "-2 \<le> state (tcbs s ! t)" "-1 \<le> block_id (tcbs s ! t)"
    using rep_job [OF assms(1), of i] by (metis not_None_eq)
  have "e < length (ents s)" using ready.members [OF q(1)] xs by simp
  moreover have first: "TAILQ_FIRST s = Inr (Some e, s)" using ready.head [OF q(1)] xs by simp
  moreover have "tqe_next (ents s ! e) = None \<longleftrightarrow> ys = []"
    using q(1) xs by (cases ys) (auto simp: queued_def)
  ultimately show thesis
    using that [of e t] t e len by (simp add: head_entry_def head_thread_def bnd_apply deref_def get_entry_eq)
qed

section \<open>Steps\<close>

text \<open>A change of one thread.\<close>

lemma ent_ok_other: "u \<noteq> t \<Longrightarrow> ent_ok (s\<lparr>tcbs := (tcbs s)[t := x]\<rparr>) u = ent_ok s u"
  by (simp add: ent_ok_def split: option.split)

lemma ent_ok_fields [simp]:
  "ent_ok (threads'_update f s) t = ent_ok s t" "ent_ok (threads_count_update g s) t = ent_ok s t"
  "ent_ok (threads_capacity_update g s) t = ent_ok s t" "ent_ok (memory_update h s) t = ent_ok s t"
  "thread_ok (threads'_update f s) i t = thread_ok s i t" "thread_ok (threads_count_update g s) i t = thread_ok s i t"
  "thread_ok (threads_capacity_update g s) i t = thread_ok s i t" "thread_ok (memory_update h s) i t = thread_ok s i t"
  by (auto simp: ent_ok_def thread_ok_def split: option.split)

lemma ent_ok_same:
  "t < length (tcbs s) \<Longrightarrow> ent th = ent (tcbs s ! t) \<Longrightarrow> (state th < 0) = (state (tcbs s ! t) < 0) \<Longrightarrow>
     ent_ok (s\<lparr>tcbs := (tcbs s)[t := th]\<rparr>) t = ent_ok s t"
  by (auto simp: ent_ok_def split: option.split)

lemma rep_set_thread:
  assumes rep: "rep D s a" and i: "i < cap a" "threads' s ! i = Some t"
    and f: "tid th = int i" "-2 \<le> state th" "-1 \<le> block_id th"
    and D: "D \<subseteq> insert i D'"
    and ent: "i \<notin> D' \<Longrightarrow> ent_ok (s\<lparr>tcbs := (tcbs s)[t := th]\<rparr>) t"
  shows "rep D' (s\<lparr>tcbs := (tcbs s)[t := th]\<rparr>) (a\<lparr>jobs := (jobs a)(i \<mapsto> job_of th)\<rparr>)" (is "rep D' ?s ?a")
proof -
  note R = repD [OF rep]
  have t: "t < length (tcbs s)" using R(8) [OF i] by (simp add: thread_ok_def)
  have inj: "u \<noteq> t" if "k < cap a" "threads' s ! k = Some u" "k \<noteq> i" for k u
    using rep_slot_inj [OF rep i(1) that(1) i(2)] that by auto
  have "queue_ok ?s (ready ?a)"
    using R(1) by (simp add: queue_ok_def queued_def)
  moreover have "jobs ?a k = (if k < cap ?a then map_option (\<lambda>t. job_of (tcbs ?s ! t)) (threads' ?s ! k) else None)" for k
  proof (cases "k = i")
    case True
    then show ?thesis using i t by simp
  next
    case False
    then show ?thesis using R(7) [of k] inj [of k]
      by (cases "threads' s ! k") (auto split: if_splits)
  qed
  moreover have "thread_ok ?s k u \<and> (k \<notin> D' \<longrightarrow> ent_ok ?s u)" if k: "k < cap a" "threads' s ! k = Some u" for k u
  proof (cases "k = i")
    case True
    then have "u = t" using i k by simp
    then show ?thesis using True t f ent by (simp add: thread_ok_def)
  next
    case False
    then show ?thesis
      using R(8) [OF k] R(9) [OF k] inj [OF k] D by (auto simp: thread_ok_def ent_ok_other)
  qed
  ultimately show ?thesis
    using R(2-6,10) by (auto simp: rep_def)
qed

text \<open>The usual case: the thread keeps its id and its entry, and is a thread that has exited as before.\<close>

lemma rep_update:
  assumes rep: "rep D s a" and i: "i < cap a" "threads' s ! i = Some t" "i \<notin> D"
    and th: "tid th = tid (tcbs s ! t)" "ent th = ent (tcbs s ! t)" "(state th < 0) = (state (tcbs s ! t) < 0)"
      "-2 \<le> state th" "-1 \<le> block_id th"
  shows "rep D (s\<lparr>tcbs := (tcbs s)[t := th]\<rparr>) (a\<lparr>jobs := (jobs a)(i \<mapsto> job_of th)\<rparr>)"
proof -
  have t: "t < length (tcbs s)" "tid (tcbs s ! t) = int i" using repD(8) [OF rep i(1,2)] by (simp_all add: thread_ok_def)
  have "ent_ok (s\<lparr>tcbs := (tcbs s)[t := th]\<rparr>) t"
    using repD(9) [OF rep i] ent_ok_same [OF t(1) th(2,3)] by simp
  then show ?thesis using t(2) th by (intro rep_set_thread [OF rep i(1,2)]) auto
qed

text \<open>Queue operations, which change only the links.\<close>

lemma wut_more:
  fixes s s' :: wut
  assumes "unchanged s' = unchanged s"
  shows "tcbs s' = tcbs s" "threads' s' = threads' s" "threads_count s' = threads_count s"
    "threads_capacity s' = threads_capacity s" "memory s' = memory s" "errno s' = errno s"
    "map val (ents s') = map val (ents s)" "length (ents s') = length (ents s)"
    "e < length (ents s) \<Longrightarrow> val (ents s' ! e) = val (ents s ! e)"
proof -
  have m: "map val (ents s') = map val (ents s)" and more: "queue.more s' = queue.more s"
    using assms by (simp_all add: unchanged_def)
  show "tcbs s' = tcbs s" "threads' s' = threads' s" "threads_count s' = threads_count s"
    "threads_capacity s' = threads_capacity s" "memory s' = memory s" "errno s' = errno s"
    using more by (cases s; cases s'; simp)+
  show "map val (ents s') = map val (ents s)" by (fact m)
  then show len: "length (ents s') = length (ents s)" by (rule map_eq_imp_length_eq)
  show "val (ents s' ! e) = val (ents s ! e)" if "e < length (ents s)"
    using arg_cong [OF m, of "\<lambda>l. l ! e"] len that by simp
qed

lemma rep_relink:
  assumes rep: "rep D s a" and same: "unchanged s' = unchanged s"
    and q: "queued s' xs" "map (\<lambda>e. val (ents s ! e)) xs = map (addr_of s) is"
    and "\<forall>e \<in> set xs. e < length (ents s)" and "set is \<subseteq> dom (jobs a)"
  shows "rep D s' (a\<lparr>ready := is\<rparr>)"
proof -
  note R = repD [OF rep] and M = wut_more [OF same]
  have "map (\<lambda>e. val (ents s' ! e)) xs = map (\<lambda>e. val (ents s ! e)) xs"
    using assms(5) M(9) by simp
  then have "queue_ok s' is" using q M(2) by (auto simp: queue_ok_def)
  moreover have "\<forall>v \<in> set (map val (ents s')). v < length (tcbs s)"
    unfolding M(7) using R(3) by simp
  then have "\<forall>x \<in> set (ents s'). val x < length (tcbs s)" by simp
  moreover have "ent_ok s' t = ent_ok s t" "thread_ok s' i t = thread_ok s i t" for i t
    using M by (auto simp: ent_ok_def thread_ok_def split: option.split)
  ultimately show ?thesis
    using rep assms(6) by (simp add: rep_def M(1-4,7))
qed

lemma entry_unique:
  assumes "distinct (map val (ents s))" "e < length (ents s)" "e' < length (ents s)"
    "val (ents s ! e) = val (ents s ! e')"
  shows "e = e'"
  using assms nth_eq_iff_index_eq [of "map val (ents s)" e e'] by simp

lemma map_inj_remove1:
  "inj_on f (insert x (set xs)) \<Longrightarrow> map f (remove1 x xs) = remove1 (f x) (map f xs)"
  by (induction xs) (auto simp: inj_on_def)

lemma rep_insert_tail:
  assumes rep: "rep D s a" and i: "jobs a i \<noteq> None" "i \<notin> set (ready a)"
    and e: "e < length (ents s)" "val (ents s ! e) = addr_of s i"
  shows "\<exists>s'. TAILQ_INSERT_TAIL e s = Inr ((), s') \<and> rep D s' (a\<lparr>ready := ready a @ [i]\<rparr>) \<and> unchanged s' = unchanged s"
proof -
  note R = repD [OF rep]
  obtain xs where q: "queued s xs" "map (\<lambda>e. val (ents s ! e)) xs = map (addr_of s) (ready a)"
    using R(1) by (auto simp: queue_ok_def)
  have new: "e \<notin> set xs"
  proof
    assume "e \<in> set xs"
    then have "addr_of s i \<in> set (map (addr_of s) (ready a))" unfolding q(2) [symmetric] e(2) [symmetric] by simp
    then obtain k where k: "k \<in> set (ready a)" "addr_of s k = addr_of s i" by auto
    obtain j where "jobs a i = Some j" using i(1) by auto
    then obtain t where t: "i < cap a" "threads' s ! i = Some t" using rep_job [OF rep] by metis
    obtain j' where "jobs a k = Some j'" using R(10) k(1) by auto
    then obtain u where u: "k < cap a" "threads' s ! k = Some u" using rep_job [OF rep] by metis
    then have "k = i" using rep_slot_inj [OF rep u(1) t(1) u(2)] k(2) t by simp
    then show False using k(1) i(2) by simp
  qed
  obtain s' where s': "TAILQ_INSERT_TAIL e s = Inr ((), s')" "queued s' (xs @ [e])" "unchanged s' = unchanged s"
    using ready.insert_tail [OF q(1) e(1) new] by blast
  have "rep D s' (a\<lparr>ready := ready a @ [i]\<rparr>)"
    using ready.members [OF q(1)] q(2) e R(10) i(1) by (intro rep_relink [OF rep s'(3,2)]) auto
  then show ?thesis using s' by blast
qed

lemma rep_remove:
  assumes rep: "rep D s a" and i: "i \<in> set (ready a)" and "distinct (ready a)"
    and e: "e < length (ents s)" "val (ents s ! e) = addr_of s i"
  shows "\<exists>s'. TAILQ_REMOVE e s = Inr ((), s') \<and> rep D s' (a\<lparr>ready := remove1 i (ready a)\<rparr>) \<and> unchanged s' = unchanged s"
proof -
  note R = repD [OF rep]
  obtain xs where q: "queued s xs" "map (\<lambda>e. val (ents s ! e)) xs = map (addr_of s) (ready a)"
    using R(1) by (auto simp: queue_ok_def)
  note M = ready.members [OF q(1)]
  have "addr_of s i \<in> set (map (\<lambda>e. val (ents s ! e)) xs)" unfolding q(2) using i by simp
  then obtain e' where "e' \<in> set xs" "val (ents s ! e') = addr_of s i" by auto
  then have in_q: "e \<in> set xs" using entry_unique [OF R(2) e(1), of e'] M e(2) by auto
  obtain s' where s': "TAILQ_REMOVE e s = Inr ((), s')" "queued s' (remove1 e xs)" "unchanged s' = unchanged s"
    using ready.remove [OF q(1) in_q] by blast
  have "inj_on (\<lambda>e. val (ents s ! e)) (insert e (set xs))"
    using M e(1) entry_unique [OF R(2)] by (auto simp: inj_on_def)
  moreover have "inj_on (addr_of s) (insert i (set (ready a)))"
  proof (rule inj_onI)
    fix k m assume km: "k \<in> insert i (set (ready a))" "m \<in> insert i (set (ready a))" "addr_of s k = addr_of s m"
    then obtain j j' where "jobs a k = Some j" "jobs a m = Some j'" using R(10) i by blast
    then show "k = m" using km(3) rep_slot_inj [OF rep, of k m] by (metis rep_job [OF rep] option.sel)
  qed
  ultimately have "map (\<lambda>e. val (ents s ! e)) (remove1 e xs) = map (addr_of s) (remove1 i (ready a))"
    using q(2) e(2) by (simp add: map_inj_remove1)
  then have "rep D s' (a\<lparr>ready := remove1 i (ready a)\<rparr>)"
    using M R(10) by (intro rep_relink [OF rep s'(3,2)]) (auto dest: notin_set_remove1 set_remove1_subset [THEN subsetD])
  then show ?thesis using s' by blast
qed

text \<open>Giving an id back.\<close>

lemma rep_set_slot_None:
  assumes rep: "rep D s a" and k: "k < cap a" "k \<notin> set (ready a)"
  shows "set_slot (int k) None s = Inr ((), s\<lparr>threads' := (threads' s)[k := None]\<rparr>)"
    and "rep D (s\<lparr>threads' := (threads' s)[k := None]\<rparr>) (a\<lparr>jobs := (jobs a)(k := None)\<rparr>)" (is "rep D ?s ?a")
proof -
  note R = repD [OF rep]
  have len: "k < length (threads' s)" using R(4) k(1) by simp
  then show "set_slot (int k) None s = Inr ((), ?s)" by (simp add: set_slot_def seq_apply)
  have "queue_ok ?s (ready ?a)"
  proof -
    have "addr_of ?s i = addr_of s i" if "i \<in> set (ready a)" for i
      using that k(2) by (cases "i = k") auto
    then have "map (addr_of ?s) (ready a) = map (addr_of s) (ready a)" by (rule map_cong [OF refl])
    moreover obtain xs where "queued s xs" "map (\<lambda>e. val (ents s ! e)) xs = map (addr_of s) (ready a)"
      using R(1) by (auto simp: queue_ok_def)
    ultimately show ?thesis
      unfolding queue_ok_def by (intro exI [of _ xs]) (simp add: queued_def)
  qed
  moreover have "jobs ?a i = (if i < cap ?a then map_option (\<lambda>t. job_of (tcbs ?s ! t)) (threads' ?s ! i) else None)" for i
    using R(7) [of i] len k(1) by (auto simp: nth_list_update)
  moreover have "thread_ok ?s i t \<and> (i \<notin> D \<longrightarrow> ent_ok ?s t)" if "i < cap a" "threads' ?s ! i = Some t" for i t
  proof -
    have "threads' s ! i = Some t" using that len by (auto simp: nth_list_update split: if_splits)
    then show ?thesis using R(8,9) [OF that(1)] by simp
  qed
  moreover have "set (ready ?a) \<subseteq> dom (jobs ?a)" using R(10) k(2) by auto
  ultimately show "rep D ?s ?a" using R(2-6) by (simp add: rep_def)
qed

lemma reap_refines:
  assumes rep: "rep D s a" and k: "jobs a k = Some l" "k \<notin> set (ready a)"
  shows "\<exists>s'. reap (int k) s = Inr (exit_code l, s') \<and> rep D s' (a\<lparr>jobs := (jobs a)(k := None)\<rparr>)"
proof -
  obtain t where t: "k < cap a" "threads' s ! k = Some t" "l = job_of (tcbs s ! t)" "t < length (tcbs s)"
    using rep_job [OF rep k(1)] by metis
  have "thread_at (int k) s = Inr (t, s)" using t repD(4) [OF rep] by (simp add: thread_at_eq)
  then show ?thesis
    using rep_set_slot_None [OF rep t(1) k(2)] t
    by (auto simp: reap_def bnd_apply seq_apply get_thread_eq exit_code_job_of)
qed

section \<open>Calls\<close>

definition agrees :: "stop + event \<times> wut \<Rightarrow> stop + event \<times> sched \<Rightarrow> bool" where
  "agrees r q \<longleftrightarrow> (case q of Inl e \<Rightarrow> r = Inl e | Inr (ev, a') \<Rightarrow> \<exists>s'. r = Inr (ev, s') \<and> rep {} s' a')"

lemma jump_refines:
  assumes rep: "rep {} s a" and ready: "ready a = i # r" and core: "sched_core {} a"
    and t: "i < cap a" "threads' s ! i = Some t"
  shows "agrees (jump t s) (switch a)"
proof -
  have tt: "jobs a i = Some (job_of (tcbs s ! t))" "t < length (tcbs s)" "tid (tcbs s ! t) = int i"
    using repD(7,8) [OF rep, of i] t by (auto simp: thread_ok_def)
  have "can_resume a i" using sched_coreD(5) [OF core, of i] ready by simp
  then consider f where "ctx_ptr (tcbs s ! t) = Enters f" | "ctx_ptr (tcbs s ! t) = In_yield"
    | k l where "ctx_ptr (tcbs s ! t) = In_join (int k)" "jobs a k = Some l" "exited l"
    using tt(1) unfolding can_resume_def by auto
  then show ?thesis
  proof cases
    case (3 k l)
    have "k \<notin> set (ready a)"
      using ready_okD(2) [OF sched_coreD(1) [OF core], of k] 3 by auto
    from reap_refines [OF rep 3(2) this] 3 show ?thesis
      using tt ready by (auto simp: agrees_def jump_def bnd_apply get_thread_eq switch_def)
  qed (use tt ready rep in \<open>auto simp: agrees_def jump_def bnd_apply get_thread_eq switch_def\<close>)
qed

text \<open>\<open>jump\<close> to the thread of the first entry.\<close>

lemma jump_head_refines:
  assumes rep: "rep {} s a" and ready: "ready a = i # r" and core: "sched_core {} a"
  shows "\<exists>t. head_thread s = Inr (t, s) \<and> agrees (jump t s) (switch a)"
proof -
  obtain e t where "head_thread s = Inr (t, s)" "i < cap a" "threads' s ! i = Some t"
    using rep_head [OF rep ready] by metis
  then show ?thesis using jump_refines [OF rep ready core] by blast
qed

lemma sched_invE:
  assumes "sched_inv a"
  obtains i r j where "ready a = i # r" "sched_core {i} a" "jobs a i = Some j" "status j = Alive"
    "distinct (i # r)" "i \<notin> set r"
proof -
  obtain i r where r: "ready a = i # r" and core: "sched_core {i} a"
    using assms by (cases "ready a") (auto simp: sched_inv_def)
  note R = ready_okD [OF sched_coreD(1) [OF core]]
  obtain j where "jobs a i = Some j" "status j = Alive" using R(2) [of i] r by auto
  then show thesis using that [OF r core] R(1) r by simp
qed

lemma wut_yield_refines:
  assumes rep: "rep {} s a" and inv: "sched_inv a"
  shows "agrees (wut_yield s) (spec_yield a)"
proof -
  obtain i r j where r: "ready a = i # r" and core: "sched_core {i} a"
      and j: "jobs a i = Some j" "status j = Alive" and d: "distinct (i # r)" "i \<notin> set r"
    using sched_invE [OF inv] by metis
  obtain e t where h: "head_entry s = Inr (e, s)" "e < length (ents s)" "val (ents s ! e) = t"
      "i < cap a" "threads' s ! i = Some t" "t < length (tcbs s)" "jobs a i = Some (job_of (tcbs s ! t))"
      "tid (tcbs s ! t) = int i" "-2 \<le> state (tcbs s ! t)" "-1 \<le> block_id (tcbs s ! t)"
      "tqe_next (ents s ! e) = None \<longleftrightarrow> r = []"
    using rep_head [OF rep r] by metis
  show ?thesis
  proof (cases r)
    case Nil
    then show ?thesis
      using h r rep by (simp add: agrees_def wut_yield_def spec_yield_def bnd_apply get_entry_eq)
  next
    case (Cons i2 r2)
    obtain s1 where s1: "TAILQ_REMOVE e s = Inr ((), s1)" "rep {} s1 (a\<lparr>ready := r\<rparr>)" "unchanged s1 = unchanged s"
      using rep_remove [OF rep, of i e] r h d by auto
    note M1 = wut_more [OF s1(3)]
    obtain s2 where s2: "TAILQ_INSERT_TAIL e s1 = Inr ((), s2)" "rep {} s2 (a\<lparr>ready := r @ [i]\<rparr>)"
        "unchanged s2 = unchanged s1"
      using rep_insert_tail [OF s1(2), of i e] r h d M1 by auto
    note M2 = wut_more [OF s2(3)]
    let ?th = "(tcbs s ! t)\<lparr>ctx_ptr := In_yield\<rparr>"
    let ?s = "s2\<lparr>tcbs := (tcbs s2)[t := ?th]\<rparr>"
    let ?a = "a\<lparr>ready := r @ [i], jobs := (jobs a)(i \<mapsto> j\<lparr>resume := In_yield\<rparr>)\<rparr>"
    have job: "j = job_of (tcbs s ! t)" using j h(7) by simp
    have "ent_ok s2 t" using repD(9) [OF s2(2), of i t] h M1 M2 by simp
    then have "ent_ok ?s t" using ent_ok_same [of t s2 ?th] h(6) M1(1) M2(1) by simp
    then have rep3: "rep {} ?s ?a"
      using rep_set_thread [OF s2(2), of i t ?th "{}"] h M1 M2 by (simp add: job)
    have core3: "sched_core {} ?a"
    proof -
      have "sched_core {i} ?a"
        using sched_core_resume [OF core j, of "r @ [i]" In_yield] d r by (auto simp: insert_absorb)
      then show ?thesis using sched_core_insert [of i "{}" ?a] can_resume_yield [of ?a i] by simp
    qed
    obtain t2 where t2: "head_thread ?s = Inr (t2, ?s)" "agrees (jump t2 ?s) (switch ?a)"
      using jump_head_refines [OF rep3 _ core3, of i2 "r2 @ [i]"] Cons by auto
    have "head_thread s2 = Inr (t2, s2)"
      using t2(1) by (auto simp: head_thread_def head_entry_def TAILQ_FIRST_def get_entry_def deref_def prog_simps
          split: option.splits if_splits)
    moreover obtain n where "tqe_next (ents s ! e) = Some n" using h(11) Cons by auto
    ultimately have "wut_yield s = jump t2 ?s"
      using h(1-6) s1(1) s2(1) M1(1) M2(1)
      by (simp add: wut_yield_def bnd_apply seq_apply get_entry_eq set_thread_eq)
    moreover have "spec_yield a = switch ?a" using r Cons j by (simp add: spec_yield_def)
    ultimately show ?thesis using t2(2) by simp
  qed
qed

end
