(* ===== verification/Wut_Calls.thy ===== *)
theory Wut_Calls
  imports Wut_Refine
begin

text \<open>
  The remaining calls of \<open>wut/src/wut.c\<close> implement their specification: \<open>wut_exit\<close> and the return
  of a thread's function, \<open>wut_join\<close>, \<open>wut_cancel\<close>, \<open>wut_create\<close> and \<open>wut_init\<close>.
\<close>

section \<open>Waking the waiter\<close>

lemma wake_refines:
  assumes rep: "rep D s a" and w: "jobs a w = Some l" "status l = Waiting" "w \<notin> set (ready a)" "w \<notin> D"
  obtains s' where "wake (int w) s = Inr ((), s')" "rep D s' (awaken (Some w) a)" "threads' s' = threads' s"
    "length (tcbs s') = length (tcbs s)" "map val (ents s') = map val (ents s)"
    "\<And>t. t \<noteq> addr_of s w \<Longrightarrow> tcbs s' ! t = tcbs s ! t"
proof -
  obtain t where t: "w < cap a" "threads' s ! w = Some t" "l = job_of (tcbs s ! t)" "t < length (tcbs s)"
      "tid (tcbs s ! t) = int w" "-2 \<le> state (tcbs s ! t)" "-1 \<le> block_id (tcbs s ! t)"
    using rep_job [OF rep w(1)] by metis
  have st: "state (tcbs s ! t) = -2" using w(2) t(3) by simp
  have ok: "ent_ok s t" using repD(9) [OF rep t(1,2) w(4)] .
  then obtain e where e: "ent (tcbs s ! t) = Some e" "e < length (ents s)" "val (ents s ! e) = t"
    using st by (auto simp: ent_ok_def split: option.splits)
  obtain s1 where s1: "TAILQ_INSERT_TAIL e s = Inr ((), s1)" "rep D s1 (a\<lparr>ready := ready a @ [w]\<rparr>)"
      "unchanged s1 = unchanged s"
    using rep_insert_tail [OF rep _ w(3) e(2)] e(3) t(2) w(1) by auto
  note M = wut_more [OF s1(3)]
  let ?th = "(tcbs s ! t)\<lparr>state := -1\<rparr>"
  let ?s = "s1\<lparr>tcbs := (tcbs s1)[t := ?th]\<rparr>"
  have "rep D ?s (a\<lparr>ready := ready a @ [w], jobs := (jobs a)(w \<mapsto> job_of ?th)\<rparr>)"
    using rep_update [OF s1(2), of w t ?th] t w(4) st M by simp
  then have rep': "rep D ?s (awaken (Some w) a)" using w(1) t(3) by (simp add: awaken_def)
  have "wake (int w) s = Inr ((), ?s)"
    using t e s1(1) M(1) repD(4) [OF rep]
    by (simp add: wake_def bnd_apply seq_apply thread_at_eq get_thread_eq set_thread_eq deref_def)
  from that [OF this rep'] show thesis using M t(2) by simp
qed

text \<open>The waiter of job \<open>i\<close>, if it has one, is woken.\<close>

abbreviation wakes_waiter :: "sched \<Rightarrow> nat \<Rightarrow> job \<Rightarrow> bool" where
  "wakes_waiter a i j \<equiv> \<forall>w. waiter j = Some w \<longrightarrow>
     (\<exists>l. jobs a w = Some l \<and> status l = Waiting \<and> w \<noteq> i \<and> w \<notin> set (ready a))"

lemma awaken_keeps:
  assumes j: "jobs a i = Some j" and w: "wakes_waiter a i j"
  shows "cap (awaken (waiter j) a) = cap a" "jobs (awaken (waiter j) a) i = Some j"
    "ready (awaken (waiter j) a) = ready a @ (case waiter j of None \<Rightarrow> [] | Some x \<Rightarrow> [x])"
    "distinct (ready a) \<Longrightarrow> distinct (ready (awaken (waiter j) a))"
  using w j by (auto simp: awaken_def split: option.split)

lemma wake_waiter_refines:
  assumes rep: "rep D s a" and D: "D \<subseteq> {i}" and i: "i < cap a" "threads' s ! i = Some t"
    and j: "j = job_of (tcbs s ! t)" and w: "wakes_waiter a i j"
  obtains s' where "(if 0 \<le> block_id (tcbs s ! t) then wake (block_id (tcbs s ! t)) else skip) s = Inr ((), s')"
    "rep D s' (awaken (waiter j) a)" "threads' s' = threads' s" "length (tcbs s') = length (tcbs s)"
    "tcbs s' ! t = tcbs s ! t" "length (ents s') = length (ents s)"
    "\<And>e. e < length (ents s) \<Longrightarrow> val (ents s' ! e) = val (ents s ! e)"
proof (cases "waiter j")
  case None
  moreover from this have "block_id (tcbs s ! t) < 0" using j by simp
  ultimately show thesis using that [of s] rep by (simp add: awaken_def)
next
  case (Some x)
  then obtain l where l: "jobs a x = Some l" "status l = Waiting" "x \<noteq> i" "x \<notin> set (ready a)" using w by blast
  obtain tx where tx: "x < cap a" "threads' s ! x = Some tx" using rep_job [OF rep l(1)] by metis
  have other: "t \<noteq> addr_of s x" using rep_slot_inj [OF rep tx(1) i(1) tx(2)] i(2) l(3) tx(2) by auto
  have block: "block_id (tcbs s ! t) = int x" using Some j by simp
  obtain s1 where s1: "wake (int x) s = Inr ((), s1)" "rep D s1 (awaken (Some x) a)" "threads' s1 = threads' s"
      "length (tcbs s1) = length (tcbs s)" "map val (ents s1) = map val (ents s)" "tcbs s1 ! t = tcbs s ! t"
    using wake_refines [OF rep l(1,2,4)] D l(3) other by blast
  moreover have len: "length (ents s1) = length (ents s)" using s1(5) by (rule map_eq_imp_length_eq)
  moreover have "val (ents s1 ! e) = val (ents s ! e)" if "e < length (ents s)" for e
    using arg_cong [OF s1(5), of "\<lambda>l. l ! e"] that len by simp
  ultimately show thesis using that [of s1] Some block by simp
qed

section \<open>Exit\<close>

text \<open>The waiter of the running job.\<close>

lemma waiter_facts:
  assumes core: "sched_core D a" and j: "jobs a i = Some j" "status j = Alive" "waiter j = Some w"
  shows "\<exists>l. jobs a w = Some l \<and> status l = Waiting \<and> w \<noteq> i \<and> w \<notin> set (ready a)"
proof -
  obtain l where l: "jobs a w = Some l" "status l = Waiting"
    using waiters_okD [OF sched_coreD(3) [OF core] j(1) _ j(3)] j(2) by auto
  then show ?thesis using ready_okD(2) [OF sched_coreD(1) [OF core], of w] j by auto
qed

lemma finish_eq:
  assumes "jobs a i = Some j" "waiter j \<noteq> Some i"
  shows "finish i n c a = (let a0 = a\<lparr>jobs := (jobs a)(i \<mapsto> j\<lparr>status := Exited n, resume := c\<rparr>)\<rparr>;
      a1 = awaken (waiter j) a0 in a1\<lparr>ready := remove1 i (ready a1)\<rparr>)"
  using assms by (cases "waiter j") (simp_all add: finish_def awaken_def Let_def fun_upd_twist)

lemma schedule_next_refines:
  assumes rep: "rep {i} s a" and r: "ready a = i # r" "distinct (i # r)"
    and j: "jobs a i = Some j" "exited j"
    and w: "wakes_waiter a i j"
    and a': "a' = (awaken (waiter j) a)\<lparr>ready := remove1 i (ready (awaken (waiter j) a))\<rparr>"
    and core: "sched_core {} a'"
  shows "agrees (schedule_next s) (switch a')"
proof -
  let ?a1 = "awaken (waiter j) a"
  obtain e t where h: "TAILQ_FIRST s = Inr (Some e, s)" "e < length (ents s)" "val (ents s ! e) = t"
      "i < cap a" "threads' s ! i = Some t" "t < length (tcbs s)" "jobs a i = Some (job_of (tcbs s ! t))"
      "tid (tcbs s ! t) = int i" "-2 \<le> state (tcbs s ! t)" "-1 \<le> block_id (tcbs s ! t)"
    using rep_head [OF rep r(1)] by metis
  have jt: "j = job_of (tcbs s ! t)" using h(7) j(1) by simp
  have dead: "0 \<le> state (tcbs s ! t)" using j(2) jt exited_job_of [OF h(9)] by simp
  obtain s1 where s1: "(if 0 \<le> block_id (tcbs s ! t) then wake (block_id (tcbs s ! t)) else skip) s = Inr ((), s1)"
      "rep {i} s1 ?a1" "threads' s1 = threads' s" "length (tcbs s1) = length (tcbs s)" "tcbs s1 ! t = tcbs s ! t"
      and ents: "length (ents s1) = length (ents s)" "\<And>e. e < length (ents s) \<Longrightarrow> val (ents s1 ! e) = val (ents s ! e)"
    using wake_waiter_refines [OF rep _ h(4,5) jt w] by blast
  have ent1: "e < length (ents s1)" "val (ents s1 ! e) = t" using ents h(2,3) by simp_all
  note keep = awaken_keeps [OF j(1) w]
  have dist: "distinct (ready ?a1)" using keep(4) r by simp
  text \<open>The thread is taken apart.\<close>
  let ?th = "(tcbs s ! t)\<lparr>uc_link := False, ent := None\<rparr>"
  let ?s2 = "s1\<lparr>tcbs := (tcbs s1)[t := ?th]\<rparr>"
  have del: "delete_thread t s1 = Inr ((), ?s2)"
    using h(6) s1(4,5) by (simp add: delete_thread_def set_thread_eq)
  have "ent_ok ?s2 t" using h(6) s1(4) dead by (simp add: ent_ok_def)
  then have "rep {} ?s2 (?a1\<lparr>jobs := (jobs ?a1)(i \<mapsto> job_of ?th)\<rparr>)"
    using rep_set_thread [OF s1(2), of i t ?th "{}"] h s1(3) keep(1) by simp
  moreover have "(jobs ?a1)(i \<mapsto> job_of ?th) = jobs ?a1" using keep(2) jt by (simp add: fun_upd_idem)
  ultimately have rep2: "rep {} ?s2 ?a1" by simp
  text \<open>Its entry is removed.\<close>
  obtain s3 where s3: "TAILQ_REMOVE e ?s2 = Inr ((), s3)" "rep {} s3 a'"
    using rep_remove [OF rep2 _ dist, of i e] ent1 h(5) s1(3) keep(3) r(1) by (auto simp: a')
  have run: "schedule_next s = bnd TAILQ_FIRST (\<lambda>first. case first of
      None \<Rightarrow> stop (Exit 0) | Some head \<Rightarrow> bnd (get_entry head) (\<lambda>x. jump (val x))) s3"
    using h(1-3,6) s1(1) del s3(1)
    by (simp add: schedule_next_def bnd_apply [of "TAILQ_FIRST"] bnd_apply [of "get_entry e" for e]
        bnd_apply [of "get_thread t" for t] get_entry_eq get_thread_eq)
  show ?thesis
  proof (cases "ready a'")
    case Nil
    obtain xs where "queued s3 xs" "map (\<lambda>e. val (ents s3 ! e)) xs = map (addr_of s3) (ready a')"
      using repD(1) [OF s3(2)] by (auto simp: queue_ok_def)
    then have "TAILQ_FIRST s3 = Inr (None, s3)" using Nil ready.head [of s3 xs] by simp
    then show ?thesis unfolding run by (simp add: agrees_def switch_def Nil bnd_apply)
  next
    case (Cons i2 r2)
    obtain e2 t2 where e2: "TAILQ_FIRST s3 = Inr (Some e2, s3)" "e2 < length (ents s3)" "val (ents s3 ! e2) = t2"
        "i2 < cap a'" "threads' s3 ! i2 = Some t2"
      using rep_head [OF s3(2) Cons] by metis
    then have "schedule_next s = jump t2 s3" unfolding run by (simp add: bnd_apply get_entry_eq)
    then show ?thesis using jump_refines [OF s3(2) Cons core e2(4,5)] by simp
  qed
qed

lemma exit_head_refines:
  assumes rep: "rep {} s a" and r: "ready a = i # r" and j: "jobs a i = Some j"
  shows "\<exists>s'. exit_head c n s = Inr ((), s') \<and>
    rep {i} s' (a\<lparr>jobs := (jobs a)(i \<mapsto> j\<lparr>status := Exited (n mod 256), resume := c\<rparr>)\<rparr>)"
proof -
  obtain t where h: "head_thread s = Inr (t, s)"
      "i < cap a" "threads' s ! i = Some t" "t < length (tcbs s)" "jobs a i = Some (job_of (tcbs s ! t))"
      "tid (tcbs s ! t) = int i" "-1 \<le> block_id (tcbs s ! t)"
    using rep_head [OF rep r] by metis
  let ?th = "(tcbs s ! t)\<lparr>state := n mod 256, ctx_ptr := c\<rparr>"
  have "job_of ?th = j\<lparr>status := Exited (n mod 256), resume := c\<rparr>"
    using h(5) j by simp
  then show ?thesis
    using rep_set_thread [OF rep h(2,3), of ?th "{i}"] h
    by (simp add: exit_head_def bnd_apply set_thread_eq)
qed

lemma wut_exit_refines:
  assumes rep: "rep {} s a" and inv: "sched_inv a"
  shows "agrees (wut_exit n s) (spec_exit In_exit n a)"
    and "agrees (thread_returns s) (spec_exit In_scheduler 0 a)"
proof -
  obtain i r j where r: "ready a = i # r" and core: "sched_core {i} a"
      and j: "jobs a i = Some j" "status j = Alive" and d: "distinct (i # r)"
    using sched_invE [OF inv] by metis
  have main: "agrees (bnd (exit_head c n) (\<lambda>_. schedule_next) s) (spec_exit c n a)" for c n
  proof -
    let ?a = "a\<lparr>jobs := (jobs a)(i \<mapsto> j\<lparr>status := Exited (n mod 256), resume := c\<rparr>)\<rparr>"
    obtain s1 where s1: "exit_head c n s = Inr ((), s1)" "rep {i} s1 ?a"
      using exit_head_refines [OF rep r j(1)] by blast
    have w: "wakes_waiter ?a i j" using waiter_facts [OF core j] by auto
    then have "waiter j \<noteq> Some i" by auto
    from finish_eq [OF j(1) this, of "n mod 256" c] have fin: "finish i (n mod 256) c a =
        (awaken (waiter j) ?a)\<lparr>ready := remove1 i (ready (awaken (waiter j) ?a))\<rparr>"
      by (simp add: Let_def)
    have "sched_core {} (finish i (n mod 256) c a)" using sched_core_finish [OF core j] by simp
    then have "agrees (schedule_next s1) (switch (finish i (n mod 256) c a))"
      using w r by (intro schedule_next_refines [OF s1(2) _ d, where j = "j\<lparr>status := Exited (n mod 256), resume := c\<rparr>"])
        (simp_all add: fin)
    then show ?thesis using s1(1) r by (simp add: spec_exit_def bnd_apply)
  qed
  obtain e t where h: "TAILQ_FIRST s = Inr (Some e, s)" "e < length (ents s)" "val (ents s ! e) = t"
      "t < length (tcbs s)" "jobs a i = Some (job_of (tcbs s ! t))"
    using rep_head [OF rep r] by metis
  have "state (tcbs s ! t) < 0" using h(5) j by simp
  then have "thread_returns s = bnd (exit_head In_scheduler 0) (\<lambda>_. schedule_next) s"
    using h by (simp add: thread_returns_def schedule_def bnd_apply get_entry_eq get_thread_eq seq_apply)
  then show "agrees (thread_returns s) (spec_exit In_scheduler 0 a)" using main by simp
  show "agrees (wut_exit n s) (spec_exit In_exit n a)"
  proof -
    obtain s1 where s1: "exit_head In_exit n s = Inr ((), s1)"
        "rep {i} s1 (a\<lparr>jobs := (jobs a)(i \<mapsto> j\<lparr>status := Exited (n mod 256), resume := In_exit\<rparr>)\<rparr>)" (is "rep {i} s1 ?a")
      using exit_head_refines [OF rep r j(1)] by blast
    have ready: "ready ?a = i # r" using r by simp
    obtain e t where h: "TAILQ_FIRST s1 = Inr (Some e, s1)" "e < length (ents s1)" "val (ents s1 ! e) = t"
        "t < length (tcbs s1)" "jobs ?a i = Some (job_of (tcbs s1 ! t))" "-2 \<le> state (tcbs s1 ! t)"
      using rep_head [OF s1(2) ready] by metis
    have "job_of (tcbs s1 ! t) = j\<lparr>status := Exited (n mod 256), resume := In_exit\<rparr>" using h(5) by simp
    then have "exited (job_of (tcbs s1 ! t))" by simp
    then have "\<not> state (tcbs s1 ! t) < 0" using exited_job_of [OF h(6)] by simp
    then have "schedule s1 = schedule_next s1"
      using h by (simp add: schedule_def bnd_apply get_entry_eq get_thread_eq)
    then show ?thesis using main [of In_exit n] s1(1) by (simp add: wut_exit_def seq_apply bnd_apply)
  qed
qed

section \<open>Join\<close>

lemma refuses_refines:
  assumes rep: "rep {} s a" and r: "ready a = i # r" and k: "k < cap a"
    and extra: "\<And>th. also_if th = P (job_of th)"
  shows "refuses (int k) also_if s = Inr (case jobs a k of None \<Rightarrow> True | Some l \<Rightarrow> k = i \<or> P l, s)"
proof -
  obtain t where h: "head_thread s = Inr (t, s)" "t < length (tcbs s)" "tid (tcbs s ! t) = int i"
    using rep_head [OF rep r] by metis
  note R = repD [OF rep]
  show ?thesis
  proof (cases "jobs a k")
    case None
    then have "threads' s ! k = None" using R(7) [of k] k by simp
    then show ?thesis
      using None k R(4,5) by (simp add: refuses_def bnd_apply get_slot_at)
  next
    case (Some l)
    then obtain u where "threads' s ! k = Some u" "l = job_of (tcbs s ! u)" "u < length (tcbs s)"
      using rep_job [OF rep Some] by metis
    then show ?thesis
      using Some h k R(4,5) extra by (auto simp: refuses_def bnd_apply get_slot_at get_thread_eq)
  qed
qed

text \<open>The running job \<open>i\<close> waits for job \<open>k\<close>: both threads are changed, and the entry leaves the queue.\<close>

abbreviation joined :: "nat \<Rightarrow> nat \<Rightarrow> nat \<Rightarrow> wut \<Rightarrow> wut" where
  "joined t u i s \<equiv> s\<lparr>tcbs := (tcbs s)[t := (tcbs s ! t)\<lparr>state := -2\<rparr>, u := (tcbs s ! u)\<lparr>block_id := int i\<rparr>]\<rparr>"

abbreviation joining :: "nat \<Rightarrow> nat \<Rightarrow> job \<Rightarrow> job \<Rightarrow> nat list \<Rightarrow> sched \<Rightarrow> sched" where
  "joining i k j l xs a \<equiv> a\<lparr>ready := xs, jobs := (jobs a)(i \<mapsto> j\<lparr>status := Waiting\<rparr>, k \<mapsto> l\<lparr>waiter := Some i\<rparr>)\<rparr>"

lemma joined_rep:
  assumes rep: "rep {} s a" and i: "i < cap a" "threads' s ! i = Some t" "j = job_of (tcbs s ! t)" "status j = Alive"
    and k: "k < cap a" "threads' s ! k = Some u" "l = job_of (tcbs s ! u)" "k \<noteq> i"
  shows "rep {} (joined t u i s) (joining i k j l (ready a) a)" "u \<noteq> t" "u < length (tcbs s)"
proof -
  show ut: "u \<noteq> t" using rep_slot_inj [OF rep i(1) k(1) i(2)] k(2,4) by auto
  have t: "t < length (tcbs s)" "-1 \<le> block_id (tcbs s ! t)" "u < length (tcbs s)" "-2 \<le> state (tcbs s ! u)"
    using repD(8) [OF rep i(1,2)] repD(8) [OF rep k(1,2)] by (simp_all add: thread_ok_def)
  then show "u < length (tcbs s)" by simp
  have st: "state (tcbs s ! t) = -1" using i(3,4) by simp
  let ?th = "(tcbs s ! t)\<lparr>state := -2\<rparr>" and ?tu = "(tcbs s ! u)\<lparr>block_id := int i\<rparr>"
  have "rep {} (s\<lparr>tcbs := (tcbs s)[t := ?th]\<rparr>) (a\<lparr>jobs := (jobs a)(i \<mapsto> job_of ?th)\<rparr>)"
    using t st by (intro rep_update [OF rep i(1,2)]) simp_all
  from rep_update [OF this, of k u ?tu] k(1,2) t ut
  have "rep {} (joined t u i s) (a\<lparr>jobs := (jobs a)(i \<mapsto> job_of ?th, k \<mapsto> job_of ?tu)\<rparr>)" by simp
  then show "rep {} (joined t u i s) (joining i k j l (ready a) a)" using i(3) k(3) by simp
qed

text \<open>Its context is saved, and the next job goes on.\<close>

lemma join_switch_refines:
  assumes rep: "rep {} s (joining i k j l r a)" and i: "i < cap a" "threads' s ! i = Some t" "k \<noteq> i"
    and th: "tcbs s ! t = th\<lparr>state := -2\<rparr>" "j = job_of th" and r: "r \<noteq> []"
    and a': "a' = a\<lparr>ready := r, jobs := (jobs a)(i \<mapsto> j\<lparr>status := Waiting, resume := c\<rparr>, k \<mapsto> l\<lparr>waiter := Some i\<rparr>)\<rparr>"
    and core: "sched_core {} a'"
  shows "agrees (bnd head_thread (\<lambda>new. seq (set_thread t (\<lambda>th. th\<lparr>ctx_ptr := c\<rparr>)) (jump new)) s)
    (switch a')"
proof -
  have t: "t < length (tcbs s)" "-1 \<le> block_id (tcbs s ! t)" using repD(8) [OF rep, of i t] i by (simp_all add: thread_ok_def)
  let ?th = "(tcbs s ! t)\<lparr>ctx_ptr := c\<rparr>"
  let ?s = "s\<lparr>tcbs := (tcbs s)[t := ?th]\<rparr>"
  have "rep {} ?s a'"
    using rep_update [OF rep, of i t ?th] i t(2) by (simp add: th a' fun_upd_twist)
  then obtain t2 where t2: "head_thread ?s = Inr (t2, ?s)" "agrees (jump t2 ?s) (switch a')"
    using jump_head_refines [OF _ _ core, of ?s "hd r" "tl r"] r by (auto simp: a')
  have "head_thread s = Inr (t2, s)"
    using t2(1) by (auto simp: head_thread_def head_entry_def TAILQ_FIRST_def get_entry_def deref_def prog_simps
        split: option.splits if_splits)
  then show ?thesis using t2(2) t(1) by (simp add: bnd_apply seq_apply set_thread_eq)
qed

lemma join_alone:
  assumes rep: "rep D s a" and "ready a = []"
  shows "bnd head_thread f s = Inl Fault"
proof -
  obtain xs where "queued s xs" "map (\<lambda>e. val (ents s ! e)) xs = []"
    using repD(1) [OF rep] assms(2) by (auto simp: queue_ok_def)
  then have "TAILQ_FIRST s = Inr (None, s)" using ready.head [of s xs] by simp
  then show ?thesis by (simp add: head_thread_def head_entry_def bnd_apply deref_def)
qed

text \<open>A call that is refused, or that takes the status of a job that has ended, returns at once.\<close>

lemma join_refused:
  assumes rep: "rep {} s a" and r: "ready a = i # r" and k: "k < cap a"
  shows "refuses (int k) (\<lambda>th. 0 \<le> block_id th) s =
    Inr (case jobs a k of None \<Rightarrow> True | Some l \<Rightarrow> k = i \<or> waiter l \<noteq> None, s)"
  using refuses_refines [OF rep r k, of "\<lambda>th. 0 \<le> block_id th" "\<lambda>l. waiter l \<noteq> None"] by (auto simp: job_of_def)

lemma join_ended_refines:
  assumes rep: "rep {} s a" and r: "ready a = i # r" and core: "sched_core {i} a"
    and l: "jobs a k = Some l" "k \<noteq> i" "waiter l = None" "exited l"
  shows "agrees (wut_join (int k) s) (spec_join k a)"
proof -
  obtain e where h: "TAILQ_FIRST s = Inr (Some e, s)" using rep_head [OF rep r] by metis
  obtain u where u: "k < cap a" "threads' s ! k = Some u" "l = job_of (tcbs s ! u)" "u < length (tcbs s)"
      "-2 \<le> state (tcbs s ! u)"
    using rep_job [OF rep l(1)] by metis
  have at: "thread_at (int k) s = Inr (u, s)" using u(1,2) repD(4) [OF rep] by (simp add: thread_at_eq)
  have ex: "0 \<le> state (tcbs s ! u)" using exited_job_of [OF u(5)] u(3) l(4) by simp
  have "k \<notin> set (ready a)" using ready_okD(2) [OF sched_coreD(1) [OF core], of k] l(1,4) by auto
  note free = rep_set_slot_None [OF rep u(1) this]
  have "wut_join (int k) s = Inr (Returns (state (tcbs s ! u)), s\<lparr>threads' := (threads' s)[k := None]\<rparr>)"
    using h join_refused [OF rep r u(1)] l at u(4) ex free(1)
    by (simp add: wut_join_def bnd_apply seq_apply get_thread_eq)
  moreover have "spec_join k a = Inr (Returns (exit_code l), a\<lparr>jobs := (jobs a)(k := None)\<rparr>)"
    using l r by (simp add: spec_join_def)
  ultimately show ?thesis using free(2) u(3) by (simp add: agrees_def exit_code_job_of)
qed

text \<open>A join that blocks, up to the switch to the next thread.\<close>

lemma join_live_prefix:
  assumes rep: "rep {} s a" and r: "ready a = i # r"
    and j: "jobs a i = Some j" "status j = Alive" and d: "i \<notin> set r" "distinct (i # r)"
    and l: "jobs a k = Some l" "k \<noteq> i" "waiter l = None" "\<not> exited l"
  obtains e t u s3 where "head_entry s = Inr (e, s)" "e < length (ents s)" "val (ents s ! e) = t"
    "i < cap a" "threads' s ! i = Some t" "t < length (tcbs s)" "j = job_of (tcbs s ! t)"
    "u \<noteq> t" "u < length (tcbs s)" "TAILQ_REMOVE e (joined t u i s) = Inr ((), s3)"
    "unchanged s3 = unchanged (joined t u i s)" "rep {} s3 (joining i k j l r a)"
    "wut_join (int k) s = bnd head_thread (\<lambda>new.
       seq (set_thread t (\<lambda>th. th\<lparr>ctx_ptr := In_join (int k)\<rparr>)) (jump new)) s3"
proof -
  obtain e t where h: "TAILQ_FIRST s = Inr (Some e, s)" "e < length (ents s)" "val (ents s ! e) = t"
      "head_entry s = Inr (e, s)" "head_thread s = Inr (t, s)"
      "i < cap a" "threads' s ! i = Some t" "t < length (tcbs s)" "jobs a i = Some (job_of (tcbs s ! t))"
      "tid (tcbs s ! t) = int i"
    using rep_head [OF rep r] by metis
  have jt: "j = job_of (tcbs s ! t)" using h(9) j(1) by simp
  obtain u where u: "k < cap a" "threads' s ! k = Some u" "l = job_of (tcbs s ! u)" "u < length (tcbs s)"
      "-2 \<le> state (tcbs s ! u)"
    using rep_job [OF rep l(1)] by metis
  have at: "thread_at (int k) s = Inr (u, s)" using u(1,2) repD(4) [OF rep] by (simp add: thread_at_eq)
  have ex: "state (tcbs s ! u) < 0" using exited_job_of [OF u(5)] u(3) l(4) by simp
  note rep2 = joined_rep [OF rep h(6,7) jt j(2) u(1-3) l(2)]
  obtain s3 where s3: "TAILQ_REMOVE e (joined t u i s) = Inr ((), s3)"
      "rep {} s3 (joining i k j l (ready a) a\<lparr>ready := r\<rparr>)" "unchanged s3 = unchanged (joined t u i s)"
    using rep_remove [OF rep2(1), of i e] r h d by auto
  have "joining i k j l (ready a) a\<lparr>ready := r\<rparr> = joining i k j l r a" by (rule sched.equality) simp_all
  then have rep3: "rep {} s3 (joining i k j l r a)" using s3(2) by (simp only:)
  have "wut_join (int k) s = bnd head_thread (\<lambda>new.
      seq (set_thread t (\<lambda>th. th\<lparr>ctx_ptr := In_join (int k)\<rparr>)) (jump new)) s3"
    using h(1,4,5,8,10) join_refused [OF rep r u(1)] l at u(4) ex rep2(2) s3(1)
    by (simp add: wut_join_def bnd_apply [of "TAILQ_FIRST"] bnd_apply [of "refuses i P" for i P]
        bnd_apply [of "thread_at i" for i] bnd_apply [of "get_thread x" for x] bnd_apply [of head_entry]
        bnd_apply [where m = head_thread and s = s] seq_apply [of "set_thread x f" for x f] seq_apply [of "TAILQ_REMOVE e"]
        get_thread_eq set_thread_eq)
  from that [OF h(4,2,3,6,7,8) jt rep2(2,3) s3(1,3) rep3 this] show thesis .
qed

lemma join_live_refines:
  assumes rep: "rep {} s a" and r: "ready a = i # r" and core: "sched_core {i} a"
    and j: "jobs a i = Some j" "status j = Alive" and d: "i \<notin> set r" "distinct (i # r)"
    and l: "jobs a k = Some l" "k \<noteq> i" "waiter l = None" "\<not> exited l"
  shows "agrees (wut_join (int k) s) (spec_join k a)"
proof -
  obtain e t u s3 where h: "i < cap a" "threads' s ! i = Some t" "t < length (tcbs s)"
    and jt: "j = job_of (tcbs s ! t)" and u: "u \<noteq> t"
    and M: "unchanged s3 = unchanged (joined t u i s)" and rep3: "rep {} s3 (joining i k j l r a)"
    and prefix: "wut_join (int k) s = bnd head_thread (\<lambda>new.
      seq (set_thread t (\<lambda>th. th\<lparr>ctx_ptr := In_join (int k)\<rparr>)) (jump new)) s3"
    using join_live_prefix [OF rep r j d l] by metis
  show ?thesis
  proof (cases "r = []")
    case True
    then have "wut_join (int k) s = Inl Fault" unfolding prefix by (intro join_alone [OF rep3]) simp
    then show ?thesis using l True r by (simp add: agrees_def spec_join_def)
  next
    case False
    have th: "tcbs s3 ! t = (tcbs s ! t)\<lparr>state := -2\<rparr>" "threads' s3 ! i = Some t"
      using wut_more(1,2) [OF M] u h by simp_all
    let ?a = "a\<lparr>ready := r, jobs := (jobs a)
      (i \<mapsto> j\<lparr>status := Waiting, resume := In_join (int k)\<rparr>, k \<mapsto> l\<lparr>waiter := Some i\<rparr>)\<rparr>"
    have "agrees (wut_join (int k) s) (switch ?a)"
      unfolding prefix
      by (rule join_switch_refines [OF rep3 h(1) th(2) l(2) th(1) jt False refl sched_core_wait [OF core r j(1) l]])
    moreover have "spec_join k a = switch ?a" using l False r j by (simp add: spec_join_def)
    ultimately show ?thesis by simp
  qed
qed

lemma wut_join_refines:
  assumes rep: "rep {} s a" and inv: "sched_inv a" and k: "k < cap a"
  shows "agrees (wut_join (int k) s) (spec_join k a)"
proof -
  obtain i r j where r: "ready a = i # r" and core: "sched_core {i} a"
      and j: "jobs a i = Some j" "status j = Alive" and d: "distinct (i # r)" "i \<notin> set r"
    using sched_invE [OF inv] by metis
  show ?thesis
  proof (cases "\<exists>l. jobs a k = Some l \<and> k \<noteq> i \<and> waiter l = None")
    case False
    obtain e where "TAILQ_FIRST s = Inr (Some e, s)" using rep_head [OF rep r] by metis
    then have "wut_join (int k) s = Inr (Returns (-1), s)"
      using False join_refused [OF rep r k] by (auto simp: wut_join_def bnd_apply split: option.splits)
    moreover have "spec_join k a = Inr (Returns (-1), a)"
      using False r by (auto simp: spec_join_def split: option.splits)
    ultimately show ?thesis using rep by (simp add: agrees_def)
  next
    case True
    then obtain l where l: "jobs a k = Some l" "k \<noteq> i" "waiter l = None" by blast
    then show ?thesis using join_ended_refines [OF rep r core l] join_live_refines [OF rep r core j d(2,1) l] by blast
  qed
qed

section \<open>Cancel\<close>

text \<open>The loop over the queue finds no job that blocks \<open>k\<close>, unless \<open>k\<close> waits.\<close>

lemma unblock_skip:
  assumes "seg (ents s) l xs p l' None" "length xs \<le> n"
    and "\<forall>e \<in> set xs. val (ents s ! e) < length (tcbs s) \<and> block_id (tcbs s ! val (ents s ! e)) \<noteq> k"
  shows "unblock n p k s = Inr ((), s)"
  using assms
proof (induction xs arbitrary: n l p)
  case Nil
  then show ?case by (cases n) simp_all
next
  case (Cons e xs)
  then obtain m where "n = Suc m" by (cases n) auto
  moreover have "unblock m (tqe_next (ents s ! e)) k s = Inr ((), s)"
    using Cons.prems calculation by (intro Cons.IH) auto
  ultimately show ?case
    using Cons.prems by (auto simp: bnd_apply get_entry_eq get_thread_eq)
qed

lemma queue_length:
  assumes "queued s xs"
  shows "length xs \<le> length (ents s)"
proof -
  have "set xs \<subseteq> {..<length (ents s)}" "distinct xs" using ready.members [OF assms] by auto
  then have "card (set xs) \<le> card {..<length (ents s)}" by (intro card_mono) auto
  then show ?thesis using \<open>distinct xs\<close> by (simp add: distinct_card)
qed

lemma unblock_refines:
  assumes rep: "rep {} s a" and core: "sched_core D a" and k: "\<And>l. jobs a k = Some l \<Longrightarrow> status l \<noteq> Waiting"
  shows "unblock (length (ents s)) (tqh_first s) (int k) s = Inr ((), s)"
proof -
  obtain xs where q: "queued s xs" "map (\<lambda>e. val (ents s ! e)) xs = map (addr_of s) (ready a)"
    using repD(1) [OF rep] by (auto simp: queue_ok_def)
  have "val (ents s ! e) < length (tcbs s) \<and> block_id (tcbs s ! val (ents s ! e)) \<noteq> int k" if "e \<in> set xs" for e
  proof -
    have "val (ents s ! e) \<in> set (map (\<lambda>e. val (ents s ! e)) xs)" using that by simp
    then obtain m where m: "m \<in> set (ready a)" "val (ents s ! e) = addr_of s m" unfolding q(2) by auto
    then obtain j where j: "jobs a m = Some j" "status j = Alive"
      using ready_okD(2) [OF sched_coreD(1) [OF core], of m] by auto
    obtain t where t: "threads' s ! m = Some t" "j = job_of (tcbs s ! t)" "t < length (tcbs s)"
      using rep_job [OF rep j(1)] by metis
    have "waiter j \<noteq> Some k"
      using waiters_okD [OF sched_coreD(3) [OF core] j(1), of k] j(2) k by auto
    then show ?thesis using m(2) t by simp
  qed
  then show ?thesis
    using q(1) queue_length [OF q(1)] unblock_skip [of s Head xs "tqh_first s" "tqh_last s"] by (simp add: queued_def)
qed

lemma cancel_refused:
  assumes "rep {} s a" "ready a = i # r" "k < cap a"
  shows "refuses (int k) (\<lambda>_. False) s = Inr (case jobs a k of None \<Rightarrow> True | Some l \<Rightarrow> k = i, s)"
  using refuses_refines [OF assms, of "\<lambda>_. False" "\<lambda>_. False"] by (simp cong: option.case_cong)

text \<open>A job that is alive is taken off the queue, and its waiter is woken.\<close>

lemma cancel_alive_refines:
  assumes rep: "rep {} s a" and r: "ready a = i # r" and core: "sched_core {i} a"
    and l: "jobs a k = Some l" "k \<noteq> i" and alive: "status l = Alive"
  shows "\<exists>s'. spec_cancel k a = Inr (Returns 0, finish k 128 (resume l) a) \<and>
    wut_cancel (int k) s = Inr (0, s') \<and> rep {} s' (finish k 128 (resume l) a)"
proof -
  have d: "distinct (i # r)" using ready_okD(1) [OF sched_coreD(1) [OF core]] r by simp
  obtain u where u: "k < cap a" "threads' s ! k = Some u" "l = job_of (tcbs s ! u)" "u < length (tcbs s)"
      "tid (tcbs s ! u) = int k" "-2 \<le> state (tcbs s ! u)" "-1 \<le> block_id (tcbs s ! u)"
    using rep_job [OF rep l(1)] by metis
  note bad = cancel_refused [OF rep r u(1)]
  have at: "thread_at (int k) s = Inr (u, s)" using u(1,2) repD(4) [OF rep] by (simp add: thread_at_eq)
  have un: "unblock (length (ents s)) (tqh_first s) (int k) s = Inr ((), s)"
    using l(1) alive by (intro unblock_refines [OF rep core]) auto
  have ok: "ent_ok s u" using repD(9) [OF rep u(1,2)] by simp
  have st: "state (tcbs s ! u) = -1" using u(3) alive by simp
  then obtain e where e: "ent (tcbs s ! u) = Some e" "e < length (ents s)" "val (ents s ! e) = u"
    using ok by (auto simp: ent_ok_def split: option.splits)
  have in_r: "k \<in> set (ready a)" using ready_okD(2) [OF sched_coreD(1) [OF core], of k] l alive by auto
  let ?a1 = "awaken (waiter l) a"
  have w: "wakes_waiter a k l" using waiter_facts [OF core l(1) alive] by auto
  obtain s1 where s1: "(if 0 \<le> block_id (tcbs s ! u) then wake (block_id (tcbs s ! u)) else skip) s = Inr ((), s1)"
      "rep {} s1 ?a1" "threads' s1 = threads' s" "length (tcbs s1) = length (tcbs s)" "tcbs s1 ! u = tcbs s ! u"
      and ents: "length (ents s1) = length (ents s)" "\<And>e. e < length (ents s) \<Longrightarrow> val (ents s1 ! e) = val (ents s ! e)"
    using wake_waiter_refines [OF rep empty_subsetI u(1,2,3) w] by blast
  have ent1: "e < length (ents s1)" "val (ents s1 ! e) = u" using ents e(2,3) by simp_all
  note keep = awaken_keeps [OF l(1) w]
  have dist: "distinct (ready ?a1)" using keep(4) d r by simp
  obtain s2 where s2: "TAILQ_REMOVE e s1 = Inr ((), s2)" "rep {} s2 (?a1\<lparr>ready := remove1 k (ready ?a1)\<rparr>)"
      "unchanged s2 = unchanged s1"
    using rep_remove [OF s1(2) _ dist, of k e] ent1 u(2) s1(3) keep(3) in_r by auto
  note M = wut_more [OF s2(3)]
  let ?th = "(tcbs s ! u)\<lparr>state := 128, uc_link := False, ent := None\<rparr>"
  let ?s3 = "s2\<lparr>tcbs := (tcbs s2)[u := ?th]\<rparr>"
  have run: "wut_cancel (int k) s = Inr (0, ?s3)"
    using bad l at un u(4) s1(1,4,5) e(1) s2(1) M(1)
    by (simp add: wut_cancel_def bnd_apply [of "refuses i P" for i P] bnd_apply [of TAILQ_FIRST] TAILQ_FIRST_def
        bnd_apply [of "gets f" for f] seq_apply [of "unblock n p i" for n p i] bnd_apply [of "thread_at i" for i]
        bnd_apply [of "get_thread x" for x] bnd_apply [of "deref x" for x] seq_apply [of "TAILQ_REMOVE e"]
        seq_apply [of "set_thread x f" for x f] seq_apply [of "delete_thread x" for x]
        get_thread_eq set_thread_eq deref_def delete_thread_def)
  have "ent_ok ?s3 u" using u(4) s1(4) M(1) by (simp add: ent_ok_def)
  then have "rep {} ?s3 ((?a1\<lparr>ready := remove1 k (ready ?a1)\<rparr>)\<lparr>jobs := (jobs (?a1\<lparr>ready := remove1 k (ready ?a1)\<rparr>))(k \<mapsto> job_of ?th)\<rparr>)"
    using rep_set_thread [OF s2(2), of k u ?th "{}"] u s1(3) M(2) keep(1) by simp
  moreover have "job_of ?th = l\<lparr>status := Exited 128, resume := resume l\<rparr>" using u(3) by simp
  ultimately have "rep {} ?s3 (finish k 128 (resume l) a)"
    using l(1) by (simp add: finish_def Let_def)
  then show ?thesis using run l alive r by (simp add: spec_cancel_def)
qed

text \<open>
  A thread that has ended has no entry, whatever is done before \<open>TAILQ_REMOVE\<close> looks for it: its waiter,
  if it had one, may be put into the queue once more, or may be gone.
\<close>

lemma insert_tail_any:
  assumes "rep D s a" "e < length (ents s)"
  shows "\<exists>s'. TAILQ_INSERT_TAIL e s = Inr ((), s') \<and> unchanged s' = unchanged s"
proof -
  obtain xs where q: "queued s xs" using repD(1) [OF assms(1)] by (auto simp: queue_ok_def)
  have "tqh_last s = Head \<or> (\<exists>l. tqh_last s = NextOf l \<and> l < length (ents s))"
  proof (cases "xs = []")
    case True
    then show ?thesis using q by (simp add: queued_def)
  next
    case False
    then have "tqh_last s = NextOf (last xs)"
      using q seg_last [of "ents s" Head xs "tqh_first s" "tqh_last s" None] by (simp add: queued_def)
    then show ?thesis using False ready.members [OF q] by simp
  qed
  then show ?thesis
    using assms(2) by (auto simp: TAILQ_INSERT_TAIL_def store_at_def set_entry_def bnd_apply seq_apply unchanged_def
        nth_list_update intro!: nth_equalityI)
qed

lemma wake_ended:
  assumes rep: "rep {} s a" and w: "w < cap a" and u: "u < length (tcbs s)" "ent (tcbs s ! u) = None"
  shows "wake (int w) s = Inl Fault \<or>
    (\<exists>s'. wake (int w) s = Inr ((), s') \<and> u < length (tcbs s') \<and> ent (tcbs s' ! u) = None)"
proof (cases "threads' s ! w")
  case None
  then show ?thesis using w repD(4) [OF rep] by (simp add: wake_def bnd_apply thread_at_def get_slot_at deref_def)
next
  case (Some v)
  note v = repD(8) [OF rep w Some] repD(9) [OF rep w Some]
  have at: "thread_at (int w) s = Inr (v, s)" using w Some repD(4) [OF rep] by (simp add: thread_at_eq)
  show ?thesis
  proof (cases "ent (tcbs s ! v)")
    case None
    then show ?thesis using at v(1) by (simp add: wake_def bnd_apply get_thread_eq deref_def thread_ok_def)
  next
    case (Some e)
    then have "e < length (ents s)" using v(2) by (simp add: ent_ok_def)
    then obtain s1 where s1: "TAILQ_INSERT_TAIL e s = Inr ((), s1)" "unchanged s1 = unchanged s"
      using insert_tail_any [OF rep] by blast
    then show ?thesis
      using at v(1) Some u wut_more(1) [OF s1(2)]
      by (auto simp: wake_def bnd_apply seq_apply get_thread_eq deref_def thread_ok_def set_thread_eq nth_list_update)
  qed
qed

lemma wut_cancel_refines:
  assumes rep: "rep {} s a" and inv: "sched_inv a" and k: "k < cap a"
    and live: "\<And>l. jobs a k = Some l \<Longrightarrow> status l \<noteq> Waiting"
  shows "case spec_cancel k a of
      Inl e \<Rightarrow> wut_cancel (int k) s = Inl e
    | Inr (ev, a') \<Rightarrow> \<exists>n s'. ev = Returns n \<and> wut_cancel (int k) s = Inr (n, s') \<and> rep {} s' a'"
proof -
  obtain i r where r: "ready a = i # r" and core: "sched_core {i} a"
    using sched_invE [OF inv] by metis
  note bad = cancel_refused [OF rep r k]
  show ?thesis
  proof (cases "\<exists>l. jobs a k = Some l \<and> k \<noteq> i")
    case False
    then show ?thesis
      using bad rep r by (auto simp: wut_cancel_def spec_cancel_def bnd_apply split: option.splits)
  next
    case True
    then obtain l where l: "jobs a k = Some l" "k \<noteq> i" by blast
    show ?thesis
    proof (cases "exited l")
      case True
      obtain u where u: "k < cap a" "threads' s ! k = Some u" "l = job_of (tcbs s ! u)" "u < length (tcbs s)"
          "-2 \<le> state (tcbs s ! u)" "-1 \<le> block_id (tcbs s ! u)"
        using rep_job [OF rep l(1)] by metis
      have at: "thread_at (int k) s = Inr (u, s)" using u(1,2) repD(4) [OF rep] by (simp add: thread_at_eq)
      have un: "unblock (length (ents s)) (tqh_first s) (int k) s = Inr ((), s)"
        using live by (intro unblock_refines [OF rep core]) auto
      have none: "ent (tcbs s ! u) = None"
        using True repD(9) [OF rep u(1,2)] u(3) exited_job_of [OF u(5)] by (auto simp: ent_ok_def split: option.splits)
      have "(if 0 \<le> block_id (tcbs s ! u) then wake (block_id (tcbs s ! u)) else skip) s = Inl Fault \<or>
        (\<exists>s'. (if 0 \<le> block_id (tcbs s ! u) then wake (block_id (tcbs s ! u)) else skip) s = Inr ((), s') \<and>
          u < length (tcbs s') \<and> ent (tcbs s' ! u) = None)"
      proof (cases "waiter l")
        case None
        then show ?thesis using u(3,4) none by simp
      next
        case (Some w)
        moreover have "w < cap a"
          using sched_coreD(2) [OF core] l(1) Some by (auto simp: ids_ok_def)
        ultimately show ?thesis using wake_ended [OF rep _ u(4) none, of w] u(3) by simp
      qed
      then have "wut_cancel (int k) s = Inl Fault"
        using l r bad at un u(4)
        by (auto simp: wut_cancel_def bnd_apply seq_apply TAILQ_FIRST_def get_thread_eq deref_def)
      then show ?thesis using True l r by (simp add: spec_cancel_def)
    next
      case False
      then have "status l = Alive" using live [OF l(1)] by (cases "status l") auto
      then show ?thesis using cancel_alive_refines [OF rep r core l] by auto
    qed
  qed
qed

end
