(* ===== verification/Wut_Create.thy ===== *)
theory Wut_Create
  imports Wut_Calls
begin

text \<open>
  \<open>wut_create\<close> and \<open>wut_init\<close> of \<open>wut/src/wut.c\<close> implement their specification, when there is
  memory for what they allocate.
\<close>

section \<open>Fields the relation does not read\<close>

lemma rep_memory [simp]: "rep D (s\<lparr>memory := n\<rparr>) a = rep D s a"
  by (simp add: rep_def queue_ok_def queued_def)

lemma allocate_eq: "0 < memory s \<Longrightarrow> allocate s = Inr ((), s\<lparr>memory := memory s - 1\<rparr>)"
  by (simp add: allocate_def bnd_apply)

section \<open>Room for more threads\<close>

lemma rep_expand:
  assumes rep: "rep D s a"
  shows "rep D (s\<lparr>threads' := threads' s @ replicate (cap a) None, threads_capacity := 2 * threads_capacity s\<rparr>)
    (a\<lparr>cap := 2 * cap a\<rparr>)" (is "rep D ?s ?a")
proof -
  note R = repD [OF rep]
  have below: "i < cap a" if "i \<in> set (ready a)" for i
    using that R(10) R(7) [of i] by (auto split: if_splits)
  have slot: "threads' ?s ! i = (if i < cap a then threads' s ! i else None)" if "i < 2 * cap a" for i
    using that R(4) by (simp add: nth_append)
  have "queue_ok ?s (ready ?a)"
  proof -
    obtain xs where q: "queued s xs" "map (\<lambda>e. val (ents s ! e)) xs = map (addr_of s) (ready a)"
      using R(1) by (auto simp: queue_ok_def)
    have "addr_of ?s i = addr_of s i" if "i \<in> set (ready a)" for i
      using below [OF that] slot [of i] by simp
    then have "map (addr_of ?s) (ready a) = map (addr_of s) (ready a)" by (rule map_cong [OF refl])
    then show ?thesis unfolding queue_ok_def using q by (intro exI [of _ xs]) (simp add: queued_def)
  qed
  moreover have "jobs ?a i = (if i < cap ?a then map_option (\<lambda>t. job_of (tcbs ?s ! t)) (threads' ?s ! i) else None)" for i
    using R(7) [of i] slot [of i] by auto
  moreover have "thread_ok ?s i t \<and> (i \<notin> D \<longrightarrow> ent_ok ?s t)" if "i < cap ?a" "threads' ?s ! i = Some t" for i t
  proof -
    have "i < cap a" "threads' s ! i = Some t" using that slot [of i] by (auto split: if_splits)
    then show ?thesis using R(8,9) by simp
  qed
  ultimately show ?thesis using R(2-6,10) by (simp add: rep_def)
qed

lemma threads_expand_eq:
  assumes "threads_capacity s = int c" "2 * int c < 2 ^ 31" "0 < memory s"
  shows "threads_expand s = Inr ((), s\<lparr>memory := memory s - 1, threads' := threads' s @ replicate c None,
    threads_capacity := 2 * int c\<rparr>)"
  using assms by (simp add: threads_expand_def bnd_apply seq_apply allocate_eq)

lemma min_available_id_eq:
  assumes rep: "rep D s a" and free: "(LEAST i. jobs a i = None) < cap a"
  shows "min_available_id s = Inr (int (LEAST i. jobs a i = None), s)"
proof -
  note R = repD [OF rep]
  let ?i = "LEAST i. jobs a i = None"
  have free_slot: "jobs a i = None \<longleftrightarrow> threads' s ! i = None" if "i < cap a" for i
    using R(7) [of i] that by simp
  obtain m where m: "m < cap a" "jobs a m = None"
    using LeastI_ex [of "\<lambda>i. jobs a i = None"] R(7) free by (metis less_irrefl)
  have none: "jobs a ?i = None" by (rule LeastI) (rule m)
  have "first_index (\<lambda>t. t = None) (threads' s) \<noteq> None"
    using none free_slot [OF free] free R(4) by (auto simp: first_index_None_iff in_set_conv_nth)
  then obtain k where k: "first_index (\<lambda>t. t = None) (threads' s) = Some k" by blast
  have K: "k < cap a" "threads' s ! k = None" "\<forall>j < k. threads' s ! j \<noteq> None"
    using first_index_SomeD [OF k] R(4) by auto
  have "?i = k"
  proof (rule Least_equality)
    show "jobs a k = None" using free_slot K by simp
    show "k \<le> y" if "jobs a y = None" for y
      using that free_slot [of y] K by (metis less_trans not_le)
  qed
  then show ?thesis using k R(4,5) by (simp add: min_available_id_def)
qed

section \<open>A new thread\<close>

lemma ent_ok_append: "t < length (tcbs s) \<Longrightarrow> ent_ok (s\<lparr>tcbs := tcbs s @ [th]\<rparr>) t = ent_ok s t"
  by (simp add: ent_ok_def nth_append split: option.split)

lemma rep_new_tcb:
  assumes rep: "rep D s a"
  shows "rep D (s\<lparr>threads_count := threads_count s + 1, tcbs := tcbs s @ [th]\<rparr>) (a\<lparr>made := made a + 1\<rparr>)"
    (is "rep D ?s ?a")
proof -
  note R = repD [OF rep]
  have old: "t < length (tcbs s)" if "i < cap a" "threads' s ! i = Some t" for i t
    using R(8) [OF that] by (simp add: thread_ok_def)
  have "queue_ok ?s (ready ?a)" using R(1) by (simp add: queue_ok_def queued_def)
  moreover have "jobs ?a i = (if i < cap ?a then map_option (\<lambda>t. job_of (tcbs ?s ! t)) (threads' ?s ! i) else None)" for i
    using R(7) [of i] old [of i] by (cases "threads' s ! i") (auto simp: nth_append)
  moreover have "thread_ok ?s i t \<and> (i \<notin> D \<longrightarrow> ent_ok ?s t)" if "i < cap a" "threads' s ! i = Some t" for i t
    using R(8) [OF that] R(9) [OF that] ent_ok_append [of t "s\<lparr>threads_count := threads_count s + 1\<rparr>" th] old [OF that]
    by (simp add: thread_ok_def nth_append)
  moreover have "\<forall>x \<in> set (ents ?s). val x < length (tcbs ?s)" using R(3) by auto
  ultimately show ?thesis using R(2,4-6,10) by (simp add: rep_def)
qed

lemma rep_fill_slot:
  assumes rep: "rep D s a" and i: "i < cap a" "jobs a i = None" "i \<notin> set (ready a)"
    and t: "t < length (tcbs s)" "tid (tcbs s ! t) = int i" "-2 \<le> state (tcbs s ! t)" "-1 \<le> block_id (tcbs s ! t)"
  shows "rep (insert i D) (s\<lparr>threads' := (threads' s)[i := Some t]\<rparr>) (a\<lparr>jobs := (jobs a)(i \<mapsto> job_of (tcbs s ! t))\<rparr>)"
    (is "rep ?D ?s ?a")
proof -
  note R = repD [OF rep]
  have len: "i < length (threads' s)" using i R(4) by simp
  have "queue_ok ?s (ready ?a)"
  proof -
    obtain xs where q: "queued s xs" "map (\<lambda>e. val (ents s ! e)) xs = map (addr_of s) (ready a)"
      using R(1) by (auto simp: queue_ok_def)
    have "addr_of ?s k = addr_of s k" if "k \<in> set (ready a)" for k
      using that i(3) by (cases "k = i") auto
    then have "map (addr_of ?s) (ready a) = map (addr_of s) (ready a)" by (rule map_cong [OF refl])
    then show ?thesis unfolding queue_ok_def using q by (intro exI [of _ xs]) (simp add: queued_def)
  qed
  moreover have "jobs ?a k = (if k < cap ?a then map_option (\<lambda>t. job_of (tcbs ?s ! t)) (threads' ?s ! k) else None)" for k
    using R(7) [of k] len i(1) by (auto simp: nth_list_update)
  moreover have "thread_ok ?s k u \<and> (k \<notin> ?D \<longrightarrow> ent_ok ?s u)" if "k < cap a" "threads' ?s ! k = Some u" for k u
  proof (cases "k = i")
    case True
    then show ?thesis using that len t by (simp add: thread_ok_def)
  next
    case False
    then show ?thesis using that R(8,9) [OF that(1)] by simp
  qed
  ultimately show ?thesis using R(2-6,10) by (auto simp: rep_def)
qed

lemma seg_more_ents: "seg es l xs p l' q \<Longrightarrow> seg (es @ ys) l xs p l' q"
  by (induction xs arbitrary: l p) (auto simp: nth_append)

lemma rep_new_entry:
  assumes rep: "rep D s a" and x: "val x < length (tcbs s)" "val x \<notin> val ` set (ents s)"
  shows "rep D (s\<lparr>ents := ents s @ [x]\<rparr>) a" (is "rep D ?s a")
proof -
  note R = repD [OF rep]
  obtain xs where q: "queued s xs" "map (\<lambda>e. val (ents s ! e)) xs = map (addr_of s) (ready a)"
    using R(1) by (auto simp: queue_ok_def)
  have "queued ?s xs" using q(1) by (simp add: queued_def seg_more_ents)
  moreover have "map (\<lambda>e. val (ents ?s ! e)) xs = map (\<lambda>e. val (ents s ! e)) xs"
    using ready.members [OF q(1)] by (intro map_cong refl) (auto simp: nth_append)
  ultimately have "queue_ok ?s (ready a)" using q(2) by (auto simp: queue_ok_def)
  moreover have "ent_ok ?s t" if "ent_ok s t" for t
    using that by (auto simp: ent_ok_def nth_append split: option.splits)
  moreover have "thread_ok ?s i t = thread_ok s i t" for i t by (simp add: thread_ok_def)
  ultimately show ?thesis using rep x by (simp add: rep_def)
qed

text \<open>The array is made large enough.\<close>

lemma room_refines:
  assumes rep: "rep {} s a" and mem: "4 \<le> memory s" and small: "2 * int (cap a) < 2 ^ 31"
    and c: "c = (if cap a \<le> made a then 2 * cap a else cap a)"
  obtains s' where "(if threads_capacity s \<le> threads_count s then threads_expand else skip) s = Inr ((), s')"
    "rep {} s' (a\<lparr>cap := c\<rparr>)" "3 \<le> memory s'" "tcbs s' = tcbs s" "ents s' = ents s"
proof (cases "cap a \<le> made a")
  case True
  note R = repD [OF rep]
  let ?s = "s\<lparr>memory := memory s - 1, threads' := threads' s @ replicate (cap a) None,
      threads_capacity := 2 * int (cap a)\<rparr>"
  have "rep {} ?s (a\<lparr>cap := 2 * cap a\<rparr>)"
    using rep_expand [of "{}" "s\<lparr>memory := memory s - 1\<rparr>" a] rep R(5) by simp
  then show thesis using that [of ?s] threads_expand_eq [OF R(5) small] mem True R(5,6) by (simp add: c)
next
  case False
  then show thesis using that [of s] rep mem repD(5,6) [OF rep] by (simp add: c)
qed

text \<open>A thread is made and put in the free slot \<open>i\<close>; it has no entry yet.\<close>

abbreviation new_thread :: "nat \<Rightarrow> nat \<Rightarrow> thread" where
  "new_thread f i \<equiv> \<lparr>tid = int i, block_id = -1, state = -1, ent = None, ctx_ptr = Enters f, uc_link = True\<rparr>"

abbreviation new_job :: "nat \<Rightarrow> job" where
  "new_job f \<equiv> \<lparr>status = Alive, waiter = None, resume = Enters f\<rparr>"

abbreviation with_thread :: "nat \<Rightarrow> nat \<Rightarrow> wut \<Rightarrow> wut" where
  "with_thread f i s \<equiv> s\<lparr>threads_count := threads_count s + 1, memory := memory s - 2, tcbs := tcbs s @ [new_thread f i]\<rparr>"

lemma new_thread_rep:
  assumes rep: "rep {} s a"
  shows "rep {} (with_thread f i s) (a\<lparr>made := made a + 1\<rparr>)"
proof -
  have "rep {} (s\<lparr>threads_count := threads_count s + 1, tcbs := tcbs s @ [new_thread f i]\<rparr>) (a\<lparr>made := made a + 1\<rparr>)"
    using rep_new_tcb [OF rep, of "new_thread f i"] by (simp split del: if_split)
  then have "rep {} (s\<lparr>threads_count := threads_count s + 1, tcbs := tcbs s @ [new_thread f i]\<rparr>\<lparr>memory := memory s - 2\<rparr>)
      (a\<lparr>made := made a + 1\<rparr>)"
    by (simp only: rep_memory)
  moreover have "s\<lparr>threads_count := threads_count s + 1, tcbs := tcbs s @ [new_thread f i]\<rparr>\<lparr>memory := memory s - 2\<rparr>
      = with_thread f i s"
    by (rule wut.equality) simp_all
  ultimately show ?thesis by (simp only:)
qed

lemma new_slot_refines:
  assumes rep: "rep {} s a" and mem: "2 \<le> memory s" and i: "i = (LEAST i. jobs a i = None)" "i < cap a" "jobs a i = None"
    and out: "i \<notin> set (ready a)"
  shows "create_thread (Some f) s = Inr (length (tcbs s), with_thread f i s)"
    and "set_slot (int i) (Some (length (tcbs s))) (with_thread f i s) =
      Inr ((), with_thread f i s\<lparr>threads' := (threads' s)[i := Some (length (tcbs s))]\<rparr>)"
    and "rep {i} (with_thread f i s\<lparr>threads' := (threads' s)[i := Some (length (tcbs s))]\<rparr>)
      (a\<lparr>made := made a + 1, jobs := (jobs a)(i \<mapsto> new_job f)\<rparr>)"
proof -
  let ?s2 = "s\<lparr>threads_count := threads_count s + 1, memory := memory s - 1\<rparr>"
  have "min_available_id ?s2 = Inr (int i, ?s2)"
    using min_available_id_eq [OF rep] i(1,2) by (simp add: min_available_id_def)
  then show "create_thread (Some f) s = Inr (length (tcbs s), with_thread f i s)"
    using mem by (simp add: create_thread_def seq_apply bnd_apply allocate_eq new_stack_def)
  note rep3 = new_thread_rep [OF rep, of i f]
  show "set_slot (int i) (Some (length (tcbs s))) (with_thread f i s) =
      Inr ((), with_thread f i s\<lparr>threads' := (threads' s)[i := Some (length (tcbs s))]\<rparr>)"
    using repD(4) [OF rep3] i(2) by (simp add: set_slot_def seq_apply)
  have job: "job_of (new_thread f i) = new_job f" by (simp add: job_of_def)
  show "rep {i} (with_thread f i s\<lparr>threads' := (threads' s)[i := Some (length (tcbs s))]\<rparr>)
      (a\<lparr>made := made a + 1, jobs := (jobs a)(i \<mapsto> new_job f)\<rparr>)"
    using rep_fill_slot [OF rep3, of i "length (tcbs s)"] i(2,3) out by (simp add: job nth_append)
qed

text \<open>Its entry is made and put at the end of the queue.\<close>

lemma create_entry_refines:
  assumes rep: "rep {i} s a" and mem: "1 \<le> memory s" and i: "i < cap a" "threads' s ! i = Some t" "i \<notin> set (ready a)"
    and t: "t < length (tcbs s)" "t \<notin> val ` set (ents s)" "tid (tcbs s ! t) = int i" "-2 \<le> state (tcbs s ! t)"
      "-1 \<le> block_id (tcbs s ! t)" "state (tcbs s ! t) < 0"
  obtains s' where "create_entry t s = Inr (length (ents s), s')" "rep {} s' (a\<lparr>ready := ready a @ [i]\<rparr>)"
proof -
  let ?e = "length (ents s)"
  let ?s1 = "s\<lparr>memory := memory s - 1, ents := ents s @ [\<lparr>val = t, tqe_next = None, tqe_prev = Head\<rparr>]\<rparr>"
  have "rep {i} (s\<lparr>memory := memory s - 1\<rparr>) a" using rep by (simp only: rep_memory)
  then have rep1: "rep {i} ?s1 a"
    using rep_new_entry [of "{i}" "s\<lparr>memory := memory s - 1\<rparr>" a "\<lparr>val = t, tqe_next = None, tqe_prev = Head\<rparr>"] t by simp
  let ?th = "(tcbs s ! t)\<lparr>ent := Some ?e\<rparr>"
  let ?s2 = "?s1\<lparr>tcbs := (tcbs s)[t := ?th]\<rparr>"
  have "ent_ok ?s2 t" using t by (simp add: ent_ok_def nth_append)
  then have "rep {} ?s2 (a\<lparr>jobs := (jobs a)(i \<mapsto> job_of ?th)\<rparr>)"
    using rep_set_thread [OF rep1, of i t ?th "{}"] i t by simp
  moreover have "jobs a i = Some (job_of ?th)" using repD(7) [OF rep, of i] i by simp
  ultimately have rep2: "rep {} ?s2 a" by (simp add: fun_upd_idem)
  obtain s3 where s3: "TAILQ_INSERT_TAIL ?e ?s2 = Inr ((), s3)" "rep {} s3 (a\<lparr>ready := ready a @ [i]\<rparr>)"
    using rep_insert_tail [OF rep2, of i ?e] i \<open>jobs a i = Some (job_of ?th)\<close> by (auto simp: nth_append)
  have "create_entry t s = Inr (?e, s3)"
    using mem t(1) s3(1) by (simp add: create_entry_def seq_apply bnd_apply allocate_eq set_thread_eq)
  then show thesis using that s3(2) by blast
qed

lemma wut_create_refines:
  assumes rep: "rep {} s a" and inv: "sched_inv a"
    and mem: "4 \<le> memory s" and small: "2 * int (cap a) < 2 ^ 31"
    and new: "spec_create f a = (i, a')"
  shows "\<exists>s'. wut_create (Some f) s = Inr (int i, s') \<and> rep {} s' a'"
proof -
  have core: "sched_core {hd (ready a)} a" using inv by (simp add: sched_inv_def)
  note C = sched_core_create [OF core new]
  obtain c where c: "c = (if cap a \<le> made a then 2 * cap a else cap a)" by blast
  have i: "i = (LEAST i. jobs a i = None)" and
    a': "a' = a\<lparr>ready := ready a @ [i], cap := c, made := made a + 1, jobs := (jobs a)(i \<mapsto> new_job f)\<rparr>"
    using new by (auto simp: spec_create_def Let_def c)
  have I: "i < c" "jobs a i = None" using free_id [OF sched_coreD(2) [OF core]] by (simp_all add: i c)
  obtain s1 where s1: "(if threads_capacity s \<le> threads_count s then threads_expand else skip) s = Inr ((), s1)"
      "rep {} s1 (a\<lparr>cap := c\<rparr>)" "3 \<le> memory s1" "tcbs s1 = tcbs s" "ents s1 = ents s"
    using room_refines [OF rep mem small c] .
  let ?t = "length (tcbs s1)"
  let ?s4 = "with_thread f i s1\<lparr>threads' := (threads' s1)[i := Some ?t]\<rparr>"
  let ?a4 = "a\<lparr>cap := c, made := made a + 1, jobs := (jobs a)(i \<mapsto> new_job f)\<rparr>"
  have slot: "create_thread (Some f) s1 = Inr (?t, with_thread f i s1)"
      "set_slot (int i) (Some ?t) (with_thread f i s1) = Inr ((), ?s4)" "rep {i} ?s4 ?a4"
    using new_slot_refines [OF s1(2), of i f] s1(3) I C(2) by (simp_all add: i)
  have t: "?t \<notin> val ` set (ents s1)" "threads' ?s4 ! i = Some ?t"
    using repD(3,4) [OF s1(2)] I(1) by auto
  have "1 \<le> memory ?s4" using s1(3) by simp
  moreover have "i < cap ?a4" "i \<notin> set (ready ?a4)" using I(1) C(2) by simp_all
  ultimately obtain s7 where s7: "create_entry ?t ?s4 = Inr (length (ents ?s4), s7)"
      "rep {} s7 (?a4\<lparr>ready := ready ?a4 @ [i]\<rparr>)"
    using create_entry_refines [OF slot(3) _ _ t(2)] t(1) by (auto simp: nth_append)
  have "get_thread ?t (with_thread f i s1) = Inr (new_thread f i, with_thread f i s1)"
    by (simp add: get_thread_eq nth_append)
  then have "wut_create (Some f) s = Inr (int i, s7)"
    using s1(1) slot s7(1)
    by (simp add: wut_create_def bnd_apply [of "gets g" for g] bnd_apply [of "create_thread r" for r]
        bnd_apply [of "get_thread x" for x] bnd_apply [of "create_entry x" for x] seq_apply)
  moreover have "?a4\<lparr>ready := ready ?a4 @ [i]\<rparr> = a'" unfolding a' by (rule sched.equality) simp_all
  ultimately show ?thesis using s7(2) by (auto simp only:)
qed

end
