(* ===== verification/Wut_System.thy ===== *)
theory Wut_System
  imports Wut_Create
begin

text \<open>
  The thread library of \<open>wut/src/wut.c\<close> as a whole: its first state, the calls that threads make one
  after the other, the states these calls lead to, and the ready queue as a list of ids.
\<close>

section \<open>The first state\<close>

definition first_sched :: sched where
  "first_sched = \<lparr>ready = [0], jobs = [0 \<mapsto> \<lparr>status = Alive, waiter = None, resume = Created\<rparr>], cap = 10, made = 1\<rparr>"

lemma first_sched_inv: "sched_inv first_sched"
  by (auto simp: sched_inv_def sched_core_def first_sched_def ready_ok_def ids_ok_def waiters_ok_def waiting_ok_def
      dom_def)

lemma rep_first:
  assumes "ents s = [\<lparr>val = 0, tqe_next = None, tqe_prev = Head\<rparr>]" "tqh_first s = Some 0" "tqh_last s = NextOf 0"
    and "tcbs s = [\<lparr>tid = 0, block_id = -1, state = -1, ent = Some 0, ctx_ptr = Created, uc_link = True\<rparr>]"
    and "threads' s = Some 0 # replicate 9 None" "threads_count s = 1" "threads_capacity s = 10"
  shows "rep {} s first_sched"
proof -
  have slot: "threads' s ! i = (if i = 0 then Some 0 else None)" if "i < 10" for i
    using that assms(5) by (cases i) simp_all
  have "queue_ok s [0]"
    unfolding queue_ok_def using assms by (intro exI [of _ "[0]"]) (simp add: queued_def)
  moreover have "thread_ok s i t \<and> ent_ok s t" if "i < 10" "threads' s ! i = Some t" for i t
    using that slot [of i] assms(1,4) by (auto simp: thread_ok_def ent_ok_def split: if_splits)
  moreover have "jobs first_sched i = (if i < 10 then map_option (\<lambda>t. job_of (tcbs s ! t)) (threads' s ! i) else None)" for i
    using slot [of i] assms(4) by (simp add: first_sched_def job_of_def)
  ultimately show ?thesis using assms by (simp add: rep_def first_sched_def)
qed

lemma wut_init_refines:
  assumes "5 \<le> memory s" "tcbs s = []" "ents s = []"
  shows "\<exists>s'. wut_init s = Inr ((), s') \<and> rep {} s' first_sched \<and> memory s' = memory s - 5"
proof -
  have "replicate 10 None = None # replicate 9 (None :: nat option)"
    by (simp add: numeral_eq_Suc)
  then have "\<exists>s'. wut_init s = Inr ((), s') \<and> ents s' = [\<lparr>val = 0, tqe_next = None, tqe_prev = Head\<rparr>] \<and>
      tqh_first s' = Some 0 \<and> tqh_last s' = NextOf 0 \<and>
      tcbs s' = [\<lparr>tid = 0, block_id = -1, state = -1, ent = Some 0, ctx_ptr = Created, uc_link = True\<rparr>] \<and>
      threads' s' = Some 0 # replicate 9 None \<and> threads_count s' = 1 \<and> threads_capacity s' = 10 \<and>
      memory s' = memory s - 5"
    using assms by (simp add: wut_init_def seq_apply bnd_apply allocate_eq new_stack_def create_thread_def
        min_available_id_def get_thread_eq set_slot_def TAILQ_INIT_def create_entry_def set_thread_eq
        TAILQ_INSERT_TAIL_def set_entry_def store_at_def)
  then show ?thesis using rep_first by blast
qed

section \<open>Calls\<close>

datatype call =
    Yield
  | Exits int
  | Finishes        \<comment> \<open>the function of the running thread returns\<close>
  | Joins int
  | Cancels int
  | Creates nat
  | Asks_id

fun perform :: "call \<Rightarrow> (wut, event) prog" where
  "perform Yield = wut_yield"
| "perform (Exits n) = wut_exit n"
| "perform Finishes = thread_returns"
| "perform (Joins i) = wut_join i"
| "perform (Cancels i) = bnd (wut_cancel i) (\<lambda>n. ret (Returns n))"
| "perform (Creates f) = bnd (wut_create (Some f)) (\<lambda>n. ret (Returns n))"
| "perform Asks_id = bnd wut_id (\<lambda>n. ret (Returns n))"

text \<open>
  The calls whose outcome the specification covers: all of them, except to cancel a thread that waits
  in \<open>wut_join\<close>, which destroys the queue, and to create a thread without memory for it, or when the doubled size
  of the thread array would not be an \<open>int\<close>.
\<close>

definition slot_is :: "wut \<Rightarrow> int \<Rightarrow> (thread \<Rightarrow> bool) \<Rightarrow> bool" where
  "slot_is s i P \<longleftrightarrow> 0 \<le> i \<and> i < threads_capacity s \<and>
     (case threads' s ! nat i of None \<Rightarrow> False | Some t \<Rightarrow> P (tcbs s ! t))"

fun allowed :: "call \<Rightarrow> wut \<Rightarrow> bool" where
  "allowed (Cancels i) s = (\<not> slot_is s i (\<lambda>th. state th = -2))"
| "allowed (Creates f) s = (4 \<le> memory s \<and> 2 * threads_capacity s < 2 ^ 31)"
| "allowed _ s = True"

text \<open>
  An id outside of the array is refused, except the one that is the size of the array: the tests of the code let it
  pass, and the element behind the array is read.
\<close>

definition spec_at :: "(nat \<Rightarrow> sched \<Rightarrow> stop + event \<times> sched) \<Rightarrow> int \<Rightarrow> sched \<Rightarrow> stop + event \<times> sched" where
  "spec_at g i a = (if i < 0 \<or> int (cap a) < i then Inr (Returns (-1), a)
     else if i = int (cap a) then Inl Undefined
     else g (nat i) a)"

fun spec_call :: "call \<Rightarrow> sched \<Rightarrow> stop + event \<times> sched" where
  "spec_call Yield a = spec_yield a"
| "spec_call (Exits n) a = spec_exit In_exit n a"
| "spec_call Finishes a = spec_exit In_scheduler 0 a"
| "spec_call (Joins i) a = spec_at spec_join i a"
| "spec_call (Cancels i) a = spec_at spec_cancel i a"
| "spec_call (Creates f) a = (case spec_create f a of (i, a') \<Rightarrow> Inr (Returns (int i), a'))"
| "spec_call Asks_id a = Inr (Returns (int (hd (ready a))), a)"

lemma refuses_out:
  "i < 0 \<or> threads_capacity s < i \<Longrightarrow> refuses i P s = Inr (True, s)"
  by (simp add: refuses_def bnd_apply)

lemma refuses_behind:
  assumes "rep D s a"
  shows "refuses (threads_capacity s) P s = Inl Undefined"
  using repD(4,5) [OF assms] by (simp add: refuses_def bnd_apply seq_apply get_slot_def)

lemma slot_is_rep:
  assumes "rep D s a"
  shows "slot_is s (int k) (\<lambda>th. P (job_of th)) \<longleftrightarrow> (\<exists>l. jobs a k = Some l \<and> P l)"
  using repD(5) [OF assms] repD(7) [OF assms, of k] by (auto simp: slot_is_def split: option.splits)

lemma slot_is_job:
  assumes rep: "rep D s a" and P: "\<And>th. -2 \<le> state th \<Longrightarrow> P th \<longleftrightarrow> Q (job_of th)"
  shows "slot_is s i P \<longleftrightarrow> (\<exists>k l. i = int k \<and> jobs a k = Some l \<and> Q l)"
proof (cases "0 \<le> i")
  case True
  then obtain k where k: "i = int k" by (metis nonneg_int_cases)
  have "slot_is s (int k) P \<longleftrightarrow> slot_is s (int k) (\<lambda>th. Q (job_of th))"
    using P repD(5) [OF rep] repD(8) [OF rep, of k] by (auto simp: slot_is_def thread_ok_def split: option.splits)
  then show ?thesis using slot_is_rep [OF rep, of k Q] k by simp
qed (auto simp: slot_is_def)

lemma slot_of_job:
  assumes "rep D s a"
  shows "slot_is s i (\<lambda>th. 0 \<le> state th) \<longleftrightarrow> (\<exists>k l. i = int k \<and> jobs a k = Some l \<and> exited l)"
    and "slot_is s i (\<lambda>th. state th < 0 \<and> block_id th < 0) \<longleftrightarrow>
      (\<exists>k l. i = int k \<and> jobs a k = Some l \<and> \<not> exited l \<and> waiter l = None)"
    and "slot_is s i (\<lambda>th. block_id th < 0) \<longleftrightarrow> (\<exists>k l. i = int k \<and> jobs a k = Some l \<and> waiter l = None)"
  by (rule slot_is_job [OF assms]; simp add: exited_job_of not_le)+

lemma agrees_at:
  assumes rep: "rep {} s a" and behind: "f (threads_capacity s) s = Inl Undefined"
    and out: "i < 0 \<or> threads_capacity s < i \<Longrightarrow> f i s = Inr (Returns (-1), s)"
    and k: "\<And>k. i = int k \<Longrightarrow> k < cap a \<Longrightarrow> agrees (f i s) (g k a)"
  shows "agrees (f i s) (spec_at g i a)"
proof -
  consider "i < 0 \<or> threads_capacity s < i" | "i = threads_capacity s" | "0 \<le> i" "i < threads_capacity s" by linarith
  then show ?thesis
  proof cases
    case 1
    then show ?thesis using out rep repD(5) [OF rep] by (simp add: spec_at_def agrees_def)
  next
    case 2
    then show ?thesis using behind repD(5) [OF rep] by (simp add: spec_at_def agrees_def)
  next
    case 3
    then have "agrees (f i s) (g (nat i) a)" using repD(5) [OF rep] by (intro k) auto
    then show ?thesis using 3 repD(5) [OF rep] by (simp add: spec_at_def)
  qed
qed

lemma wut_id_eq:
  assumes "rep D s a" "ready a = i # r"
  shows "wut_id s = Inr (int i, s)"
proof -
  obtain t where "head_thread s = Inr (t, s)" "t < length (tcbs s)" "tid (tcbs s ! t) = int i"
    using rep_head [OF assms] by metis
  then show ?thesis by (simp add: wut_id_def bnd_apply get_thread_eq)
qed

text \<open>Every call does what the specification says.\<close>

lemma call_refines:
  assumes rep: "rep {} s a" and inv: "sched_inv a" and ok: "allowed c s"
  shows "agrees (perform c s) (spec_call c a)"
proof (cases c)
  case (Joins i)
  have "agrees (wut_join i s) (spec_at spec_join i a)"
  proof (rule agrees_at [OF rep])
    obtain h r where "ready a = h # r" using sched_invE [OF inv] by metis
    then obtain e where "TAILQ_FIRST s = Inr (Some e, s)" using rep_head [OF rep] by metis
    then show "wut_join (threads_capacity s) s = Inl Undefined"
      using refuses_behind [OF rep] by (simp add: wut_join_def bnd_apply)
    show "wut_join i s = Inr (Returns (-1), s)" if "i < 0 \<or> threads_capacity s < i"
      using refuses_out [OF that] by (simp add: wut_join_def bnd_apply TAILQ_FIRST_def)
    show "agrees (wut_join i s) (spec_join k a)" if "i = int k" "k < cap a" for k
      using wut_join_refines [OF rep inv that(2)] that(1) by simp
  qed
  then show ?thesis using Joins by simp
next
  case (Cancels i)
  let ?f = "\<lambda>i. bnd (wut_cancel i) (\<lambda>n. ret (Returns n))"
  have "agrees (?f i s) (spec_at spec_cancel i a)"
  proof (rule agrees_at [OF rep])
    show "?f (threads_capacity s) s = Inl Undefined"
      using refuses_behind [OF rep] by (simp add: wut_cancel_def bnd_apply)
    show "?f i s = Inr (Returns (-1), s)" if "i < 0 \<or> threads_capacity s < i"
      using refuses_out [OF that] by (simp add: wut_cancel_def bnd_apply)
    show "agrees (?f i s) (spec_cancel k a)" if k: "i = int k" "k < cap a" for k
    proof -
      have "status l \<noteq> Waiting" if l: "jobs a k = Some l" for l
        using ok Cancels k(1) slot_is_rep [OF rep, of k "\<lambda>l. status l = Waiting"] l by simp
      then show ?thesis using wut_cancel_refines [OF rep inv k(2)] k(1)
        by (auto simp: agrees_def bnd_apply split: sum.splits)
    qed
  qed
  then show ?thesis using Cancels by simp
next
  case (Creates f)
  obtain i a' where new: "spec_create f a = (i, a')" by fastforce
  have "\<exists>s'. wut_create (Some f) s = Inr (int i, s') \<and> rep {} s' a'"
    using wut_create_refines [OF rep inv _ _ new] ok Creates repD(5) [OF rep] by simp
  then show ?thesis using Creates new by (auto simp: agrees_def bnd_apply)
next
  case Asks_id
  obtain i r where "ready a = i # r" using sched_invE [OF inv] by metis
  then show ?thesis using Asks_id wut_id_eq [OF rep] rep by (simp add: agrees_def bnd_apply)
qed (use wut_yield_refines [OF rep inv] wut_exit_refines [OF rep inv] in simp_all)

text \<open>When the specification stops, exactly; otherwise it keeps its invariant.\<close>

fun stops :: "call \<Rightarrow> sched \<Rightarrow> stop \<Rightarrow> bool" where
  "stops (Exits n) a e = (e = Exit 0 \<and> alone a)"
| "stops Finishes a e = (e = Exit 0 \<and> alone a)"
| "stops (Joins i) a e = (i = int (cap a) \<and> e = Undefined \<or> e = Fault \<and>
     (\<exists>j k l. ready a = [j] \<and> i = int k \<and> k \<noteq> j \<and> jobs a k = Some l \<and> \<not> exited l \<and> waiter l = None))"
| "stops (Cancels i) a e = (i = int (cap a) \<and> e = Undefined \<or> e = Fault \<and>
     (\<exists>k l. i = int k \<and> jobs a k = Some l \<and> exited l))"
| "stops _ a e = False"

lemma spec_call_stops:
  assumes inv: "sched_inv a"
  shows "spec_call c a = Inl e \<longleftrightarrow> stops c a e"
proof -
  have "sched_core {hd (ready a)} a" using inv by (simp add: sched_inv_def)
  from sched_coreD(2) [OF this] have dom: "jobs a k = Some l \<Longrightarrow> k < cap a" for k l by (auto simp: ids_ok_def)
  show ?thesis
  proof (cases c)
    case (Joins i)
    consider k where "i = int k" "k < cap a" | "i < 0 \<or> int (cap a) \<le> i" by (metis nonneg_int_cases not_less of_nat_less_iff)
    then show ?thesis
      using Joins spec_join_stops [OF inv] dom by cases (auto simp: spec_at_def dest: dom)
  next
    case (Cancels i)
    consider k where "i = int k" "k < cap a" | "i < 0 \<or> int (cap a) \<le> i" by (metis nonneg_int_cases not_less of_nat_less_iff)
    then show ?thesis
      using Cancels spec_cancel_stops [OF inv] dom by cases (auto simp: spec_at_def dest: dom)
  next
    case (Creates f)
    then show ?thesis by (simp split: prod.split)
  qed (use spec_yield_stops [OF inv] spec_exit_stops [OF inv] in auto)
qed

lemma perform_stops:
  assumes "rep {} s a" "sched_inv a" "allowed c s"
  shows "perform c s = Inl e \<longleftrightarrow> stops c a e"
  using call_refines [OF assms] unfolding spec_call_stops [OF assms(2), symmetric]
  by (auto simp: agrees_def split: sum.splits)

lemma spec_call_inv:
  assumes rep: "rep {} s a" and inv: "sched_inv a" and ok: "allowed c s" and ret: "spec_call c a = Inr (ev, a')"
  shows "sched_inv a'"
proof (cases c)
  case (Cancels i)
  have "status l \<noteq> Waiting" if "jobs a (nat i) = Some l" "0 \<le> i" for l
    using ok Cancels slot_is_rep [OF rep, of "nat i" "\<lambda>l. status l = Waiting"] that by simp
  then show ?thesis
    using spec_cancel_ok [of a "nat i", OF inv] ret Cancels inv by (auto simp: spec_at_def split: sum.splits if_splits)
next
  case (Joins i)
  then show ?thesis using spec_join_ok [OF inv, of "nat i"] inv ret by (auto simp: spec_at_def split: sum.splits if_splits)
next
  case (Creates f)
  obtain i a'' where "spec_create f a = (i, a'')" by fastforce
  with spec_create_ok [OF inv this] Creates ret show ?thesis by simp
next
  case (Exits n)
  then show ?thesis using spec_exit_ok [OF inv, of n In_exit] ret by auto
next
  case Finishes
  then show ?thesis using spec_exit_ok [OF inv, of 0 In_scheduler] ret by auto
qed (use spec_yield_ok [OF inv] inv ret in auto)

section \<open>States the library can be in\<close>

inductive reachable :: "wut \<Rightarrow> bool" where
  start: "wut_init s0 = Inr ((), s) \<Longrightarrow> 5 \<le> memory s0 \<Longrightarrow> tcbs s0 = [] \<Longrightarrow> ents s0 = [] \<Longrightarrow> reachable s"
| call: "reachable s \<Longrightarrow> allowed c s \<Longrightarrow> perform c s = Inr (ev, s') \<Longrightarrow> reachable s'"

lemma reachable_rep: "reachable s \<Longrightarrow> \<exists>a. rep {} s a \<and> sched_inv a"
proof (induction rule: reachable.induct)
  case (start s0 s)
  then show ?case using wut_init_refines [of s0] first_sched_inv by auto
next
  case (call s c ev s')
  then obtain a where a: "rep {} s a" "sched_inv a" by blast
  show ?case using call_refines [OF a call.hyps(2)] spec_call_inv [OF a call.hyps(2)] call.hyps(3)
    by (auto simp: agrees_def split: sum.splits)
qed

text \<open>The ids of the threads in the ready queue, in its order.\<close>

fun follow :: "nat \<Rightarrow> wut \<Rightarrow> nat option \<Rightarrow> int list" where
  "follow (Suc n) s (Some e) = tid (tcbs s ! val (ents s ! e)) # follow n s (tqe_next (ents s ! e))"
| "follow _ s _ = []"

definition ready_ids :: "wut \<Rightarrow> int list" where
  "ready_ids s = follow (length (ents s)) s (tqh_first s)"

lemma follow_seg:
  "seg (ents s) l xs p l' None \<Longrightarrow> length xs \<le> n \<Longrightarrow> follow n s p = map (\<lambda>e. tid (tcbs s ! val (ents s ! e))) xs"
proof (induction xs arbitrary: l p n)
  case (Cons x xs)
  then show ?case by (cases n) auto
qed simp

lemma ready_ids_rep:
  assumes rep: "rep D s a"
  shows "ready_ids s = map int (ready a)"
proof -
  obtain xs where q: "queued s xs" "map (\<lambda>e. val (ents s ! e)) xs = map (addr_of s) (ready a)"
    using repD(1) [OF rep] by (auto simp: queue_ok_def)
  have "set xs \<subseteq> {..<length (ents s)}" using ready.members [OF q(1)] by auto
  then have "length xs \<le> length (ents s)"
    using q(1) card_mono [of "{..<length (ents s)}" "set xs"] by (simp add: queued_def distinct_card)
  then have "ready_ids s = map (\<lambda>t. tid (tcbs s ! t)) (map (\<lambda>e. val (ents s ! e)) xs)"
    using q(1) follow_seg [of s Head xs "tqh_first s" "tqh_last s"] by (simp add: ready_ids_def queued_def)
  also have "\<dots> = map (\<lambda>i. tid (tcbs s ! addr_of s i)) (ready a)" by (simp add: q(2))
  also have "\<dots> = map int (ready a)"
  proof (rule map_cong [OF refl])
    fix i assume "i \<in> set (ready a)"
    then have "jobs a i \<noteq> None" using repD(10) [OF rep] by auto
    then obtain j where "jobs a i = Some j" by blast
    from rep_job [OF rep this] show "tid (tcbs s ! addr_of s i) = int i" by (metis option.sel)
  qed
  finally show ?thesis .
qed

section \<open>What the debugging functions print\<close>

text \<open>
  \<open>print_threads\<close> and \<open>print_queue\<close>: one tuple for each line, the index or the place in the queue, the id, the
  id of the blocked thread and the status.  (They are called when \<open>DEBUG\<close> is not 0.)
\<close>

definition print_threads :: "wut \<Rightarrow> (nat \<times> int \<times> int \<times> int) list" where
  "print_threads s = concat (map (\<lambda>i. case threads' s ! i of
       None \<Rightarrow> []
     | Some t \<Rightarrow> [(i, tid (tcbs s ! t), block_id (tcbs s ! t), state (tcbs s ! t))]) [0..<nat (threads_capacity s)])"

fun print_queue_from :: "nat \<Rightarrow> nat \<Rightarrow> wut \<Rightarrow> nat option \<Rightarrow> (nat \<times> int \<times> int \<times> int) list" where
  "print_queue_from (Suc fuel) counter s (Some e) =
     (let th = tcbs s ! val (ents s ! e) in
      (counter, tid th, block_id th, state th) # print_queue_from fuel (counter + 1) s (tqe_next (ents s ! e)))"
| "print_queue_from _ _ s _ = []"

definition print_queue :: "wut \<Rightarrow> (nat \<times> int \<times> int \<times> int) list" where
  "print_queue s = print_queue_from (length (ents s)) 0 s (tqh_first s)"

lemma print_queue_ids: "map (\<lambda>(_, i, _). i) (print_queue s) = ready_ids s"
proof -
  have "map (\<lambda>(_, i, _). i) (print_queue_from n k s p) = follow n s p" for n k p
    by (induction n k s p rule: print_queue_from.induct) (simp_all add: Let_def)
  then show ?thesis by (simp add: print_queue_def ready_ids_def)
qed

lemma print_queue_places: "map fst (print_queue s) = [0..<length (print_queue s)]"
proof -
  have "map fst (print_queue_from n k s p) = [k..<k + length (print_queue_from n k s p)]" for n k p
    by (induction n k s p rule: print_queue_from.induct) (simp_all add: Let_def upt_conv_Cons del: upt_Suc)
  from this [of "length (ents s)" 0 "tqh_first s"] show ?thesis by (simp add: print_queue_def)
qed

text \<open>In a reachable state the array is printed with each thread at the index that is its id.\<close>

lemma print_threads_ids:
  assumes "rep D s a" "l \<in> set (print_threads s)"
  shows "fst (snd l) = int (fst l) \<and> jobs a (fst l) \<noteq> None"
  using assms(2) repD(5) [OF assms(1)] repD(7) [OF assms(1), of "fst l"] repD(8) [OF assms(1), of "fst l"]
  by (auto simp: print_threads_def thread_ok_def split: option.splits) (metis option.distinct(1))

end
