(* ===== verification/Wut_Join.thy ===== *)
theory Wut_Join
  imports Wut_System
begin

text \<open>
  A thread that waits in \<open>wut_join\<close> gets the status of the thread it waits for: what each step of the
  scheduler leaves of the two jobs, from the join to the moment the waiting thread runs again.
\<close>

section \<open>A status that is owed\<close>

definition owed :: "sched \<Rightarrow> nat \<Rightarrow> nat \<Rightarrow> int \<Rightarrow> bool" where
  "owed a i k n \<longleftrightarrow> (\<exists>j l. jobs a i = Some j \<and> status j = Alive \<and> resume j = In_join (int k) \<and>
     jobs a k = Some l \<and> waiter l = Some i \<and> status l = Exited n)"

text \<open>A switch takes away at most a job that has exited and for which the thread that runs next waited.\<close>

lemma switch_keeps:
  assumes core: "sched_core {} a" and r: "ready a = h # r" and sw: "switch a = Inr (ev, a')"
  shows "ready a' = ready a" "jobs a x = Some l \<Longrightarrow> \<not> (exited l \<and> waiter l = Some h) \<Longrightarrow> jobs a' x = Some l"
proof -
  have "can_resume a h" using sched_coreD(5) [OF core, of h] r by simp
  then obtain j where j: "jobs a h = Some j" "(\<exists>f. resume j = Enters f) \<or> resume j = In_yield \<or>
      (\<exists>k l. resume j = In_join (int k) \<and> jobs a k = Some l \<and> waiter l = Some h \<and> exited l)"
    unfolding can_resume_def by blast
  then show "ready a' = ready a" "jobs a x = Some l \<Longrightarrow> \<not> (exited l \<and> waiter l = Some h) \<Longrightarrow> jobs a' x = Some l"
    using sw r by (auto simp: switch_def split: if_splits)
qed

lemma switch_owed:
  assumes "owed a i k n" and "ready a = i # r"
  shows "switch a = Inr (Resumes (int i) n, a\<lparr>jobs := (jobs a)(k := None)\<rparr>)"
  using assms by (auto simp: owed_def switch_def exit_code_def)

lemma switch_other:
  assumes core: "sched_core {} a" and r: "ready a = h # r" and owed: "owed a i k n" and "h \<noteq> i"
    and sw: "switch a = Inr (ev, a')"
  shows "owed a' i k n"
proof -
  obtain j l where jl: "jobs a i = Some j" "status j = Alive" "resume j = In_join (int k)"
      "jobs a k = Some l" "waiter l = Some i" "status l = Exited n"
    using owed by (auto simp: owed_def)
  have "jobs a' i = Some j" using switch_keeps(2) [OF core r sw jl(1)] jl(2) by simp
  moreover have "jobs a' k = Some l" using switch_keeps(2) [OF core r sw jl(4)] jl(5) \<open>h \<noteq> i\<close> by simp
  ultimately show ?thesis using jl by (auto simp: owed_def)
qed

section \<open>The steps\<close>

text \<open>The state a yield switches from.\<close>

lemma spec_yield_switch:
  assumes inv: "sched_inv a" and r: "ready a = h # r" "r \<noteq> []" and j: "jobs a h = Some j"
  shows "spec_yield a = switch (a\<lparr>ready := r @ [h], jobs := (jobs a)(h \<mapsto> j\<lparr>resume := In_yield\<rparr>)\<rparr>)"
    and "sched_core {} (a\<lparr>ready := r @ [h], jobs := (jobs a)(h \<mapsto> j\<lparr>resume := In_yield\<rparr>)\<rparr>)"
proof -
  let ?a = "a\<lparr>ready := r @ [h], jobs := (jobs a)(h \<mapsto> j\<lparr>resume := In_yield\<rparr>)\<rparr>"
  show "spec_yield a = switch ?a" using r j by (simp add: spec_yield_def)
  have core: "sched_core {h} a" using inv r by (simp add: sched_inv_def)
  note R = ready_okD [OF sched_coreD(1) [OF core]]
  have "status j = Alive" using R(2) [of h] r j by simp
  then have "sched_core {h} ?a"
    using sched_core_resume [OF core j _, of "r @ [h]" In_yield] R(1) r by (auto simp: insert_absorb)
  then show "sched_core {} ?a" using sched_core_insert [of h "{}" ?a] can_resume_yield [of ?a h] by simp
qed

lemma yield_owed:
  assumes inv: "sched_inv a" and r: "ready a = h # xs @ i # ys" and owed: "owed a i k n"
    and y: "spec_yield a = Inr (ev, a')"
  shows "if xs = [] then ev = Resumes (int i) n \<and> jobs a' k = None \<and> ready a' = i # ys @ [h]
    else owed a' i k n \<and> ready a' = xs @ i # ys @ [h]"
proof -
  have core: "sched_core {h} a" using inv r by (simp add: sched_inv_def)
  note R = ready_okD [OF sched_coreD(1) [OF core]]
  obtain j where j: "jobs a h = Some j" "status j = Alive" using R(2) [of h] r by auto
  let ?a = "a\<lparr>ready := (xs @ i # ys) @ [h], jobs := (jobs a)(h \<mapsto> j\<lparr>resume := In_yield\<rparr>)\<rparr>"
  have sw: "switch ?a = Inr (ev, a')" and core': "sched_core {} ?a"
    using spec_yield_switch [OF inv r _ j(1)] y by simp_all
  have "h \<noteq> i" using R(1) r by simp
  moreover have "k \<noteq> h" using owed j by (auto simp: owed_def)
  ultimately have owed': "owed ?a i k n" using owed by (auto simp: owed_def)
  show ?thesis
  proof (cases xs)
    case Nil
    then show ?thesis using switch_owed [OF owed', of "ys @ [h]"] sw by auto
  next
    case (Cons x xs')
    then have "x \<noteq> i" using R(1) r by auto
    then show ?thesis
      using switch_other [OF core' _ owed' _ sw, of x] switch_keeps(1) [OF core' _ sw] Cons by simp
  qed
qed

text \<open>The join, and the end of the thread it waits for.\<close>

lemma join_then:
  assumes inv: "sched_inv a" and r: "ready a = i # k # r" and l: "jobs a k = Some l" "waiter l = None"
  shows "\<exists>ev a' j l'. spec_join k a = Inr (ev, a') \<and> sched_inv a' \<and> ready a' = k # r \<and>
    jobs a' i = Some j \<and> status j = Waiting \<and> resume j = In_join (int k) \<and> jobs a' k = Some l' \<and> waiter l' = Some i"
proof -
  have core: "sched_core {i} a" using inv r by (simp add: sched_inv_def)
  note R = ready_okD [OF sched_coreD(1) [OF core]]
  obtain j where j: "jobs a i = Some j" "status j = Alive" using R(2) [of i] r by auto
  have "k \<noteq> i" using R(1) r by auto
  have alive: "status l = Alive" using R(2) [of k] r l by auto
  let ?j = "j\<lparr>status := Waiting, resume := In_join (int k)\<rparr>"
  let ?a = "a\<lparr>ready := k # r, jobs := (jobs a)(i \<mapsto> ?j, k \<mapsto> l\<lparr>waiter := Some i\<rparr>)\<rparr>"
  have core': "sched_core {} ?a"
    using sched_core_wait [OF core r j(1) l(1) \<open>k \<noteq> i\<close> l(2)] alive by simp
  have join: "spec_join k a = switch ?a" using r j l \<open>k \<noteq> i\<close> alive by (simp add: spec_join_def)
  then obtain ev a' where a': "switch ?a = Inr (ev, a')" "sched_inv a'"
    using switch_ok [OF core'] by (cases "switch ?a") auto
  have "jobs a' i = Some ?j"
    using switch_keeps(2) [OF core' _ a'(1), of k r i ?j] \<open>k \<noteq> i\<close> by simp
  moreover have "jobs a' k = Some (l\<lparr>waiter := Some i\<rparr>)"
    using switch_keeps(2) [OF core' _ a'(1), of k r k "l\<lparr>waiter := Some i\<rparr>"] alive by simp
  moreover have "ready a' = k # r" using switch_keeps(1) [OF core' _ a'(1)] by simp
  ultimately show ?thesis using join a' by simp
qed

lemma exit_then:
  assumes inv: "sched_inv a" and r: "ready a = k # r"
    and i: "jobs a i = Some j" "status j = Waiting" "resume j = In_join (int k)"
    and l: "jobs a k = Some l" "waiter l = Some i"
  shows "\<exists>ev a'. spec_exit In_exit n a = Inr (ev, a') \<and> sched_inv a' \<and> ready a' = r @ [i] \<and>
    (if r = [] then ev = Resumes (int i) (n mod 256) \<and> jobs a' k = None else owed a' i k (n mod 256))"
proof -
  have core: "sched_core {k} a" using inv r by (simp add: sched_inv_def)
  note R = ready_okD [OF sched_coreD(1) [OF core]]
  have alive: "status l = Alive" using R(2) [of k] r l by auto
  have ne: "i \<noteq> k" "i \<notin> set r" using R(2) [of i] r i alive l by auto
  let ?a = "finish k (n mod 256) In_exit a"
  have core': "sched_core {} ?a" using sched_core_finish [OF core l(1) alive] by simp
  have ready: "ready ?a = r @ [i]" and owed: "owed ?a i k (n mod 256)"
    using r i l ne by (simp_all add: finish_def awaken_def owed_def)
  have exit: "spec_exit In_exit n a = switch ?a" using r by (simp add: spec_exit_def)
  then obtain ev a' where a': "switch ?a = Inr (ev, a')" "sched_inv a'" "ready a' = r @ [i]"
    using switch_ok [OF core'] ready by (cases "switch ?a") auto
  have "if r = [] then ev = Resumes (int i) (n mod 256) \<and> jobs a' k = None else owed a' i k (n mod 256)"
  proof (cases r)
    case Nil
    then show ?thesis using switch_owed [OF owed] ready a'(1) by auto
  next
    case (Cons h hs)
    then show ?thesis using switch_other [OF core' _ owed _ a'(1), of h "hs @ [i]"] ready ne by auto
  qed
  then show ?thesis using exit a' by simp
qed

section \<open>Until the waiting thread runs\<close>

text \<open>\<open>n\<close> calls of \<open>wut_yield\<close> by whichever thread runs, and the event of the last one.\<close>

primrec yields :: "nat \<Rightarrow> event \<Rightarrow> (wut, event) prog" where
  "yields 0 ev = ret ev"
| "yields (Suc n) ev = bnd wut_yield (yields n)"

lemma yield_step:
  assumes "rep {} s a" "sched_inv a"
  obtains ev s' a' where "wut_yield s = Inr (ev, s')" "spec_yield a = Inr (ev, a')" "rep {} s' a'" "sched_inv a'"
    "ready a' = rotate1 (ready a)"
  using wut_yield_refines [OF assms] spec_yield_ok [OF assms(2)] that
  by (auto simp: agrees_def split: sum.splits)

lemma yields_owed:
  assumes "rep {} s a" "sched_inv a" "ready a = h # xs @ i # ys" "owed a i k n"
  shows "\<exists>s' a'. yields (Suc (length xs)) ev s = Inr (Resumes (int i) n, s') \<and> rep {} s' a' \<and> jobs a' k = None \<and>
    ready a' = i # ys @ h # xs"
  using assms
proof (induction xs arbitrary: s a h ys ev)
  case Nil
  obtain ev1 s1 a1 where s1: "wut_yield s = Inr (ev1, s1)" "spec_yield a = Inr (ev1, a1)" "rep {} s1 a1" "sched_inv a1"
    using yield_step [OF Nil.prems(1,2)] by metis
  then show ?case using yield_owed [OF Nil.prems(2-4) s1(2)] by (auto simp: bnd_apply)
next
  case (Cons x xs)
  obtain ev1 s1 a1 where s1: "wut_yield s = Inr (ev1, s1)" "spec_yield a = Inr (ev1, a1)" "rep {} s1 a1" "sched_inv a1"
    using yield_step [OF Cons.prems(1,2)] by metis
  then have "owed a1 i k n" "ready a1 = x # xs @ i # ys @ [h]"
    using yield_owed [OF Cons.prems(2-4) s1(2)] by simp_all
  then show ?case using Cons.IH [OF s1(3,4), of x "ys @ [h]" ev1] s1(1) by (simp add: bnd_apply)
qed

end
