(* ===== verification/Wut_Properties.thy ===== *)
theory Wut_Properties
  imports Wut_Join
begin

text \<open>
  The properties of the thread library \<open>wut/src/wut.c\<close>, each with an instance on a small run that
  starts with \<open>wut_init\<close> in a fresh process.
\<close>

section \<open>Runs from the start of the process\<close>

definition fresh :: wut where
  "fresh = \<lparr>tqh_first = None, tqh_last = Head, ents = [], tcbs = [], threads' = [], threads_count = 0,
     threads_capacity = 0, memory = 100, errno = 0\<rparr>"

fun runs :: "call list \<Rightarrow> (wut, event list) prog" where
  "runs [] = ret []"
| "runs (c # cs) = seq (bnd (gets (allowed c)) (\<lambda>b. check Undefined (\<lambda>_. b)))
     (bnd (perform c) (\<lambda>e. bnd (runs cs) (\<lambda>es. ret (e # es))))"

definition after :: "call list \<Rightarrow> wut" where
  "after cs = (case seq wut_init (runs cs) fresh of Inl e \<Rightarrow> fresh | Inr (_, s) \<Rightarrow> s)"

definition runs_ok :: "call list \<Rightarrow> bool" where
  "runs_ok cs \<longleftrightarrow> (case seq wut_init (runs cs) fresh of Inl e \<Rightarrow> False | Inr _ \<Rightarrow> True)"

lemma reachable_runs: "reachable s \<Longrightarrow> runs cs s = Inr (es, s') \<Longrightarrow> reachable s'"
proof (induction cs arbitrary: s es)
  case (Cons c cs)
  from Cons.prems(2) obtain e s1 es' where s1: "allowed c s" "perform c s = Inr (e, s1)" "runs cs s1 = Inr (es', s')"
    by (auto simp: seq_eq_Inr bnd_eq_Inr split: if_splits)
  show ?case using Cons.IH [OF reachable.call [OF Cons.prems(1) s1(1,2)] s1(3)] .
qed simp

lemma reachable_after: "runs_ok cs \<Longrightarrow> reachable (after cs)"
proof -
  assume "runs_ok cs"
  then obtain es where "seq wut_init (runs cs) fresh = Inr (es, after cs)"
    by (auto simp: runs_ok_def after_def split: sum.splits)
  then obtain s where s: "wut_init fresh = Inr ((), s)" "runs cs s = Inr (es, after cs)" by (auto simp: seq_eq_Inr)
  have "reachable s" using s(1) by (rule reachable.start) (simp_all add: fresh_def)
  then show ?thesis using s(2) by (rule reachable_runs)
qed

lemma after_nil: "reachable (after [])"
  by (rule reachable_after) code_simp

section \<open>Refinement\<close>

text \<open>
  C2. Refinement of the scheduler.  If the pointers, arrays and links of the library represent an abstract
  scheduler (a queue of ids and a map from ids to jobs) that satisfies its invariant, then an allowed call
  (yield, exit, return of a thread's function, join, cancel, create and id) has the outcome the
  abstract scheduler gives, which thread runs next and with what result or why the process stops
  included; when the call returns, the new state represents the new scheduler and the invariant holds again, and the
  scheduler stops the process in exactly the cases that \<open>stops\<close> lists.  All calls are allowed, with any id, except two: to
  cancel a thread that waits in \<open>wut_join\<close>, and to create a thread when there is no memory for four
  allocations or the size of the thread array cannot be doubled as an \<open>int\<close>.
\<close>
theorem wut_calls_refine:
  assumes "rep {} s a" "sched_inv a" "allowed c s"
  shows "agrees (perform c s) (spec_call c a) \<and>
    (\<forall>e. spec_call c a = Inl e \<longleftrightarrow> stops c a e) \<and>
    (\<forall>ev a'. spec_call c a = Inr (ev, a') \<longrightarrow> sched_inv a')"
  using call_refines [OF assms] spec_call_stops [OF assms(2)] spec_call_inv [OF assms] by blast

lemma wut_calls_refine_witness:
  "\<exists>s'. perform (Creates 7) (after []) = Inr (Returns 1, s') \<and>
     rep {} s' \<lparr>ready = [0, 1], jobs = [0 \<mapsto> \<lparr>status = Alive, waiter = None, resume = Created\<rparr>,
       1 \<mapsto> \<lparr>status = Alive, waiter = None, resume = Enters 7\<rparr>], cap = 10, made = 2\<rparr>"
proof -
  have "rep {} (after []) first_sched" by (rule rep_first) code_simp+
  moreover have "allowed (Creates 7) (after [])" by code_simp
  ultimately have "agrees (perform (Creates 7) (after [])) (spec_call (Creates 7) first_sched)"
    using wut_calls_refine first_sched_inv by blast
  moreover have "(LEAST i. jobs first_sched i = None) = 1"
    by (rule Least_equality) (auto simp: first_sched_def split: if_splits)
  then have "spec_call (Creates 7) first_sched = Inr (Returns 1, \<lparr>ready = [0, 1],
      jobs = [0 \<mapsto> \<lparr>status = Alive, waiter = None, resume = Created\<rparr>,
        1 \<mapsto> \<lparr>status = Alive, waiter = None, resume = Enters 7\<rparr>], cap = 10, made = 2\<rparr>)"
    by (simp add: spec_create_def) (simp add: first_sched_def)
  ultimately show ?thesis by (simp only: agrees_def sum.case prod.case)
qed

section \<open>Reachable states\<close>

text \<open>
  C16. The scheduler's invariant.  In every state that allowed calls can reach from \<open>wut_init\<close> (all calls except to cancel a
  thread that waits in \<open>wut_join\<close>, which destroys the queue, and to create a thread without memory for it or
  beyond the range of \<open>int\<close>) the ready queue is a proper list without repetitions that is never empty, it holds exactly the ids of the alive threads of the
  array, the thread at index \<open>i\<close> of the array has the id \<open>i\<close>, and \<open>wut_id\<close> returns the head.
\<close>
theorem wut_reachable_invariant:
  assumes "reachable s"
  shows "ready_ids s \<noteq> [] \<and> distinct (ready_ids s) \<and>
    (\<forall>i. (i \<in> set (ready_ids s)) = slot_is s i (\<lambda>th. state th = -1)) \<and>
    (\<forall>i. slot_is s i (\<lambda>th. True) = slot_is s i (\<lambda>th. tid th = i)) \<and>
    wut_id s = Inr (hd (ready_ids s), s)"
proof -
  obtain a where a: "rep {} s a" "sched_inv a" using reachable_rep [OF assms] by blast
  obtain j r where r: "ready a = j # r" "sched_core {j} a" using sched_invE [OF a(2)] by metis
  note R = ready_okD [OF sched_coreD(1) [OF r(2)]]
  have ids: "ready_ids s = map int (ready a)" by (rule ready_ids_rep [OF a(1)])
  have alive: "(i \<in> set (ready_ids s)) = slot_is s i (\<lambda>th. state th = -1)" for i
  proof (cases "0 \<le> i")
    case True
    then obtain k where k: "i = int k" by (metis nonneg_int_cases)
    have "(int k \<in> set (ready_ids s)) = (k \<in> set (ready a))" by (auto simp: ids)
    then show ?thesis using R(2) [of k] slot_is_rep [OF a(1), of k "\<lambda>l. status l = Alive"] by (simp add: k)
  next
    case False
    then show ?thesis by (auto simp: ids slot_is_def)
  qed
  have "tid (tcbs s ! t) = i" if "0 \<le> i" "i < threads_capacity s" "threads' s ! nat i = Some t" for i t
    using repD(8) [OF a(1), of "nat i" t] that repD(5) [OF a(1)] by (simp add: thread_ok_def)
  then have "slot_is s i (\<lambda>th. True) = slot_is s i (\<lambda>th. tid th = i)" for i
    by (auto simp: slot_is_def split: option.splits)
  moreover have "distinct (ready_ids s)" using R(1) by (simp add: ids distinct_map)
  moreover have "ready_ids s \<noteq> []" "wut_id s = Inr (hd (ready_ids s), s)"
    using wut_id_eq [OF a(1) r(1)] by (simp_all add: ids r(1))
  ultimately show ?thesis using alive by simp
qed

lemma wut_reachable_invariant_witness:
  "ready_ids (after [Creates 5, Creates 6, Yield, Joins 2]) = [2, 0] \<and>
   wut_id (after [Creates 5, Creates 6, Yield, Joins 2]) = Inr (2, after [Creates 5, Creates 6, Yield, Joins 2])"
proof -
  let ?s = "after [Creates 5, Creates 6, Yield, Joins 2]"
  have "reachable ?s" by (rule reachable_after) code_simp
  moreover have "ready_ids ?s = [2, 0]" by code_simp
  ultimately show ?thesis using wut_reachable_invariant [of ?s] by simp
qed

text \<open>
  C7. When a call stops the process.  In a reachable state an allowed call stops the process in
  exactly four cases, and in all others it returns: the only ready thread ends, by \<open>wut_exit\<close> or by returning from its function, and no
  thread waits for it, and the process exits with status 0; the only ready thread joins another one that
  has neither ended nor is waited for, and the empty queue is dereferenced; a thread that has ended is cancelled,
  whose entry is a null pointer; or the id in a join or cancel is the size of the thread array.
  Reachable states are those after \<open>wut_init\<close> and any number of allowed calls; the calls that are not allowed are to
  cancel a thread that waits in \<open>wut_join\<close> and to create one without memory for four allocations or when the size of the
  thread array cannot be doubled as an \<open>int\<close>.
\<close>
theorem wut_reachable_safe:
  assumes "reachable s" "allowed c s"
  shows "perform c s = Inl e \<longleftrightarrow>
    ((\<exists>n. c = Exits n) \<or> c = Finishes) \<and> e = Exit 0 \<and>
      (\<exists>i. ready_ids s = [i] \<and> slot_is s i (\<lambda>th. block_id th < 0)) \<or>
    (\<exists>i j. c = Joins i \<and> e = Fault \<and> ready_ids s = [j] \<and> i \<noteq> j \<and>
      slot_is s i (\<lambda>th. state th < 0 \<and> block_id th < 0)) \<or>
    (\<exists>i. c = Cancels i \<and> e = Fault \<and> slot_is s i (\<lambda>th. 0 \<le> state th)) \<or>
    (c = Joins (threads_capacity s) \<or> c = Cancels (threads_capacity s)) \<and> e = Undefined"
proof -
  obtain a where a: "rep {} s a" "sched_inv a" using reachable_rep [OF assms(1)] by blast
  note slots = slot_of_job [OF a(1)] ready_ids_rep [OF a(1)] repD(5) [OF a(1)]
  have "alone a \<longleftrightarrow> (\<exists>i. ready_ids s = [i] \<and> slot_is s i (\<lambda>th. block_id th < 0))"
    by (auto simp: alone_def slots Cons_eq_map_conv)
  moreover have "(\<exists>j k l. ready a = [j] \<and> i = int k \<and> k \<noteq> j \<and> jobs a k = Some l \<and> \<not> exited l \<and> waiter l = None) \<longleftrightarrow>
      (\<exists>j. ready_ids s = [j] \<and> i \<noteq> j \<and> slot_is s i (\<lambda>th. state th < 0 \<and> block_id th < 0))" for i
    by (auto simp: slots exited_job_of Cons_eq_map_conv)
  ultimately show ?thesis
    unfolding perform_stops [OF a assms(2)] by (cases c) (auto simp: slots exited_job_of)
qed

lemma wut_reachable_safe_witness:
  "perform (Joins 1) (after [Creates 5, Yield, Joins 0]) = Inl Fault \<and>
   perform (Exits 3) (after [Creates 5, Yield, Joins 0]) \<noteq> Inl (Exit 0)"
proof -
  let ?s = "after [Creates 5, Yield, Joins 0]"
  have s: "reachable ?s" by (rule reachable_after) code_simp
  have "allowed (Joins 1) ?s" "allowed (Exits 3) ?s" "ready_ids ?s = [0]"
      "slot_is ?s 1 (\<lambda>th. state th < 0 \<and> block_id th < 0)" "\<not> slot_is ?s 0 (\<lambda>th. block_id th < 0)" by code_simp+
  then show ?thesis
    using wut_reachable_safe [OF s, of "Joins 1" Fault] wut_reachable_safe [OF s, of "Exits 3" "Exit 0"] by simp
qed

section \<open>Round robin\<close>

text \<open>
  C17. Round robin.  In a reachable state \<open>n\<close> yields in a row cannot fail, and they turn the ready
  queue by \<open>n\<close> places without losing a thread or changing the order, so the thread that runs after
  them is the one that was \<open>n\<close> places (modulo the length of the queue) behind the head: every ready thread runs
  within as many yields as there are threads before it.
\<close>
theorem wut_yield_round_robin:
  assumes "reachable s"
  shows "\<exists>ev' s'. yields n ev s = Inr (ev', s') \<and> ready_ids s' = rotate n (ready_ids s) \<and>
    wut_id s' = Inr (ready_ids s ! (n mod length (ready_ids s)), s')"
proof -
  have main: "\<exists>ev' s' a'. yields n ev s = Inr (ev', s') \<and> rep {} s' a' \<and> sched_inv a' \<and> ready a' = rotate n (ready a)"
    if "rep {} s a" "sched_inv a" for s a
    using that
  proof (induction n arbitrary: s a ev)
    case (Suc n)
    obtain ev1 s1 a1 where s1: "wut_yield s = Inr (ev1, s1)" "rep {} s1 a1" "sched_inv a1" "ready a1 = rotate1 (ready a)"
      using yield_step [OF Suc.prems] by metis
    then show ?case using Suc.IH [OF s1(2,3), of ev1] by (simp add: rotate1_rotate_swap)
  qed auto
  obtain a where a: "rep {} s a" "sched_inv a" using reachable_rep [OF assms] by blast
  obtain ev' s' a' where s': "yields n ev s = Inr (ev', s')" "rep {} s' a'" "sched_inv a'"
      "ready a' = rotate n (ready a)"
    using main [OF a] by blast
  have ids: "ready_ids s = map int (ready a)" by (rule ready_ids_rep [OF a(1)])
  obtain i r where r: "ready a' = i # r" using sched_invE [OF s'(3)] by metis
  have ne: "ready a \<noteq> []" using a(2) by (auto simp: sched_inv_def)
  have "i = hd (rotate n (ready a))" using r s'(4) by (metis list.sel(1))
  then have "int i = ready_ids s ! (n mod length (ready_ids s))" using ne by (simp add: ids hd_rotate_conv_nth)
  then show ?thesis
    using s'(1,4) ready_ids_rep [OF s'(2)] wut_id_eq [OF s'(2) r] by (simp add: ids rotate_map)
qed

lemma wut_yield_round_robin_witness:
  "\<exists>ev s'. yields 4 (Returns 0) (after [Creates 5, Creates 6]) = Inr (ev, s') \<and>
     ready_ids s' = [1, 2, 0] \<and> wut_id s' = Inr (1, s')"
proof -
  have "reachable (after [Creates 5, Creates 6])" by (rule reachable_after) code_simp
  moreover have "ready_ids (after [Creates 5, Creates 6]) = [0, 1, 2]" by code_simp
  moreover have "rotate 4 [0, 1, 2 :: int] = [1, 2, 0]" by code_simp
  moreover have "[0, 1, 2 :: int] ! (4 mod length [0, 1, 2 :: int]) = 1" by code_simp
  ultimately show ?thesis
    using wut_yield_round_robin [of "after [Creates 5, Creates 6]" 4 "Returns 0"] by metis
qed

section \<open>New threads\<close>

text \<open>
  C27. A new thread.  In a reachable state with memory for it, and a thread array whose doubled size is an \<open>int\<close>, \<open>wut_create\<close> returns the least id
  that no thread has, also when the array had to grow; the new thread is alive, will enter the
  given function, nobody waits for it, and it is put behind the ready threads, which stay in their order.
\<close>
theorem wut_create_least_id:
  assumes "reachable s" "4 \<le> memory s" "2 * threads_capacity s < 2 ^ 31"
  shows "\<exists>i s'. wut_create (Some f) s = Inr (i, s') \<and> 0 \<le> i \<and> \<not> slot_is s i (\<lambda>th. True) \<and>
    (\<forall>k \<in> {0..<i}. slot_is s k (\<lambda>th. True)) \<and> ready_ids s' = ready_ids s @ [i] \<and>
    slot_is s' i (\<lambda>th. tid th = i \<and> state th = -1 \<and> block_id th = -1 \<and> ctx_ptr th = Enters f)"
proof -
  obtain a where a: "rep {} s a" "sched_inv a" using reachable_rep [OF assms(1)] by blast
  obtain i a' where new: "spec_create f a = (i, a')" by fastforce
  obtain s' where s': "wut_create (Some f) s = Inr (int i, s')" "rep {} s' a'"
    using wut_create_refines [OF a assms(2) _ new] assms(3) repD(5) [OF a(1)] by auto
  have new': "i \<notin> dom (jobs a)" "ready a' = ready a @ [i]" using spec_create_ok [OF a(2) new] by auto
  have job: "jobs a' i = Some \<lparr>status = Alive, waiter = None, resume = Enters f\<rparr>"
    and least: "i = (LEAST i. jobs a i = None)"
    using new by (auto simp: spec_create_def Let_def)
  have used: "slot_is s (int k) (\<lambda>th. True) = (jobs a k \<noteq> None)" for k
    using slot_is_rep [OF a(1), of k "\<lambda>_. True"] by auto
  have "slot_is s k (\<lambda>th. True)" if "k \<in> {0..<int i}" for k
  proof -
    obtain m where m: "k = int m" "m < i" using \<open>k \<in> {0..<int i}\<close> nonneg_int_cases [of k] by auto
    then have "jobs a m \<noteq> None" using least not_less_Least [of m "\<lambda>i. jobs a i = None"] by auto
    then show ?thesis using used m by simp
  qed
  moreover obtain t where t: "i < cap a'" "threads' s' ! i = Some t" "tid (tcbs s' ! t) = int i"
      "\<lparr>status = Alive, waiter = None, resume = Enters f\<rparr> = job_of (tcbs s' ! t)" "-1 \<le> block_id (tcbs s' ! t)"
    using rep_job [OF s'(2) job] by metis
  have "status (job_of (tcbs s' ! t)) = Alive" "waiter (job_of (tcbs s' ! t)) = None"
      "resume (job_of (tcbs s' ! t)) = Enters f"
    using t(4) by (metis job.select_convs)+
  then have "slot_is s' (int i) (\<lambda>th. tid th = int i \<and> state th = -1 \<and> block_id th = -1 \<and> ctx_ptr th = Enters f)"
    using t repD(5) [OF s'(2)] by (simp add: slot_is_def)
  ultimately show ?thesis
    using s'(1) used new' ready_ids_rep [OF a(1)] ready_ids_rep [OF s'(2)] by (intro exI [of _ "int i"]) auto
qed

lemma wut_create_least_id_witness:
  "\<exists>i s'. wut_create (Some 8) (after [Creates 5, Creates 6, Yield, Exits 3, Yield, Joins 1]) = Inr (i, s') \<and>
     ready_ids s' = [0, 2, i]"
proof -
  let ?s = "after [Creates 5, Creates 6, Yield, Exits 3, Yield, Joins 1]"
  have "reachable ?s" by (rule reachable_after) code_simp
  moreover have "ready_ids ?s = [0, 2]" "4 \<le> memory ?s" "2 * threads_capacity ?s < 2 ^ 31" by code_simp+
  ultimately show ?thesis using wut_create_least_id [of ?s 8] by auto
qed

section \<open>Joining\<close>

text \<open>
  C5. The status of a thread reaches the thread that joins it.  In a reachable state let thread \<open>i\<close> run and
  thread \<open>k\<close>, which nobody joins yet, be the next in the queue.  If \<open>i\<close> joins \<open>k\<close>, then \<open>k\<close> (which runs now) exits
  with \<open>n\<close>, and the other ready threads yield once each, then the join of \<open>i\<close> returns \<open>n & 0xFF\<close>: nothing
  on the way fails, and afterwards the id \<open>k\<close> is free again.
\<close>
theorem wut_join_exit_status:
  assumes "reachable s" "ready_ids s = i # k # r" "slot_is s k (\<lambda>th. block_id th < 0)"
  shows "\<exists>s'. bnd (wut_join k) (\<lambda>_. bnd (wut_exit n) (yields (length r))) s = Inr (Resumes i (n mod 256), s') \<and>
    \<not> slot_is s' k (\<lambda>th. True) \<and> hd (ready_ids s') = i"
proof -
  obtain a where a: "rep {} s a" "sched_inv a" using reachable_rep [OF assms(1)] by blast
  obtain i' k' r' where r: "ready a = i' # k' # r'" "i = int i'" "k = int k'" "r = map int r'"
    using assms(2) ready_ids_rep [OF a(1)] by (auto simp: Cons_eq_map_conv)
  obtain l where l: "jobs a k' = Some l" "waiter l = None"
    using slot_is_rep [OF a(1), of k' "\<lambda>l. waiter l = None"] assms(3) r(3) by auto
  then have k: "k' < cap a" using repD(7) [OF a(1), of k'] by (auto split: if_splits)
  obtain ev1 s1 a1 j l' where s1: "wut_join k s = Inr (ev1, s1)" "rep {} s1 a1" "sched_inv a1" "ready a1 = k' # r'"
      "jobs a1 i' = Some j" "status j = Waiting" "resume j = In_join (int k')" "jobs a1 k' = Some l'" "waiter l' = Some i'"
    using join_then [OF a(2) r(1) l] wut_join_refines [OF a k] r(3) by (auto simp: agrees_def)
  obtain ev2 s2 a2 where s2: "wut_exit n s1 = Inr (ev2, s2)" "rep {} s2 a2" "sched_inv a2" "ready a2 = r' @ [i']"
      "if r' = [] then ev2 = Resumes (int i') (n mod 256) \<and> jobs a2 k' = None else owed a2 i' k' (n mod 256)"
    using exit_then [OF s1(3-9), of n] wut_exit_refines(1) [OF s1(2,3), of n] by (auto simp: agrees_def)
  have "\<exists>s3 a3. yields (length r) ev2 s2 = Inr (Resumes i (n mod 256), s3) \<and> rep {} s3 a3 \<and> jobs a3 k' = None \<and>
      hd (ready a3) = i' \<and> ready a3 \<noteq> []"
  proof (cases r')
    case Nil
    then show ?thesis using s2 r by auto
  next
    case (Cons h hs)
    obtain s3 a3 where "yields (Suc (length hs)) ev2 s2 = Inr (Resumes (int i') (n mod 256), s3)" "rep {} s3 a3"
        "jobs a3 k' = None" "ready a3 = i' # [] @ h # hs"
      using yields_owed [OF s2(2,3), of h hs i' "[]" k' "n mod 256" ev2] s2(4,5) Cons by auto
    then show ?thesis using r Cons by (intro exI [of _ s3] exI [of _ a3]) simp
  qed
  then obtain s3 a3 where s3: "yields (length r) ev2 s2 = Inr (Resumes i (n mod 256), s3)" "rep {} s3 a3"
      "jobs a3 k' = None" "hd (ready a3) = i'" "ready a3 \<noteq> []" by blast
  show ?thesis
    using s1(1) s2(1) s3 slot_is_rep [OF s3(2), of k' "\<lambda>_. True"] ready_ids_rep [OF s3(2)] r(2,3)
    by (simp add: bnd_apply hd_map)
qed

lemma wut_join_exit_status_witness:
  "\<exists>s'. bnd (wut_join 1) (\<lambda>_. bnd (wut_exit (-1)) (yields 1)) (after [Creates 5, Creates 6]) =
     Inr (Resumes 0 255, s')"
proof -
  let ?s = "after [Creates 5, Creates 6]"
  have "reachable ?s" by (rule reachable_after) code_simp
  moreover have "ready_ids ?s = [0, 1, 2]" "slot_is ?s 1 (\<lambda>th. block_id th < 0)" by code_simp+
  ultimately show ?thesis using wut_join_exit_status [of ?s 0 1 "[2]" "-1"] by auto
qed

section \<open>Calls that go wrong\<close>

text \<open>
  C35. The id that is one too large.  The tests of \<open>wut_join\<close> and \<open>wut_cancel\<close> let the id
  \<open>threads_capacity\<close> pass, so in every reachable state both functions read the element after the last one of the
  array, and a thread that has ended, whether or not one waits or waited for it, cannot be cancelled: its entry is gone
  and \<open>TAILQ_REMOVE\<close> dereferences a null pointer.
\<close>
theorem wut_bad_ids:
  assumes "reachable s"
  shows "perform (Joins (threads_capacity s)) s = Inl Undefined \<and>
    perform (Cancels (threads_capacity s)) s = Inl Undefined \<and>
    (\<forall>i. slot_is s i (\<lambda>th. 0 \<le> state th) \<longrightarrow> perform (Cancels i) s = Inl Fault)"
proof -
  obtain a where a: "rep {} s a" "sched_inv a" using reachable_rep [OF assms] by blast
  have "perform (Cancels i) s = Inl Fault" if slot: "slot_is s i (\<lambda>th. 0 \<le> state th)" for i
  proof -
    have "\<not> slot_is s i (\<lambda>th. state th = -2)"
      using slot by (auto simp: slot_is_def split: option.splits)
    then show ?thesis
      using slot perform_stops [OF a, of "Cancels i" Fault] by (simp add: slot_of_job(1) [OF a(1)])
  qed
  moreover have "\<not> slot_is s (threads_capacity s) P" for P by (simp add: slot_is_def)
  ultimately show ?thesis
    using perform_stops [OF a, of "Joins (threads_capacity s)" Undefined]
      perform_stops [OF a, of "Cancels (threads_capacity s)" Undefined] repD(5) [OF a(1)] by simp
qed

lemma wut_bad_ids_witness:
  "perform (Joins 10) (after [Creates 5, Yield, Exits 3]) = Inl Undefined \<and>
   perform (Cancels 1) (after [Creates 5, Yield, Exits 3]) = Inl Fault"
proof -
  let ?s = "after [Creates 5, Yield, Exits 3]"
  have "reachable ?s" by (rule reachable_after) code_simp
  moreover have "threads_capacity ?s = 10" "slot_is ?s 1 (\<lambda>th. 0 \<le> state th)" by code_simp+
  ultimately show ?thesis using wut_bad_ids [of ?s] by metis
qed

end
