(* ===== verification/Wut_Programs.thy ===== *)
theory Wut_Programs
  imports Wut_Properties
begin

text \<open>
  Whole programs over the thread library of \<open>wut/src/wut.c\<close>: a thread creates any number of threads, joins them one
  after the other, and they exit.  The run is followed on the abstract scheduler, call by call, and
  \<open>perform_step\<close> carries each call to the library.
\<close>

section \<open>Calls in a row\<close>

lemma perform_step:
  assumes "rep {} s a" "sched_inv a" "allowed c s" "spec_call c a = Inr (ev, a')"
  obtains s' where "perform c s = Inr (ev, s')" "rep {} s' a'" "sched_inv a'"
  using call_refines [OF assms(1-3)] spec_call_inv [OF assms] assms(4) that by (auto simp: agrees_def)

lemma runs_Cons: "allowed c s \<Longrightarrow> perform c s = Inr (ev, s1) \<Longrightarrow> runs cs s1 = Inr (es, s') \<Longrightarrow>
    runs (c # cs) s = Inr (ev # es, s')"
  by (simp add: seq_apply bnd_apply)

lemma runs_append: "runs cs s = Inr (es, s1) \<Longrightarrow> runs ds s1 = Inr (fs, s') \<Longrightarrow> runs (cs @ ds) s = Inr (es @ fs, s')"
proof (induction cs arbitrary: s es)
  case (Cons c cs)
  from Cons.prems(1) obtain e s2 es' where "allowed c s" "perform c s = Inr (e, s2)" "runs cs s2 = Inr (es', s1)"
      "es = e # es'"
    by (auto simp: seq_eq_Inr bnd_eq_Inr split: if_splits)
  then show ?case using Cons.IH [of s2 es'] Cons.prems(2) runs_Cons [of c s e s2 "cs @ ds"] by simp
qed simp

text \<open>A thread costs at most four allocations.\<close>

definition costs :: "nat \<Rightarrow> (wut, 'a) prog \<Rightarrow> bool" where
  "costs k m \<longleftrightarrow> (\<forall>s x s'. m s = Inr (x, s') \<longrightarrow> memory s \<le> memory s' + k)"

lemma costsD: "costs k m \<Longrightarrow> m s = Inr (x, s') \<Longrightarrow> memory s \<le> memory s' + k"
  by (auto simp: costs_def)

lemma costs_bnd: "costs j m \<Longrightarrow> (\<And>x. costs k (f x)) \<Longrightarrow> costs (j + k) (bnd m f)"
  unfolding costs_def by (fastforce simp: bnd_eq_Inr)

lemma costs_free: "costs 0 (gets f)" "costs 0 (ret x)" "costs 0 (stop e)" "costs 0 (check e' P)"
    "(\<And>s. memory (g s) = memory s) \<Longrightarrow> costs 0 (upd g)"
  by (auto simp: costs_def check_def upd_def gets_def ret_def stop_def)

lemma costs_allocate: "costs 1 allocate"
  by (auto simp: costs_def allocate_def die_def bnd_eq_Inr seq_eq_Inr split: if_splits)

lemma costs_threads: "costs 0 (get_thread t)" "costs 0 (set_thread t h)" "costs 0 (set_slot i r)" "costs 0 min_available_id"
  by (auto simp: costs_def get_thread_def set_thread_def set_slot_def min_available_id_def seq_eq_Inr bnd_eq_Inr)

lemma costs_insert: "costs 0 (TAILQ_INSERT_TAIL e)"
  by (auto simp: costs_def TAILQ_INSERT_TAIL_def set_entry_def store_at_def seq_eq_Inr bnd_eq_Inr split: loc.splits)

lemma costs_next: "costs j m \<Longrightarrow> (\<And>x. costs (k - j) (f x)) \<Longrightarrow> j \<le> k \<Longrightarrow> costs k (bnd m f)"
  using costs_bnd [of j m "k - j" f] by simp

lemma costs_then: "costs j m \<Longrightarrow> costs (k - j) m' \<Longrightarrow> j \<le> k \<Longrightarrow> costs k (seq m m')"
  unfolding seq_def by (rule costs_next)

lemma costs_branch: "costs k (if b then m else skip)" if "costs k m"
  using that by (auto simp: costs_def)

lemma costs_die: "costs 0 die"
  by (simp add: costs_def die_def bnd_apply)

lemmas costs_rules = costs_next costs_then costs_branch costs_die costs_free costs_allocate costs_threads
  costs_insert

lemma costs_expand: "costs 1 threads_expand"
  unfolding threads_expand_def by (rule costs_rules | simp)+

lemma costs_create_thread: "costs 2 (create_thread r)"
  unfolding create_thread_def new_stack_def by (rule costs_rules | simp)+

lemma costs_create_entry: "costs 1 (create_entry t)"
  unfolding create_entry_def by (rule costs_rules | simp)+

lemma costs_create: "costs 4 (wut_create r)"
  unfolding wut_create_def by (rule costs_rules costs_expand costs_create_thread costs_create_entry | simp)+

section \<open>Creating threads\<close>

text \<open>The array can grow for \<open>n\<close> more threads before its size overflows.\<close>

definition fits :: "sched \<Rightarrow> nat \<Rightarrow> bool" where
  "fits a n \<longleftrightarrow> 2 * int (cap a) < 2 ^ 31 \<and> 4 * (int (made a) + int n) < 2 ^ 31"

lemma create_step:
  assumes rep: "rep {} s a" and inv: "sched_inv a" and mem: "4 * Suc n \<le> memory s" and fits: "fits a (Suc n)"
  obtains i s' a' where "allowed (Creates f) s" "perform (Creates f) s = Inr (Returns (int i), s')" "rep {} s' a'" "sched_inv a'"
    "4 * n \<le> memory s'" "fits a' n" "jobs a i = None" "jobs a' = (jobs a)(i \<mapsto> new_job f)" "ready a' = ready a @ [i]"
proof -
  obtain i a' where new: "spec_create f a = (i, a')" by fastforce
  have ok: "allowed (Creates f) s" using mem fits repD(5) [OF rep] by (simp add: fits_def)
  have spec: "spec_call (Creates f) a = Inr (Returns (int i), a')" using new by simp
  obtain s' where s': "perform (Creates f) s = Inr (Returns (int i), s')" "rep {} s' a'" "sched_inv a'"
    using perform_step [OF rep inv ok spec] .
  then have "wut_create (Some f) s = Inr (int i, s')" by (auto simp: bnd_eq_Inr)
  then have "4 * n \<le> memory s'" using costsD [OF costs_create] mem by fastforce
  moreover have a': "a' = a\<lparr>ready := ready a @ [i], cap := (if cap a \<le> made a then 2 * cap a else cap a),
      made := made a + 1, jobs := (jobs a)(i \<mapsto> new_job f)\<rparr>"
    using new by (auto simp: spec_create_def Let_def)
  moreover have "made a \<le> cap a" using inv by (simp add: sched_inv_def sched_core_def ids_ok_def)
  then have "fits a' n" using fits by (simp add: fits_def a')
  moreover have "jobs a i = None" using spec_create_ok [OF inv new] by auto
  ultimately show thesis using that ok s' by simp
qed

lemma threads_created:
  assumes "rep {} s a" "sched_inv a" "4 * length fs \<le> memory s" "fits a (length fs)"
  shows "\<exists>is s' a'. length is = length fs \<and> distinct is \<and> set is \<inter> dom (jobs a) = {} \<and>
    runs (map Creates fs) s = Inr (map (\<lambda>i. Returns (int i)) is, s') \<and> rep {} s' a' \<and> sched_inv a' \<and>
    ready a' = ready a @ is \<and> jobs a' = (jobs a)(is [\<mapsto>] map new_job fs)"
  using assms
proof (induction fs arbitrary: s a)
  case (Cons f fs)
  obtain i s1 a1 where 1: "allowed (Creates f) s" "perform (Creates f) s = Inr (Returns (int i), s1)" "rep {} s1 a1" "sched_inv a1"
      "4 * length fs \<le> memory s1" "fits a1 (length fs)" "jobs a i = None" "jobs a1 = (jobs a)(i \<mapsto> new_job f)"
      "ready a1 = ready a @ [i]"
    using create_step [OF Cons.prems(1,2), of "length fs" f] Cons.prems(3,4) by auto
  obtain "is" s' a' where 2: "length is = length fs" "distinct is" "set is \<inter> dom (jobs a1) = {}"
      "runs (map Creates fs) s1 = Inr (map (\<lambda>i. Returns (int i)) is, s')" "rep {} s' a'" "sched_inv a'"
      "ready a' = ready a1 @ is" "jobs a' = (jobs a1)(is [\<mapsto>] map new_job fs)"
    using Cons.IH [OF 1(3-6)] by blast
  have "runs (map Creates (f # fs)) s = Inr (map (\<lambda>i. Returns (int i)) (i # is), s')"
    using runs_Cons [OF 1(1,2) 2(4)] by simp
  moreover have "distinct (i # is)" "set (i # is) \<inter> dom (jobs a) = {}" using 1(7,8) 2(2,3) by auto
  ultimately show ?case using 1(8,9) 2
    by (intro exI [of _ "i # is"] exI [of _ s'] exI [of _ a']) simp
qed (auto intro: exI [of _ "[]"])

section \<open>The joined thread and those behind it end\<close>

abbreviation ended_job :: "int \<Rightarrow> job" where
  "ended_job c \<equiv> \<lparr>status = Exited (c mod 256), waiter = None, resume = In_exit\<rparr>"

lemma switch_starts:
  "ready b = k # r \<Longrightarrow> jobs b k = Some (new_job f) \<Longrightarrow> switch b = Inr (Starts (int k) f, b)"
  by (simp add: switch_def)

lemma allowed_job:
  assumes "rep {} s a" "sched_inv a" "jobs a k \<noteq> None"
  shows "allowed (Joins (int k)) s" "k < cap a"
proof -
  show "k < cap a" using assms(2,3) by (auto simp: sched_inv_def sched_core_def ids_ok_def)
  then show "allowed (Joins (int k)) s" using repD(5) [OF assms(1)] by simp
qed

text \<open>The running thread joins the next one, which has not run yet.\<close>

lemma join_step:
  assumes rep: "rep {} s a" and inv: "sched_inv a" and r: "ready a = m # k # r" and k: "jobs a k = Some (new_job f)"
  obtains s' a' j where "allowed (Joins (int k)) s" "perform (Joins (int k)) s = Inr (Starts (int k) f, s')"
    "rep {} s' a'" "sched_inv a'" "ready a' = k # r"
    "jobs a' = (jobs a)(m \<mapsto> j\<lparr>status := Waiting, resume := In_join (int k)\<rparr>, k \<mapsto> (new_job f)\<lparr>waiter := Some m\<rparr>)"
proof -
  have core: "sched_core {m} a" using inv r by (simp add: sched_inv_def)
  note R = ready_okD [OF sched_coreD(1) [OF core]]
  obtain j where j: "jobs a m = Some j" using R(2) [of m] r by auto
  have "k \<noteq> m" using R(1) r by auto
  let ?a = "a\<lparr>ready := k # r, jobs := (jobs a)(m \<mapsto> j\<lparr>status := Waiting, resume := In_join (int k)\<rparr>,
      k \<mapsto> (new_job f)\<lparr>waiter := Some m\<rparr>)\<rparr>"
  have ok: "allowed (Joins (int k)) s" "k < cap a" using allowed_job [OF rep inv, of k] k by simp_all
  have "spec_join k a = Inr (Starts (int k) f, ?a)"
    using r j k \<open>k \<noteq> m\<close> by (simp add: spec_join_def switch_def)
  then have "spec_call (Joins (int k)) a = Inr (Starts (int k) f, ?a)" using ok(2) by (simp add: spec_at_def)
  from perform_step [OF rep inv ok(1) this] show thesis using that [OF ok(1), of _ ?a j] by auto
qed

text \<open>The running thread exits, and the scheduler switches from the state that \<open>finish\<close> leaves.\<close>

lemma exit_step:
  assumes rep: "rep {} s a" and inv: "sched_inv a" and r: "ready a = k # r" and j: "jobs a k = Some j"
    and more: "ready (finish k (c mod 256) In_exit a) \<noteq> []"
  obtains ev s' a' where "perform (Exits c) s = Inr (ev, s')" "rep {} s' a'" "sched_inv a'"
    "switch (finish k (c mod 256) In_exit a) = Inr (ev, a')" "sched_core {} (finish k (c mod 256) In_exit a)"
proof -
  have core: "sched_core {k} a" using inv r by (simp add: sched_inv_def)
  have "status j = Alive" using ready_okD(2) [OF sched_coreD(1) [OF core], of k] r j by simp
  then have core': "sched_core {} (finish k (c mod 256) In_exit a)" using sched_core_finish [OF core j] by simp
  obtain ev a' where sw: "switch (finish k (c mod 256) In_exit a) = Inr (ev, a')"
    using switch_ok [OF core'] more by (cases "switch (finish k (c mod 256) In_exit a)") auto
  then have "spec_call (Exits c) a = Inr (ev, a')" using r by (simp add: spec_exit_def)
  from perform_step [OF rep inv _ this] show thesis using that sw core' by auto
qed

text \<open>
  A thread \<open>m\<close> that is owed a status is behind the threads \<open>ks\<close>, which have not run.  They start and exit one after
  the other, and then \<open>m\<close> gets the status.
\<close>

lemma exits_run:
  assumes "sched_core {} b" "ready b = ks @ [m]" "owed b m k n" "map (jobs b) ks = map (\<lambda>f. Some (new_job f)) fs"
    and "switch b = Inr (ev, a)" "rep {} s a" "sched_inv a" "length cs = length ks"
  shows "\<exists>es s' a'. runs (map Exits cs) s = Inr (es, s') \<and>
    ev # es = map2 (\<lambda>i f. Starts (int i) f) ks fs @ [Resumes (int m) n] \<and> rep {} s' a' \<and> sched_inv a' \<and>
    ready a' = [m] \<and> jobs a' = ((jobs b)(ks [\<mapsto>] map ended_job cs))(k := None)"
  using assms
proof (induction ks arbitrary: b fs ev a s cs)
  case Nil
  then have "ev = Resumes (int m) n" "a = b\<lparr>jobs := (jobs b)(k := None)\<rparr>"
    using switch_owed [OF Nil.prems(3), of "[]"] by simp_all
  then show ?case using Nil by (intro exI [of _ "[]"] exI [of _ s] exI [of _ a]) simp
next
  case (Cons k1 ks)
  obtain f fs' where fs: "fs = f # fs'" "jobs b k1 = Some (new_job f)"
      "map (jobs b) ks = map (\<lambda>f. Some (new_job f)) fs'"
    using Cons.prems(4) by (auto simp: Cons_eq_map_conv)
  obtain c cs' where cs: "cs = c # cs'" "length cs' = length ks" using Cons.prems(8) by (cases cs) auto
  have ev: "ev = Starts (int k1) f" "a = b" using switch_starts [of b k1 _ f] Cons.prems(2,5) fs(2) by auto
  note R = ready_okD [OF sched_coreD(1) [OF Cons.prems(1)]]
  have new: "m \<noteq> k1" "k1 \<notin> set ks" using R(1) Cons.prems(2) by auto
  have "k1 \<noteq> k" using Cons.prems(3) fs(2) by (auto simp: owed_def)
  let ?b = "finish k1 (c mod 256) In_exit b"
  have b: "ready ?b = ks @ [m]" "jobs ?b = (jobs b)(k1 \<mapsto> ended_job c)"
    using Cons.prems(2) fs(2) by (simp_all add: finish_def awaken_def)
  obtain ev1 s1 a1 where 1: "perform (Exits c) s = Inr (ev1, s1)" "rep {} s1 a1" "sched_inv a1"
      "switch ?b = Inr (ev1, a1)" "sched_core {} ?b"
    using exit_step [of s b k1 "ks @ [m]" "new_job f" c] Cons.prems(2,6,7) b fs(2) ev(2) by auto
  have "owed ?b m k n" using Cons.prems(3) new \<open>k1 \<noteq> k\<close> b(2) by (simp add: owed_def)
  moreover have "map (jobs ?b) ks = map (\<lambda>f. Some (new_job f)) fs'" using fs(3) new(2) by (simp add: b(2))
  ultimately obtain es s' a' where 2: "runs (map Exits cs') s1 = Inr (es, s')"
      "ev1 # es = map2 (\<lambda>i f. Starts (int i) f) ks fs' @ [Resumes (int m) n]" "rep {} s' a'" "sched_inv a'"
      "ready a' = [m]" "jobs a' = ((jobs ?b)(ks [\<mapsto>] map ended_job cs'))(k := None)"
    using Cons.IH [OF 1(5) b(1) _ _ 1(4,2,3) cs(2)] by blast
  have "runs (map Exits cs) s = Inr (ev1 # es, s')" using runs_Cons [OF _ 1(1) 2(1)] cs(1) by simp
  moreover have "ev # ev1 # es = map2 (\<lambda>i f. Starts (int i) f) (k1 # ks) fs @ [Resumes (int m) n]"
    using 2(2) ev(1) fs(1) by simp
  moreover have "jobs a' = ((jobs b)(k1 # ks [\<mapsto>] map ended_job cs))(k := None)" using 2(6) cs(1) b(2) by simp
  ultimately show ?case using 2(3-5) by blast
qed

section \<open>Joining threads that have ended\<close>

lemma joins_run:
  assumes "rep {} s a" "sched_inv a" "ready a = [m]" "distinct ks"
    and "map (jobs a) ks = map (\<lambda>c. Some (ended_job c)) cs"
  shows "\<exists>s' a'. runs (map (\<lambda>k. Joins (int k)) ks) s = Inr (map (\<lambda>c. Returns (c mod 256)) cs, s') \<and> rep {} s' a' \<and>
    sched_inv a' \<and> ready a' = [m] \<and> jobs a' = jobs a |` (- set ks)"
  using assms
proof (induction ks arbitrary: s a cs)
  case (Cons k ks)
  obtain c cs' where cs: "cs = c # cs'" "jobs a k = Some (ended_job c)"
      "map (jobs a) ks = map (\<lambda>c. Some (ended_job c)) cs'"
    using Cons.prems(5) by (auto simp: Cons_eq_map_conv)
  have core: "sched_core {m} a" using Cons.prems(2,3) by (simp add: sched_inv_def)
  have "k \<noteq> m" using ready_okD(2) [OF sched_coreD(1) [OF core], of m] Cons.prems(3) cs(2) by auto
  let ?a = "a\<lparr>jobs := (jobs a)(k := None)\<rparr>"
  have ok: "allowed (Joins (int k)) s" "k < cap a" using allowed_job [OF Cons.prems(1,2), of k] cs(2) by simp_all
  have "spec_call (Joins (int k)) a = Inr (Returns (c mod 256), ?a)"
    using ok(2) cs(2) Cons.prems(3) \<open>k \<noteq> m\<close> by (simp add: spec_at_def spec_join_def exited_def exit_code_def)
  from perform_step [OF Cons.prems(1,2) ok(1) this] obtain s1
    where 1: "perform (Joins (int k)) s = Inr (Returns (c mod 256), s1)" "rep {} s1 ?a" "sched_inv ?a" .
  have "map (jobs ?a) ks = map (\<lambda>c. Some (ended_job c)) cs'" using cs(3) Cons.prems(4) by simp
  moreover have "ready ?a = [m]" "distinct ks" using Cons.prems(3,4) by simp_all
  ultimately obtain s' a' where 2: "runs (map (\<lambda>k. Joins (int k)) ks) s1 = Inr (map (\<lambda>c. Returns (c mod 256)) cs', s')"
      "rep {} s' a'" "sched_inv a'" "ready a' = [m]" "jobs a' = jobs ?a |` (- set ks)"
    using Cons.IH [OF 1(2,3)] by blast
  have "jobs a' = jobs a |` (- set (k # ks))" using 2(5) by (auto simp: restrict_map_def)
  moreover have "runs (map (\<lambda>k. Joins (int k)) (k # ks)) s = Inr (map (\<lambda>c. Returns (c mod 256)) cs, s')"
    using runs_Cons [OF ok(1) 1(1) 2(1)] cs(1) by simp
  ultimately show ?case using 2(2-4) by blast
qed (auto simp: restrict_map_def)

section \<open>Fork and join\<close>

lemma upds_last: "(f(k := x, ks [\<mapsto>] vs))(k := y) = (f(ks [\<mapsto>] vs))(k := y)"
  by (rule ext) (auto simp: map_upds_def map_add_def split: option.split)

text \<open>
  From the join on: \<open>m\<close> joins \<open>k\<close>, the threads end, and \<open>m\<close> joins the others.
\<close>

lemma join_and_end:
  assumes "rep {} s a" "sched_inv a" "ready a = m # k # ks" "map (jobs a) (k # ks) = map (\<lambda>f. Some (new_job f)) (f # fs)"
    and "length cs = length ks"
  shows "\<exists>es s' a' j. runs (Joins (int k) # Exits c # map Exits cs) s = Inr (es, s') \<and>
    es = map2 (\<lambda>i f. Starts (int i) f) (k # ks) (f # fs) @ [Resumes (int m) (c mod 256)] \<and> rep {} s' a' \<and> sched_inv a' \<and>
    ready a' = [m] \<and> jobs a' = ((jobs a)(m \<mapsto> j, ks [\<mapsto>] map ended_job cs))(k := None)"
proof -
  have k: "jobs a k = Some (new_job f)" and new: "map (jobs a) ks = map (\<lambda>f. Some (new_job f)) fs"
    using assms(4) by simp_all
  obtain s1 a1 j where 1: "allowed (Joins (int k)) s" "perform (Joins (int k)) s = Inr (Starts (int k) f, s1)"
      "rep {} s1 a1" "sched_inv a1" "ready a1 = k # ks"
      "jobs a1 = (jobs a)(m \<mapsto> j\<lparr>status := Waiting, resume := In_join (int k)\<rparr>, k \<mapsto> (new_job f)\<lparr>waiter := Some m\<rparr>)"
    using join_step [OF assms(1-3) k] .
  have core: "sched_core {m} a" using assms(2,3) by (simp add: sched_inv_def)
  have ne: "m \<noteq> k" "m \<notin> set ks" "k \<notin> set ks" using ready_okD(1) [OF sched_coreD(1) [OF core]] assms(3) by auto
  let ?b = "finish k (c mod 256) In_exit a1"
  let ?j = "j\<lparr>resume := In_join (int k), status := Alive\<rparr>"
  have jobs: "jobs ?b = (jobs a)(m \<mapsto> ?j, k \<mapsto> (ended_job c)\<lparr>waiter := Some m\<rparr>)"
    using 1(6) ne(1) by (simp add: finish_def awaken_def fun_upd_twist)
  have ready: "ready ?b = ks @ [m]" using 1(5,6) ne by (simp add: finish_def awaken_def)
  obtain ev s2 a2 where 2: "perform (Exits c) s1 = Inr (ev, s2)" "rep {} s2 a2" "sched_inv a2"
      "switch ?b = Inr (ev, a2)" "sched_core {} ?b"
    using exit_step [OF 1(3,4,5), of "(new_job f)\<lparr>waiter := Some m\<rparr>" c] 1(6) ready by auto
  have "owed ?b m k (c mod 256)" using ne(1) by (simp add: owed_def jobs)
  moreover have "map (jobs ?b) ks = map (\<lambda>f. Some (new_job f)) fs" using new ne by (simp add: jobs)
  ultimately obtain es s' a' where 3: "runs (map Exits cs) s2 = Inr (es, s')"
      "ev # es = map2 (\<lambda>i f. Starts (int i) f) ks fs @ [Resumes (int m) (c mod 256)]" "rep {} s' a'" "sched_inv a'"
      "ready a' = [m]" "jobs a' = ((jobs ?b)(ks [\<mapsto>] map ended_job cs))(k := None)"
    using exits_run [OF 2(5) ready _ _ 2(4,2,3) assms(5)] by blast
  have "runs (Joins (int k) # Exits c # map Exits cs) s = Inr (Starts (int k) f # ev # es, s')"
    using runs_Cons [OF 1(1,2) runs_Cons [OF _ 2(1) 3(1)]] by simp
  moreover have "jobs a' = ((jobs a)(m \<mapsto> ?j, ks [\<mapsto>] map ended_job cs))(k := None)"
    by (simp only: 3(6) jobs upds_last)
  ultimately show ?thesis using 3(2-5) by auto
qed

lemma map_upds_all: "distinct ks \<Longrightarrow> length ks = length vs \<Longrightarrow> map (f(ks [\<mapsto>] vs)) ks = map Some vs"
proof (induction ks arbitrary: f vs)
  case (Cons k ks)
  then obtain v vs' where vs: "vs = v # vs'" "length ks = length vs'" by (cases vs) auto
  have "map ((f(k \<mapsto> v))(ks [\<mapsto>] vs')) ks = map Some vs'" using Cons vs(2) by simp
  moreover have "((f(k \<mapsto> v))(ks [\<mapsto>] vs')) k = Some v" using Cons.prems(1) by (simp add: map_upds_apply_nontin)
  ultimately show ?case by (simp only: vs(1) map_upds_Cons list.map)
qed simp

lemma join_all:
  assumes a: "rep {} s a" "sched_inv a" "ready a = m # k # ks" and dist: "distinct (k # ks)"
    and new: "map (jobs a) (k # ks) = map (\<lambda>f. Some (new_job f)) (f # fs)" and len: "length cs = length ks"
  shows "\<exists>s' a'. runs ((Joins (int k) # Exits c # map Exits cs) @ map (\<lambda>k. Joins (int k)) ks) s =
      Inr (map2 (\<lambda>i f. Starts (int i) f) (k # ks) (f # fs) @ Resumes (int m) (c mod 256) #
        map (\<lambda>c. Returns (c mod 256)) cs, s') \<and>
    rep {} s' a' \<and> ready a' = [m] \<and> (\<forall>x \<in> set (k # ks). jobs a' x = None)"
proof -
  obtain s2 a2 j where 2: "runs (Joins (int k) # Exits c # map Exits cs) s =
        Inr (map2 (\<lambda>i f. Starts (int i) f) (k # ks) (f # fs) @ [Resumes (int m) (c mod 256)], s2)"
      "rep {} s2 a2" "sched_inv a2" "ready a2 = [m]" "jobs a2 = ((jobs a)(m \<mapsto> j, ks [\<mapsto>] map ended_job cs))(k := None)"
    using join_and_end [OF a new len, of c] by auto
  have "map (jobs a2) ks = map (\<lambda>c. Some (ended_job c)) cs"
    using map_upds_all [of ks "map ended_job cs"] dist len by (simp add: 2(5) comp_def)
  then obtain s3 a3 where 3: "runs (map (\<lambda>k. Joins (int k)) ks) s2 = Inr (map (\<lambda>c. Returns (c mod 256)) cs, s3)"
      "rep {} s3 a3" "ready a3 = [m]" "jobs a3 = jobs a2 |` (- set ks)"
    using joins_run [OF 2(2-4), of ks cs] dist by auto
  then show ?thesis using runs_append [OF 2(1) 3(1)] by (auto simp: 2(5) restrict_map_def simp del: runs.simps)
qed

text \<open>
  C6. Fork and join.  In a reachable state let thread \<open>m\<close> be the only ready one.  It creates any number of threads,
  as far as memory and the size of the array go, and joins them in the order in which it made them, while each
  exits with a code of its own.  Then every call returns: the threads get different ids, they start in the order of their creation,
  each join returns the code of its thread \<open>& 0xFF\<close> (the first when all have ended, the others at once),
  and afterwards \<open>m\<close> is the only ready thread again and all these ids are free.
\<close>
theorem wut_fork_join:
  assumes "reachable s" "ready_ids s = [m]" "fs \<noteq> []" "length cs = length fs" "4 * length fs \<le> memory s"
    and "2 * threads_capacity s < 2 ^ 31" "4 * (threads_count s + int (length fs)) < 2 ^ 31"
  shows "\<exists>ids s'. length ids = length fs \<and> distinct (m # ids) \<and>
    runs (map Creates fs @ Joins (hd ids) # map Exits cs @ map Joins (tl ids)) s =
      Inr (map Returns ids @ map2 Starts ids fs @
        Resumes m (hd cs mod 256) # map (\<lambda>c. Returns (c mod 256)) (tl cs), s') \<and>
    ready_ids s' = [m] \<and> (\<forall>i \<in> set ids. \<not> slot_is s i (\<lambda>th. True) \<and> \<not> slot_is s' i (\<lambda>th. True))"
proof -
  obtain a where a: "rep {} s a" "sched_inv a" using reachable_rep [OF assms(1)] by blast
  obtain i where i: "ready a = [i]" "m = int i" using assms(2) ready_ids_rep [OF a(1)] by auto
  have "fits a (length fs)" using assms(6,7) repD(5,6) [OF a(1)] by (simp add: fits_def)
  from threads_created [OF a assms(5) this] obtain ks s1 a1 where 1: "length ks = length fs" "distinct ks"
      "set ks \<inter> dom (jobs a) = {}" "runs (map Creates fs) s = Inr (map (\<lambda>i. Returns (int i)) ks, s1)"
      "rep {} s1 a1" "sched_inv a1" "ready a1 = ready a @ ks" "jobs a1 = (jobs a)(ks [\<mapsto>] map new_job fs)" by blast
  obtain f fs' c cs' k ks' where split: "fs = f # fs'" "cs = c # cs'" "ks = k # ks'" "length cs' = length ks'"
    using assms(3,4) 1(1) by (cases fs; cases cs; cases ks) auto
  have r: "ready a1 = i # k # ks'" using 1(7) i(1) split(3) by simp
  have "map (jobs a1) (k # ks') = map (\<lambda>f. Some (new_job f)) (f # fs')"
    using 1(1,2,8) map_upds_all [of ks "map new_job fs" "jobs a"] split(1,3) by (simp add: comp_def)
  from join_all [OF 1(5,6) r _ this split(4), of c] obtain s2 a2
    where 2: "runs ((Joins (int k) # map Exits cs) @ map (\<lambda>k. Joins (int k)) ks') s1 =
        Inr (map2 (\<lambda>i f. Starts (int i) f) ks fs @ Resumes m (hd cs mod 256) # map (\<lambda>c. Returns (c mod 256)) (tl cs), s2)"
      "rep {} s2 a2" "ready a2 = [i]" "\<forall>x \<in> set ks. jobs a2 x = None"
    using 1(2) split i(2) by auto
  let ?ids = "map int ks"
  have ids: "hd ?ids = int k" "tl ?ids = map int ks'" using split(3) by simp_all
  have starts: "map2 (\<lambda>i f. Starts (int i) f) ks fs = map2 Starts ?ids fs" by (simp add: zip_map1 split_def comp_def)
  have "runs (map Creates fs @ (Joins (hd ?ids) # map Exits cs) @ map Joins (tl ?ids)) s =
      Inr (map Returns ?ids @ map2 Starts ?ids fs @ Resumes m (hd cs mod 256) # map (\<lambda>c. Returns (c mod 256)) (tl cs), s2)"
    using runs_append [OF 1(4) 2(1)] by (simp add: ids starts comp_def del: runs.simps)
  moreover have "i \<notin> set ks" using ready_okD(1) sched_invE [OF 1(6)] r split(3)
    by (metis distinct.simps(2) sched_coreD(1))
  then have "distinct (m # ?ids)" using 1(2) i(2) by (auto simp: distinct_map)
  moreover have "\<forall>x \<in> set ?ids. \<not> slot_is s x (\<lambda>th. True) \<and> \<not> slot_is s2 x (\<lambda>th. True)"
    using 1(3) 2(4) slot_is_rep [OF a(1), of _ "\<lambda>_. True"] slot_is_rep [OF 2(2), of _ "\<lambda>_. True"] by auto
  moreover have "ready_ids s2 = [m]" using ready_ids_rep [OF 2(2)] 2(3) i(2) by simp
  ultimately show ?thesis using 1(1) by (intro exI [of _ ?ids] exI [of _ s2]) simp
qed

lemma wut_fork_join_witness:
  "\<exists>ids s'. length ids = 3 \<and> runs [Creates 5, Creates 6, Creates 5, Joins (hd ids), Exits 1, Exits (-1), Exits 3,
      Joins (ids ! 1), Joins (ids ! 2)] (after []) =
    Inr (map Returns ids @ [Starts (hd ids) 5, Starts (ids ! 1) 6, Starts (ids ! 2) 5, Resumes 0 1, Returns 255, Returns 3], s')"
proof -
  have "ready_ids (after []) = [0]" "4 * length [5 :: nat, 6, 5] \<le> memory (after [])"
      "2 * threads_capacity (after []) < 2 ^ 31" "4 * (threads_count (after []) + int (length [5 :: nat, 6, 5])) < 2 ^ 31"
    by code_simp+
  moreover have "[5 :: nat, 6, 5] \<noteq> []" "length [1, -1, 3 :: int] = length [5 :: nat, 6, 5]" by simp_all
  ultimately obtain ids s' where ids: "length ids = length [5 :: nat, 6, 5]"
      "runs (map Creates [5, 6, 5] @ Joins (hd ids) # map Exits [1, -1, 3] @ map Joins (tl ids)) (after []) =
        Inr (map Returns ids @ map2 Starts ids [5, 6, 5] @ Resumes 0 (hd [1, -1, 3] mod 256) #
          map (\<lambda>c. Returns (c mod 256)) (tl [1, -1, 3]), s')"
    using wut_fork_join [OF after_nil] by blast
  moreover from ids(1) obtain i j k where "ids = [i, j, k]" by (auto simp: length_Suc_conv)
  ultimately show ?thesis by (intro exI [of _ ids] exI [of _ s']) (simp del: runs.simps)
qed

end
