(* ===== verification/Wut_Cancel.thy ===== *)
theory Wut_Cancel
  imports Wut_Properties
begin

text \<open>
  What becomes of the ready queue when a thread that waits in \<open>wut_join\<close> is cancelled.  The entry of
  such a thread is not in the queue, but its links are still those it had as the head of the queue:
  \<open>TAILQ_REMOVE\<close> writes them back.  The queue operations are followed here on the links themselves,
  since the state after the call represents no scheduler.
\<close>

section \<open>What is not in the queue stays\<close>

lemma seg_links:
  "seg es l xs p l' None \<Longrightarrow> e \<in> set xs \<Longrightarrow>
   (\<forall>n. tqe_next (es ! e) = Some n \<longrightarrow> n \<in> set xs) \<and>
   (\<forall>q. tqe_prev (es ! e) = NextOf q \<longrightarrow> l = NextOf q \<or> q \<in> set xs)"
proof (induction xs arbitrary: l p)
  case (Cons x xs)
  then have rest: "seg es (NextOf x) xs (tqe_next (es ! x)) l' None" by simp
  show ?case
  proof (cases "e = x")
    case True
    then show ?thesis using Cons.prems(1) rest by (cases xs) auto
  next
    case False
    then show ?thesis using Cons.IH [OF rest] Cons.prems(2) by auto
  qed
qed simp

lemma set_entry_frame: "set_entry e f s = Inr ((), s') \<Longrightarrow> y \<noteq> e \<Longrightarrow> ents s' ! y = ents s ! y"
  by (auto simp: set_entry_def seq_apply split: if_splits)

lemma store_at_frame: "store_at l p s = Inr ((), s') \<Longrightarrow> l \<noteq> NextOf y \<Longrightarrow> ents s' ! y = ents s ! y"
  by (auto simp: store_at_def intro: set_entry_frame split: loc.splits)

lemma TAILQ_REMOVE_frame:
  assumes q: "queued s xs" "e \<in> set xs" and run: "TAILQ_REMOVE e s = Inr ((), s')" and y: "y \<notin> set xs"
  shows "ents s' ! y = ents s ! y"
proof -
  have "(\<forall>n. tqe_next (ents s ! e) = Some n \<longrightarrow> n \<in> set xs) \<and>
      (\<forall>q. tqe_prev (ents s ! e) = NextOf q \<longrightarrow> q \<in> set xs)"
    using seg_links [of "ents s" Head xs "tqh_first s" "tqh_last s" e] q by (simp add: queued_def)
  then have next_out: "tqe_next (ents s ! e) \<noteq> Some y" and prev_out: "tqe_prev (ents s ! e) \<noteq> NextOf y"
    using y by auto
  obtain s1 where "ents s1 ! y = ents s ! y"
      and s': "store_at (tqe_prev (ents s ! e)) (tqe_next (ents s ! e)) s1 = Inr ((), s')"
  proof (cases "tqe_next (ents s ! e)")
    case None
    then have "store_at (tqe_prev (ents s ! e)) None (s\<lparr>tqh_last := tqe_prev (ents s ! e)\<rparr>) = Inr ((), s')"
      using run by (simp add: TAILQ_REMOVE_def get_entry_def bnd_apply seq_apply split: if_splits)
    then show ?thesis using None by (intro that [of "s\<lparr>tqh_last := tqe_prev (ents s ! e)\<rparr>"]) simp_all
  next
    case (Some n)
    then obtain s1 where s1: "set_entry n (\<lambda>z. z\<lparr>tqe_prev := tqe_prev (ents s ! e)\<rparr>) s = Inr ((), s1)"
        "store_at (tqe_prev (ents s ! e)) (Some n) s1 = Inr ((), s')"
      using run by (cases "set_entry n (\<lambda>z. z\<lparr>tqe_prev := tqe_prev (ents s ! e)\<rparr>) s")
        (auto simp: TAILQ_REMOVE_def get_entry_def bnd_apply seq_apply split: if_splits)
    then show ?thesis using Some next_out set_entry_frame [OF s1(1)] by (intro that [of s1]) simp_all
  qed
  then show ?thesis using store_at_frame [OF s' prev_out] by simp
qed

lemma TAILQ_INSERT_TAIL_frame:
  assumes q: "queued s xs" and run: "TAILQ_INSERT_TAIL e s = Inr ((), s')" and y: "y \<notin> set xs" "y \<noteq> e"
  shows "ents s' ! y = ents s ! y"
proof -
  have "tqh_last s = Head \<or> (\<exists>l \<in> set xs. tqh_last s = NextOf l)"
  proof (cases "xs = []")
    case True
    then show ?thesis using q by (simp add: queued_def)
  next
    case False
    then show ?thesis
      using q seg_last [of "ents s" Head xs "tqh_first s" "tqh_last s" None] by (simp add: queued_def)
  qed
  then have last_out: "tqh_last s \<noteq> NextOf y" using y(1) by auto
  obtain s1 s2 where s1: "set_entry e (\<lambda>x. x\<lparr>tqe_next := None, tqe_prev := tqh_last s\<rparr>) s = Inr ((), s1)"
      and s2: "store_at (tqh_last s) (Some e) s1 = Inr ((), s2)" and s': "s' = s2\<lparr>tqh_last := NextOf e\<rparr>"
    using run by (auto simp: TAILQ_INSERT_TAIL_def bnd_apply seq_eq_Inr)
  show ?thesis using set_entry_frame [OF s1 y(2)] store_at_frame [OF s2 last_out] s' by simp
qed

lemma reap_frame:
  assumes "reap i s = Inr (n, s')"
  shows "tcbs s' = tcbs s \<and> ents s' = ents s \<and> (\<forall>k. threads' s' ! k = threads' s ! k \<or> threads' s' ! k = None)"
proof -
  obtain s1 where "thread_at i s = Inr (s1, s)" and "set_slot i None s = Inr ((), s')"
    using assms
    by (auto simp: reap_def get_thread_def thread_at_def get_slot_def deref_def bnd_eq_Inr seq_eq_Inr
        split: option.splits if_splits)
  then show ?thesis by (auto simp: set_slot_def seq_apply nth_list_update split: if_splits)
qed

lemma jump_frame:
  assumes "jump t s = Inr (ev, s')"
  shows "tcbs s' = tcbs s \<and> ents s' = ents s \<and> (\<forall>k. threads' s' ! k = threads' s ! k \<or> threads' s' ! k = None)"
proof -
  have th: "get_thread t s = Inr (tcbs s ! t, s)"
    using assms by (auto simp: jump_def get_thread_def bnd_apply seq_apply split: if_splits)
  show ?thesis
  proof (cases "ctx_ptr (tcbs s ! t)")
    case (In_join k)
    then obtain n where "reap k s = Inr (n, s')" using assms th by (auto simp: jump_def bnd_apply split: sum.splits)
    then show ?thesis by (rule reap_frame)
  qed (use assms th in \<open>auto simp: jump_def bnd_apply\<close>)
qed

text \<open>The queue of a state that represents a scheduler does not have the entry of a job that is not ready.\<close>

lemma rep_not_queued:
  assumes rep: "rep D s a" and q: "queued s xs" "map (\<lambda>e. val (ents s ! e)) xs = map (addr_of s) (ready a)"
    and i: "i \<notin> set (ready a)" "i < cap a" "threads' s ! i = Some u" and x: "val (ents s ! x) = u"
  shows "x \<notin> set xs"
proof
  assume "x \<in> set xs"
  then have "u \<in> set (map (\<lambda>e. val (ents s ! e)) xs)" using x by auto
  then obtain m where m: "m \<in> set (ready a)" "addr_of s m = u" unfolding q(2) by auto
  then obtain j where "jobs a m = Some j" using repD(10) [OF rep] by auto
  then obtain t where "m < cap a" "threads' s ! m = Some t" using rep_job [OF rep] by metis
  then have "m = i" using rep_slot_inj [OF rep _ i(2) _ i(3)] m(2) by simp
  then show False using m(1) i(1) by simp
qed

section \<open>While others yield\<close>

text \<open>
  Thread \<open>i\<close>, at \<open>u\<close> with the record \<open>th\<close>, whose entry \<open>x\<close> is out of the queue and has the links \<open>en\<close>;
  \<open>vs\<close> are the threads of the entries.
\<close>

definition parked :: "nat \<Rightarrow> nat \<Rightarrow> thread \<Rightarrow> nat \<Rightarrow> entry \<Rightarrow> nat list \<Rightarrow> wut \<Rightarrow> bool" where
  "parked i u th x en vs s \<longleftrightarrow> threads' s ! i = Some u \<and> tcbs s ! u = th \<and>
     x < length (ents s) \<and> ents s ! x = en \<and> val en = u \<and> map val (ents s) = vs"

lemma head_thread_cases: "head_thread s = Inl Fault \<or> (\<exists>t. head_thread s = Inr (t, s))"
  by (simp add: head_thread_def head_entry_def TAILQ_FIRST_def deref_def get_entry_def bnd_apply seq_apply split: option.split)

lemma parked_yield:
  assumes rep: "rep {} s a" and inv: "sched_inv a" and j: "jobs a i = Some j" "status j = Waiting"
    and park: "parked i u th x en vs s" and y: "wut_yield s = Inr (ev, s')"
  shows "\<exists>a'. rep {} s' a' \<and> sched_inv a' \<and> ready a' = rotate1 (ready a) \<and> jobs a' i = Some j \<and>
    parked i u th x en vs s' \<and> (\<forall>k. threads' s' ! k = threads' s ! k \<or> threads' s' ! k = None)"
proof -
  obtain h r where r: "ready a = h # r" and core: "sched_core {h} a" and d: "distinct (h # r)" "h \<notin> set r"
    using sched_invE [OF inv] by metis
  have i: "i \<notin> set (ready a)" "i \<noteq> h" using ready_okD(2) [OF sched_coreD(1) [OF core], of i] j r by auto
  have icap: "i < cap a" using repD(7) [OF rep, of i] j(1) by (auto split: if_splits)
  obtain a' where a': "spec_yield a = Inr (ev, a')" "rep {} s' a'" "sched_inv a'" "ready a' = rotate1 (ready a)"
    using yield_step [OF rep inv] y by (metis Inr_inject Pair_inject)
  obtain e t where h: "head_entry s = Inr (e, s)" "e < length (ents s)" "val (ents s ! e) = t"
      "h < cap a" "threads' s ! h = Some t" "t < length (tcbs s)" "jobs a h = Some (job_of (tcbs s ! t))"
      "tid (tcbs s ! t) = int h" "-2 \<le> state (tcbs s ! t)" "-1 \<le> block_id (tcbs s ! t)"
      "tqe_next (ents s ! e) = None \<longleftrightarrow> r = []"
    using rep_head [OF rep r] by metis
  show ?thesis
  proof (cases "r = []")
    case True
    then have "s' = s" using h(1,2,11) y by (simp add: wut_yield_def bnd_apply get_entry_eq)
    moreover have "a' = a" using a'(1) r True by (simp add: spec_yield_def)
    ultimately show ?thesis using a' j park by blast
  next
    case False
    obtain xs where q: "queued s xs" "map (\<lambda>e. val (ents s ! e)) xs = map (addr_of s) (ready a)"
      using repD(1) [OF rep] by (auto simp: queue_ok_def)
    have px: "threads' s ! i = Some u" "tcbs s ! u = th" "x < length (ents s)" "ents s ! x = en" "val (ents s ! x) = u"
      using park by (simp_all add: parked_def)
    have out: "x \<notin> set xs" by (rule rep_not_queued [OF rep q i(1) icap px(1,5)])
    have ex: "e \<in> set xs" "x \<noteq> e"
    proof -
      have "TAILQ_FIRST s = Inr (Some e, s)"
        using h(1) by (auto simp: head_entry_def deref_def TAILQ_FIRST_def bnd_apply split: option.splits)
      then show "e \<in> set xs" using ready.head [OF q(1)] by (cases xs) auto
      then show "x \<noteq> e" using out by auto
    qed
    obtain s1 where s1: "TAILQ_REMOVE e s = Inr ((), s1)" "queued s1 (remove1 e xs)" "unchanged s1 = unchanged s"
      using ready.remove [OF q(1) ex(1)] by blast
    note M1 = wut_more [OF s1(3)]
    have new: "e < length (ents s1)" "e \<notin> set (remove1 e xs)" using h(2) M1(8) ready.members [OF q(1)] by simp_all
    obtain s2 where s2: "TAILQ_INSERT_TAIL e s1 = Inr ((), s2)" "unchanged s2 = unchanged s1"
      using ready.insert_tail [OF s1(2) new] by blast
    note M2 = wut_more [OF s2(2)]
    have keep: "ents s2 ! x = en"
      using TAILQ_REMOVE_frame [OF q(1) ex(1) s1(1) out] TAILQ_INSERT_TAIL_frame [OF s1(2) s2(1) _ ex(2)]
        out px(4) by (metis notin_set_remove1)
    have body: "wut_yield s = bnd head_thread (\<lambda>new.
        seq (set_thread t (\<lambda>th. th\<lparr>ctx_ptr := In_yield\<rparr>)) (jump new)) s2"
      using False h(1-3,11) s1(1) s2(1)
      by (auto simp: wut_yield_def bnd_apply [of head_entry] bnd_apply [of "get_entry x" for x] seq_apply [of "TAILQ_REMOVE e"]
          seq_apply [of "TAILQ_INSERT_TAIL e"] get_entry_eq)
    obtain t2 where "head_thread s2 = Inr (t2, s2)"
      using head_thread_cases [of s2] y unfolding body by (auto simp: bnd_apply)
    then have run: "jump t2 (s2\<lparr>tcbs := (tcbs s2)[t := (tcbs s2 ! t)\<lparr>ctx_ptr := In_yield\<rparr>]\<rparr>) = Inr (ev, s')"
      using y h(6) M1(1) M2(1) unfolding body by (simp add: bnd_apply seq_apply set_thread_eq)
    note J = jump_frame [OF run]
    have "u \<noteq> t" using rep_slot_inj [OF rep icap h(4) px(1)] h(5) i(2) by auto
    have "jobs a' i = Some j"
    proof -
      let ?a = "a\<lparr>ready := r @ [h], jobs := (jobs a)(h \<mapsto> (job_of (tcbs s ! t))\<lparr>resume := In_yield\<rparr>)\<rparr>"
      have "switch ?a = Inr (ev, a')" "sched_core {} ?a"
        using spec_yield_switch [OF inv r False h(7)] a'(1) by simp_all
      then show ?thesis
        using switch_keeps(2) [of ?a "hd r" "tl r @ [h]" ev a' i j] False i(2) j by simp
    qed
    moreover from this have "threads' s' ! i \<noteq> None" using repD(7) [OF a'(2), of i] by (auto split: if_splits)
    moreover have slots: "\<forall>k. threads' s' ! k = threads' s ! k \<or> threads' s' ! k = None"
      using J by (simp add: M1(2) M2(2))
    ultimately have "jobs a' i = Some j" "threads' s' ! i = Some u" using px(1) by metis+
    moreover have "tcbs s' ! u = th" using J \<open>u \<noteq> t\<close> px(2) by (simp add: M1(1) M2(1))
    moreover have "ents s' = ents s2" using J by simp
    ultimately have "jobs a' i = Some j" "parked i u th x en vs s'"
      using keep px(3) park by (auto simp: parked_def M1(7,8) M2(7,8))
    then show ?thesis using a'(2-4) slots by blast
  qed
qed

lemma parked_yields:
  assumes "rep {} s a" "sched_inv a" "jobs a i = Some j" "status j = Waiting" "parked i u th x en vs s"
  shows "\<exists>ev' s' a'. yields m ev s = Inr (ev', s') \<and> rep {} s' a' \<and> sched_inv a' \<and>
    ready a' = rotate m (ready a) \<and> jobs a' i = Some j \<and> parked i u th x en vs s' \<and>
    (\<forall>k. threads' s' ! k = threads' s ! k \<or> threads' s' ! k = None)"
  using assms
proof (induction m arbitrary: s a ev)
  case (Suc m)
  obtain ev1 s1 where s1: "wut_yield s = Inr (ev1, s1)" using yield_step [OF Suc.prems(1,2)] by metis
  obtain a1 where a1: "rep {} s1 a1" "sched_inv a1" "ready a1 = rotate1 (ready a)" "jobs a1 i = Some j"
      "parked i u th x en vs s1" "\<forall>k. threads' s1 ! k = threads' s ! k \<or> threads' s1 ! k = None"
    using parked_yield [OF Suc.prems s1] by blast
  obtain ev' s' a' where 2: "yields m ev1 s1 = Inr (ev', s')" "rep {} s' a'" "sched_inv a'"
      "ready a' = rotate m (ready a1)" "jobs a' i = Some j" "parked i u th x en vs s'"
      "\<forall>k. threads' s' ! k = threads' s1 ! k \<or> threads' s' ! k = None"
    using Suc.IH [OF a1(1,2,4) Suc.prems(4) a1(5), of ev1] by blast
  have "\<forall>k. threads' s' ! k = threads' s ! k \<or> threads' s' ! k = None" using a1(6) 2(7) by metis
  moreover have "yields (Suc m) ev s = Inr (ev', s')" using s1 2(1) by (simp add: bnd_apply)
  moreover have "ready a' = rotate (Suc m) (ready a)" using 2(4) a1(3) by (simp add: rotate1_rotate_swap)
  ultimately show ?case using 2(2,3,5,6) by blast
qed auto

section \<open>The join leaves the entry with its links\<close>

lemma join_parks:
  assumes rep: "rep {} s a" and inv: "sched_inv a" and r: "ready a = i # k # q" and w: "jobs a i = Some j" "waiter j = None"
    and l: "jobs a t = Some l" "t \<noteq> i" "waiter l = None" "\<not> exited l"
  shows "\<exists>ev s' a' j' u th x y. wut_join (int t) s = Inr (ev, s') \<and> rep {} s' a' \<and> sched_inv a' \<and> ready a' = k # q \<and>
    jobs a' i = Some j' \<and> status j' = Waiting \<and> y < length (ents s') \<and> val (ents s' ! y) = addr_of s' k \<and>
    state th < 0 \<and> block_id th < 0 \<and> ent th = Some x \<and>
    parked i u th x \<lparr>val = u, tqe_next = Some y, tqe_prev = Head\<rparr> (map val (ents s')) s'"
proof -
  have core: "sched_core {i} a" using inv r by (simp add: sched_inv_def)
  note R = ready_okD [OF sched_coreD(1) [OF core]]
  have d: "i \<notin> set (k # q)" "distinct (i # k # q)" using R(1) r by auto
  have alive: "status j = Alive" using R(2) [of i] r w(1) by auto
  obtain e t0 u3 s3 where h: "head_entry s = Inr (e, s)" "e < length (ents s)" "val (ents s ! e) = t0"
      "i < cap a" "threads' s ! i = Some t0" "t0 < length (tcbs s)" "j = job_of (tcbs s ! t0)"
      "u3 \<noteq> t0" "u3 < length (tcbs s)" "TAILQ_REMOVE e (joined t0 u3 i s) = Inr ((), s3)"
      "unchanged s3 = unchanged (joined t0 u3 i s)" "rep {} s3 (joining i t j l (k # q) a)"
      "wut_join (int t) s = bnd head_thread (\<lambda>new.
       seq (set_thread t0 (\<lambda>th. th\<lparr>ctx_ptr := In_join (int t)\<rparr>)) (jump new)) s3"
    using join_live_prefix [OF rep r w(1) alive d l] by metis
  let ?j = "j\<lparr>status := Waiting, resume := In_join (int t)\<rparr>"
  let ?a = "a\<lparr>ready := k # q, jobs := (jobs a)(i \<mapsto> ?j, t \<mapsto> l\<lparr>waiter := Some i\<rparr>)\<rparr>"
  have core': "sched_core {} ?a" by (rule sched_core_wait [OF core r w(1) l])
  have "spec_join t a = switch ?a" using l r w(1) by (simp add: spec_join_def)
  moreover obtain ev a' where a': "switch ?a = Inr (ev, a')" "sched_inv a'" "ready a' = k # q"
    using switch_ok [OF core'] by (cases "switch ?a") auto
  moreover have "t < cap a" using repD(7) [OF rep, of t] l(1) by (auto split: if_splits)
  ultimately obtain s' where s': "wut_join (int t) s = Inr (ev, s')" "rep {} s' a'"
    using wut_join_refines [OF rep inv, of t] by (auto simp: agrees_def)
  have job: "jobs a' i = Some ?j"
    using switch_keeps(2) [OF core' _ a'(1), of k q i ?j] l(2) by simp
  obtain xs where xs: "queued s xs" "map (\<lambda>e. val (ents s ! e)) xs = map (addr_of s) (ready a)"
    using repD(1) [OF rep] by (auto simp: queue_ok_def)
  have "TAILQ_FIRST s = Inr (Some e, s)"
    using h(1) by (auto simp: head_entry_def deref_def TAILQ_FIRST_def bnd_apply split: option.splits)
  then obtain y zs where y: "xs = e # y # zs" "val (ents s ! y) = addr_of s k"
    using xs(2) ready.head [OF xs(1)] r by (cases xs; cases "tl xs") auto
  have en: "tqe_prev (ents s ! e) = Head" "tqe_next (ents s ! e) = Some y" "y < length (ents s)" "y \<noteq> e"
    using xs(1) y(1) by (auto simp: queued_def)
  have s3: "ents s3 = (ents s)[y := (ents s ! y)\<lparr>tqe_prev := Head\<rparr>]"
    using h(2,10) en by (simp add: TAILQ_REMOVE_def get_entry_def set_entry_def store_at_def bnd_apply seq_apply) auto
  note M = wut_more [OF h(11)]
  obtain n where "head_thread s3 = Inr (n, s3)"
    using head_thread_cases [of s3] s'(1) h(13) by (auto simp: bnd_apply)
  then have run: "jump n (s3\<lparr>tcbs := (tcbs s3)[t0 := (tcbs s3 ! t0)\<lparr>ctx_ptr := In_join (int t)\<rparr>]\<rparr>) = Inr (ev, s')"
    using s'(1) h(6,13) M(1) by (simp add: bnd_apply seq_apply set_thread_eq)
  note J = jump_frame [OF run]
  have live: "threads' s' ! m = threads' s ! m" if "jobs a' m \<noteq> None" for m
    using that J M(2) repD(7) [OF s'(2), of m] by (auto split: if_splits)
  let ?th = "(tcbs s ! t0)\<lparr>state := -2, ctx_ptr := In_join (int t)\<rparr>"
  have "jobs a' k \<noteq> None" using repD(10) [OF s'(2)] a'(3) by auto
  then have "val (ents s' ! y) = addr_of s' k" using live [of k] J s3 y(2) en(3) by simp
  moreover have "ent (tcbs s ! t0) = Some e"
  proof -
    have "ent_ok s t0" "state (tcbs s ! t0) < 0" using repD(9) [OF rep h(4,5)] alive h(7) by auto
    then obtain e' where "ent (tcbs s ! t0) = Some e'" "e' < length (ents s)" "val (ents s ! e') = t0"
      by (auto simp: ent_ok_def split: option.splits)
    then show ?thesis using entry_unique [OF repD(2) [OF rep] h(2), of e'] h(3) by simp
  qed
  moreover have "ents s ! e = \<lparr>val = t0, tqe_next = Some y, tqe_prev = Head\<rparr>" using en h(3) by (cases "ents s ! e") simp
  then have "parked i t0 ?th e \<lparr>val = t0, tqe_next = Some y, tqe_prev = Head\<rparr> (map val (ents s')) s'"
    using live [of i] job J s3 en(4) h(2,5,6,8) M(1) by (simp add: parked_def)
  moreover have "block_id ?th < 0" using h(7) w(2) by simp
  moreover have "y < length (ents s')" using J s3 en(3) by simp
  ultimately show ?thesis using s' a'(2,3) job
    by (intro exI [of _ ev] exI [of _ s'] exI [of _ a'] exI [of _ ?j] exI [of _ t0] exI [of _ ?th] exI [of _ e] exI [of _ y]) simp
qed

section \<open>The cancel writes the links back\<close>

text \<open>The loop of \<open>wut_cancel\<close> changes at most the blocked thread of a thread in the queue.\<close>

lemma unblock_frame:
  assumes "seg (ents s) l xs p l' None" "length xs \<le> n" "\<forall>e \<in> set xs. val (ents s ! e) < length (tcbs s)"
  shows "\<exists>T. unblock n p k s = Inr ((), s\<lparr>tcbs := T\<rparr>) \<and> length T = length (tcbs s) \<and>
    (\<forall>t. tid (T ! t) = tid (tcbs s ! t)) \<and> (\<forall>t. t \<notin> (\<lambda>e. val (ents s ! e)) ` set xs \<longrightarrow> T ! t = tcbs s ! t)"
  using assms
proof (induction xs arbitrary: n l p)
  case Nil
  then show ?case by (cases n) (auto intro: exI [of _ "tcbs s"])
next
  case (Cons e xs)
  then obtain m where m: "n = Suc m" "p = Some e" "e < length (ents s)" "val (ents s ! e) < length (tcbs s)"
    by (cases n) auto
  let ?v = "val (ents s ! e)"
  show ?case
  proof (cases "block_id (tcbs s ! ?v) = k")
    case True
    then show ?thesis using m
      by (intro exI [of _ "(tcbs s)[?v := (tcbs s ! ?v)\<lparr>block_id := -1\<rparr>]"])
        (auto simp: bnd_apply get_entry_eq get_thread_eq set_thread_eq nth_list_update)
  next
    case False
    obtain T where "unblock m (tqe_next (ents s ! e)) k s = Inr ((), s\<lparr>tcbs := T\<rparr>)" "length T = length (tcbs s)"
        "\<forall>t. tid (T ! t) = tid (tcbs s ! t)" "\<forall>t. t \<notin> (\<lambda>e. val (ents s ! e)) ` set xs \<longrightarrow> T ! t = tcbs s ! t"
      using Cons.IH [of "NextOf e" "tqe_next (ents s ! e)" m] Cons.prems m(1) by auto
    then show ?thesis using False m by (intro exI [of _ T]) (auto simp: bnd_apply get_entry_eq get_thread_eq)
  qed
qed

lemma cancel_parked:
  assumes rep: "rep {} s a" and inv: "sched_inv a" and r: "ready a = A @ k # B"
    and j: "jobs a i = Some j" "status j = Waiting"
    and park: "parked i u th x \<lparr>val = u, tqe_next = Some y, tqe_prev = Head\<rparr> vs s"
    and th: "block_id th < 0" "ent th = Some x"
    and y: "y < length (ents s)" "val (ents s ! y) = addr_of s k"
  shows "\<exists>s'. wut_cancel (int i) s = Inr (0, s') \<and> ready_ids s' = map int (k # B) \<and> wut_id s' = Inr (int k, s')"
proof -
  obtain h r' where hr: "ready a = h # r'" and core: "sched_core {h} a"
    using sched_invE [OF inv] by metis
  have i: "i \<notin> set (ready a)" "i \<noteq> h" using ready_okD(2) [OF sched_coreD(1) [OF core], of i] j hr by auto
  have icap: "i < cap a" using repD(7) [OF rep, of i] j(1) by (auto split: if_splits)
  have px: "threads' s ! i = Some u" "tcbs s ! u = th" "x < length (ents s)"
      "ents s ! x = \<lparr>val = u, tqe_next = Some y, tqe_prev = Head\<rparr>"
    using park by (simp_all add: parked_def)
  have ulen: "u < length (tcbs s)" using repD(8) [OF rep icap px(1)] by (simp add: thread_ok_def)
  obtain xs where q: "queued s xs" "map (\<lambda>e. val (ents s ! e)) xs = map (addr_of s) (ready a)"
    using repD(1) [OF rep] by (auto simp: queue_ok_def)
  note mem = ready.members [OF q(1)]
  obtain X z Z where X: "xs = X @ z # Z" "map (\<lambda>e. val (ents s ! e)) Z = map (addr_of s) B" "val (ents s ! z) = addr_of s k"
    using q(2) unfolding r by (auto simp: map_eq_append_conv map_eq_Cons_conv append_eq_map_conv)
  have zy: "z = y" using entry_unique [OF repD(2) [OF rep], of z y] mem X(1,3) y by simp
  have vlt: "\<forall>e \<in> set xs. val (ents s ! e) < length (tcbs s)" using mem repD(3) [OF rep] by auto
  then obtain T where T: "unblock (length (ents s)) (tqh_first s) (int i) s = Inr ((), s\<lparr>tcbs := T\<rparr>)"
      "length T = length (tcbs s)" "\<forall>t. tid (T ! t) = tid (tcbs s ! t)"
      "\<forall>t. t \<notin> (\<lambda>e. val (ents s ! e)) ` set xs \<longrightarrow> T ! t = tcbs s ! t"
    using unblock_frame [of s Head xs "tqh_first s" "tqh_last s" "length (ents s)" "int i"] q(1) queue_length [OF q(1)]
    by (auto simp: queued_def)
  have "u \<notin> (\<lambda>e. val (ents s ! e)) ` set xs"
    using rep_not_queued [OF rep q i(1) icap px(1)] by blast
  then have Tu: "T ! u = th" using T(4) px(2) by simp
  let ?ents = "(ents s)[y := (ents s ! y)\<lparr>tqe_prev := Head\<rparr>]"
  let ?th = "th\<lparr>state := 128, uc_link := False, ent := None\<rparr>"
  let ?s = "s\<lparr>ents := ?ents, tqh_first := Some y, tcbs := T[u := ?th]\<rparr>"
  have remove: "TAILQ_REMOVE x (s\<lparr>tcbs := T\<rparr>) = Inr ((), s\<lparr>tcbs := T, ents := ?ents, tqh_first := Some y\<rparr>)"
    using px(3,4) y(1) by (simp add: TAILQ_REMOVE_def get_entry_def set_entry_def store_at_def bnd_apply seq_apply)
  have "refuses (int i) (\<lambda>_. False) s = Inr (False, s)"
    using cancel_refused [OF rep hr icap] j(1) i(2) by simp
  moreover have "thread_at (int i) (s\<lparr>tcbs := T\<rparr>) = Inr (u, s\<lparr>tcbs := T\<rparr>)"
    using px(1) icap repD(4) [OF rep] by (simp add: thread_at_eq)
  ultimately have run: "wut_cancel (int i) s = Inr (0, ?s)"
    using T(1,2) remove ulen Tu th
    by (simp add: wut_cancel_def bnd_apply [of "refuses i P" for i P] bnd_apply [of TAILQ_FIRST] TAILQ_FIRST_def
        bnd_apply [of "gets f" for f] seq_apply [of "unblock n p i" for n p i] bnd_apply [of "thread_at i" for i]
        bnd_apply [of "get_thread x" for x] bnd_apply [of "deref x" for x] seq_apply [of "TAILQ_REMOVE e" for e]
        seq_apply [of skip] seq_apply [of "set_thread x f" for x f] seq_apply [of "delete_thread x" for x]
        get_thread_eq set_thread_eq deref_def delete_thread_def)
  have ids: "tid (tcbs ?s ! addr_of s m) = int m" "addr_of s m < length (tcbs s)" if "m \<in> set (ready a)" for m
  proof -
    have "jobs a m \<noteq> None" using that repD(10) [OF rep] by auto
    then obtain t where t: "threads' s ! m = Some t" "t < length (tcbs s)" "tid (tcbs s ! t) = int m"
      using rep_job [OF rep, of m] by (metis not_None_eq)
    show "addr_of s m < length (tcbs s)" using t(1,2) by simp
    show "tid (tcbs ?s ! addr_of s m) = int m" using t T(2,3) Tu by (cases "addr_of s m = u") (auto simp: nth_list_update)
  qed
  have y_out: "y \<notin> set Z" using mem X(1) zy by auto
  have "seg (ents s) (NextOf y) Z (tqe_next (ents s ! y)) (tqh_last s) None"
    using q(1) X(1) zy by (auto simp: queued_def seg_append)
  moreover have "?ents ! e = ents s ! e" if "e \<in> set Z" for e using that y_out by (cases "e = y") auto
  ultimately have "seg ?ents (NextOf y) Z (tqe_next (ents s ! y)) (tqh_last s) None"
    by (subst seg_cong [of _ "ents s"]) auto
  then have seg: "seg (ents ?s) Head (y # Z) (Some y) (tqh_last s) None" using y(1) by simp
  have vals: "val (?ents ! e) = val (ents s ! e)" for e using y(1) by (auto simp: nth_list_update)
  have "length (y # Z) \<le> length (ents ?s)" using queue_length [OF q(1)] X(1) by simp
  then have "ready_ids ?s = map (\<lambda>e. tid (tcbs ?s ! val (ents ?s ! e))) (y # Z)"
    using follow_seg [OF seg] by (simp add: ready_ids_def)
  also have "\<dots> = map (\<lambda>t. tid (tcbs ?s ! t)) (map (\<lambda>e. val (ents s ! e)) (y # Z))" by (simp add: vals)
  also have "map (\<lambda>e. val (ents s ! e)) (y # Z) = map (addr_of s) (k # B)" using X(2) y(2) by simp
  also have "map (\<lambda>t. tid (tcbs ?s ! t)) (map (addr_of s) (k # B)) = map int (k # B)"
    unfolding map_map by (rule map_cong [OF refl]) (use ids(1) r in auto)
  finally have "ready_ids ?s = map int (k # B)" .
  moreover have "wut_id ?s = Inr (int k, ?s)"
    using ids [of k] r y T(2)
    by (simp add: wut_id_def head_thread_def head_entry_def TAILQ_FIRST_def deref_def bnd_apply get_entry_eq get_thread_eq)
  ultimately show ?thesis using run by blast
qed

section \<open>The property\<close>

text \<open>
  C36. Cancelling a thread that waits in \<open>wut_join\<close>.  In a reachable state let thread \<open>i\<close> run, for which nobody
  waits, with the other ready threads \<open>q\<close> behind it, at least one.  If \<open>i\<close> joins another thread that has
  neither ended nor is waited for, and then \<open>m\<close> yields follow, the thread in place \<open>m\<close> of \<open>q\<close> (modulo its length) runs.
  If that thread cancels \<open>i\<close>, the call returns 0, but it sets the head of the ready queue to the thread that
  was behind \<open>i\<close> when \<open>i\<close> called \<open>wut_join\<close>: that id is what \<open>wut_id\<close> returns from then on.  Nothing is lost only
  when this thread is the one that runs, \<open>m\<close> being a multiple of the length of \<open>q\<close>; otherwise
  the running thread and all up to the end of \<open>q\<close> are no longer in the queue.
\<close>
theorem wut_cancel_waiting_thread:
  assumes "reachable s" "ready_ids s = i # q" "q \<noteq> []" "slot_is s i (\<lambda>th. block_id th < 0)"
    and "slot_is s t (\<lambda>th. state th < 0 \<and> block_id th < 0)" "t \<noteq> i"
  shows "\<exists>s1 ev s'. bnd (wut_join t) (yields m) s = Inr (ev, s1) \<and>
    ready_ids s1 = rotate m q \<and> wut_id s1 = Inr (q ! (m mod length q), s1) \<and>
    wut_cancel i s1 = Inr (0, s') \<and> wut_id s' = Inr (hd q, s') \<and>
    ready_ids s' = (if m mod length q = 0 then q else take (m mod length q) q)"
proof -
  obtain a where a: "rep {} s a" "sched_inv a" using reachable_rep [OF assms(1)] by blast
  obtain i' k q' where r: "ready a = i' # k # q'" "i = int i'" "q = map int (k # q')"
    using assms(2,3) ready_ids_rep [OF a(1)] by (auto simp: Cons_eq_map_conv neq_Nil_conv)
  obtain j where j: "jobs a i' = Some j" "waiter j = None"
    using assms(4) slot_of_job(3) [OF a(1), of i] r(2) by auto
  obtain t' l where l: "t = int t'" "jobs a t' = Some l" "t' \<noteq> i'" "waiter l = None" "\<not> exited l"
    using assms(5,6) slot_of_job(2) [OF a(1), of t] r(2) by auto
  obtain ev1 s1 a1 j1 u th x y where 1: "wut_join t s = Inr (ev1, s1)" "rep {} s1 a1" "sched_inv a1" "ready a1 = k # q'"
      "jobs a1 i' = Some j1" "status j1 = Waiting" "y < length (ents s1)" "val (ents s1 ! y) = addr_of s1 k"
      "state th < 0" "block_id th < 0" "ent th = Some x"
      "parked i' u th x \<lparr>val = u, tqe_next = Some y, tqe_prev = Head\<rparr> (map val (ents s1)) s1"
    using join_parks [OF a r(1) j l(2-5)] l(1) by blast
  obtain ev2 s2 a2 where 2: "yields m ev1 s1 = Inr (ev2, s2)" "rep {} s2 a2" "sched_inv a2" "ready a2 = rotate m (k # q')"
      "jobs a2 i' = Some j1" "parked i' u th x \<lparr>val = u, tqe_next = Some y, tqe_prev = Head\<rparr> (map val (ents s1)) s2"
      "\<forall>k. threads' s2 ! k = threads' s1 ! k \<or> threads' s2 ! k = None"
    using parked_yields [OF 1(2,3,5,6,12), of m ev1] 1(4) by metis
  let ?n = "m mod length (k # q')"
  obtain A B where AB: "rotate m (k # q') = A @ k # B" "k # B = (if ?n = 0 then k # q' else take ?n (k # q'))"
  proof (cases "?n = 0")
    case True
    then show thesis using that [of "[]" q'] by (simp add: rotate_drop_take)
  next
    case False
    then obtain n where n: "?n = Suc n" by (meson not0_implies_Suc)
    then have "rotate m (k # q') = drop n q' @ k # take n q'" by (simp only: rotate_drop_take) simp
    then show thesis using that [of "drop n q'" "take n q'"] n by simp
  qed
  have "k \<in> set (ready a2)" by (simp add: 2(4))
  then have "jobs a2 k \<noteq> None" using repD(10) [OF 2(2)] by auto
  then have "threads' s2 ! k \<noteq> None" using repD(7) [OF 2(2), of k] by (simp split: if_splits)
  then have same: "threads' s2 ! k = threads' s1 ! k" using spec [OF 2(7), of k] by (elim disjE) simp_all
  have vals: "map val (ents s2) = map val (ents s1)" using 2(6) by (simp add: parked_def)
  from arg_cong [OF this, of length] have len: "length (ents s2) = length (ents s1)" by simp
  from arg_cong [OF vals, of "\<lambda>l. l ! y"] have "val (ents s2 ! y) = val (ents s1 ! y)" using 1(7) len by simp
  then have y: "y < length (ents s2)" "val (ents s2 ! y) = addr_of s2 k" using 1(7,8) len same by simp_all
  obtain s' where s': "wut_cancel (int i') s2 = Inr (0, s')" "ready_ids s' = map int (k # B)" "wut_id s' = Inr (int k, s')"
    using cancel_parked [OF 2(2,3) _ 2(5) 1(6) 2(6) 1(10,11) y, of A B] 2(4) AB(1) by auto
  have ids: "ready_ids s2 = rotate m q" using ready_ids_rep [OF 2(2)] unfolding 2(4) r(3) rotate_map .
  obtain h r' where h: "ready a2 = h # r'" using sched_invE [OF 2(3)] by metis
  have "int h = hd (rotate m q)" using ids ready_ids_rep [OF 2(2)] h by (metis list.sel(1) list.simps(9))
  then have "wut_id s2 = Inr (q ! (m mod length q), s2)"
    using wut_id_eq [OF 2(2) h] hd_rotate_conv_nth [OF assms(3), of m] by simp
  moreover have "ready_ids s' = (if m mod length q = 0 then q else take (m mod length q) q)"
    unfolding s'(2) AB(2) r(3) by (simp only: length_map if_distrib [of "map int"] take_map)
  moreover have "wut_id s' = Inr (hd q, s')" using s'(3) r(3) by simp
  moreover have "bnd (wut_join t) (yields m) s = Inr (ev2, s2)" using 1(1) 2(1) by (simp add: bnd_apply)
  ultimately show ?thesis using s'(1) r(2) ids by blast
qed

lemma wut_cancel_waiting_thread_witness:
  "\<exists>s1 ev s'. bnd (wut_join 2) (yields 1) (after [Creates 5, Creates 6, Yield]) = Inr (ev, s1) \<and>
     wut_id s1 = Inr (0, s1) \<and> wut_cancel 1 s1 = Inr (0, s') \<and> ready_ids s' = [2]"
proof -
  let ?s = "after [Creates 5, Creates 6, Yield]"
  have "reachable ?s" by (rule reachable_after) code_simp
  moreover have "ready_ids ?s = [1, 2, 0]" "slot_is ?s 1 (\<lambda>th. block_id th < 0)"
      "slot_is ?s 2 (\<lambda>th. state th < 0 \<and> block_id th < 0)" by code_simp+
  ultimately show ?thesis using wut_cancel_waiting_thread [of ?s 1 "[2, 0]" 2 1] by auto
qed

end
