(* ===== verification/Ssp_Processes.thy ===== *)
theory Ssp_Processes
  imports Prelude "HOL-Library.AList" "HOL-Library.Char_ord"
begin

text \<open>
  The subprocess library \<open>ssp/src/ssp.c\<close>: its table of processes and all its functions.

  What the operating system keeps for the process is part of the state: its open descriptors, its
  children that have not been waited for (with the status word of those that have ended), and how a child
  that still runs will end (\<open>fate\<close>), which is what a \<open>waitpid\<close> that blocks waits for.  The result of
  \<open>fork\<close> is an argument of \<open>ssp_create\<close>.  \<open>memory\<close> is the number of allocations that will succeed.
\<close>

section \<open>Numbers as text\<close>

fun decimal :: "nat \<Rightarrow> string" where
  "decimal n = (if n < 10 then [char_of (48 + n)] else decimal (n div 10) @ [char_of (48 + n mod 10)])"

declare decimal.simps [simp del]

definition show_int :: "int \<Rightarrow> string" where
  "show_int i = (if i < 0 then CHR ''-'' # decimal (nat (- i)) else decimal (nat i))"

text \<open>\<open>%ns\<close> and \<open>%-ns\<close>\<close>

definition pad_left :: "nat \<Rightarrow> string \<Rightarrow> string" where
  "pad_left n s = replicate (n - length s) CHR '' '' @ s"

definition pad_right :: "nat \<Rightarrow> string \<Rightarrow> string" where
  "pad_right n s = s @ replicate (n - length s) CHR '' ''"

definition digit_of :: "char \<Rightarrow> int" where
  "digit_of c = int (of_char c) - 48"

definition atoi :: "string \<Rightarrow> int" where
  "atoi s = foldl (\<lambda>n c. 10 * n + digit_of c) 0 (takeWhile (\<lambda>c. 0 \<le> digit_of c \<and> digit_of c \<le> 9) s)"

section \<open>The state\<close>

record SSP_Process =
  pid :: int
  name :: "string option"
  status :: int

record ssp =
  processes :: "SSP_Process list"
  processes_size :: int
  ssp_id :: int
  kids :: "(int \<times> u32 option) list"
  fate :: "int \<Rightarrow> u32 option"
  signals :: "(int \<times> int) list"
  fds :: "(int \<times> nat) list"
  fd_limit :: int
  exec_errno :: int
  subreaper :: bool
  memory :: nat
  errno :: int
  printed :: "string list"
  messages :: "string list"

text \<open>A message on standard error, by \<open>perror\<close> or by \<open>fprintf(stderr, ...)\<close>.\<close>

definition perror :: "string \<Rightarrow> (ssp, unit) prog" where
  "perror msg = upd (\<lambda>s. s\<lparr>messages := messages s @ [msg]\<rparr>)"

text \<open>\<open>int err = errno; perror(msg); exit(err);\<close>\<close>

definition die_with :: "string \<Rightarrow> (ssp, 'a) prog" where
  "die_with msg = bnd (gets errno) (\<lambda>err. seq (perror msg) (stop (Exit err)))"

definition error_check :: "int \<Rightarrow> string \<Rightarrow> (ssp, unit) prog" where
  "error_check v msg = (if v < 0 then die_with msg else skip)"

definition fail :: "int \<Rightarrow> (ssp, int) prog" where
  "fail e = seq (upd (\<lambda>s. s\<lparr>errno := e\<rparr>)) (ret (-1))"

section \<open>System calls\<close>

text \<open>\<open>waitpid(p, &status, WNOHANG)\<close>: the result, and the status word when the result is positive.\<close>

definition matches :: "int \<Rightarrow> int \<times> u32 option \<Rightarrow> bool" where
  "matches p c \<longleftrightarrow> p = -1 \<or> fst c = p"

definition waitpid_nohang :: "int \<Rightarrow> (ssp, int \<times> u32) prog" where
  "waitpid_nohang p =
     bnd (gets (\<lambda>s. filter (matches p) (kids s))) (\<lambda>cs.
     if cs = [] then bnd (fail 10) (\<lambda>r. ret (r, 0))
     else case find (\<lambda>c. snd c \<noteq> None) cs of
       Some (q, Some st) \<Rightarrow> seq (upd (\<lambda>s. s\<lparr>kids := remove1 (q, Some st) (kids s)\<rparr>)) (ret (q, st))
     | _ \<Rightarrow> ret (0, 0))"

text \<open>\<open>waitpid(p, &status, 0)\<close> for one child: it may have to wait for its end.\<close>

definition waitpid :: "int \<Rightarrow> (ssp, int \<times> u32) prog" where
  "waitpid p =
     bnd (gets (\<lambda>s. map_of (kids s) p)) (\<lambda>c. case c of
       None \<Rightarrow> bnd (fail 10) (\<lambda>r. ret (r, 0))
     | Some e \<Rightarrow>
         bnd (gets (\<lambda>s. case e of Some st \<Rightarrow> Some st | None \<Rightarrow> fate s p)) (\<lambda>e'. case e' of
           None \<Rightarrow> stop Blocked
         | Some st \<Rightarrow> seq (upd (\<lambda>s. s\<lparr>kids := remove1 (p, e) (kids s)\<rparr>)) (ret (p, st))))"

text \<open>\<open>kill(p, signum)\<close> for one process: \<open>ESRCH\<close> when it has been waited for, \<open>EINVAL\<close> for no signal.\<close>

definition kill :: "int \<Rightarrow> int \<Rightarrow> (ssp, int) prog" where
  "kill p signum =
     bnd (gets (\<lambda>s. map_of (kids s) p)) (\<lambda>c.
     if c = None then fail 3
     else if signum < 0 \<or> 64 < signum then fail 22
     else seq (upd (\<lambda>s. s\<lparr>signals := signals s @ [(p, signum)]\<rparr>)) (ret 0))"

definition dup2 :: "int \<Rightarrow> int \<Rightarrow> (ssp, int) prog" where
  "dup2 old new =
     bnd (gets (\<lambda>s. (map_of (fds s) old, fd_limit s))) (\<lambda>(f, limit). case f of
       None \<Rightarrow> fail 9
     | Some f \<Rightarrow>
         if new < 0 \<or> limit \<le> new then fail 9
         else seq (upd (\<lambda>s. s\<lparr>fds := AList.update new f (fds s)\<rparr>)) (ret new))"

definition close_fd :: "int \<Rightarrow> (ssp, int) prog" where
  "close_fd fd =
     bnd (gets (\<lambda>s. map_of (fds s) fd)) (\<lambda>f.
     if f = None then fail 9 else seq (upd (\<lambda>s. s\<lparr>fds := AList.delete fd (fds s)\<rparr>)) (ret 0))"

text \<open>\<open>open\<close> takes the least free descriptor.  \<open>file\<close> is what is opened.\<close>

definition open_file :: "nat \<Rightarrow> (ssp, int) prog" where
  "open_file file =
     bnd (gets (\<lambda>s. case first_index (\<lambda>i. map_of (fds s) (int i) = None) [0..<nat (fd_limit s)] of
       None \<Rightarrow> -1 | Some i \<Rightarrow> int i)) (\<lambda>fd.
     if fd < 0 then fail 24 else seq (upd (\<lambda>s. s\<lparr>fds := (fd, file) # fds s\<rparr>)) (ret fd))"

text \<open>The entries of \<open>/proc/<pid>/fd\<close>: two directories and one link for each open descriptor.\<close>

datatype d_type = DT_DIR | DT_LNK

definition fd_entries :: "ssp \<Rightarrow> (string \<times> d_type) list" where
  "fd_entries s = [(''.'', DT_DIR), (''..'', DT_DIR)] @ map (\<lambda>(fd, _). (show_int fd, DT_LNK)) (fds s)"

section \<open>The table\<close>

definition get_proc :: "int \<Rightarrow> (ssp, SSP_Process) prog" where
  "get_proc i = seq (check Undefined (\<lambda>s. 0 \<le> i \<and> i < int (length (processes s)))) (gets (\<lambda>s. processes s ! nat i))"

definition set_proc :: "int \<Rightarrow> (SSP_Process \<Rightarrow> SSP_Process) \<Rightarrow> (ssp, unit) prog" where
  "set_proc i f = seq (check Undefined (\<lambda>s. 0 \<le> i \<and> i < int (length (processes s))))
     (upd (\<lambda>s. s\<lparr>processes := (processes s)[nat i := f (processes s ! nat i)]\<rparr>))"

definition ssp_set_pid :: "int \<Rightarrow> int \<Rightarrow> (ssp, unit) prog" where
  "ssp_set_pid i p = set_proc i (\<lambda>x. x\<lparr>pid := p\<rparr>)"

definition ssp_set_stat :: "int \<Rightarrow> int \<Rightarrow> (ssp, unit) prog" where
  "ssp_set_stat i stat = set_proc i (\<lambda>x. x\<lparr>status := stat\<rparr>)"

definition ssp_set_name :: "int \<Rightarrow> string option \<Rightarrow> (ssp, unit) prog" where
  "ssp_set_name i n = set_proc i (\<lambda>x. x\<lparr>name := n\<rparr>)"

definition ssp_proc_add :: "int \<Rightarrow> int \<Rightarrow> string option \<Rightarrow> int \<Rightarrow> (ssp, unit) prog" where
  "ssp_proc_add i p n stat = seq (ssp_set_pid i p) (seq (ssp_set_name i n) (ssp_set_stat i stat))"

definition ssp_proc_init :: "int \<Rightarrow> (ssp, unit) prog" where
  "ssp_proc_init i = seq (ssp_set_pid i (-1)) (seq (ssp_set_name i None) (ssp_set_stat i 0))"

text \<open>New memory is not initialised; \<open>garbage\<close> is what a new element holds before \<open>ssp_proc_init\<close>.\<close>

definition garbage :: SSP_Process where
  "garbage = \<lparr>pid = 7, name = None, status = 7\<rparr>"

definition alloc_table :: "string \<Rightarrow> (ssp, unit) prog" where
  "alloc_table msg =
     bnd (gets memory) (\<lambda>n.
     if n = 0 then seq (upd (\<lambda>s. s\<lparr>errno := 12\<rparr>)) (die_with msg)
     else upd (\<lambda>s. s\<lparr>memory := n - 1, processes :=
       take (nat (processes_size s)) (processes s) @
       replicate (nat (processes_size s) - length (processes s)) garbage\<rparr>))"

text \<open>Doubling the size overflows an \<open>int\<close> from \<open>2 ^ 30\<close> on.\<close>

definition ssp_expand :: "(ssp, int) prog" where
  "ssp_expand =
     bnd (gets processes_size) (\<lambda>n.
     seq (check Undefined (\<lambda>_. 2 * n < 2 ^ 31))
    (seq (upd (\<lambda>s. s\<lparr>processes_size := 2 * n\<rparr>))
    (seq (alloc_table ''realloc'')
    (seq (for_each (\<lambda>i. ssp_proc_init (int i)) [nat n..<nat (2 * n)])
         (ret n)))))"

definition ssp_init :: "(ssp, unit) prog" where
  "ssp_init =
     seq (upd (\<lambda>s. s\<lparr>processes_size := 100, processes := []\<rparr>))
    (seq (alloc_table ''malloc'')
    (seq (for_each (\<lambda>i. ssp_proc_init (int i)) [0..<100])
         (upd (\<lambda>s. s\<lparr>subreaper := True\<rparr>))))"

section \<open>New processes\<close>

definition set_fds :: "int \<Rightarrow> int \<Rightarrow> int \<Rightarrow> (ssp, unit) prog" where
  "set_fds fd0 fd1 fd2 =
     seq (bnd (dup2 fd0 0) (\<lambda>r. error_check r ''dup2''))
    (seq (bnd (dup2 fd1 1) (\<lambda>r. error_check r ''dup2''))
         (bnd (dup2 fd2 2) (\<lambda>r. error_check r ''dup2'')))"

primrec close_entries :: "int \<Rightarrow> (string \<times> d_type) list \<Rightarrow> (ssp, unit) prog" where
  "close_entries dir_fd [] = skip"
| "close_entries dir_fd (e # es) =
     seq (if snd e = DT_LNK then
            let fd = atoi (fst e) in
              if 2 < fd \<and> fd \<noteq> dir_fd then bnd (close_fd fd) (\<lambda>r. error_check r ''close'') else skip
          else skip)
         (close_entries dir_fd es)"

definition close_fds :: "nat \<Rightarrow> (ssp, unit) prog" where
  "close_fds dir =
     bnd (open_file dir) (\<lambda>dir_fd.
     seq (if dir_fd < 0 then seq (upd (\<lambda>s. s\<lparr>errno := 9\<rparr>)) (die_with ''fd open dir'') else skip)
    (bnd (gets fd_entries) (\<lambda>es.
     seq (close_entries dir_fd es)
         (bnd (close_fd dir_fd) (\<lambda>r. error_check r ''close fd dir'')))))"

datatype created =
    Parent int            \<comment> \<open>\<open>ssp_create\<close> returns this id\<close>
  | Becomes "string list" \<comment> \<open>the child runs the program\<close>

text \<open>\<open>strdup\<close>, whose failure is not tested.\<close>

definition strdup :: "string \<Rightarrow> (ssp, string option) prog" where
  "strdup x = bnd (gets memory) (\<lambda>n.
     if n = 0 then ret None else seq (upd (\<lambda>s. s\<lparr>memory := n - 1\<rparr>)) (ret (Some x)))"

definition next_id :: "(ssp, unit) prog" where
  "next_id =
     seq (upd (\<lambda>s. s\<lparr>ssp_id := ssp_id s + 1\<rparr>))
    (bnd (gets (\<lambda>s. processes_size s \<le> ssp_id s)) (\<lambda>full.
     if full then bnd ssp_expand (\<lambda>i. upd (\<lambda>s. s\<lparr>ssp_id := i\<rparr>)) else skip))"

text \<open>
  \<open>ssp_create\<close>, with the result \<open>r\<close> of \<open>fork\<close>: negative (with \<open>EAGAIN\<close>), 0 in the child, and the number of
  the new child in the parent.  \<open>dir\<close> is the directory \<open>/proc/<pid>/fd\<close> of the child.
\<close>

definition fork_result :: "int \<Rightarrow> (ssp, int) prog" where
  "fork_result r =
     (if r < 0 then fail 11
      else if r = 0 then ret 0
      else seq (upd (\<lambda>s. s\<lparr>kids := kids s @ [(r, None)]\<rparr>)) (ret r))"

definition ssp_create :: "nat \<Rightarrow> int \<Rightarrow> string list \<Rightarrow> int \<Rightarrow> int \<Rightarrow> int \<Rightarrow> (ssp, created) prog" where
  "ssp_create dir r argv fd0 fd1 fd2 =
     bnd (fork_result r) (\<lambda>p.
     seq (error_check p ''fork'')
    (if p = 0 then
       seq (set_fds fd0 fd1 fd2)
      (seq (close_fds dir)
      (seq (check Fault (\<lambda>_. argv \<noteq> []))
      (bnd (gets exec_errno) (\<lambda>e.
       if e = 0 then ret (Becomes argv)
       else seq (upd (\<lambda>s. s\<lparr>errno := e\<rparr>)) (die_with ''execvp'')))))
     else
       seq next_id
      (seq (check Fault (\<lambda>_. argv \<noteq> []))
      (bnd (strdup (hd argv)) (\<lambda>n.
       seq (bnd (gets ssp_id) (\<lambda>i. ssp_proc_add i p n (-1)))
           (bnd (gets ssp_id) (\<lambda>i. ret (Parent i))))))))"

section \<open>Status\<close>

definition WIFEXITED :: "u32 \<Rightarrow> bool" where
  "WIFEXITED st \<longleftrightarrow> st AND 0x7f = 0"

definition WEXITSTATUS :: "u32 \<Rightarrow> int" where
  "WEXITSTATUS st = uint (drop_bit 8 (st AND 0xff00))"

definition WTERMSIG :: "u32 \<Rightarrow> int" where
  "WTERMSIG st = uint (st AND 0x7f)"

text \<open>\<open>((signed char) ((status & 0x7f) + 1) >> 1) > 0\<close>\<close>

definition WIFSIGNALED :: "u32 \<Rightarrow> bool" where
  "WIFSIGNALED st \<longleftrightarrow> 0 < sint (ucast ((st AND 0x7f) + 1) :: u8) div 2"

definition ssp_exit :: "int \<Rightarrow> u32 \<Rightarrow> (ssp, unit) prog" where
  "ssp_exit i st =
     (if WIFEXITED st then ssp_set_stat i (WEXITSTATUS st)
      else if WIFSIGNALED st then ssp_set_stat i (WTERMSIG st + 128)
      else skip)"

definition ssp_check_exit :: "int \<Rightarrow> (ssp, unit) prog" where
  "ssp_check_exit i =
     bnd (get_proc i) (\<lambda>x.
     bnd (waitpid_nohang (pid x)) (\<lambda>(result, st).
     seq (if result < 0 then perror ''check exit'' else skip)
         (if 0 < result then ssp_exit i st else skip)))"

definition ssp_get_status :: "int \<Rightarrow> (ssp, int) prog" where
  "ssp_get_status i = seq (ssp_check_exit i) (bnd (get_proc i) (\<lambda>x. ret (status x)))"

section \<open>Signals\<close>

definition ssp_send_signal :: "int \<Rightarrow> int \<Rightarrow> (ssp, unit) prog" where
  "ssp_send_signal i signum =
     bnd (gets (\<lambda>s. ssp_id s < 0 \<or> processes_size s \<le> i)) (\<lambda>bad.
     if bad then perror ''Invalid ssp_id''
     else
       bnd (gets ssp_id) (\<lambda>k.
       bnd (get_proc k) (\<lambda>x.
       if 0 \<le> pid x then bnd (kill (pid x) signum) (\<lambda>r. error_check r ''send_signal'') else skip)))"

section \<open>Waiting\<close>

definition wait_one :: "int \<Rightarrow> (ssp, unit) prog" where
  "wait_one i =
     bnd (get_proc i) (\<lambda>x.
     if pid x = -1 then skip
     else bnd (waitpid (pid x)) (\<lambda>(result, st). if result = pid x then ssp_exit i st else skip))"

definition check_one :: "int \<Rightarrow> (ssp, unit) prog" where
  "check_one i =
     bnd (get_proc i) (\<lambda>x.
     if pid x \<noteq> -1 \<and> (status x < 0 \<or> 255 < status x)
     then seq (perror (''Process '' @ show_int (pid x) @ '' has an invalid status: '' @ show_int (status x))) (stop (Exit 1))
     else skip)"

definition ssp_wait :: "(ssp, unit) prog" where
  "ssp_wait =
     seq (bnd (gets processes_size) (\<lambda>n. for_each (\<lambda>i. wait_one (int i)) [0..<nat n]))
         (bnd (gets processes_size) (\<lambda>n. for_each (\<lambda>i. check_one (int i)) [0..<nat n]))"

section \<open>Printing\<close>

definition max_of :: "int \<Rightarrow> int \<Rightarrow> int" where
  "max_of a b = (if b < a then a else b)"

primrec longest_from :: "int \<Rightarrow> nat list \<Rightarrow> (ssp, int) prog" where
  "longest_from max_len [] = ret max_len"
| "longest_from max_len (i # is) =
     bnd (get_proc (int i)) (\<lambda>x.
     if 0 \<le> pid x then
       (case name x of None \<Rightarrow> stop Fault | Some n \<Rightarrow> longest_from (max_of max_len (int (length n))) is)
     else longest_from max_len is)"

definition longest_proc_name :: "(ssp, int) prog" where
  "longest_proc_name = bnd (gets processes_size) (\<lambda>n. longest_from (int (length ''CMD'')) [0..<nat n])"

definition print_line :: "string \<Rightarrow> (ssp, unit) prog" where
  "print_line x = upd (\<lambda>s. s\<lparr>printed := printed s @ [x]\<rparr>)"

definition print_header :: "int \<Rightarrow> (ssp, unit) prog" where
  "print_header max_len =
     print_line (pad_left 7 ''PID'' @ '' '' @ pad_right (nat max_len) ''CMD'' @ '' '' @ ''STATUS'')"

definition ssp_proc_print :: "int \<Rightarrow> int \<Rightarrow> (ssp, unit) prog" where
  "ssp_proc_print i max_len =
     bnd (get_proc i) (\<lambda>x. case name x of
       None \<Rightarrow> stop Undefined
     | Some n \<Rightarrow> print_line (pad_left 7 (show_int (pid x)) @ '' '' @ pad_right (nat max_len) n @ '' '' @ show_int (status x)))"

text \<open>The search for \<open>child_pid\<close> in the table.\<close>

definition known :: "int \<Rightarrow> ssp \<Rightarrow> bool" where
  "known p s \<longleftrightarrow> first_index (\<lambda>x. pid x = p) (take (nat (processes_size s)) (processes s)) \<noteq> None"

text \<open>
  The endless loop of \<open>ssp_unknown\<close>.  Each round but the last takes a child away, so as many rounds as
  there are children, and one more, are enough.
\<close>

fun unknown_from :: "nat \<Rightarrow> (ssp, unit) prog" where
  "unknown_from 0 = stop Blocked"
| "unknown_from (Suc fuel) =
     bnd (waitpid_nohang (-1)) (\<lambda>(child_pid, child_status).
     bnd (gets errno) (\<lambda>err.
     if child_pid < 0 \<and> err = 10 then skip
     else seq (if child_pid < 0 then perror ''wait child'' else skip)
       (if child_pid = 0 then skip
        else seq (if 0 < child_pid then
              bnd (gets (known child_pid)) (\<lambda>found.
              if \<not> found then
                seq next_id
               (bnd (gets ssp_id) (\<lambda>i.
                seq (ssp_proc_add i child_pid (Some ''<unknown>'') 0)
                    (ssp_exit i child_status)))
              else skip)
            else skip)
          (unknown_from fuel))))"

definition ssp_unknown :: "(ssp, unit) prog" where
  "ssp_unknown = bnd (gets (\<lambda>s. length (kids s))) (\<lambda>n. unknown_from (Suc n))"

definition print_one :: "int \<Rightarrow> int \<Rightarrow> (ssp, unit) prog" where
  "print_one max_len i =
     bnd (get_proc i) (\<lambda>x. if 0 \<le> pid x then seq (ssp_check_exit i) (ssp_proc_print i max_len) else skip)"

definition ssp_print :: "(ssp, unit) prog" where
  "ssp_print =
     seq ssp_unknown
    (bnd longest_proc_name (\<lambda>max_len.
     seq (print_header max_len)
         (bnd (gets processes_size) (\<lambda>n. for_each (\<lambda>i. print_one max_len (int i)) [0..<nat n]))))"

end
