(* ===== verification/Ssp_Table.thy ===== *)
theory Ssp_Table
  imports Ssp_Processes
begin

text \<open>
  The table of processes of \<open>ssp/src/ssp.c\<close>: its invariant, and what the operations that
  add a process, decode a status and collect children do to it.
\<close>

section \<open>The invariant\<close>

text \<open>
  The table has the size the library believes, the slots up to \<open>ssp_id\<close> are used and the others are not,
  every status is -1 (unknown yet) or a byte, and no two children have the same number.
\<close>

definition table_ok :: "ssp \<Rightarrow> bool" where
  "table_ok s \<longleftrightarrow> processes_size s = int (length (processes s)) \<and> processes s \<noteq> [] \<and> -1 \<le> ssp_id s \<and> ssp_id s < processes_size s \<and>
     (\<forall>i < length (processes s). (if int i \<le> ssp_id s then 0 < pid (processes s ! i) else pid (processes s ! i) = -1) \<and>
        -1 \<le> status (processes s ! i) \<and> status (processes s ! i) \<le> 255) \<and>
     distinct (map fst (kids s)) \<and> (\<forall>c \<in> set (kids s). 0 < fst c)"

lemma table_okD:
  assumes "table_ok s"
  shows "processes_size s = int (length (processes s))" "-1 \<le> ssp_id s" "ssp_id s < processes_size s"
    and "i < length (processes s) \<Longrightarrow> int i \<le> ssp_id s \<Longrightarrow> 0 < pid (processes s ! i)"
    and "i < length (processes s) \<Longrightarrow> ssp_id s < int i \<Longrightarrow> pid (processes s ! i) = -1"
    and "i < length (processes s) \<Longrightarrow> -1 \<le> status (processes s ! i) \<and> status (processes s ! i) \<le> 255"
    and "0 < processes_size s" "distinct (map fst (kids s))" "c \<in> set (kids s) \<Longrightarrow> 0 < fst c"
  using assms by (auto simp: table_ok_def split: if_splits)

text \<open>The fields the invariant does not read.\<close>

lemma table_ok_fields [simp]:
  "table_ok (signals_update f1 s) = table_ok s" "table_ok (fds_update f2 s) = table_ok s"
  "table_ok (errno_update f3 s) = table_ok s" "table_ok (memory_update f4 s) = table_ok s"
  "table_ok (printed_update f5 s) = table_ok s" "table_ok (messages_update f6 s) = table_ok s"
  "table_ok (subreaper_update f7 s) = table_ok s" "table_ok (fate_update f8 s) = table_ok s"
  by (simp_all add: table_ok_def)

section \<open>Slots\<close>

lemma get_proc_eq [simp]: "i < length (processes s) \<Longrightarrow> get_proc (int i) s = Inr (processes s ! i, s)"
  by (simp add: get_proc_def seq_apply)

lemma set_proc_eq [simp]:
  "i < length (processes s) \<Longrightarrow>
     set_proc (int i) f s = Inr ((), s\<lparr>processes := (processes s)[i := f (processes s ! i)]\<rparr>)"
  by (simp add: set_proc_def seq_apply)

lemma perror_eq [simp]: "perror msg s = Inr ((), s\<lparr>messages := messages s @ [msg]\<rparr>)"
  by (simp add: perror_def)

lemma fail_eq [simp]: "fail e s = Inr (-1, s\<lparr>errno := e\<rparr>)"
  by (simp add: fail_def seq_apply)

text \<open>A change of a slot that leaves its number alone and gives it a status in range.\<close>

lemma table_ok_set:
  assumes "table_ok s" "i < length (processes s)" "pid x = pid (processes s ! i)" "-1 \<le> status x" "status x \<le> 255"
  shows "table_ok (s\<lparr>processes := (processes s)[i := x]\<rparr>)"
  using assms by (auto simp: table_ok_def nth_list_update)

definition empty_slot :: SSP_Process where
  "empty_slot = \<lparr>pid = -1, name = None, status = 0\<rparr>"

lemma slot_update: "x\<lparr>pid := p, name := n, status := st\<rparr> = \<lparr>pid = p, name = n, status = st\<rparr>"
  by (cases x) simp

lemma ssp_proc_init_eq:
  "i < length (processes s) \<Longrightarrow>
     ssp_proc_init (int i) s = Inr ((), s\<lparr>processes := (processes s)[i := empty_slot]\<rparr>)"
  by (simp add: ssp_proc_init_def ssp_set_pid_def ssp_set_name_def ssp_set_stat_def seq_apply empty_slot_def slot_update)

lemma ssp_proc_add_eq:
  "i < length (processes s) \<Longrightarrow>
     ssp_proc_add (int i) p n st s = Inr ((), s\<lparr>processes := (processes s)[i := \<lparr>pid = p, name = n, status = st\<rparr>]\<rparr>)"
  by (simp add: ssp_proc_add_def ssp_set_pid_def ssp_set_name_def ssp_set_stat_def seq_apply slot_update)

lemma init_slots:
  "a \<le> b \<Longrightarrow> b \<le> length (processes s) \<Longrightarrow>
     for_each (\<lambda>i. ssp_proc_init (int i)) [a..<b] s =
       Inr ((), s\<lparr>processes := take a (processes s) @ replicate (b - a) empty_slot @ drop b (processes s)\<rparr>)"
proof (induction b)
  case (Suc b)
  show ?case
  proof (cases "a = Suc b")
    case True
    then show ?thesis by simp
  next
    case False
    then have le: "a \<le> b" using Suc.prems by simp
    let ?ps = "take a (processes s) @ replicate (b - a) empty_slot @ drop b (processes s)"
    have "for_each (\<lambda>i. ssp_proc_init (int i)) [a..<Suc b] s =
        ssp_proc_init (int b) (s\<lparr>processes := ?ps\<rparr>)"
      using Suc le by (simp add: for_each_append seq_apply split: sum.splits)
    also have "\<dots> = Inr ((), s\<lparr>processes := ?ps[b := empty_slot]\<rparr>)"
      using Suc.prems le by (simp add: ssp_proc_init_eq)
    also have "?ps[b := empty_slot] = take a (processes s) @ replicate (Suc b - a) empty_slot @ drop (Suc b) (processes s)"
      using Suc.prems le by (simp add: list_update_append Suc_diff_le replicate_append_same Cons_nth_drop_Suc [symmetric])
    finally show ?thesis .
  qed
qed simp

section \<open>A new id\<close>

text \<open>The slots in use.\<close>

definition used :: "ssp \<Rightarrow> SSP_Process list" where
  "used s = take (nat (ssp_id s + 1)) (processes s)"

text \<open>If the table has to grow, there is memory and the size stays an \<open>int\<close>.\<close>

definition room :: "ssp \<Rightarrow> bool" where
  "room s \<longleftrightarrow> (processes_size s \<le> ssp_id s + 1 \<longrightarrow> 0 < memory s \<and> 2 * processes_size s < 2 ^ 31)"

text \<open>The state after \<open>next_id\<close>.\<close>

definition grown :: "ssp \<Rightarrow> ssp" where
  "grown s = (if processes_size s \<le> ssp_id s + 1
     then s\<lparr>ssp_id := ssp_id s + 1, processes_size := 2 * processes_size s, memory := memory s - 1,
       processes := processes s @ replicate (length (processes s)) empty_slot\<rparr>
     else s\<lparr>ssp_id := ssp_id s + 1\<rparr>)"

lemma next_id_eq:
  assumes ok: "table_ok s" and room: "room s"
  shows "next_id s = Inr ((), grown s)"
proof (cases "processes_size s \<le> ssp_id s + 1")
  case True
  let ?s = "s\<lparr>ssp_id := ssp_id s + 1\<rparr>"
  have n: "processes_size s = int (length (processes s))" "processes_size s = ssp_id s + 1"
    using True table_okD(1,3) [OF ok] by auto
  have "for_each (\<lambda>i. ssp_proc_init (int i)) [length (processes s)..<2 * length (processes s)]
      (?s\<lparr>processes_size := 2 * processes_size s, memory := memory s - 1,
         processes := processes s @ replicate (length (processes s)) garbage\<rparr>) =
    Inr ((), ?s\<lparr>processes_size := 2 * processes_size s, memory := memory s - 1,
         processes := processes s @ replicate (length (processes s)) empty_slot\<rparr>)"
    by (subst init_slots) simp_all
  then have "ssp_expand ?s = Inr (processes_size s, grown s)"
    using room n by (simp add: ssp_expand_def alloc_table_def seq_apply bnd_apply nat_mult_distrib room_def grown_def)
  moreover have "grown s\<lparr>ssp_id := processes_size s\<rparr> = grown s" using n by (simp add: grown_def)
  ultimately show ?thesis using True by (simp add: next_id_def seq_apply bnd_apply)
next
  case False
  then show ?thesis by (simp add: next_id_def seq_apply bnd_apply grown_def)
qed

lemma next_id_stops:
  assumes "\<not> room s"
  shows "\<exists>e. next_id s = Inl e"
proof -
  have "\<exists>e. ssp_expand (s\<lparr>ssp_id := ssp_id s + 1\<rparr>) = Inl e"
    using assms by (auto simp: room_def ssp_expand_def alloc_table_def die_with_def seq_apply bnd_apply)
  then show ?thesis using assms by (auto simp: room_def next_id_def seq_apply bnd_apply)
qed

lemma grown_fields [simp]:
  "ssp_id (grown s) = ssp_id s + 1" "kids (grown s) = kids s" "fate (grown s) = fate s"
  "signals (grown s) = signals s" "printed (grown s) = printed s" "messages (grown s) = messages s"
  "errno (grown s) = errno s" "memory s \<le> Suc (memory (grown s))"
  by (auto simp: grown_def)

text \<open>The new slot, once it is filled.\<close>

lemma grown_slot:
  assumes "table_ok s"
  shows "ssp_id s + 1 = int (nat (ssp_id s + 1))" "nat (ssp_id s + 1) < length (processes (grown s))"
    "take (nat (ssp_id s + 1)) (processes (grown s)) = used s"
    "nat (ssp_id s + 1) \<le> length (processes s)"
proof -
  have "ssp_id s + 1 < 2 * processes_size s" using table_okD(3,7) [OF assms] by linarith
  then show "ssp_id s + 1 = int (nat (ssp_id s + 1))" "nat (ssp_id s + 1) < length (processes (grown s))"
    "take (nat (ssp_id s + 1)) (processes (grown s)) = used s"
    "nat (ssp_id s + 1) \<le> length (processes s)"
    using table_okD(1-3) [OF assms] by (auto simp: grown_def used_def)
qed

lemma grown_ok:
  assumes ok: "table_ok s" and x: "0 < pid x" "-1 \<le> status x" "status x \<le> 255"
  shows "table_ok (grown s\<lparr>processes := (processes (grown s))[nat (ssp_id s + 1) := x]\<rparr>)" (is "table_ok ?s")
    and "used (grown s\<lparr>processes := (processes (grown s))[nat (ssp_id s + 1) := x]\<rparr>) = used s @ [x]"
proof -
  note T = table_okD [OF ok] and G = grown_slot [OF ok]
  let ?k = "nat (ssp_id s + 1)"
  have ps: "processes (grown s) ! i = (if i < length (processes s) then processes s ! i else empty_slot)"
    if "i < length (processes (grown s))" for i
    using that by (auto simp: grown_def nth_append split: if_splits)
  have size: "processes_size (grown s) = int (length (processes (grown s)))" "ssp_id s + 1 < processes_size (grown s)"
    using T(1) G(1,2) by (auto simp: grown_def)
  have slot: "(if int i \<le> ssp_id s + 1 then 0 < pid (processes ?s ! i) else pid (processes ?s ! i) = -1) \<and>
      -1 \<le> status (processes ?s ! i) \<and> status (processes ?s ! i) \<le> 255" if i: "i < length (processes (grown s))" for i
  proof (cases "i = ?k")
    case True
    then show ?thesis using x i G(1) by simp
  next
    case False
    then have "processes ?s ! i = processes (grown s) ! i" by simp
    then show ?thesis
      using False ps [OF i] T(2) T(4-6) [of i] G(4) by (auto simp: empty_slot_def)
  qed
  show "table_ok ?s"
    unfolding table_ok_def
  proof (intro conjI ballI allI impI)
    show "processes ?s \<noteq> []" using G(2) by auto
    show "if int i \<le> ssp_id ?s then 0 < pid (processes ?s ! i) else pid (processes ?s ! i) = -1"
        "-1 \<le> status (processes ?s ! i)" "status (processes ?s ! i) \<le> 255" if "i < length (processes ?s)" for i
      using slot [of i] that by (simp_all split: if_splits)
  qed (use size T(2,8,9) in simp_all)
  have "nat (ssp_id s + 1 + 1) = Suc ?k" using T(2) by arith
  then show "used ?s = used s @ [x]"
    using G(2,3) by (simp add: used_def take_Suc_conv_app_nth)
qed

section \<open>Status words\<close>

text \<open>The status after \<open>ssp_exit\<close>.\<close>

definition decode :: "u32 \<Rightarrow> int \<Rightarrow> int" where
  "decode st old = (if WIFEXITED st then WEXITSTATUS st else if WIFSIGNALED st then WTERMSIG st + 128 else old)"

text \<open>The status words of the kernel: an exit code, and a signal with or without a core dump.\<close>

definition exit_word :: "nat \<Rightarrow> u32" where
  "exit_word code = push_bit 8 (of_nat code)"

definition signal_word :: "nat \<Rightarrow> bool \<Rightarrow> u32" where
  "signal_word sig core = of_nat sig OR (if core then 0x80 else 0)"

lemma ssp_exit_eq:
  "i < length (processes s) \<Longrightarrow> ssp_exit (int i) st s =
     Inr ((), s\<lparr>processes := (processes s)[i := (processes s ! i)\<lparr>status := decode st (status (processes s ! i))\<rparr>]\<rparr>)"
  by (simp add: ssp_exit_def ssp_set_stat_def decode_def)

lemma WEXITSTATUS_range: "0 \<le> WEXITSTATUS st \<and> WEXITSTATUS st \<le> 255"
proof -
  have "drop_bit 8 (st AND 0xff00) = drop_bit 8 st AND (0xff :: u32)"
    by (simp add: drop_bit_and)
  then have "WEXITSTATUS st = uint (drop_bit 8 st) AND 255" by (simp add: WEXITSTATUS_def uint_and)
  then show ?thesis using AND_upper2 [of 255 "uint (drop_bit 8 st)"] by simp
qed

lemma WTERMSIG_range: "0 \<le> WTERMSIG st \<and> WTERMSIG st \<le> 127"
  using AND_upper2 [of 127 "uint st"] by (simp add: WTERMSIG_def uint_and)

lemma decode_range: "-1 \<le> old \<Longrightarrow> old \<le> 255 \<Longrightarrow> -1 \<le> decode st old \<and> decode st old \<le> 255"
  using WEXITSTATUS_range [of st] WTERMSIG_range [of st] by (auto simp: decode_def)

text \<open>A word of a child that has ended, not of one that was stopped.\<close>

definition final :: "u32 \<Rightarrow> bool" where
  "final st \<longleftrightarrow> WIFEXITED st \<or> WIFSIGNALED st"

lemma decode_final: "final st \<Longrightarrow> 0 \<le> decode st old \<and> decode st old \<le> 255"
  using WEXITSTATUS_range [of st] WTERMSIG_range [of st] by (auto simp: decode_def final_def)

lemma decode_exit_all: "\<forall>c \<in> set [0..<256]. WIFEXITED (exit_word c) \<and> WEXITSTATUS (exit_word c) = int c"
  by code_simp

lemma decode_signal_all:
  "\<forall>g \<in> set [1..<127]. \<forall>core \<in> {True, False}. \<not> WIFEXITED (signal_word g core) \<and> WIFSIGNALED (signal_word g core) \<and>
     WTERMSIG (signal_word g core) = int g"
  by code_simp

lemma decode_words:
  "c < 256 \<Longrightarrow> final (exit_word c) \<and> decode (exit_word c) old = int c"
  "0 < g \<Longrightarrow> g < 127 \<Longrightarrow> final (signal_word g core) \<and> decode (signal_word g core) old = 128 + int g"
proof -
  show "c < 256 \<Longrightarrow> final (exit_word c) \<and> decode (exit_word c) old = int c"
    using decode_exit_all by (simp add: decode_def final_def)
  show "0 < g \<Longrightarrow> g < 127 \<Longrightarrow> final (signal_word g core) \<and> decode (signal_word g core) old = 128 + int g"
    using decode_signal_all by (cases core) (simp_all add: decode_def final_def)
qed

section \<open>Children\<close>

lemma find_SomeD: "find P xs = Some x \<Longrightarrow> x \<in> set xs \<and> P x"
  by (induction xs) (auto split: if_splits)

text \<open>A child goes, the others stay.\<close>

lemma kids_remove:
  assumes "distinct (map fst ks)" "c \<in> set ks"
  shows "remove1 c ks = filter (\<lambda>d. fst d \<noteq> fst c) ks"
  using assms
proof (induction ks)
  case (Cons d ks)
  show ?case
  proof (cases "d = c")
    case True
    then have "fst c \<notin> fst ` set ks" using Cons.prems(1) by simp
    then have "filter (\<lambda>d. fst d \<noteq> fst c) ks = ks" by (intro filter_True) (auto simp: image_iff)
    then show ?thesis using True by simp
  next
    case False
    then have "c \<in> set ks" using Cons.prems(2) by simp
    then have "fst c \<in> fst ` set ks" by simp
    then have "fst d \<noteq> fst c" using Cons.prems(1) by (metis distinct.simps(2) list.simps(9) set_map)
    then show ?thesis using False Cons.IH Cons.prems \<open>c \<in> set ks\<close> by simp
  qed
qed simp

lemma table_ok_kids:
  assumes "table_ok s"
  shows "table_ok (s\<lparr>kids := filter P (kids s)\<rparr>)"
  using assms by (auto simp: table_ok_def distinct_map intro: inj_on_subset)

lemma table_ok_same_kids:
  assumes ok: "table_ok s" and same: "map fst ks = map fst (kids s)"
  shows "table_ok (s\<lparr>kids := ks\<rparr>)"
proof -
  have "set (map fst ks) = set (map fst (kids s))" by (simp only: same)
  then have "\<forall>c \<in> set ks. 0 < fst c" using table_okD(9) [OF ok] by force
  then show ?thesis using ok same by (simp add: table_ok_def)
qed

lemma waitpid_nohang_ok:
  assumes ok: "table_ok s"
  shows "\<exists>r st s'. waitpid_nohang p s = Inr ((r, st), s') \<and> table_ok s' \<and> processes s' = processes s \<and> ssp_id s' = ssp_id s \<and>
    processes_size s' = processes_size s \<and> memory s' = memory s"
proof (cases "filter (matches p) (kids s) = []")
  case True
  then show ?thesis using ok by (simp add: waitpid_nohang_def bnd_apply)
next
  case False
  show ?thesis
  proof (cases "find (\<lambda>c. snd c \<noteq> None) (filter (matches p) (kids s))")
    case None
    then show ?thesis using False ok by (simp add: waitpid_nohang_def bnd_apply)
  next
    case (Some c)
    then obtain q st where c: "c = (q, Some st)" "c \<in> set (kids s)"
      by (cases c) (auto dest: find_SomeD)
    then have "table_ok (s\<lparr>kids := remove1 c (kids s)\<rparr>)"
      using table_ok_kids [OF ok] kids_remove [OF table_okD(8) [OF ok] c(2)] by simp
    then show ?thesis using False Some c by (simp add: waitpid_nohang_def bnd_apply seq_apply)
  qed
qed

end
