(* ===== verification/Ssp_Calls.thy ===== *)
theory Ssp_Calls
  imports Ssp_Table
begin

text \<open>
  The functions of \<open>ssp/include/ssp.h\<close>: each keeps the invariant of the table, and what
  each returns and changes.
\<close>

section \<open>The invariant is kept\<close>

abbreviation keeps :: "(ssp, 'a) prog \<Rightarrow> bool" where
  "keeps m \<equiv> triple table_ok m (\<lambda>_. table_ok) (\<lambda>_. True)"

lemma keepsI: "(\<And>s x s'. table_ok s \<Longrightarrow> m s = Inr (x, s') \<Longrightarrow> table_ok s') \<Longrightarrow> keeps m"
  by (rule tripleI) (auto split: sum.split)

lemma keepsD: "keeps m \<Longrightarrow> table_ok s \<Longrightarrow> m s = Inr (x, s') \<Longrightarrow> table_ok s'"
  by (rule tripleD_Inr)

lemma keeps_bnd: "keeps m \<Longrightarrow> (\<And>x. keeps (f x)) \<Longrightarrow> keeps (bnd m f)"
  by (rule triple_bnd)

lemma keeps_seq: "keeps m \<Longrightarrow> keeps k \<Longrightarrow> keeps (seq m k)"
  by (rule triple_seq)

lemma keeps_basic [intro, simp]:
  "keeps (ret v)" "keeps (stop e)" "keeps (gets f)" "keeps skip" "keeps (check e' p)" "keeps (perror msg)"
  "keeps (die_with msg)" "keeps (fail n)" "keeps (error_check r msg)" "keeps (get_proc i)" "keeps (print_line x)"
  by (rule keepsI; auto simp: die_with_def error_check_def get_proc_def print_line_def bnd_apply seq_apply split: if_splits)+

lemma keeps_for_each: "(\<And>i. keeps (body i)) \<Longrightarrow> keeps (for_each body is)"
  by (induction "is") (auto intro: keeps_seq)

lemma in_range: "0 \<le> i \<Longrightarrow> i < int n \<Longrightarrow> \<exists>k < n. i = int k"
  by (metis nonneg_int_cases of_nat_less_iff)

lemma keeps_exit: "keeps (ssp_exit i st)"
proof (rule keepsI)
  fix s x s' assume ok: "table_ok s" and r: "ssp_exit i st s = Inr (x, s')"
  show "table_ok s'"
  proof (cases "0 \<le> i \<and> i < int (length (processes s))")
    case True
    then obtain k where k: "k < length (processes s)" "i = int k" using in_range by blast
    then show ?thesis
      using r table_ok_set [OF ok k(1)] decode_range table_okD(6) [OF ok k(1)] by (auto simp: ssp_exit_eq)
  next
    case False
    then show ?thesis using r ok
      by (auto simp: ssp_exit_def ssp_set_stat_def set_proc_def seq_apply split: if_splits)
  qed
qed

lemma keeps_nohang: "keeps (waitpid_nohang p)"
  using waitpid_nohang_ok [of _ p] by (intro keepsI) fastforce

lemma keeps_waitpid: "keeps (waitpid p)"
proof (rule keepsI)
  fix s x s' assume ok: "table_ok s" and r: "waitpid p s = Inr (x, s')"
  show "table_ok s'"
  proof (cases "map_of (kids s) p")
    case None
    then show ?thesis using r ok by (auto simp: waitpid_def bnd_apply)
  next
    case (Some e)
    then have "(p, e) \<in> set (kids s)" by (rule map_of_SomeD)
    then have "table_ok (s\<lparr>kids := remove1 (p, e) (kids s)\<rparr>)"
      using kids_remove [OF table_okD(8) [OF ok]] table_ok_kids [OF ok] by simp
    then show ?thesis using r Some by (auto simp: waitpid_def bnd_apply seq_apply split: option.splits)
  qed
qed

lemma keeps_check_exit: "keeps (ssp_check_exit i)"
  unfolding ssp_check_exit_def
  by (intro keeps_bnd keeps_basic keeps_nohang) (auto intro!: keeps_seq keeps_exit split: prod.split)

lemma keeps_kill: "keeps (kill p g)"
  unfolding kill_def by (intro keepsI) (auto simp: bnd_apply seq_apply split: if_splits)

text \<open>A new process.\<close>

lemma next_id_grown: "table_ok s \<Longrightarrow> next_id s = Inr ((), s1) \<Longrightarrow> s1 = grown s"
  using next_id_eq [of s] next_id_stops [of s] by fastforce

lemma keeps_add:
  assumes p: "0 < p" and st: "-1 \<le> st" "st \<le> 255" and ok: "table_ok s" and new: "next_id s = Inr ((), s1)"
  shows "ssp_proc_add (ssp_id s1) p n st s1 = Inr ((), s1\<lparr>processes := (processes s1)[nat (ssp_id s1) := \<lparr>pid = p, name = n, status = st\<rparr>]\<rparr>)"
    and "table_ok (s1\<lparr>processes := (processes s1)[nat (ssp_id s1) := \<lparr>pid = p, name = n, status = st\<rparr>]\<rparr>)"
    and "used (s1\<lparr>processes := (processes s1)[nat (ssp_id s1) := \<lparr>pid = p, name = n, status = st\<rparr>]\<rparr>) = used s @ [\<lparr>pid = p, name = n, status = st\<rparr>]"
proof -
  note s1 = next_id_grown [OF ok new]
  show "ssp_proc_add (ssp_id s1) p n st s1 = Inr ((), s1\<lparr>processes := (processes s1)[nat (ssp_id s1) := \<lparr>pid = p, name = n, status = st\<rparr>]\<rparr>)"
    using ssp_proc_add_eq [OF grown_slot(2) [OF ok]] grown_slot(1) [OF ok] by (simp add: s1)
  show "table_ok (s1\<lparr>processes := (processes s1)[nat (ssp_id s1) := \<lparr>pid = p, name = n, status = st\<rparr>]\<rparr>)"
    "used (s1\<lparr>processes := (processes s1)[nat (ssp_id s1) := \<lparr>pid = p, name = n, status = st\<rparr>]\<rparr>) = used s @ [\<lparr>pid = p, name = n, status = st\<rparr>]"
    using grown_ok [OF ok, of "\<lparr>pid = p, name = n, status = st\<rparr>"] p st by (simp_all add: s1)
qed

lemma keeps_get_status: "keeps (ssp_get_status i)"
  unfolding ssp_get_status_def by (intro keeps_seq keeps_bnd keeps_check_exit keeps_basic)

lemma keeps_send_signal: "keeps (ssp_send_signal i g)"
  unfolding ssp_send_signal_def
  by (intro keeps_bnd keeps_basic) (auto intro!: keeps_bnd keeps_kill)

lemma keeps_wait: "keeps ssp_wait"
proof -
  have "keeps (wait_one i)" for i
    unfolding wait_one_def
    by (intro keeps_bnd keeps_basic) (auto intro!: keeps_bnd keeps_waitpid keeps_exit split: prod.split)
  moreover have "keeps (check_one i)" for i
    unfolding check_one_def by (intro keeps_bnd keeps_basic) (auto intro!: keeps_seq)
  ultimately show ?thesis
    unfolding ssp_wait_def by (intro keeps_seq keeps_bnd keeps_basic keeps_for_each)
qed

lemma keeps_longest: "keeps (longest_from n is)"
  by (induction "is" arbitrary: n) (auto intro!: keeps_bnd split: option.split)

text \<open>One round of \<open>ssp_unknown\<close> for a child that the table does not know.\<close>

lemma keeps_adopt:
  assumes p: "0 < p"
  shows "keeps (seq next_id (bnd (gets ssp_id) (\<lambda>i. seq (ssp_proc_add i p n 0) (ssp_exit i st))))"
proof (rule keepsI)
  fix s x s' assume ok: "table_ok s"
    and r: "seq next_id (bnd (gets ssp_id) (\<lambda>i. seq (ssp_proc_add i p n 0) (ssp_exit i st))) s = Inr (x, s')"
  obtain s1 where s1: "next_id s = Inr ((), s1)" using r by (auto simp: seq_eq_Inr)
  note A = keeps_add [OF p _ _ ok s1, of 0 n]
  show "table_ok s'"
    using r s1 A(1,2) by (auto simp: seq_apply bnd_apply dest: keepsD [OF keeps_exit])
qed

lemma keeps_unknown: "keeps (unknown_from fuel)"
proof (induction fuel)
  case 0
  show ?case unfolding unknown_from.simps by (rule keeps_basic)
next
  case (Suc fuel)
  let ?adopt = "\<lambda>q st. if 0 < q then bnd (gets (known q)) (\<lambda>found. if \<not> found then
      seq next_id (bnd (gets ssp_id) (\<lambda>i. seq (ssp_proc_add i q (Some ''<unknown>'') 0) (ssp_exit i st)))
      else skip) else skip"
  have "keeps (?adopt q st)" for q st
    by (cases "0 < q") (auto intro!: keeps_bnd keeps_adopt)
  from keeps_seq [OF this Suc] have "keeps (if q = 0 then skip else seq (?adopt q st) (unknown_from fuel))" for q st
    by (simp split del: if_split add: triple_if)
  moreover have "keeps (if a < (0::int) then perror ''wait child'' else skip)" for a by simp
  ultimately have "keeps (seq (if q < 0 then perror ''wait child'' else skip)
      (if q = 0 then skip else seq (?adopt q st) (unknown_from fuel)))" for q st
    by (rule keeps_seq [rotated])
  then show ?case
    by (auto intro!: keeps_bnd keeps_nohang split: prod.split)
qed

lemma keeps_print: "keeps ssp_print"
proof -
  have "keeps (ssp_proc_print i n)" for i n
    unfolding ssp_proc_print_def by (intro keeps_bnd keeps_basic) (auto split: option.split)
  then have "keeps (print_one n i)" for i n
    unfolding print_one_def by (intro keeps_bnd keeps_basic triple_if keeps_seq keeps_check_exit)
  then show ?thesis
    unfolding ssp_print_def ssp_unknown_def longest_proc_name_def print_header_def
    by (intro keeps_seq keeps_bnd keeps_basic keeps_for_each keeps_unknown keeps_longest)
qed

text \<open>\<open>ssp_create\<close> in the parent.\<close>

lemma keeps_create:
  assumes ok: "table_ok s" and r: "0 < r" "r \<notin> fst ` set (kids s)"
    and c: "ssp_create dir r argv fd0 fd1 fd2 s = Inr (x, s')"
  shows "table_ok s' \<and> x = Parent (ssp_id s + 1) \<and> kids s' = kids s @ [(r, None)] \<and>
    (\<exists>n. used s' = used s @ [\<lparr>pid = r, name = n, status = -1\<rparr>] \<and> (1 < memory s \<longrightarrow> n = Some (hd argv)))"
proof -
  let ?s = "s\<lparr>kids := kids s @ [(r, None)]\<rparr>"
  have ok': "table_ok ?s" using ok r by (auto simp: table_ok_def)
  obtain s1 where s1: "next_id ?s = Inr ((), s1)"
    using c r by (auto simp: ssp_create_def fork_result_def error_check_def seq_eq_Inr bnd_eq_Inr)
  note A = keeps_add [OF r(1) _ _ ok' s1, of "-1"] and s1_eq = next_id_grown [OF ok' s1]
  have id: "ssp_id s1 = int (nat (ssp_id s + 1))" "nat (ssp_id s + 1) < length (processes s1)"
    using grown_slot(1,2) [OF ok'] by (simp_all add: s1_eq)
  have "argv \<noteq> []" using c r s1 by (auto simp: ssp_create_def fork_result_def error_check_def seq_apply bnd_apply)
  then obtain n s2 where s2: "s2 = s1 \<or> s2 = s1\<lparr>memory := memory s1 - 1\<rparr>" "memory s1 \<noteq> 0 \<longrightarrow> n = Some (hd argv)"
      and c': "bnd (bnd (gets ssp_id) (\<lambda>i. ssp_proc_add i r n (-1))) (\<lambda>_. bnd (gets ssp_id) (\<lambda>i. ret (Parent i))) s2 = Inr (x, s')"
    using c r s1 by (fastforce simp: ssp_create_def fork_result_def error_check_def strdup_def seq_def bnd_def
        split: if_splits)
  let ?x = "\<lparr>pid = r, name = n, status = -1\<rparr>"
  have same: "processes s2 = processes s1" "ssp_id s2 = ssp_id s1" "kids s2 = kids s1" using s2(1) by auto
  then have "ssp_proc_add (ssp_id s2) r n (-1) s2 = Inr ((), s2\<lparr>processes := (processes s1)[nat (ssp_id s1) := ?x]\<rparr>)"
    using ssp_proc_add_eq [of "nat (ssp_id s + 1)" s2 r n "-1"] id by simp
  then have s': "x = Parent (ssp_id s + 1)" "s' = s2\<lparr>processes := (processes s1)[nat (ssp_id s1) := ?x]\<rparr>"
    using c' same(2) by (auto simp: bnd_apply s1_eq)
  have "table_ok (s2\<lparr>processes := ps\<rparr>) = table_ok (s1\<lparr>processes := ps\<rparr>)" for ps
    using s2(1) by (elim disjE) (simp_all add: table_ok_def)
  then have "table_ok s'" using A(2) [of n] by (simp add: s')
  moreover have "used s' = used s @ [?x]" using A(3) [of n] same by (simp add: s' used_def)
  moreover have "1 < memory s \<longrightarrow> n = Some (hd argv)" using s2(2) by (auto simp: s1_eq grown_def split: if_splits)
  moreover have "kids s' = kids s @ [(r, None)]" using same(3) by (simp add: s' s1_eq)
  ultimately show ?thesis using s'(1) by blast
qed

end
