(* ===== verification/Ssp_Wait.thy ===== *)
theory Ssp_Wait
  imports Ssp_Calls
begin

text \<open>
  What the loops of \<open>ssp/src/ssp.c\<close> do to the table and the children: \<open>ssp_wait\<close>, \<open>ssp_unknown\<close> and
  the status of one process.
\<close>

section \<open>How a child ended\<close>

text \<open>The status word that waiting for a child gives, now or when it ends.\<close>

definition word_of :: "ssp \<Rightarrow> int \<Rightarrow> u32 option" where
  "word_of s p = (case map_of (kids s) p of None \<Rightarrow> None | Some (Some st) \<Rightarrow> Some st | Some None \<Rightarrow> fate s p)"

definition collect :: "ssp \<Rightarrow> SSP_Process \<Rightarrow> SSP_Process" where
  "collect s x = (case word_of s (pid x) of None \<Rightarrow> x | Some st \<Rightarrow> x\<lparr>status := decode st (status x)\<rparr>)"

lemma pid_collect [simp]: "pid (collect s x) = pid x"
  by (simp add: collect_def split: option.split)

lemma map_of_distinct: "distinct (map fst ks) \<Longrightarrow> map_of ks p = Some e \<Longrightarrow> remove1 (p, e) ks = filter (\<lambda>c. fst c \<noteq> p) ks"
  using kids_remove [of ks "(p, e)"] map_of_SomeD by fastforce

text \<open>Two waits are possible for a process that waits for no other: it is no child, or its end is known.\<close>

definition can_wait :: "ssp \<Rightarrow> int \<Rightarrow> bool" where
  "can_wait s p \<longleftrightarrow> (map_of (kids s) p = None \<or> word_of s p \<noteq> None)"

lemma waitpid_cases:
  assumes "distinct (map fst (kids s))" "can_wait s p"
  shows "waitpid p s = (case word_of s p of
      None \<Rightarrow> Inr ((-1, 0), s\<lparr>errno := 10\<rparr>)
    | Some st \<Rightarrow> Inr ((p, st), s\<lparr>kids := filter (\<lambda>c. fst c \<noteq> p) (kids s)\<rparr>))"
  using assms(2) map_of_distinct [OF assms(1), of p]
  by (auto simp: waitpid_def word_of_def can_wait_def bnd_apply seq_apply split: option.splits)

lemma wait_one_eq:
  assumes ok: "table_ok s" and i: "i < length (processes s)" and w: "can_wait s (pid (processes s ! i))"
  shows "\<exists>e. wait_one (int i) s = Inr ((), s\<lparr>processes := (processes s)[i := collect s (processes s ! i)],
    kids := filter (\<lambda>c. fst c \<noteq> pid (processes s ! i)) (kids s), errno := e\<rparr>)"
proof -
  let ?x = "processes s ! i"
  have same: "s = s\<lparr>processes := (processes s)[i := ?x], kids := kids s, errno := errno s\<rparr>" by simp
  show ?thesis
  proof (cases "pid ?x = -1")
    case True
    have pos: "fst c \<noteq> -1" if "c \<in> set (kids s)" for c using table_okD(9) [OF ok that] by simp
    then have none: "map_of (kids s) (-1) = None" by (force simp: map_of_eq_None_iff)
    have "filter (\<lambda>c. fst c \<noteq> -1) (kids s) = kids s" using pos by (intro filter_True) simp
    then show ?thesis using True i none
      by (intro exI [of _ "errno s"]) (simp add: wait_one_def bnd_apply collect_def word_of_def)
  next
    case False
    show ?thesis
    proof (cases "word_of s (pid ?x)")
      case None
      then have "map_of (kids s) (pid ?x) = None" using w by (simp add: can_wait_def)
      then have "filter (\<lambda>c. fst c \<noteq> pid ?x) (kids s) = kids s"
        by (intro filter_True) (force simp: map_of_eq_None_iff)
      moreover have "pid ?x \<noteq> -1" using False by simp
      ultimately show ?thesis using None i waitpid_cases [OF table_okD(8) [OF ok] w]
        by (intro exI [of _ 10]) (simp add: wait_one_def bnd_apply collect_def)
    next
      case (Some st)
      then show ?thesis using False i waitpid_cases [OF table_okD(8) [OF ok] w]
        by (intro exI [of _ "errno s"]) (simp add: wait_one_def bnd_apply collect_def ssp_exit_eq)
    qed
  qed
qed

text \<open>No two slots in use hold the same number.\<close>

definition pids_distinct :: "ssp \<Rightarrow> bool" where
  "pids_distinct s \<longleftrightarrow> distinct (map pid (used s))"

lemma pids_distinctD:
  assumes "table_ok s" "pids_distinct s" "i < length (processes s)" "k < i" "pid (processes s ! i) \<noteq> -1"
  shows "pid (processes s ! k) \<noteq> pid (processes s ! i)"
proof -
  have "int i \<le> ssp_id s" using assms table_okD(5) [OF assms(1,3)] by linarith
  then have "i < length (used s)" "k < length (used s)" using assms(3,4) by (auto simp: used_def)
  moreover have "used s ! i = processes s ! i" "used s ! k = processes s ! k"
    using \<open>int i \<le> ssp_id s\<close> assms(4) by (auto simp: used_def)
  ultimately show ?thesis
    using assms(2,4) nth_eq_iff_index_eq [of "map pid (used s)" k i] by (simp add: pids_distinct_def)
qed

text \<open>The first loop of \<open>ssp_wait\<close>, up to slot \<open>n\<close>.\<close>

definition collected :: "nat \<Rightarrow> int \<Rightarrow> ssp \<Rightarrow> ssp" where
  "collected n e s = s\<lparr>processes := map (collect s) (take n (processes s)) @ drop n (processes s),
     kids := filter (\<lambda>c. fst c \<notin> pid ` set (take n (processes s))) (kids s), errno := e\<rparr>"

lemma table_ok_collected:
  assumes ok: "table_ok s"
  shows "table_ok (collected n e s)"
proof -
  have nth: "processes (collected n e s) ! i = (if i < n then collect s (processes s ! i) else processes s ! i)"
    if "i < length (processes s)" for i
    using that by (auto simp: collected_def nth_append)
  have stat: "-1 \<le> status (collect s (processes s ! i)) \<and> status (collect s (processes s ! i)) \<le> 255"
    if "i < length (processes s)" for i
    using table_okD(6) [OF ok that] decode_range by (auto simp: collect_def split: option.split)
  have "table_ok (s\<lparr>kids := filter (\<lambda>c. fst c \<notin> pid ` set (take n (processes s))) (kids s)\<rparr>)"
    by (rule table_ok_kids [OF ok])
  then have kids: "distinct (map fst (kids (collected n e s)))" "\<forall>c \<in> set (kids (collected n e s)). 0 < fst c"
    by (simp_all add: table_ok_def collected_def)
  have len: "length (processes (collected n e s)) = length (processes s)" by (simp add: collected_def)
  moreover have "processes (collected n e s) \<noteq> []" using len ok by (metis table_ok_def length_0_conv)
  moreover have "processes_size (collected n e s) = processes_size s" "ssp_id (collected n e s) = ssp_id s"
    by (simp_all add: collected_def)
  ultimately show ?thesis using ok nth stat kids by (simp add: table_ok_def)
qed

lemma wait_loop:
  assumes ok: "table_ok s" and dist: "pids_distinct s" and w: "\<forall>x \<in> set (processes s). can_wait s (pid x)"
  shows "n \<le> length (processes s) \<Longrightarrow> \<exists>e. for_each (\<lambda>i. wait_one (int i)) [0..<n] s = Inr ((), collected n e s)"
proof (induction n)
  case 0
  then show ?case by (intro exI [of _ "errno s"]) (simp add: collected_def)
next
  case (Suc n)
  then obtain e where IH: "for_each (\<lambda>i. wait_one (int i)) [0..<n] s = Inr ((), collected n e s)" by auto
  let ?s = "collected n e s" and ?x = "processes s ! n"
  have n: "n < length (processes s)" using Suc.prems by simp
  have x: "processes ?s ! n = ?x" "length (processes ?s) = length (processes s)"
    using n by (simp_all add: collected_def nth_append)
  have new: "pid ?x \<noteq> -1 \<Longrightarrow> pid ?x \<notin> pid ` set (take n (processes s))"
    using pids_distinctD [OF ok dist n] n by (force simp: in_set_conv_nth)
  have kid: "map_of (kids ?s) (pid ?x) = map_of (kids s) (pid ?x)"
  proof (cases "pid ?x = -1")
    case True
    have "map_of ks (-1) = None" if "set ks \<subseteq> set (kids s)" for ks
      using that table_okD(9) [OF ok] by (force simp: map_of_eq_None_iff)
    then show ?thesis using True by (simp add: collected_def)
  next
    case False
    have "map_of (filter (\<lambda>c. fst c \<notin> A) ks) p = map_of ks p" if "p \<notin> A" for A p and ks :: "(int \<times> u32 option) list"
      using that by (induction ks) auto
    then show ?thesis using new [OF False] by (simp add: collected_def)
  qed
  then have word: "word_of ?s (pid ?x) = word_of s (pid ?x)" by (simp add: word_of_def) (simp add: collected_def split: option.split)
  have "can_wait ?s (pid (processes ?s ! n))" using w n kid word x by (simp add: can_wait_def)
  from wait_one_eq [OF table_ok_collected [OF ok] _ this] obtain e' where
    "wait_one (int n) ?s = Inr ((), ?s\<lparr>processes := (processes ?s)[n := collect ?s ?x],
      kids := filter (\<lambda>c. fst c \<noteq> pid ?x) (kids ?s), errno := e'\<rparr>)" using n x by auto
  moreover have "collect ?s ?x = collect s ?x" by (simp add: collect_def word)
  moreover have "(processes ?s)[n := collect s ?x] = map (collect s) (take (Suc n) (processes s)) @ drop (Suc n) (processes s)"
    using n by (simp add: collected_def list_update_append take_Suc_conv_app_nth Cons_nth_drop_Suc [symmetric])
  moreover have "filter (\<lambda>c. fst c \<noteq> pid ?x) (kids ?s) = filter (\<lambda>c. fst c \<notin> pid ` set (take (Suc n) (processes s))) (kids s)"
    using n by (auto simp: collected_def take_Suc_conv_app_nth intro: filter_cong)
  ultimately have "wait_one (int n) ?s = Inr ((), collected (Suc n) e' s)" by (simp add: collected_def)
  then show ?case using IH by (intro exI [of _ e']) (simp add: for_each_append seq_apply)
qed

lemma check_loop:
  "\<forall>x \<in> set (processes s). pid x \<noteq> -1 \<longrightarrow> 0 \<le> status x \<and> status x \<le> 255 \<Longrightarrow>
     for_each (\<lambda>i. check_one (int i)) [0..<length (processes s)] s = Inr ((), s)"
  by (rule for_each_skip) (auto simp: check_one_def bnd_apply dest!: bspec [OF _ nth_mem])

text \<open>The slots that are not used have no number.\<close>

lemma used_slots:
  assumes "table_ok s" "x \<in> set (processes s)"
  shows "pid x = -1 \<or> x \<in> set (used s) \<and> 0 < pid x"
proof -
  obtain i where i: "i < length (processes s)" "x = processes s ! i" using assms(2) by (metis in_set_conv_nth)
  show ?thesis
  proof (cases "int i \<le> ssp_id s")
    case True
    then have "x = used s ! i" "i < length (used s)" using i by (simp_all add: used_def)
    then show ?thesis using table_okD(4) [OF assms(1) i(1) True] i(2) by (metis nth_mem)
  next
    case False
    then show ?thesis using table_okD(5) [OF assms(1) i(1)] i(2) by simp
  qed
qed

lemma ssp_wait_result:
  assumes ok: "table_ok s" and dist: "pids_distinct s"
    and w: "\<forall>x \<in> set (used s). (map_of (kids s) (pid x) = None \<and> 0 \<le> status x) \<or>
      (\<exists>st. word_of s (pid x) = Some st \<and> final st)"
  shows "\<exists>e. ssp_wait s = Inr ((), collected (length (processes s)) e s) \<and>
    used (collected (length (processes s)) e s) = map (collect s) (used s)"
proof -
  note size = table_okD(1) [OF ok]
  have none: "map_of (kids s) (-1) = None" using table_okD(9) [OF ok] by (force simp: map_of_eq_None_iff)
  have "can_wait s (pid x)" if "x \<in> set (processes s)" for x
    using used_slots [OF ok that] w none by (auto simp: can_wait_def)
  then obtain e where e: "for_each (\<lambda>i. wait_one (int i)) [0..<length (processes s)] s =
      Inr ((), collected (length (processes s)) e s)"
    using wait_loop [OF ok dist] by blast
  let ?s = "collected (length (processes s)) e s"
  have ps: "processes ?s = map (collect s) (processes s)" by (simp add: collected_def)
  have "0 \<le> status x \<and> status x \<le> 255" if x: "x \<in> set (processes ?s)" "pid x \<noteq> -1" for x
  proof -
    obtain y where y: "y \<in> set (processes s)" "x = collect s y" using x(1) ps by auto
    then have "y \<in> set (used s)" using used_slots [OF ok y(1)] x(2) by simp
    moreover obtain i where "i < length (processes s)" "y = processes s ! i" using y(1) by (metis in_set_conv_nth)
    then have "status y \<le> 255" using table_okD(6) [OF ok] by simp
    ultimately show ?thesis using w y(2) decode_final by (auto simp: collect_def word_of_def split: option.splits)
  qed
  then have "for_each (\<lambda>i. check_one (int i)) [0..<length (processes s)] ?s = Inr ((), ?s)"
    using check_loop [of ?s] ps by simp
  moreover have "used ?s = map (collect s) (used s)" by (simp add: used_def ps take_map) (simp add: collected_def)
  moreover have "processes_size ?s = processes_size s" by (simp add: collected_def)
  ultimately show ?thesis using e size by (intro exI [of _ e]) (simp add: ssp_wait_def seq_apply bnd_apply)
qed

section \<open>The status of one process\<close>

lemma filter_one: "distinct (map fst ks) \<Longrightarrow> (p, e) \<in> set ks \<Longrightarrow> filter (\<lambda>c. fst c = p) ks = [(p, e)]"
proof (induction ks)
  case (Cons d ks)
  show ?case
  proof (cases "fst d = p")
    case True
    then have "p \<notin> fst ` set ks" using Cons.prems(1) by auto
    then have "filter (\<lambda>c. fst c = p) ks = []" "(p, e) \<notin> set ks" by (force simp: filter_empty_conv)+
    then show ?thesis using True Cons.prems(2) by simp
  next
    case False
    then show ?thesis using Cons by auto
  qed
qed simp

lemma ssp_get_status_result:
  assumes ok: "table_ok s" and i: "int i \<le> ssp_id s" and x: "x = processes s ! i"
  shows "\<exists>s'. ssp_get_status (int i) s = Inr (case map_of (kids s) (pid x) of Some (Some st) \<Rightarrow> decode st (status x) | _ \<Rightarrow> status x, s') \<and>
    kids s' = (case map_of (kids s) (pid x) of Some (Some st) \<Rightarrow> filter (\<lambda>c. fst c \<noteq> pid x) (kids s) | _ \<Rightarrow> kids s)"
proof -
  have len: "i < length (processes s)" using i table_okD(1,3) [OF ok] by linarith
  have pos: "0 < pid x" using table_okD(4) [OF ok len i] x by simp
  note dist = table_okD(8) [OF ok]
  show ?thesis
  proof (cases "map_of (kids s) (pid x)")
    case None
    then have "filter (matches (pid x)) (kids s) = []"
      using pos by (force simp: filter_empty_conv matches_def map_of_eq_None_iff)
    then show ?thesis using None len x
      by (simp add: ssp_get_status_def ssp_check_exit_def seq_apply bnd_apply waitpid_nohang_def)
  next
    case (Some e)
    then have mem: "(pid x, e) \<in> set (kids s)" by (rule map_of_SomeD)
    have "matches (pid x) = (\<lambda>c. fst c = pid x)" using pos by (auto simp: matches_def fun_eq_iff)
    then have "filter (matches (pid x)) (kids s) = [(pid x, e)]" using filter_one [OF dist mem] by simp
    then show ?thesis using Some len x pos map_of_distinct [OF dist Some]
      by (cases e) (simp_all add: ssp_get_status_def ssp_check_exit_def seq_apply bnd_apply waitpid_nohang_def ssp_exit_eq)
  qed
qed

section \<open>Children nobody created\<close>

definition ended :: "ssp \<Rightarrow> (int \<times> u32 option) list" where
  "ended s = filter (\<lambda>c. snd c \<noteq> None) (kids s)"

definition strangers :: "ssp \<Rightarrow> (int \<times> u32 option) list" where
  "strangers s = filter (\<lambda>c. fst c \<notin> pid ` set (used s)) (ended s)"

definition unknown_slot :: "int \<times> u32 option \<Rightarrow> SSP_Process" where
  "unknown_slot c = \<lparr>pid = fst c, name = Some ''<unknown>'', status = decode (the (snd c)) 0\<rparr>"

text \<open>There is room for \<open>n\<close> more processes.\<close>

definition enough :: "ssp \<Rightarrow> nat \<Rightarrow> bool" where
  "enough s n \<longleftrightarrow> n \<le> memory s \<and> 2 * (ssp_id s + int n) < 2 ^ 31"

lemma find_filter: "find P xs = (case filter P xs of [] \<Rightarrow> None | x # _ \<Rightarrow> Some x)"
  by (induction xs) auto

lemma known_iff:
  assumes ok: "table_ok s" and q: "0 < q"
  shows "known q s \<longleftrightarrow> q \<in> pid ` set (used s)"
proof -
  have "known q s \<longleftrightarrow> (\<exists>x \<in> set (processes s). pid x = q)"
    using table_okD(1) [OF ok] by (simp add: known_def first_index_None_iff)
  also have "\<dots> \<longleftrightarrow> (\<exists>x \<in> set (used s). pid x = q)"
    using used_slots [OF ok] q by (fastforce simp: used_def dest: in_set_takeD)
  finally show ?thesis by auto
qed

text \<open>A stranger gets a slot.\<close>

lemma adopt_eq:
  assumes ok: "table_ok s" and room: "room s" and q: "0 < q"
  shows "\<exists>s'. seq next_id (bnd (gets ssp_id) (\<lambda>i. seq (ssp_proc_add i q (Some ''<unknown>'') 0) (ssp_exit i st))) s = Inr ((), s') \<and>
    table_ok s' \<and> used s' = used s @ [unknown_slot (q, Some st)] \<and> kids s' = kids s \<and> ssp_id s' = ssp_id s + 1 \<and>
    memory s \<le> Suc (memory s') \<and> printed s' = printed s"
proof -
  let ?x = "unknown_slot (q, Some st)"
  obtain k where k: "ssp_id s + 1 = int k" using grown_slot(1) [OF ok] by blast
  have len: "k < length (processes (grown s))" using grown_slot(2) [OF ok] by (simp add: k)
  have x: "0 < pid ?x" "-1 \<le> status ?x" "status ?x \<le> 255"
    using q decode_range [of 0 st] by (simp_all add: unknown_slot_def)
  note N = grown_ok [OF ok x, unfolded k]
  have "seq (ssp_proc_add (int k) q (Some ''<unknown>'') 0) (ssp_exit (int k) st) (grown s) =
      Inr ((), grown s\<lparr>processes := (processes (grown s))[k := ?x]\<rparr>)"
    using len by (simp add: ssp_proc_add_eq ssp_exit_eq seq_apply unknown_slot_def)
  then show ?thesis
    using next_id_eq [OF ok room] N k by (simp add: seq_apply bnd_apply)
qed

text \<open>A child that has ended is reaped, and a stranger is put in the table first.\<close>

lemma unknown_reaps:
  assumes ok: "table_ok s" and ended: "ended s = c # cs" and c: "c = (q, Some st)"
  defines "t \<equiv> s\<lparr>kids := remove1 c (kids s)\<rparr>"
  shows "unknown_from (Suc fuel) s = seq (if q \<in> pid ` set (used s) then skip else
      seq next_id (bnd (gets ssp_id) (\<lambda>i. seq (ssp_proc_add i q (Some ''<unknown>'') 0) (ssp_exit i st))))
      (unknown_from fuel) t"
    and "table_ok t" "ended t = cs" "filter (\<lambda>c. snd c = None) (kids t) = filter (\<lambda>c. snd c = None) (kids s)"
    and "used t = used s" "strangers s = (if q \<in> pid ` set (used s) then [] else [c]) @ strangers t"
    and "0 < q" "q \<notin> fst ` set cs"
proof -
  have "c \<in> set (ended s)" using ended by simp
  then have c': "c \<in> set (kids s)" by (simp add: ended_def)
  show q: "0 < q" using table_okD(9) [OF ok c'] c by simp
  have "filter (matches (-1)) (kids s) = kids s" by (simp add: matches_def)
  moreover have "find (\<lambda>c. snd c \<noteq> None) (kids s) = Some c" using ended by (simp add: find_filter ended_def)
  moreover have "kids s \<noteq> []" using c' by auto
  ultimately have w: "waitpid_nohang (-1) s = Inr ((q, st), t)"
    using c by (simp add: waitpid_nohang_def bnd_apply seq_apply t_def)
  show ok': "table_ok t" using table_ok_kids [OF ok] kids_remove [OF table_okD(8) [OF ok] c'] by (simp add: t_def)
  show used: "used t = used s" by (simp add: used_def t_def)
  show cs: "ended t = cs" using ended by (simp add: ended_def filter_remove1 t_def)
  show "filter (\<lambda>c. snd c = None) (kids t) = filter (\<lambda>c. snd c = None) (kids s)"
    using c by (simp add: filter_remove1 remove1_idem t_def)
  show "unknown_from (Suc fuel) s = seq (if q \<in> pid ` set (used s) then skip else
      seq next_id (bnd (gets ssp_id) (\<lambda>i. seq (ssp_proc_add i q (Some ''<unknown>'') 0) (ssp_exit i st))))
      (unknown_from fuel) t"
    using w q known_iff [OF ok' q] used by (simp add: bnd_apply seq_apply)
  show "strangers s = (if q \<in> pid ` set (used s) then [] else [c]) @ strangers t"
    using cs used ended c by (simp add: strangers_def)
  have "distinct (map fst (ended s))" using table_okD(8) [OF ok] by (simp add: ended_def distinct_map_filter)
  then show "q \<notin> fst ` set cs" using ended c by simp
qed

lemma unknown_result:
  "length (ended s) < fuel \<Longrightarrow> table_ok s \<Longrightarrow> enough s (length (strangers s)) \<Longrightarrow>
   \<exists>s'. unknown_from fuel s = Inr ((), s') \<and> table_ok s' \<and> used s' = used s @ map unknown_slot (strangers s) \<and>
     kids s' = filter (\<lambda>c. snd c = None) (kids s) \<and> printed s' = printed s"
proof (induction fuel arbitrary: s)
  case (Suc fuel)
  note ok = Suc.prems(2)
  show ?case
  proof (cases "ended s")
    case Nil
    then have "filter (\<lambda>c. snd c = None) (kids s) = kids s" "find (\<lambda>c. snd c \<noteq> None) (kids s) = None"
      by (auto simp: ended_def filter_empty_conv find_filter intro: filter_True)
    moreover have "strangers s = []" using Nil by (simp add: strangers_def)
    moreover have "filter (matches (-1)) (kids s) = kids s" by (simp add: matches_def)
    ultimately show ?thesis using ok
      by (cases "kids s = []") (simp_all add: waitpid_nohang_def bnd_apply seq_apply used_def)
  next
    case (Cons c cs)
    then have "c \<in> set (ended s)" by simp
    then have "snd c \<noteq> None" by (simp add: ended_def)
    then obtain q st where c: "c = (q, Some st)" by (metis not_None_eq prod.collapse)
    let ?s = "s\<lparr>kids := remove1 c (kids s)\<rparr>"
    note R = unknown_reaps [OF ok Cons c]
    show ?thesis
    proof (cases "q \<in> pid ` set (used s)")
      case True
      then show ?thesis
        using Suc.IH [of ?s] Suc.prems R Cons by (simp add: enough_def)
    next
      case False
      have "room ?s" using Suc.prems(3) table_okD(1,3) [OF ok] R(6) False by (auto simp: room_def enough_def)
      then obtain s2 where s2: "seq next_id (bnd (gets ssp_id) (\<lambda>i. seq (ssp_proc_add i q (Some ''<unknown>'') 0) (ssp_exit i st))) ?s = Inr ((), s2)"
          "table_ok s2" "used s2 = used s @ [unknown_slot c]" "kids s2 = remove1 c (kids s)" "ssp_id s2 = ssp_id s + 1"
          "memory s \<le> Suc (memory s2)" "printed s2 = printed s"
        using adopt_eq [OF R(2) _ R(7), of st] R(5) c by auto
      have ended2: "ended s2 = cs" using R(3) s2(4) by (simp add: ended_def)
      have "fst d \<noteq> q" if "d \<in> set cs" for d using R(8) that by auto
      then have str2: "strangers s2 = strangers ?s"
        using R(3) ended2 s2(3) R(5) c by (auto simp: strangers_def unknown_slot_def intro!: filter_cong)
      have "enough s2 (length (strangers s2))"
        using Suc.prems(3) R(6) False str2 s2(5,6) by (simp add: enough_def)
      then obtain s' where "unknown_from fuel s2 = Inr ((), s')" "table_ok s'"
          "used s' = used s2 @ map unknown_slot (strangers s2)" "kids s' = filter (\<lambda>c. snd c = None) (kids s2)" "printed s' = printed s2"
        using Suc.IH [of s2] Suc.prems(1) s2(2) ended2 Cons by auto
      then show ?thesis using R(1,4,6) False s2 str2 by simp
    qed
  qed
qed simp

lemma ssp_unknown_result:
  assumes "table_ok s" "enough s (length (strangers s))"
  shows "\<exists>s'. ssp_unknown s = Inr ((), s') \<and> table_ok s' \<and> used s' = used s @ map unknown_slot (strangers s) \<and>
    kids s' = filter (\<lambda>c. snd c = None) (kids s) \<and> printed s' = printed s"
proof -
  have "length (ended s) < Suc (length (kids s))" by (simp add: ended_def le_imp_less_Suc)
  from unknown_result [OF this assms] show ?thesis by (simp add: ssp_unknown_def bnd_apply del: unknown_from.simps)
qed

end
