(* ===== verification/Ssp_Print.thy ===== *)
theory Ssp_Print
  imports Ssp_Wait
begin

text \<open>
  What \<open>ssp_print\<close> of \<open>ssp/src/ssp.c\<close> prints: once \<open>ssp_unknown\<close> has taken away the children that have ended, the
  width of the names and the lines are those of the processes in use.
\<close>

section \<open>The slots in use\<close>

lemma length_used: "table_ok s \<Longrightarrow> int (length (used s)) = ssp_id s + 1"
  using table_okD(1-3) [of s] by (simp add: used_def)

lemma used_nth: "int i \<le> ssp_id s \<Longrightarrow> used s ! i = processes s ! i"
  by (simp add: used_def)

lemma used_filter:
  assumes ok: "table_ok s"
  shows "filter (\<lambda>x. 0 \<le> pid x) (processes s) = used s"
proof -
  let ?n = "nat (ssp_id s + 1)"
  have "0 \<le> pid x" if "x \<in> set (take ?n (processes s))" for x
  proof -
    note x = that
    obtain i where "i < length (take ?n (processes s))" "x = take ?n (processes s) ! i" using x by (metis in_set_conv_nth)
    moreover from this have "int i \<le> ssp_id s" by auto
    ultimately show ?thesis using table_okD(4) [OF ok, of i] by simp
  qed
  moreover have "\<not> 0 \<le> pid x" if "x \<in> set (drop ?n (processes s))" for x
  proof -
    note x = that
    obtain i where "i < length (drop ?n (processes s))" "x = drop ?n (processes s) ! i" using x by (metis in_set_conv_nth)
    then show ?thesis using table_okD(2) [OF ok] table_okD(5) [OF ok, of "?n + i"] by simp
  qed
  ultimately have "filter (\<lambda>x. 0 \<le> pid x) (take ?n (processes s)) = take ?n (processes s)"
      "filter (\<lambda>x. 0 \<le> pid x) (drop ?n (processes s)) = []"
    by (auto simp: filter_empty_conv)
  then show ?thesis
    using filter_append [of "\<lambda>x. 0 \<le> pid x" "take ?n (processes s)" "drop ?n (processes s)"] by (simp add: used_def)
qed

text \<open>Every process in use has a name, which \<open>ssp_create\<close> only fails to give it when \<open>strdup\<close> fails.\<close>

definition named :: "ssp \<Rightarrow> bool" where
  "named s \<longleftrightarrow> (\<forall>x \<in> set (used s). name x \<noteq> None)"

lemma named_slots: "table_ok s \<Longrightarrow> named s \<Longrightarrow> x \<in> set (processes s) \<Longrightarrow> 0 \<le> pid x \<Longrightarrow> name x \<noteq> None"
  using used_slots [of s x] by (auto simp: named_def)

section \<open>The width of the names\<close>

definition width :: "SSP_Process list \<Rightarrow> nat" where
  "width ps = foldl (\<lambda>m x. max m (length (the (name x)))) 3 ps"

lemma longest_from_eq:
  assumes "\<forall>i \<in> set is. i < length (processes s) \<and> (0 \<le> pid (processes s ! i) \<longrightarrow> name (processes s ! i) \<noteq> None)"
  shows "longest_from (int m) is s = Inr (int (foldl (\<lambda>m x. max m (length (the (name x)))) m
    (filter (\<lambda>x. 0 \<le> pid x) (map (\<lambda>i. processes s ! i) is))), s)"
  using assms
proof (induction "is" arbitrary: m)
  case (Cons i "is")
  have "max_of (int m) (int n) = int (max m n)" for n by (simp add: max_of_def)
  then show ?case using Cons by (auto simp: bnd_apply split: option.split)
qed simp

lemma longest_proc_name_eq:
  assumes ok: "table_ok s" and named: "named s"
  shows "longest_proc_name s = Inr (int (width (used s)), s)"
proof -
  note size = table_okD(1) [OF ok]
  have "\<forall>i \<in> set [0..<length (processes s)]. i < length (processes s) \<and>
      (0 \<le> pid (processes s ! i) \<longrightarrow> name (processes s ! i) \<noteq> None)"
    using named_slots [OF ok named] by simp
  from longest_from_eq [OF this, of 3] show ?thesis
    using size used_filter [OF ok] by (simp add: longest_proc_name_def bnd_apply width_def map_nth)
qed

section \<open>The lines\<close>

definition process_line :: "nat \<Rightarrow> SSP_Process \<Rightarrow> string" where
  "process_line w x = pad_left 7 (show_int (pid x)) @ '' '' @ pad_right w (the (name x)) @ '' '' @ show_int (status x)"

definition header_line :: "nat \<Rightarrow> string" where
  "header_line w = pad_left 7 ''PID'' @ '' '' @ pad_right w ''CMD'' @ '' '' @ ''STATUS''"

lemma check_exit_idle:
  assumes "i < length (processes s)" "\<forall>c \<in> set (kids s). snd c = None"
  shows "\<exists>e ms. ssp_check_exit (int i) s = Inr ((), s\<lparr>errno := e, messages := ms\<rparr>)"
proof -
  have "find (\<lambda>c. snd c \<noteq> None) (filter P (kids s)) = None" for P
    using assms(2) by (auto simp: find_None_iff)
  then have run: "ssp_check_exit (int i) s = Inr ((), if filter (matches (pid (processes s ! i))) (kids s) = []
      then s\<lparr>errno := 10, messages := messages s @ [''check exit'']\<rparr>
      else s\<lparr>errno := errno s, messages := messages s\<rparr>)"
    using assms(1) by (simp add: ssp_check_exit_def bnd_apply seq_apply waitpid_nohang_def)
  show ?thesis
  proof (cases "filter (matches (pid (processes s ! i))) (kids s) = []")
    case True
    then show ?thesis unfolding run by (simp only: simp_thms if_True) blast
  next
    case False
    then show ?thesis unfolding run by (simp only: simp_thms if_False) blast
  qed
qed

lemma print_one_idle:
  assumes i: "i < length (processes s)" and running: "\<forall>c \<in> set (kids s). snd c = None"
    and named: "0 \<le> pid (processes s ! i) \<longrightarrow> name (processes s ! i) \<noteq> None"
  shows "\<exists>e ms. print_one (int w) (int i) s = Inr ((), s\<lparr>errno := e, messages := ms, printed := printed s @
    map (process_line w) (filter (\<lambda>x. 0 \<le> pid x) [processes s ! i])\<rparr>)"
proof (cases "0 \<le> pid (processes s ! i)")
  case True
  obtain e ms where "ssp_check_exit (int i) s = Inr ((), s\<lparr>errno := e, messages := ms\<rparr>)"
    using check_exit_idle [OF i running] by blast
  moreover obtain n where "name (processes s ! i) = Some n" using True named by auto
  ultimately have "print_one (int w) (int i) s = Inr ((), s\<lparr>errno := e, messages := ms, printed := printed s @
      map (process_line w) (filter (\<lambda>x. 0 \<le> pid x) [processes s ! i])\<rparr>)"
    using True i by (simp add: print_one_def ssp_proc_print_def print_line_def process_line_def bnd_apply seq_apply)
  then show ?thesis by blast
next
  case False
  then show ?thesis
    using i by (intro exI [of _ "errno s"] exI [of _ "messages s"]) (simp add: print_one_def bnd_apply)
qed

lemma print_loop:
  assumes "\<forall>c \<in> set (kids s). snd c = None"
    and "\<forall>i \<in> set is. i < length (processes s) \<and> (0 \<le> pid (processes s ! i) \<longrightarrow> name (processes s ! i) \<noteq> None)"
  shows "\<exists>e ms. for_each (\<lambda>i. print_one (int w) (int i)) is s = Inr ((), s\<lparr>errno := e, messages := ms,
    printed := printed s @ map (process_line w) (filter (\<lambda>x. 0 \<le> pid x) (map (\<lambda>i. processes s ! i) is))\<rparr>)"
  using assms
proof (induction "is" arbitrary: s)
  case Nil
  show ?case by (intro exI [of _ "errno s"] exI [of _ "messages s"]) simp
next
  case (Cons i "is")
  obtain e ms where 1: "print_one (int w) (int i) s = Inr ((), s\<lparr>errno := e, messages := ms, printed := printed s @
      map (process_line w) (filter (\<lambda>x. 0 \<le> pid x) [processes s ! i])\<rparr>)" (is "_ = Inr ((), ?s)")
    using print_one_idle [of i s w] Cons.prems by auto
  obtain e' ms' where "for_each (\<lambda>i. print_one (int w) (int i)) is ?s = Inr ((), ?s\<lparr>errno := e', messages := ms',
      printed := printed ?s @ map (process_line w) (filter (\<lambda>x. 0 \<le> pid x) (map (\<lambda>i. processes ?s ! i) is))\<rparr>)"
    using Cons.IH [of ?s] Cons.prems by auto
  then show ?case using 1 by (intro exI [of _ e'] exI [of _ ms']) simp
qed

lemma print_table:
  assumes ok: "table_ok s" and named: "named s" and running: "\<forall>c \<in> set (kids s). snd c = None"
  defines "w \<equiv> width (used s)"
  shows "\<exists>e ms. bnd longest_proc_name (\<lambda>max_len. seq (print_header max_len)
      (bnd (gets processes_size) (\<lambda>n. for_each (\<lambda>i. print_one max_len (int i)) [0..<nat n]))) s =
    Inr ((), s\<lparr>errno := e, messages := ms, printed := printed s @ header_line w # map (process_line w) (used s)\<rparr>)"
proof -
  let ?s = "s\<lparr>printed := printed s @ [header_line w]\<rparr>"
  note size = table_okD(1) [OF ok]
  have "\<exists>e ms. for_each (\<lambda>i. print_one (int w) (int i)) [0..<length (processes ?s)] ?s = Inr ((), ?s\<lparr>errno := e, messages := ms,
      printed := printed ?s @ map (process_line w) (filter (\<lambda>x. 0 \<le> pid x) (map (\<lambda>i. processes ?s ! i) [0..<length (processes ?s)]))\<rparr>)"
    using running named_slots [OF ok named] by (intro print_loop) simp_all
  then obtain e ms where "for_each (\<lambda>i. print_one (int w) (int i)) [0..<length (processes s)] ?s = Inr ((), ?s\<lparr>errno := e, messages := ms,
      printed := printed ?s @ map (process_line w) (used s)\<rparr>)"
    using used_filter [OF ok] by (auto simp: map_nth)
  then show ?thesis
    using longest_proc_name_eq [OF ok named] size
    by (intro exI [of _ e] exI [of _ ms]) (simp add: bnd_apply seq_apply print_header_def print_line_def header_line_def w_def)
qed

text \<open>The whole function.\<close>

lemma ssp_print_result:
  assumes "table_ok s" "named s" "enough s (length (strangers s))"
  shows "\<exists>s'. ssp_print s = Inr ((), s') \<and> table_ok s' \<and> kids s' = filter (\<lambda>c. snd c = None) (kids s) \<and>
    used s' = used s @ map unknown_slot (strangers s) \<and>
    printed s' = printed s @ header_line (width (used s')) # map (process_line (width (used s'))) (used s')"
proof -
  obtain t where t: "ssp_unknown s = Inr ((), t)" "table_ok t" "used t = used s @ map unknown_slot (strangers s)"
      "kids t = filter (\<lambda>c. snd c = None) (kids s)" "printed t = printed s"
    using ssp_unknown_result [OF assms(1,3)] by blast
  have "named t" using assms(2) by (auto simp: named_def t(3) unknown_slot_def)
  moreover have "\<forall>c \<in> set (kids t). snd c = None" by (simp add: t(4))
  ultimately obtain e ms where "ssp_print s = Inr ((), t\<lparr>errno := e, messages := ms,
      printed := printed t @ header_line (width (used t)) # map (process_line (width (used t))) (used t)\<rparr>)"
    using print_table [OF t(2)] t(1) unfolding ssp_print_def by fastforce
  moreover have "used (t\<lparr>errno := e, messages := ms, printed := p\<rparr>) = used t" for p by (simp add: used_def)
  ultimately show ?thesis using t(2-5) by simp
qed

end
