(* ===== verification/Ssp_Child.thy ===== *)
theory Ssp_Child
  imports Ssp_Processes
begin

text \<open>
  The child of \<open>ssp_create\<close> in \<open>ssp/src/ssp.c\<close>: which descriptors are open when the program starts.
\<close>

section \<open>Decimal numbers\<close>

lemma digit_of_char [simp]: "d < 10 \<Longrightarrow> digit_of (char_of (48 + d :: nat)) = int d"
  by (simp add: digit_of_def)

lemma decimal_digits: "c \<in> set (decimal n) \<Longrightarrow> 0 \<le> digit_of c \<and> digit_of c \<le> 9"
proof (induction n rule: decimal.induct)
  case (1 n)
  have d: "0 \<le> digit_of (char_of (48 + n mod 10 :: nat)) \<and> digit_of (char_of (48 + n mod 10 :: nat)) \<le> 9"
    by (subst digit_of_char) auto
  show ?case
  proof (cases "n < 10")
    case True
    then show ?thesis using "1.prems" by (simp add: decimal.simps [of n])
  next
    case False
    then show ?thesis using "1.prems" "1.IH" d by (auto simp: decimal.simps [of n])
  qed
qed

lemma foldl_decimal: "foldl (\<lambda>n c. 10 * n + digit_of c) 0 (decimal n) = int n"
proof (induction n rule: decimal.induct)
  case (1 n)
  show ?case
  proof (cases "n < 10")
    case True
    then show ?thesis by (simp add: decimal.simps [of n])
  next
    case False
    have "digit_of (char_of (48 + n mod 10 :: nat)) = int (n mod 10)" by (rule digit_of_char) simp
    moreover have "10 * int (n div 10) + int (n mod 10) = int n" by presburger
    ultimately show ?thesis using False 1 by (simp add: decimal.simps [of n])
  qed
qed

lemma atoi_show_int:
  assumes "0 \<le> i"
  shows "atoi (show_int i) = i"
proof -
  have shown: "show_int i = decimal (nat i)" using assms by (simp add: show_int_def)
  have all: "takeWhile (\<lambda>c. 0 \<le> digit_of c \<and> digit_of c \<le> 9) (decimal n) = decimal n" for n
    using decimal_digits by (simp add: takeWhile_eq_all_conv)
  show ?thesis unfolding atoi_def shown all foldl_decimal using assms by simp
qed

section \<open>Descriptors\<close>

definition fds_ok :: "(int \<times> nat) list \<Rightarrow> bool" where
  "fds_ok al \<longleftrightarrow> distinct (map fst al) \<and> (\<forall>k \<in> set (map fst al). 0 \<le> k)"

lemma fds_ok_update: "fds_ok al \<Longrightarrow> 0 \<le> k \<Longrightarrow> fds_ok (AList.update k v al)"
  by (auto simp: fds_ok_def update_keys distinct_update simp del: set_map)

lemma dup2_eq:
  "map_of (fds s) old = Some f \<Longrightarrow> 0 \<le> new \<Longrightarrow> new < fd_limit s \<Longrightarrow>
     bnd (dup2 old new) (\<lambda>r. error_check r msg) s = Inr ((), s\<lparr>fds := AList.update new f (fds s)\<rparr>)"
  by (simp add: dup2_def bnd_apply seq_apply error_check_def)

lemma close_fd_eq:
  "map_of (fds s) fd \<noteq> None \<Longrightarrow>
     bnd (close_fd fd) (\<lambda>r. error_check r msg) s = Inr ((), s\<lparr>fds := AList.delete fd (fds s)\<rparr>)"
  by (auto simp: close_fd_def bnd_apply seq_apply error_check_def)

text \<open>The loop closes every descriptor it is shown, but the first three and the one of the directory.\<close>

definition closes :: "int \<Rightarrow> int \<Rightarrow> bool" where
  "closes dir_fd fd \<longleftrightarrow> 2 < fd \<and> fd \<noteq> dir_fd"

lemma close_entries_eq:
  assumes "distinct (map fst es)" "\<forall>k \<in> set (map fst es). 0 \<le> k \<and> map_of (fds s) k \<noteq> None"
  shows "\<exists>al. close_entries dir_fd (map (\<lambda>(fd, _). (show_int fd, DT_LNK)) es) s = Inr ((), s\<lparr>fds := al\<rparr>) \<and>
    (\<forall>k. map_of al k = (if k \<in> set (map fst es) \<and> closes dir_fd k then None else map_of (fds s) k))"
  using assms
proof (induction es arbitrary: s)
  case Nil
  then show ?case by (intro exI [of _ "fds s"]) simp
next
  case (Cons e es)
  obtain fd f where e: "e = (fd, f)" by (cases e)
  have fd: "atoi (show_int fd) = fd" "map_of (fds s) fd \<noteq> None" "fd \<notin> set (map fst es)"
    using Cons.prems e by (auto simp: atoi_show_int)
  show ?case
  proof (cases "closes dir_fd fd")
    case True
    let ?s = "s\<lparr>fds := AList.delete fd (fds s)\<rparr>"
    have "\<forall>k \<in> set (map fst es). 0 \<le> k \<and> map_of (fds ?s) k \<noteq> None"
      using Cons.prems(2) fd(3) by (auto simp: delete_conv')
    then obtain al where al: "close_entries dir_fd (map (\<lambda>(fd, _). (show_int fd, DT_LNK)) es) ?s = Inr ((), ?s\<lparr>fds := al\<rparr>)"
        "\<forall>k. map_of al k = (if k \<in> set (map fst es) \<and> closes dir_fd k then None else map_of (fds ?s) k)"
      using Cons.IH [of ?s] Cons.prems(1) by auto
    then show ?thesis using True fd e
      by (intro exI [of _ al]) (auto simp: seq_apply close_fd_eq closes_def Let_def delete_conv' simp del: set_map)
  next
    case False
    have "\<forall>k \<in> set (map fst es). 0 \<le> k \<and> map_of (fds s) k \<noteq> None" using Cons.prems(2) by simp
    then obtain al where al: "close_entries dir_fd (map (\<lambda>(fd, _). (show_int fd, DT_LNK)) es) s = Inr ((), s\<lparr>fds := al\<rparr>)"
        "\<forall>k. map_of al k = (if k \<in> set (map fst es) \<and> closes dir_fd k then None else map_of (fds s) k)"
      using Cons.IH [of s] Cons.prems(1) by auto
    then show ?thesis using False fd e
      by (intro exI [of _ al]) (auto simp: seq_apply closes_def Let_def simp del: set_map)
  qed
qed

text \<open>A free descriptor below the limit, or none.\<close>

definition fd_free :: "ssp \<Rightarrow> int \<Rightarrow> bool" where
  "fd_free s k \<longleftrightarrow> 0 \<le> k \<and> k < fd_limit s \<and> map_of (fds s) k = None"

lemma open_file_eq:
  assumes "fd_free s k"
  shows "\<exists>fd. 0 \<le> fd \<and> map_of (fds s) fd = None \<and> open_file file s = Inr (fd, s\<lparr>fds := (fd, file) # fds s\<rparr>)"
proof -
  let ?n = "nat (fd_limit s)"
  have "\<exists>i \<in> set [0..<?n]. map_of (fds s) (int i) = None"
    using assms by (intro bexI [of _ "nat k"]) (auto simp: fd_free_def)
  then have "first_index (\<lambda>i. map_of (fds s) (int i) = None) [0..<?n] \<noteq> None"
    unfolding first_index_None_iff by blast
  then obtain i where i: "first_index (\<lambda>i. map_of (fds s) (int i) = None) [0..<?n] = Some i" by blast
  then have "map_of (fds s) (int i) = None" using first_index_SomeD [OF i] by auto
  then show ?thesis using i by (intro exI [of _ "int i"]) (simp add: open_file_def bnd_apply seq_apply)
qed

lemma close_fds_full:
  assumes "\<forall>k. \<not> fd_free s k"
  shows "close_fds dir s = Inl (Exit 9)"
proof -
  have "first_index (\<lambda>i. map_of (fds s) (int i) = None) [0..<nat (fd_limit s)] = None"
    using assms by (fastforce simp: first_index_None_iff fd_free_def)
  then show ?thesis
    by (simp add: close_fds_def open_file_def fail_def die_with_def perror_def bnd_apply seq_apply)
qed

lemma close_fds_eq:
  assumes ok: "fds_ok (fds s)" and room: "fd_free s k0"
  shows "\<exists>al. close_fds dir s = Inr ((), s\<lparr>fds := al\<rparr>) \<and> (\<forall>k. map_of al k = (if 2 < k then None else map_of (fds s) k))"
proof -
  obtain fd where fd: "0 \<le> fd" "map_of (fds s) fd = None" "open_file dir s = Inr (fd, s\<lparr>fds := (fd, dir) # fds s\<rparr>)"
    using open_file_eq [OF room] by blast
  let ?s = "s\<lparr>fds := (fd, dir) # fds s\<rparr>"
  have "distinct (map fst (fds ?s))" "\<forall>k \<in> set (map fst (fds ?s)). 0 \<le> k \<and> map_of (fds ?s) k \<noteq> None"
    using ok fd(1,2) by (auto simp: fds_ok_def map_of_eq_None_iff)
  from close_entries_eq [OF this, of fd] obtain al where al:
      "close_entries fd (map (\<lambda>(fd, _). (show_int fd, DT_LNK)) (fds ?s)) ?s = Inr ((), ?s\<lparr>fds := al\<rparr>)"
      "\<And>k. map_of al k = (if k \<in> set (map fst (fds ?s)) \<and> closes fd k then None else map_of (fds ?s) k)" by blast
  have "close_entries fd (fd_entries ?s) ?s = Inr ((), s\<lparr>fds := al\<rparr>)"
    using al(1) by (simp add: fd_entries_def seq_apply)
  moreover have "map_of al fd \<noteq> None" by (simp add: al(2) closes_def)
  moreover have "map_of (AList.delete fd al) k = (if 2 < k then None else map_of (fds s) k)" for k
  proof (cases "k = fd")
    case True
    then show ?thesis using fd(2) by (simp add: delete_conv')
  next
    case False
    moreover have "map_of (fds s) k = None" if "k \<notin> set (map fst (fds s))" using that by (simp add: map_of_eq_None_iff)
    ultimately show ?thesis by (auto simp: delete_conv' al(2) closes_def simp del: set_map)
  qed
  ultimately show ?thesis
    using fd(1,3) by (intro exI [of _ "AList.delete fd al"]) (simp add: close_fds_def bnd_apply [of "open_file x" for x]
        bnd_apply [of "gets x" for x] seq_apply close_fd_eq)
qed

end
