(* ===== verification/Ssp_Properties.thy ===== *)
theory Ssp_Properties
  imports Ssp_Print Ssp_Child
begin

text \<open>
  The properties of the subprocess library \<open>ssp/src/ssp.c\<close>, each with an instance on a small run.
\<close>

section \<open>Runs\<close>

text \<open>
  The states that the functions of the library and the system lead to: a child ends, or
  an orphan (the library is a subreaper) becomes a child.  \<open>ssp_init\<close> comes first and once: it does not set \<open>ssp_id\<close>
  back, so that after a second call the slots up to \<open>ssp_id\<close> would be empty.
\<close>

inductive ssp_reachable :: "ssp \<Rightarrow> bool" where
  init: "ssp_init s0 = Inr (u, s) \<Longrightarrow> ssp_id s0 = -1 \<Longrightarrow> kids s0 = [] \<Longrightarrow> ssp_reachable s"
| create: "ssp_reachable s \<Longrightarrow> 0 < r \<Longrightarrow> r \<notin> fst ` set (kids s) \<Longrightarrow>
    ssp_create dir r argv fd0 fd1 fd2 s = Inr (x, s') \<Longrightarrow> ssp_reachable s'"
| get_status: "ssp_reachable s \<Longrightarrow> ssp_get_status i s = Inr (n, s') \<Longrightarrow> ssp_reachable s'"
| send_signal: "ssp_reachable s \<Longrightarrow> ssp_send_signal i g s = Inr (u, s') \<Longrightarrow> ssp_reachable s'"
| wait: "ssp_reachable s \<Longrightarrow> ssp_wait s = Inr (u, s') \<Longrightarrow> ssp_reachable s'"
| print: "ssp_reachable s \<Longrightarrow> ssp_print s = Inr (u, s') \<Longrightarrow> ssp_reachable s'"
| ends: "ssp_reachable s \<Longrightarrow>
    ssp_reachable (s\<lparr>kids := map (\<lambda>c. if c = (p, None) then (p, Some st) else c) (kids s)\<rparr>)"
| orphan: "ssp_reachable s \<Longrightarrow> 0 < p \<Longrightarrow> p \<notin> fst ` set (kids s) \<Longrightarrow> ssp_reachable (s\<lparr>kids := kids s @ [(p, e)]\<rparr>)"

lemma ssp_init_eq:
  assumes "0 < memory s"
  shows "ssp_init s = Inr ((), s\<lparr>processes_size := 100, processes := replicate 100 empty_slot, memory := memory s - 1,
    subreaper := True\<rparr>)"
proof -
  let ?s = "s\<lparr>processes_size := 100, memory := memory s - 1, processes := replicate 100 garbage\<rparr>"
  have "for_each (\<lambda>i. ssp_proc_init (int i)) [0..<100] ?s = Inr ((), ?s\<lparr>processes := replicate 100 empty_slot\<rparr>)"
    using init_slots [of 0 100 ?s] by simp
  then show ?thesis using assms
    by (simp add: ssp_init_def alloc_table_def seq_apply bnd_apply del: replicate.simps upt_Suc)
qed

lemma ssp_init_ok:
  assumes "ssp_init s0 = Inr (u, s)" "ssp_id s0 = -1" "kids s0 = []"
  shows "table_ok s"
proof -
  have "0 < memory s0"
  proof (rule ccontr)
    assume "\<not> 0 < memory s0"
    then show False using assms(1) by (simp add: ssp_init_def alloc_table_def die_with_def seq_apply bnd_apply)
  qed
  then show ?thesis using assms by (auto simp: ssp_init_eq table_ok_def empty_slot_def)
qed

text \<open>Every reachable state satisfies the invariant.\<close>

lemma reachable_table_ok: "ssp_reachable s \<Longrightarrow> table_ok s"
proof (induction rule: ssp_reachable.induct)
  case (init s0 u s)
  then show ?case by (rule ssp_init_ok)
next
  case (create s r dir argv fd0 fd1 fd2 x s')
  then show ?case using keeps_create by blast
next
  case (ends s p st)
  have "map fst (map (\<lambda>c. if c = (p, None) then (p, Some st) else c) (kids s)) = map fst (kids s)" by simp
  with ends.IH show ?case by (rule table_ok_same_kids)
next
  case (orphan s p e)
  then show ?case by (auto simp: table_ok_def)
qed (blast dest: keepsD [OF keeps_get_status] keepsD [OF keeps_send_signal] keepsD [OF keeps_wait]
    keepsD [OF keeps_print])+

text \<open>
  C22. The table is always well formed.  Whatever sequence of calls a program makes after one call of \<open>ssp_init\<close>, the first of
  the library, and however its children end and orphans arrive between them, the table has the size the library believes, the slots up to
  \<open>ssp_id\<close> hold a process number and the later ones -1, and every status is -1 or fits a byte.
\<close>
theorem ssp_reachable_table:
  assumes "ssp_reachable s"
  shows "processes_size s = int (length (processes s)) \<and> -1 \<le> ssp_id s \<and> ssp_id s < processes_size s \<and>
    (\<forall>i < length (processes s).
       (if int i \<le> ssp_id s then 0 < pid (processes s ! i) else pid (processes s ! i) = -1) \<and>
       -1 \<le> status (processes s ! i) \<and> status (processes s ! i) \<le> 255)"
  using reachable_table_ok [OF assms] by (simp add: table_ok_def)

text \<open>A program that has just called \<open>ssp_init\<close>.\<close>

definition ssp_started :: ssp where
  "ssp_started = \<lparr>processes = replicate 100 empty_slot, processes_size = 100, ssp_id = -1, kids = [],
     fate = (\<lambda>p. if p = 50 then Some (exit_word 3) else if p = 51 then Some (signal_word 9 False) else None),
     signals = [], fds = [(0, 10), (1, 11), (2, 12), (5, 15), (7, 17), (8, 18)], fd_limit = 20, exec_errno = 0,
     subreaper = True, memory = 9, errno = 0, printed = [], messages = []\<rparr>"

lemma ssp_started_reachable: "ssp_reachable ssp_started"
proof (rule ssp_reachable.init)
  show "ssp_init (ssp_started\<lparr>processes := [], processes_size := 0, subreaper := False, memory := 10\<rparr>) = Inr ((), ssp_started)"
    by (subst ssp_init_eq) (simp_all add: ssp_started_def del: replicate.simps)
qed (simp_all add: ssp_started_def)

text \<open>The state after a call that returns.\<close>

definition result :: "(ssp, 'a) prog \<Rightarrow> ssp \<Rightarrow> ssp" where
  "result m s = (case m s of Inl e \<Rightarrow> s | Inr (_, s') \<Rightarrow> s')"

definition returns :: "(ssp, 'a) prog \<Rightarrow> ssp \<Rightarrow> bool" where
  "returns m s \<longleftrightarrow> (case m s of Inl e \<Rightarrow> False | Inr _ \<Rightarrow> True)"

lemma result_eq: "returns m s \<Longrightarrow> \<exists>x. m s = Inr (x, result m s)"
  by (auto simp: returns_def result_def split: sum.splits)

text \<open>Two processes, created one after the other; the first one has ended.\<close>

definition one :: ssp where
  "one = result (ssp_create 0 50 [''true''] 0 1 2) ssp_started"

definition two :: ssp where
  "two = result (ssp_create 0 51 [''sleep'', ''9''] 0 1 2) one"

definition two_ended :: ssp where
  "two_ended = two\<lparr>kids := map (\<lambda>c. if c = (50, None) then (50, Some (exit_word 3)) else c) (kids two)\<rparr>"

lemma two_reachable: "ssp_reachable two"
proof -
  have "returns (ssp_create 0 50 [''true''] 0 1 2) ssp_started" "returns (ssp_create 0 51 [''sleep'', ''9''] 0 1 2) one"
    by code_simp+
  then obtain x y where x: "ssp_create 0 50 [''true''] 0 1 2 ssp_started = Inr (x, one)"
      and y: "ssp_create 0 51 [''sleep'', ''9''] 0 1 2 one = Inr (y, two)"
    using result_eq unfolding one_def two_def by blast
  have kids: "kids ssp_started = []" "map fst (kids one) = [50]" by (simp add: ssp_started_def) code_simp
  have "ssp_reachable one" using ssp_started_reachable _ _ x by (rule ssp_reachable.create) (simp_all add: kids)
  then show ?thesis using _ _ y
    by (rule ssp_reachable.create) (use kids(2) in \<open>simp_all flip: set_map\<close>)
qed

lemma ssp_reachable_table_witness:
  "processes_size two = int (length (processes two)) \<and> ssp_id two = 1"
  using ssp_reachable_table [OF two_reachable] by (rule conjI [OF conjunct1]) code_simp

section \<open>Statuses\<close>

text \<open>
  C31. Decoding a status.  For every exit code below 256, and every signal from 1 to 126 with or without a core dump,
  \<open>ssp_exit\<close> with the status word the kernel makes of it stores the code, or 128 plus the signal, in
  the slot and changes nothing else.
\<close>
theorem ssp_exit_decodes:
  assumes "i < length (processes s)"
  shows "(\<forall>c \<in> {0..<256}. ssp_exit (int i) (exit_word c) s =
      Inr ((), s\<lparr>processes := (processes s)[i := (processes s ! i)\<lparr>status := int c\<rparr>]\<rparr>)) \<and>
    (\<forall>g \<in> {1..<127}. \<forall>core. ssp_exit (int i) (signal_word g core) s =
      Inr ((), s\<lparr>processes := (processes s)[i := (processes s ! i)\<lparr>status := 128 + int g\<rparr>]\<rparr>))"
  using assms decode_words by (simp add: ssp_exit_eq)

lemma ssp_exit_decodes_witness:
  "ssp_exit (int 0) (signal_word 9 True) two =
     Inr ((), two\<lparr>processes := (processes two)[0 := (processes two ! 0)\<lparr>status := 128 + int 9\<rparr>]\<rparr>)"
proof -
  have "0 < length (processes two)" by code_simp
  moreover have "(9::nat) \<in> {1..<127}" by simp
  ultimately show ?thesis using ssp_exit_decodes [of 0 two] by blast
qed

text \<open>
  C15. Waiting for all processes.  Let no two slots in use hold the same number, and let every process in
  the table be a child that has ended or will end by an exit or a signal, or one that has been waited for
  already and has its status.  Then \<open>ssp_wait\<close> returns: every process has the status its end
  stands for (the others keep theirs), all between 0 and 255, and these children, and no others, are gone.
\<close>
theorem ssp_wait_collects:
  assumes "table_ok s" "pids_distinct s"
    and "\<forall>x \<in> set (used s). (map_of (kids s) (pid x) = None \<and> 0 \<le> status x) \<or>
      (\<exists>st. word_of s (pid x) = Some st \<and> final st)"
  shows "\<exists>s'. ssp_wait s = Inr ((), s') \<and> used s' = map (collect s) (used s) \<and>
    (\<forall>x \<in> set (used s'). 0 \<le> status x \<and> status x \<le> 255) \<and>
    kids s' = filter (\<lambda>c. fst c \<notin> pid ` set (used s)) (kids s)"
proof -
  obtain e where e: "ssp_wait s = Inr ((), collected (length (processes s)) e s)"
      "used (collected (length (processes s)) e s) = map (collect s) (used s)"
    using ssp_wait_result [OF assms] by blast
  have "0 \<le> status (collect s x) \<and> status (collect s x) \<le> 255" if "x \<in> set (used s)" for x
  proof -
    have "x \<in> set (processes s)" using that by (auto simp: used_def dest: in_set_takeD)
    then have "status x \<le> 255" using table_okD(6) [OF assms(1)] by (metis in_set_conv_nth)
    then show ?thesis using assms(3) that decode_final by (auto simp: collect_def word_of_def split: option.splits)
  qed
  moreover have "fst c \<in> pid ` set (processes s) \<longleftrightarrow> fst c \<in> pid ` set (used s)" if "c \<in> set (kids s)" for c
    using table_okD(9) [OF assms(1) that] used_slots [OF assms(1)] by (force simp: used_def dest: in_set_takeD)
  then have "filter (\<lambda>c. fst c \<notin> pid ` set (processes s)) (kids s) = filter (\<lambda>c. fst c \<notin> pid ` set (used s)) (kids s)"
    by (intro filter_cong refl) simp
  then have "kids (collected (length (processes s)) e s) = filter (\<lambda>c. fst c \<notin> pid ` set (used s)) (kids s)"
    by (simp add: collected_def)
  ultimately show ?thesis using e by auto
qed

lemma two_ok: "table_ok two" "table_ok two_ended"
  unfolding two_ended_def using two_reachable by (blast intro: reachable_table_ok ssp_reachable.ends)+

lemma two_ended_facts:
  "used two_ended = [\<lparr>pid = 50, name = Some ''true'', status = -1\<rparr>, \<lparr>pid = 51, name = Some ''sleep'', status = -1\<rparr>]"
  "kids two_ended = [(50, Some (exit_word 3)), (51, None)]" "fate two_ended 51 = Some (signal_word 9 False)"
  "memory two_ended = 7" "ssp_id two_ended = 1"
  by code_simp+

lemma ssp_wait_collects_witness:
  "\<exists>s'. ssp_wait two_ended = Inr ((), s') \<and> map status (used s') = [3, 137] \<and> kids s' = []"
proof -
  have words: "word_of two_ended 50 = Some (exit_word 3)" "word_of two_ended 51 = Some (signal_word 9 False)"
    by (simp_all add: word_of_def two_ended_facts)
  moreover have "pids_distinct two_ended" by (simp add: pids_distinct_def two_ended_facts)
  moreover have "final (exit_word 3)" "final (signal_word 9 False)"
      "decode (exit_word 3) (-1) = 3" "decode (signal_word 9 False) (-1) = 137"
    using decode_words(1) [of 3 "-1"] decode_words(2) [of 9 False "-1"] by simp_all
  ultimately show ?thesis
    using ssp_wait_collects [OF two_ok(2)] by (auto simp: two_ended_facts(1,2) collect_def)
qed

section \<open>Orphans\<close>

text \<open>
  C20. Collecting orphans.  Let the table be well formed, as it is in every reachable state, let there be memory to enlarge the
  table (one allocation for each orphan that has ended is enough), and let twice the last id they can get still be an \<open>int\<close>.  Then
  \<open>ssp_unknown\<close>, which \<open>ssp_print\<close> runs first, ends and takes away every child that has ended and no
  other.  Those the table does not know are added behind the processes in use, in the order
  the system reports them, with the name \<open><unknown>\<close> and their status; the slots already in use
  stay as they are, also those of children of the library that were taken away here, whose status is lost.
\<close>
theorem ssp_unknown_collects:
  assumes "table_ok s" "length (strangers s) \<le> memory s" "2 * (ssp_id s + int (length (strangers s))) < 2 ^ 31"
  shows "\<exists>s'. ssp_unknown s = Inr ((), s') \<and> table_ok s' \<and> kids s' = filter (\<lambda>c. snd c = None) (kids s) \<and>
    used s' = used s @ map (\<lambda>c. \<lparr>pid = fst c, name = Some ''<unknown>'', status = decode (the (snd c)) 0\<rparr>) (strangers s)"
proof -
  have "unknown_slot = (\<lambda>c. \<lparr>pid = fst c, name = Some ''<unknown>'', status = decode (the (snd c)) 0\<rparr>)"
    by (simp add: fun_eq_iff unknown_slot_def)
  then show ?thesis using ssp_unknown_result [of s] assms by (auto simp: enough_def)
qed

lemma ssp_unknown_collects_witness:
  "\<exists>s'. ssp_unknown (two_ended\<lparr>kids := kids two_ended @ [(60, Some (exit_word 7))]\<rparr>) = Inr ((), s') \<and> kids s' = [(51, None)] \<and>
     map status (used s') = [-1, -1, 7]"
proof -
  let ?s = "two_ended\<lparr>kids := kids two_ended @ [(60, Some (exit_word 7))]\<rparr>"
  have "ssp_reachable two_ended" unfolding two_ended_def by (rule ssp_reachable.ends [OF two_reachable])
  then have "ssp_reachable ?s" by (rule ssp_reachable.orphan) (simp_all add: two_ended_facts)
  then have "table_ok ?s" by (rule reachable_table_ok)
  moreover have "strangers ?s = [(60, Some (exit_word 7))]" "used ?s = used two_ended"
    using two_ended_facts(1,2) by (simp_all add: strangers_def ended_def used_def)
  moreover have "decode (exit_word 7) 0 = 7" using decode_words(1) [of 7 0] by simp
  ultimately show ?thesis
    using ssp_unknown_collects [of ?s] by (auto simp: two_ended_facts)
qed

text \<open>A child that has ended and is taken away: a status asked for later is the one in the table.\<close>

lemma status_lost:
  assumes ok: "table_ok s" "table_ok t" and "used t = used s @ xs" "kids t = filter (\<lambda>c. snd c = None) (kids s)"
    and i: "int i \<le> ssp_id s" "map_of (kids s) (pid (used s ! i)) = Some (Some st)"
  shows "\<exists>s'. ssp_get_status (int i) s = Inr (decode st (status (used s ! i)), s')"
    and "\<exists>t'. ssp_get_status (int i) t = Inr (status (used s ! i), t')"
proof -
  have len: "i < length (used s)" using length_used [OF ok(1)] i(1) by linarith
  then have id: "int i \<le> ssp_id t" using length_used [OF ok(2)] by (simp add: assms(3))
  then have "processes t ! i = used s ! i" using len used_nth [of i t] by (simp add: assms(3) nth_append)
  moreover have "(pid (used s ! i), None) \<notin> set (kids s)"
    using map_of_is_SomeI [OF table_okD(8) [OF ok(1)]] i(2) by fastforce
  then have "map_of (kids t) (pid (used s ! i)) = None" by (force simp: assms(4) map_of_eq_None_iff)
  ultimately show "\<exists>t'. ssp_get_status (int i) t = Inr (status (used s ! i), t')"
    using ssp_get_status_result [OF ok(2) id refl] by auto
  show "\<exists>s'. ssp_get_status (int i) s = Inr (decode st (status (used s ! i)), s')"
    using ssp_get_status_result [OF ok(1) i(1) refl] i(2) used_nth [OF i(1)] by auto
qed

text \<open>
  C37. Printing, and what it loses.  If the processes in use have names, and there is memory for the orphans, \<open>ssp_print\<close> prints
  the header and one line for each process in use, in the order of the ids, and for each orphan it has just added, in columns as
  wide as the longest name; the statuses are those in the table.  Every child of the library that has ended is taken
  away meanwhile and its status with it: \<open>ssp_get_status\<close> returned its status before, and returns what the table held
  (-1, if nobody asked) after.
\<close>
theorem ssp_print_loses_status:
  assumes "table_ok s" "named s" "length (strangers s) \<le> memory s" "2 * (ssp_id s + int (length (strangers s))) < 2 ^ 31"
  shows "\<exists>s'. ssp_print s = Inr ((), s') \<and>
    used s' = used s @ map (\<lambda>c. \<lparr>pid = fst c, name = Some ''<unknown>'', status = decode (the (snd c)) 0\<rparr>) (strangers s) \<and>
    printed s' = printed s @ header_line (width (used s')) # map (process_line (width (used s'))) (used s') \<and>
    (\<forall>i st. int i \<le> ssp_id s \<longrightarrow> map_of (kids s) (pid (used s ! i)) = Some (Some st) \<longrightarrow>
      (\<exists>t. ssp_get_status (int i) s = Inr (decode st (status (used s ! i)), t)) \<and>
      (\<exists>t. ssp_get_status (int i) s' = Inr (status (used s ! i), t)))"
proof -
  have slot: "unknown_slot = (\<lambda>c. \<lparr>pid = fst c, name = Some ''<unknown>'', status = decode (the (snd c)) 0\<rparr>)"
    by (simp add: fun_eq_iff unknown_slot_def)
  have "enough s (length (strangers s))" using assms(3,4) by (simp add: enough_def)
  from ssp_print_result [OF assms(1,2) this] obtain s' where s': "ssp_print s = Inr ((), s')" "table_ok s'"
      "kids s' = filter (\<lambda>c. snd c = None) (kids s)" "used s' = used s @ map unknown_slot (strangers s)"
      "printed s' = printed s @ header_line (width (used s')) # map (process_line (width (used s'))) (used s')" by blast
  note lost = status_lost [OF assms(1) s'(2,4,3)]
  show ?thesis using s'(1,5) lost by (intro exI [of _ s']) (auto simp: s'(4) slot)
qed

lemma ssp_print_loses_status_witness:
  "\<exists>s' t t'. ssp_print two_ended = Inr ((), s') \<and>
     printed s' = [''    PID CMD   STATUS'', ''     50 true  -1'', ''     51 sleep -1''] \<and>
     ssp_get_status 0 two_ended = Inr (3, t) \<and> ssp_get_status 0 s' = Inr (-1, t')"
proof -
  have none: "strangers two_ended = []" "printed two_ended = []" by code_simp+
  have lines: "header_line (width (used two_ended)) = ''    PID CMD   STATUS''"
      "map (process_line (width (used two_ended))) (used two_ended) = [''     50 true  -1'', ''     51 sleep -1'']"
    by code_simp+
  have ended: "map_of (kids two_ended) (pid (used two_ended ! 0)) = Some (Some (exit_word 3))"
      "status (used two_ended ! 0) = -1" "int 0 \<le> ssp_id two_ended" "decode (exit_word 3) (-1) = 3"
    using decode_words(1) [of 3 "-1"] by (simp_all add: two_ended_facts)
  have "named two_ended" by (simp add: named_def two_ended_facts)
  from ssp_print_loses_status [OF two_ok(2) this] obtain s' where s': "ssp_print two_ended = Inr ((), s')"
      "used s' = used two_ended"
      "printed s' = printed two_ended @ header_line (width (used s')) # map (process_line (width (used s'))) (used s')"
      "(\<exists>t. ssp_get_status (int 0) two_ended = Inr (decode (exit_word 3) (status (used two_ended ! 0)), t)) \<and>
       (\<exists>t. ssp_get_status (int 0) s' = Inr (status (used two_ended ! 0), t))"
    using ended(1,3) none two_ended_facts(4,5) by fastforce
  then show ?thesis using lines none(2) ended(2,4) by auto
qed

text \<open>Then \<open>ssp_wait\<close> ends the program with status 1.\<close>

lemma ssp_wait_after_print: "case seq ssp_print ssp_wait two_ended of Inl e \<Rightarrow> e = Exit 1 | _ \<Rightarrow> False"
  by code_simp

section \<open>Signals\<close>

text \<open>
  A signal goes to the last process created.  Whatever id below the size of the table is given, \<open>ssp_send_signal\<close>
  sends the signal to the process of \<open>ssp_id\<close>, when that one is still a child; and when it has been waited
  for, the call ends the program with \<open>ESRCH\<close>.  The result never depends on the id.
\<close>
theorem ssp_send_signal_last:
  assumes "table_ok s" "0 \<le> ssp_id s" "i < processes_size s" "0 \<le> g" "g \<le> 64"
  shows "let p = pid (processes s ! nat (ssp_id s)) in
    if map_of (kids s) p = None then ssp_send_signal i g s = Inl (Exit 3)
    else ssp_send_signal i g s = Inr ((), s\<lparr>signals := signals s @ [(p, g)]\<rparr>)"
proof -
  obtain k where k: "ssp_id s = int k" using assms(2) by (metis nonneg_int_cases)
  then have len: "k < length (processes s)" using table_okD(1,3) [OF assms(1)] by simp
  then have "0 < pid (processes s ! k)" using table_okD(4) [OF assms(1)] k by simp
  then show ?thesis using assms k len
    by (auto simp: ssp_send_signal_def bnd_apply seq_apply kill_def error_check_def die_with_def Let_def)
qed

lemma ssp_send_signal_last_witness:
  "ssp_send_signal 0 15 two = Inr ((), two\<lparr>signals := signals two @ [(51, 15)]\<rparr>)"
proof -
  have "ssp_id two = 1" "processes_size two = 100" "pid (processes two ! 1) = 51" "map_of (kids two) 51 \<noteq> None"
    by code_simp+
  then show ?thesis using ssp_send_signal_last [OF two_ok(1), of 0 15] by (simp add: Let_def)
qed

section \<open>The child\<close>

text \<open>
  C21. The descriptors of the program.  In the child of \<open>fork\<close>, whose open descriptors are distinct and not negative, let the three descriptors given be open, the second not 0 and
  the third neither 0 nor 1 (which the earlier copies overwrite), the limit of descriptors above 2, \<open>argv\<close> not
  empty, and let \<open>execvp\<close> succeed.  If a descriptor above 2 is free, the program starts with exactly three open
  descriptors, 0, 1 and 2, for the files that were given, whatever else was open in the parent; the
  directory that is opened to find the others is closed too.  If none is free, that directory cannot be opened,
  and the child exits with 9, the error of \<open>fdopendir\<close> on -1.
\<close>
theorem ssp_create_child_fds:
  assumes "fds_ok (fds s)" "2 < fd_limit s" "exec_errno s = 0" "argv \<noteq> []"
    and "map_of (fds s) fd0 = Some f0" "map_of (fds s) fd1 = Some f1" "map_of (fds s) fd2 = Some f2"
    and "fd1 \<noteq> 0" "fd2 \<noteq> 0" "fd2 \<noteq> 1"
  shows "if \<exists>k > 2. fd_free s k
    then \<exists>s'. ssp_create dir 0 argv fd0 fd1 fd2 s = Inr (Becomes argv, s') \<and>
      (\<forall>k. map_of (fds s') k = (if k = 0 then Some f0 else if k = 1 then Some f1 else if k = 2 then Some f2 else None))
    else ssp_create dir 0 argv fd0 fd1 fd2 s = Inl (Exit 9)"
proof -
  let ?al3 = "AList.update 2 f2 (AList.update 1 f1 (AList.update 0 f0 (fds s)))"
  let ?s = "s\<lparr>fds := ?al3\<rparr>"
  have set: "set_fds fd0 fd1 fd2 s = Inr ((), ?s)"
    using assms by (simp add: set_fds_def seq_apply dup2_eq update_conv')
  have ok: "fds_ok ?al3" using assms(1) by (intro fds_ok_update) simp_all
  have same: "fd_free ?s k \<longleftrightarrow> 2 < k \<and> fd_free s k" for k
    by (cases "k = 0"; cases "k = 1"; cases "k = 2") (auto simp: fd_free_def update_conv')
  show ?thesis
  proof (cases "\<exists>k > 2. fd_free s k")
    case True
    then obtain k0 where "fd_free ?s k0" using same by blast
    then obtain al where al: "close_fds dir ?s = Inr ((), ?s\<lparr>fds := al\<rparr>)"
        "\<And>k. map_of al k = (if 2 < k then None else map_of ?al3 k)"
      using close_fds_eq [of ?s k0 dir] ok by auto
    have neg: "map_of (fds s) k = None" if "k < 0" for k
      using assms(1) that by (force simp: fds_ok_def map_of_eq_None_iff)
    have "map_of al k = (if k = 0 then Some f0 else if k = 1 then Some f1 else if k = 2 then Some f2 else None)" for k
      using neg [of k] by (auto simp: al(2) update_conv')
    then show ?thesis
      using True set al(1) assms(3,4)
      by (auto simp: ssp_create_def fork_result_def error_check_def bnd_apply [of "gets g" for g] bnd_apply [of "ret x" for x] seq_apply)
  next
    case False
    then have "close_fds dir ?s = Inl (Exit 9)" using same by (intro close_fds_full) blast
    then show ?thesis using False set
      by (simp add: ssp_create_def fork_result_def error_check_def bnd_apply seq_apply)
  qed
qed

lemma ssp_create_child_fds_witness:
  "(\<exists>s'. ssp_create 99 0 [''cat''] 5 1 7 ssp_started = Inr (Becomes [''cat''], s') \<and>
     map_of (fds s') 0 = Some 15 \<and> map_of (fds s') 1 = Some 11 \<and> map_of (fds s') 2 = Some 17 \<and> map_of (fds s') 5 = None) \<and>
   ssp_create 99 0 [''cat''] 0 1 2 (ssp_started\<lparr>fds := [(0, 10), (1, 11), (2, 12), (3, 13)], fd_limit := 4\<rparr>) = Inl (Exit 9)"
proof -
  let ?t = "ssp_started\<lparr>fds := [(0, 10), (1, 11), (2, 12), (3, 13)], fd_limit := 4\<rparr>"
  have s: "fds_ok (fds ssp_started)" "2 < fd_limit ssp_started" "exec_errno ssp_started = 0" "fd_free ssp_started 3"
      "map_of (fds ssp_started) 5 = Some 15" "map_of (fds ssp_started) 1 = Some 11" "map_of (fds ssp_started) 7 = Some 17"
    by (simp_all add: ssp_started_def fds_ok_def fd_free_def)
  have t: "fds_ok (fds ?t)" "2 < fd_limit ?t" "exec_errno ?t = 0"
      "map_of (fds ?t) 0 = Some 10" "map_of (fds ?t) 1 = Some 11" "map_of (fds ?t) 2 = Some 12"
    by (simp_all add: ssp_started_def fds_ok_def)
  have full: "\<not> (\<exists>k > 2. fd_free ?t k)" by (auto simp: fd_free_def split: if_splits)
  have "\<exists>k > 2. fd_free ssp_started k" using s(4) by (intro exI [of _ 3]) simp
  then have one: "\<exists>s'. ssp_create 99 0 [''cat''] 5 1 7 ssp_started = Inr (Becomes [''cat''], s') \<and>
      (\<forall>k. map_of (fds s') k = (if k = 0 then Some 15 else if k = 1 then Some 11 else if k = 2 then Some 17 else None))"
    using ssp_create_child_fds [OF s(1-3), of "[''cat'']" 5 15 1 11 7 17 99] s(5-7) by simp
  have "ssp_create 99 0 [''cat''] 0 1 2 ?t = Inl (Exit 9)"
    using ssp_create_child_fds [OF t(1-3), of "[''cat'']" 0 10 1 11 2 12 99] t(4-6) full by simp
  then show ?thesis using one by fastforce
qed

end
