(* ===== verification/Ssp_Programs.thy ===== *)
theory Ssp_Programs
  imports Ssp_Properties
begin

text \<open>
  A whole program over the subprocess library \<open>ssp/src/ssp.c\<close>: it creates any number of processes, waits for all of
  them and asks for the status of each.
\<close>

section \<open>Creating processes\<close>

text \<open>The processes \<open>cs\<close>, each with the number \<open>fork\<close> gives it and its arguments; they share the descriptors 0, 1 and 2.\<close>

primrec creates :: "nat \<Rightarrow> (int \<times> string list) list \<Rightarrow> (ssp, created list) prog" where
  "creates dir [] = ret []"
| "creates dir (c # cs) =
     bnd (ssp_create dir (fst c) (snd c) 0 1 2) (\<lambda>x. bnd (creates dir cs) (\<lambda>xs. ret (x # xs)))"

definition new_process :: "int \<times> string list \<Rightarrow> SSP_Process" where
  "new_process c = \<lparr>pid = fst c, name = Some (hd (snd c)), status = -1\<rparr>"

lemma create_returns:
  assumes ok: "table_ok s" and r: "0 < r" "r \<notin> fst ` set (kids s)" and "argv \<noteq> []" and mem: "2 * Suc n \<le> memory s"
    and size: "2 * (ssp_id s + 1) < 2 ^ 31"
  obtains s' where "ssp_create dir r argv fd0 fd1 fd2 s = Inr (Parent (ssp_id s + 1), s')" "table_ok s'"
    "kids s' = kids s @ [(r, None)]" "used s' = used s @ [new_process (r, argv)]" "fate s' = fate s"
    "ssp_id s' = ssp_id s + 1" "2 * n \<le> memory s'"
proof -
  let ?s = "s\<lparr>kids := kids s @ [(r, None)]\<rparr>"
  have ok': "table_ok ?s" using ok r by (auto simp: table_ok_def)
  have "room ?s" using mem size table_okD(3) [OF ok] by (auto simp: room_def)
  then have next_id: "next_id ?s = Inr ((), grown ?s)" by (rule next_id_eq [OF ok'])
  have mem': "2 * n < memory (grown ?s)" using grown_fields(8) [of ?s] mem by simp
  let ?t = "(grown ?s)\<lparr>memory := memory (grown ?s) - 1\<rparr>"
  note slot = grown_slot(1,2) [OF ok']
  have "ssp_proc_add (ssp_id s + 1) r (Some (hd argv)) (-1) ?t = Inr ((),
      ?t\<lparr>processes := (processes ?t)[nat (ssp_id s + 1) := \<lparr>pid = r, name = Some (hd argv), status = -1\<rparr>]\<rparr>)"
    using ssp_proc_add_eq [of "nat (ssp_id s + 1)" ?t] slot by simp
  then have "\<exists>s'. ssp_create dir r argv fd0 fd1 fd2 s = Inr (Parent (ssp_id s + 1), s') \<and> fate s' = fate s \<and>
      ssp_id s' = ssp_id s + 1 \<and> 2 * n \<le> memory s'"
    using next_id mem' r(1) \<open>argv \<noteq> []\<close>
    by (simp add: ssp_create_def fork_result_def error_check_def strdup_def bnd_apply seq_apply)
  then obtain s' where s': "ssp_create dir r argv fd0 fd1 fd2 s = Inr (Parent (ssp_id s + 1), s')" "fate s' = fate s"
      "ssp_id s' = ssp_id s + 1" "2 * n \<le> memory s'" by blast
  show thesis using keeps_create [OF ok r s'(1)] mem s' that by (auto simp: new_process_def)
qed

lemma creates_run:
  assumes "table_ok s" "distinct (map fst cs)" "2 * length cs \<le> memory s" "2 * (ssp_id s + int (length cs)) < 2 ^ 31"
    and "\<forall>c \<in> set cs. 0 < fst c \<and> snd c \<noteq> [] \<and> fst c \<notin> fst ` set (kids s)"
  shows "\<exists>s'. creates dir cs s = Inr (map (\<lambda>k. Parent (ssp_id s + 1 + int k)) [0..<length cs], s') \<and> table_ok s' \<and>
    kids s' = kids s @ map (\<lambda>c. (fst c, None)) cs \<and> used s' = used s @ map new_process cs \<and> fate s' = fate s"
  using assms
proof (induction cs arbitrary: s)
  case (Cons c cs)
  obtain s1 where 1: "ssp_create dir (fst c) (snd c) 0 1 2 s = Inr (Parent (ssp_id s + 1), s1)" "table_ok s1"
      "kids s1 = kids s @ [(fst c, None)]" "used s1 = used s @ [new_process c]" "fate s1 = fate s"
      "ssp_id s1 = ssp_id s + 1" "2 * length cs \<le> memory s1"
    using create_returns [OF Cons.prems(1), of "fst c" "snd c" "length cs" dir 0 1 2] Cons.prems(3-5) by auto
  have "fst d \<noteq> fst c" if "d \<in> set cs" for d using Cons.prems(2) that by (metis distinct.simps(2) image_eqI list.simps(9) set_map)
  then have "\<forall>c \<in> set cs. 0 < fst c \<and> snd c \<noteq> [] \<and> fst c \<notin> fst ` set (kids s1)"
    using Cons.prems(5) by (simp add: 1(3))
  then obtain s' where 2: "creates dir cs s1 = Inr (map (\<lambda>k. Parent (ssp_id s1 + 1 + int k)) [0..<length cs], s')"
      "table_ok s'" "kids s' = kids s1 @ map (\<lambda>c. (fst c, None)) cs" "used s' = used s1 @ map new_process cs"
      "fate s' = fate s1"
    using Cons.IH [OF 1(2) _ 1(7)] Cons.prems(2,4) 1(6) by auto
  have "Parent (ssp_id s + 1) # map (\<lambda>k. Parent (ssp_id s1 + 1 + int k)) [0..<length cs] =
      map (\<lambda>k. Parent (ssp_id s + 1 + int k)) [0..<length (c # cs)]"
    by (simp add: 1(6) upt_conv_Cons map_Suc_upt [symmetric] comp_def algebra_simps del: upt_Suc)
  then show ?case using 1 2 by (auto simp: bnd_apply)
qed (simp add: used_def)

section \<open>Asking for the statuses\<close>

primrec statuses :: "nat list \<Rightarrow> (ssp, int list) prog" where
  "statuses [] = ret []"
| "statuses (i # is) = bnd (ssp_get_status (int i)) (\<lambda>n. bnd (statuses is) (\<lambda>ns. ret (n # ns)))"

text \<open>A process that has been waited for keeps its status.\<close>

lemma get_status_gone:
  assumes ok: "table_ok s" and i: "int i \<le> ssp_id s" and gone: "map_of (kids s) (pid (processes s ! i)) = None"
  shows "\<exists>s'. ssp_get_status (int i) s = Inr (status (processes s ! i), s') \<and> table_ok s' \<and>
    processes s' = processes s \<and> ssp_id s' = ssp_id s \<and> kids s' = kids s"
proof -
  have len: "i < length (processes s)" using i table_okD(1,3) [OF ok] by linarith
  have "0 < pid (processes s ! i)" using table_okD(4) [OF ok len i] by simp
  then have "filter (matches (pid (processes s ! i))) (kids s) = []"
    using gone by (force simp: filter_empty_conv matches_def map_of_eq_None_iff)
  then have "\<exists>s'. ssp_get_status (int i) s = Inr (status (processes s ! i), s') \<and>
      processes s' = processes s \<and> ssp_id s' = ssp_id s \<and> kids s' = kids s"
    using len by (simp add: ssp_get_status_def ssp_check_exit_def seq_apply bnd_apply waitpid_nohang_def)
  then show ?thesis using keepsD [OF keeps_get_status ok] by blast
qed

lemma statuses_run:
  assumes "table_ok s" "\<forall>i \<in> set is. int i \<le> ssp_id s \<and> map_of (kids s) (pid (processes s ! i)) = None"
  shows "\<exists>s'. statuses is s = Inr (map (\<lambda>i. status (processes s ! i)) is, s') \<and> kids s' = kids s"
  using assms
proof (induction "is" arbitrary: s)
  case (Cons i "is")
  obtain s1 where 1: "ssp_get_status (int i) s = Inr (status (processes s ! i), s1)" "table_ok s1"
      "processes s1 = processes s" "ssp_id s1 = ssp_id s" "kids s1 = kids s"
    using get_status_gone [OF Cons.prems(1), of i] Cons.prems(2) by auto
  then show ?case using Cons.IH [OF 1(2)] Cons.prems(2) by (auto simp: bnd_apply)
qed simp

section \<open>The life of processes\<close>

text \<open>Waiting for the processes just created leaves the children the program had before.\<close>

lemma wait_created:
  assumes ok: "table_ok s" "table_ok t" and kids: "kids t = kids s @ map (\<lambda>c. (fst c, None)) cs"
    and used: "used t = map new_process cs" and dist: "distinct (map fst cs)"
    and ends: "\<forall>c \<in> set cs. fst c \<notin> fst ` set (kids s) \<and> (\<exists>st. word_of t (fst c) = Some st \<and> final st)"
  shows "\<exists>t'. ssp_wait t = Inr ((), t') \<and> table_ok t' \<and> used t' = map (collect t) (map new_process cs) \<and> kids t' = kids s"
proof -
  have pids: "pid ` set (used t) = fst ` set cs" by (simp add: used image_image new_process_def)
  have "pids_distinct t" using dist by (simp add: pids_distinct_def used comp_def new_process_def)
  moreover have "\<forall>x \<in> set (used t). \<exists>st. word_of t (pid x) = Some st \<and> final st"
    using ends by (auto simp: used new_process_def)
  ultimately obtain e where "ssp_wait t = Inr ((), collected (length (processes t)) e t)"
      "used (collected (length (processes t)) e t) = map (collect t) (used t)"
    using ssp_wait_result [OF ok(2)] by blast
  then obtain t' where t': "ssp_wait t = Inr ((), t')" "used t' = map (collect t) (used t)"
      "kids t' = filter (\<lambda>c. fst c \<notin> pid ` set (processes t)) (kids t)" by (auto simp: collected_def)
  have "pid ` set (processes t) \<subseteq> insert (-1) (fst ` set cs)" using used_slots [OF ok(2)] by (auto simp flip: pids)
  moreover have "fst ` set cs \<subseteq> pid ` set (processes t)" by (auto simp: used_def simp flip: pids dest: in_set_takeD)
  moreover have "fst d \<notin> insert (-1) (fst ` set cs)" if "d \<in> set (kids s)" for d
  proof
    note d = that
    assume "fst d \<in> insert (-1) (fst ` set cs)"
    then obtain c where "c \<in> set cs" "fst c = fst d" using table_okD(9) [OF ok(1) d] by force
    then show False using ends imageI [OF d, of fst] by metis
  qed
  ultimately have "filter (\<lambda>d. fst d \<notin> pid ` set (processes t)) (kids s) = kids s"
      "filter (\<lambda>d. fst d \<notin> pid ` set (processes t)) (map (\<lambda>c. (fst c, None)) cs) = []"
    unfolding filter_empty_conv by (blast intro: filter_True, force)
  then have "kids t' = kids s" unfolding t'(3) kids by simp
  then show ?thesis using t'(1,2) used keepsD [OF keeps_wait ok(2) t'(1)] by simp
qed

text \<open>The statuses of processes that were all waited for, and whose slots come first.\<close>

lemma statuses_used:
  assumes ok: "table_ok s" and gone: "\<forall>x \<in> set (used s). map_of (kids s) (pid x) = None"
  shows "\<exists>s'. statuses [0..<length (used s)] s = Inr (map status (used s), s') \<and> kids s' = kids s"
proof -
  have slot: "int i \<le> ssp_id s \<and> processes s ! i = used s ! i" if "i < length (used s)" for i
    using that table_okD(1-3) [OF ok] by (auto simp: used_def)
  then have "\<forall>i \<in> set [0..<length (used s)]. int i \<le> ssp_id s \<and> map_of (kids s) (pid (processes s ! i)) = None"
    using gone by simp
  from statuses_run [OF ok this] obtain s'
    where "statuses [0..<length (used s)] s = Inr (map (\<lambda>i. status (processes s ! i)) [0..<length (used s)], s')"
      "kids s' = kids s" by blast
  moreover have "map (\<lambda>i. status (processes s ! i)) [0..<length (used s)] = map status (used s)"
    using slot by (intro nth_equalityI) simp_all
  ultimately show ?thesis by simp
qed

text \<open>
  C14. Create, wait and ask.  A program that has created no process yet creates any number of them, as far as memory and the
  size of the table go, each of which will end by an exit or a signal.  Then it waits for all of them and asks for each
  status.  Every call returns: the ids are 0, 1, 2 and so on, the status of each process is the one its end
  stands for, and of the children of the program only those are left that it had before.
\<close>
theorem ssp_create_wait_status:
  assumes "ssp_reachable s" "ssp_id s = -1" "distinct (map fst cs)"
    and "\<forall>c \<in> set cs. 0 < fst c \<and> snd c \<noteq> [] \<and> fst c \<notin> fst ` set (kids s) \<and> (\<exists>st. fate s (fst c) = Some st \<and> final st)"
    and "2 * length cs \<le> memory s" "2 * int (length cs) < 2 ^ 31"
  shows "\<exists>s'. bnd (creates dir cs) (\<lambda>xs. seq ssp_wait (bnd (statuses [0..<length cs]) (\<lambda>ns. ret (xs, ns)))) s =
      Inr ((map (\<lambda>k. Parent (int k)) [0..<length cs], map (\<lambda>c. decode (the (fate s (fst c))) (-1)) cs), s') \<and>
    kids s' = kids s"
proof -
  have ok: "table_ok s" by (rule reachable_table_ok [OF assms(1)])
  obtain s1 where 1: "creates dir cs s = Inr (map (\<lambda>k. Parent (int k)) [0..<length cs], s1)" "table_ok s1"
      "kids s1 = kids s @ map (\<lambda>c. (fst c, None)) cs" "used s1 = map new_process cs" "fate s1 = fate s"
    using creates_run [OF ok assms(3,5), of dir] assms(2,4,6) by (auto simp: used_def)
  have word: "word_of s1 (fst c) = fate s (fst c)" if "c \<in> set cs" for c
  proof -
    have "(fst c, None) \<in> set (kids s1)" using that by (auto simp: 1(3))
    then have "map_of (kids s1) (fst c) = Some None" using table_okD(8) [OF 1(2)] by (intro map_of_is_SomeI)
    then show ?thesis by (simp add: word_of_def 1(5))
  qed
  then obtain s2 where 2: "ssp_wait s1 = Inr ((), s2)" "table_ok s2" "used s2 = map (collect s1) (map new_process cs)"
      "kids s2 = kids s"
    using wait_created [OF ok 1(2-4) assms(3)] assms(4) by auto
  have "\<forall>x \<in> set (used s2). map_of (kids s2) (pid x) = None"
    using assms(4) by (auto simp: 2(3,4) new_process_def map_of_eq_None_iff)
  from statuses_used [OF 2(2) this] obtain s'
    where s': "statuses [0..<length cs] s2 = Inr (map status (used s2), s')" "kids s' = kids s"
    by (auto simp: 2(3,4))
  have "map status (used s2) = map (\<lambda>c. decode (the (fate s (fst c))) (-1)) cs"
    using assms(4) word by (auto simp: 2(3) collect_def new_process_def)
  then show ?thesis using 1(1) 2(1) s' by (simp add: bnd_apply seq_apply)
qed

text \<open>Two processes: the first exits with 3, the second is ended by signal 9.\<close>

lemma ssp_create_wait_status_witness:
  "\<exists>s'. bnd (creates 0 [(50, [''true'']), (51, [''sleep'', ''9''])]) (\<lambda>xs.
      seq ssp_wait (bnd (statuses [0, 1]) (\<lambda>ns. ret (xs, ns)))) ssp_started =
    Inr (([Parent 0, Parent 1], [3, 137]), s') \<and> kids s' = []"
proof -
  let ?cs = "[(50, [''true'']), (51, [''sleep'', ''9''])] :: (int \<times> string list) list"
  have started: "ssp_id ssp_started = -1" "kids ssp_started = []" "memory ssp_started = 9"
      "fate ssp_started 50 = Some (exit_word 3)" "fate ssp_started 51 = Some (signal_word 9 False)"
    by (simp_all add: ssp_started_def)
  have words: "final (exit_word 3)" "final (signal_word 9 False)"
      "decode (exit_word 3) (-1) = 3" "decode (signal_word 9 False) (-1) = 137"
    using decode_words(1) [of 3 "-1"] decode_words(2) [of 9 False "-1"] by simp_all
  have "\<forall>c \<in> set ?cs. 0 < fst c \<and> snd c \<noteq> [] \<and> fst c \<notin> fst ` set (kids ssp_started) \<and>
      (\<exists>st. fate ssp_started (fst c) = Some st \<and> final st)"
    using words(1,2) by (simp add: started)
  moreover have "[0..<length ?cs] = [0, 1]" by (simp add: upt_rec)
  ultimately show ?thesis
    using ssp_create_wait_status [OF ssp_started_reachable, of ?cs 0] by (simp add: started words)
qed

end
