(* ===== verification/Tps_List.thy ===== *)
theory Tps_List
  imports Prelude "HOL-Library.Char_ord"
begin

text \<open>
  The process lister \<open>tps/src/main.c\<close>: what it does with the entries of \<open>/proc\<close>.

  The entries, with what \<open>stat\<close>, \<open>open\<close>, \<open>read\<close> and \<open>close\<close> answer for each of them, are the input.  The
  4096 bytes of the array \<open>file\<close> are part of the state, since one entry's text stays in it
  for the next.  \<open>PrintProcName\<close> stores a character behind the end of its array, whatever the
  process, so that C gives the program no meaning from the first line of its list on.
\<close>

section \<open>Characters and strings\<close>

abbreviation NUL :: char where "NUL \<equiv> CHR 0x00"
abbreviation newline :: char where "newline \<equiv> CHR 0x0A"
abbreviation tab :: char where "tab \<equiv> CHR 0x09"

definition isdigit :: "char \<Rightarrow> bool" where
  "isdigit c \<longleftrightarrow> 48 \<le> (of_char c :: nat) \<and> (of_char c :: nat) \<le> 57"

definition isspace :: "char \<Rightarrow> bool" where
  "isspace c \<longleftrightarrow> c = CHR '' '' \<or> 9 \<le> (of_char c :: nat) \<and> (of_char c :: nat) \<le> 13"

text \<open>The string at the start of an array, if it ends in the array.\<close>

definition c_string :: "string \<Rightarrow> string option" where
  "c_string buf = (if NUL \<in> set buf then Some (takeWhile (\<lambda>c. c \<noteq> NUL) buf) else None)"

fun strstr :: "string \<Rightarrow> string \<Rightarrow> string option" where
  "strstr [] needle = (if needle = [] then Some [] else None)"
| "strstr (c # cs) needle = (if take (length needle) (c # cs) = needle then Some (c # cs) else strstr cs needle)"

section \<open>The state and the input\<close>

definition MAX_BUFF :: nat where "MAX_BUFF = 4096"

record tps =
  printed :: "string list"
  messages :: "string list"
  file_buf :: string

datatype status_file =
    Cannot_open
  | Cannot_read
  | Content string bool   \<comment> \<open>the text, and whether \<open>close\<close> succeeds\<close>

record dirent =
  d_name :: string
  is_dir :: "bool option"   \<comment> \<open>\<open>None\<close> when \<open>stat\<close> fails\<close>
  contents :: status_file

definition tps_perror :: "string \<Rightarrow> (tps, unit) prog" where
  "tps_perror msg = upd (\<lambda>s. s\<lparr>messages := messages s @ [msg]\<rparr>)"

section \<open>The program\<close>

primrec isNumeric :: "string \<Rightarrow> bool" where
  "isNumeric [] = True"
| "isNumeric (c # cs) = (isdigit c \<and> isNumeric cs)"

definition GetFirstLine :: "string \<Rightarrow> nat \<Rightarrow> string" where
  "GetFirstLine buf bytes_read = (case first_index (\<lambda>c. c = newline) (take bytes_read buf) of
     None \<Rightarrow> buf | Some i \<Rightarrow> buf[i := NUL])"

text \<open>When \<open>strstr\<close> finds nothing, 5 is added to a null pointer, which the loop dereferences.\<close>

definition GetProcName :: "string \<Rightarrow> stop + string" where
  "GetProcName line = (case strstr line ''Name:'' of
     None \<Rightarrow> Inl Fault
   | Some l \<Rightarrow> Inr (dropWhile (\<lambda>c. isspace c \<or> c = tab) (drop 5 l)))"

text \<open>
  The array \<open>space\<close> has \<open>space_len\<close> elements, a number that must be positive.  A store at an index outside of
  an array is undefined.
\<close>

definition store_space :: "nat \<Rightarrow> char \<Rightarrow> string \<Rightarrow> (tps, string) prog" where
  "store_space i c a = (if i < length a then ret (a[i := c]) else stop Undefined)"

primrec blanks :: "nat \<Rightarrow> string \<Rightarrow> (tps, string) prog" where
  "blanks 0 space = ret space"
| "blanks (Suc i) space = bnd (blanks i space) (store_space i CHR '' '')"

definition PrintProcName :: "string \<Rightarrow> string \<Rightarrow> (tps, unit) prog" where
  "PrintProcName p name =
     (let space_len = 5 - int (length p) in
      seq (check Undefined (\<lambda>_. 0 < space_len))
     (bnd (blanks (nat space_len) (replicate (nat space_len) NUL)) (\<lambda>space.
      bnd (store_space (nat space_len) NUL space) (\<lambda>space.
      case c_string space of
        None \<Rightarrow> stop Undefined
      | Some sp \<Rightarrow> upd (\<lambda>s. s\<lparr>printed := printed s @ [sp @ p @ '' '' @ name]\<rparr>)))))"

definition is_process :: "dirent \<Rightarrow> bool" where
  "is_process e \<longleftrightarrow> is_dir e = Some True \<and> isNumeric (d_name e)"

definition show_entry :: "dirent \<Rightarrow> (tps, unit) prog" where
  "show_entry e =
     (if \<not> is_process e then skip
      else case contents e of
        Cannot_open \<Rightarrow> tps_perror ''Unable to open status file.''
      | Cannot_read \<Rightarrow> tps_perror ''Unable to read status file.''
      | Content text close_ok \<Rightarrow>
          let bytes_read = min MAX_BUFF (length text) in
          seq (upd (\<lambda>s. s\<lparr>file_buf := take bytes_read text @ drop bytes_read (file_buf s)\<rparr>))
         (seq (upd (\<lambda>s. s\<lparr>file_buf := GetFirstLine (file_buf s) bytes_read\<rparr>))
         (if \<not> close_ok then tps_perror ''Unable to open status file.''
          else
            bnd (gets file_buf) (\<lambda>line.
            if hd line = NUL then skip
            else case c_string line of
              None \<Rightarrow> stop Undefined
            | Some l \<Rightarrow> (case GetProcName l of
                Inl x \<Rightarrow> stop x
              | Inr n \<Rightarrow> PrintProcName (d_name e) n)))))"

definition tps_main :: "dirent list option \<Rightarrow> bool \<Rightarrow> (tps, int) prog" where
  "tps_main proc_dir closedir_ok = (case proc_dir of
     None \<Rightarrow> seq (tps_perror ''Unable to open '/proc' directory.'') (ret 1)
   | Some es \<Rightarrow>
       seq (upd (\<lambda>s. s\<lparr>printed := printed s @ [''  PID CMD'']\<rparr>))
      (seq (for_each show_entry es)
      (if \<not> closedir_ok then seq (tps_perror ''Unable to open status file.'') (ret (-1))
       else ret 0)))"

section \<open>What the functions do\<close>

text \<open>The blanks fill the array, and the terminating zero has no place left.\<close>

lemma blanks_eq: "n \<le> length a \<Longrightarrow> blanks n a s = Inr (replicate n CHR '' '' @ drop n a, s)"
proof (induction n)
  case (Suc n)
  then have "drop n a = a ! n # drop (Suc n) a" by (simp add: Cons_nth_drop_Suc)
  then show ?case using Suc by (simp add: store_space_def list_update_append replicate_append_same)
qed simp

lemma PrintProcName_undefined: "PrintProcName p name s = Inl Undefined"
proof (cases "length p < 5")
  case True
  then show ?thesis by (simp add: PrintProcName_def Let_def seq_apply bnd_apply blanks_eq store_space_def)
qed (simp add: PrintProcName_def Let_def seq_apply)

lemma isNumeric_iff: "isNumeric cs \<longleftrightarrow> (\<forall>c \<in> set cs. isdigit c)"
  by (induction cs) auto

text \<open>
  A status text as the kernel writes it: the first line starts with \<open>Name:\<close> and ends within the array.
\<close>

definition status_text :: "string \<Rightarrow> bool" where
  "status_text st \<longleftrightarrow> (\<exists>name rest. st = ''Name:'' @ name @ newline # rest \<and> length name + 5 < MAX_BUFF \<and>
     NUL \<notin> set name \<and> newline \<notin> set name)"

text \<open>The array after \<open>read\<close> and \<open>GetFirstLine\<close>.\<close>

definition read_line :: "string \<Rightarrow> string \<Rightarrow> string" where
  "read_line buf text = (let n = min MAX_BUFF (length text) in GetFirstLine (take n text @ drop n buf) n)"

lemma length_read_line: "length buf = MAX_BUFF \<Longrightarrow> length (read_line buf text) = MAX_BUFF"
  by (simp add: read_line_def GetFirstLine_def Let_def split: option.split)

lemma read_line_eq:
  assumes st: "st = h @ newline # rest" "length h < MAX_BUFF" "newline \<notin> set h"
  shows "\<exists>extra. read_line buf st = h @ NUL # extra"
proof -
  define k where "k = min MAX_BUFF (length st)"
  have "length h < k" using st(1,2) by (simp add: k_def)
  then obtain m where m: "k = length h + Suc m" by (metis add_Suc_right less_imp_Suc_add)
  have b: "take k st = h @ newline # take m rest" by (simp add: st(1) m)
  have len: "length (take k st) = k" by (simp add: k_def)
  have "first_index (\<lambda>c. c = newline) (h @ newline # take m rest) = Some (length h)"
  proof (rule first_index_SomeI)
    show "\<forall>j < length h. (h @ newline # take m rest) ! j \<noteq> newline"
      using st(3) by (metis nth_append nth_mem)
  qed simp_all
  moreover have "take k (take k st @ drop k buf) = h @ newline # take m rest"
    using b len by (metis append_eq_conv_conj)
  ultimately have "read_line buf st = (h @ newline # take m rest @ drop k buf)[length h := NUL]"
    using b by (simp add: read_line_def GetFirstLine_def Let_def k_def)
  then show ?thesis by (simp add: list_update_append)
qed

lemma GetProcName_found: "\<exists>name'. GetProcName (''Name:'' @ name) = Inr name'"
  by (simp add: GetProcName_def numeral_eq_Suc)

section \<open>The loop\<close>

text \<open>An entry that is a process, in terms of its name, and one whose line is to be printed.\<close>

definition numbered :: "dirent \<Rightarrow> bool" where
  "numbered e \<longleftrightarrow> is_dir e = Some True \<and> (\<forall>c \<in> set (d_name e). isdigit c)"

definition listed :: "dirent \<Rightarrow> bool" where
  "listed e \<longleftrightarrow> numbered e \<and> (\<exists>st. contents e = Content st True)"

text \<open>The message for an entry that is a process whose file fails.\<close>

definition failure :: "dirent \<Rightarrow> string list" where
  "failure e = (if \<not> numbered e then [] else case contents e of
      Cannot_open \<Rightarrow> [''Unable to open status file.'']
    | Cannot_read \<Rightarrow> [''Unable to read status file.'']
    | Content _ close_ok \<Rightarrow> if close_ok then [] else [''Unable to open status file.''])"

definition regular :: "dirent \<Rightarrow> bool" where
  "regular e \<longleftrightarrow> (\<forall>st. contents e = Content st True \<longrightarrow> status_text st)"

lemma numbered_process: "numbered e \<longleftrightarrow> is_process e"
  by (simp add: numbered_def is_process_def isNumeric_iff)

lemma show_entry_listed:
  assumes "listed e" "regular e"
  shows "show_entry e s = Inl Undefined"
proof -
  obtain st where e: "is_process e" "contents e = Content st True" "status_text st"
    using assms by (auto simp: listed_def regular_def numbered_process)
  then obtain name rest where st: "st = (''Name:'' @ name) @ newline # rest" "length (''Name:'' @ name) < MAX_BUFF"
      "newline \<notin> set (''Name:'' @ name)" "NUL \<notin> set (''Name:'' @ name)"
    by (auto simp: status_text_def)
  obtain extra where line: "read_line (file_buf s) st = (''Name:'' @ name) @ NUL # extra"
    using read_line_eq [OF st(1-3)] by blast
  have "takeWhile (\<lambda>c. c \<noteq> NUL) (name @ NUL # extra) = name" using st(4) by (auto simp: takeWhile_append)
  then have "c_string (read_line (file_buf s) st) = Some (''Name:'' @ name)" by (simp add: line c_string_def)
  moreover obtain name' where "GetProcName (''Name:'' @ name) = Inr name'" using GetProcName_found by blast
  moreover have "hd (read_line (file_buf s) st) \<noteq> NUL" by (simp add: line)
  ultimately show ?thesis
    using e(1,2) by (simp add: show_entry_def Let_def seq_apply bnd_apply PrintProcName_undefined flip: read_line_def
        [unfolded Let_def])
qed

lemma show_entry_not_listed:
  assumes "\<not> listed e" "length (file_buf s) = MAX_BUFF"
  shows "\<exists>buf. show_entry e s = Inr ((), s\<lparr>messages := messages s @ failure e, file_buf := buf\<rparr>) \<and> length buf = MAX_BUFF"
proof (cases "numbered e")
  case False
  then show ?thesis using assms(2)
    by (intro exI [of _ "file_buf s"]) (simp add: show_entry_def failure_def numbered_process)
next
  case True
  show ?thesis
  proof (cases "contents e")
    case (Content st close_ok)
    then have "\<not> close_ok" using True assms(1) by (auto simp: listed_def)
    then show ?thesis
      using True Content length_read_line [OF assms(2), of st]
      by (intro exI [of _ "read_line (file_buf s) st"])
        (simp add: show_entry_def failure_def numbered_process Let_def seq_apply tps_perror_def read_line_def)
  qed (use True assms(2) in \<open>auto simp: show_entry_def failure_def numbered_process tps_perror_def
      intro!: exI [of _ "file_buf s"]\<close>)
qed

lemma list_loop:
  "\<forall>e \<in> set es. regular e \<Longrightarrow> length (file_buf s) = MAX_BUFF \<Longrightarrow>
    if \<exists>e \<in> set es. listed e then for_each show_entry es s = Inl Undefined
    else \<exists>buf. for_each show_entry es s = Inr ((), s\<lparr>messages := messages s @ concat (map failure es), file_buf := buf\<rparr>)"
proof (induction es arbitrary: s)
  case Nil
  then show ?case by (simp add: exI [of _ "file_buf s"])
next
  case (Cons e es)
  show ?case
  proof (cases "listed e")
    case True
    then show ?thesis using show_entry_listed [of e s] Cons.prems(1) by (simp add: seq_apply)
  next
    case False
    then obtain buf where buf: "show_entry e s = Inr ((), s\<lparr>messages := messages s @ failure e, file_buf := buf\<rparr>)"
        "length buf = MAX_BUFF"
      using show_entry_not_listed [OF False Cons.prems(2)] by blast
    let ?s = "s\<lparr>messages := messages s @ failure e, file_buf := buf\<rparr>"
    have "if \<exists>e \<in> set es. listed e then for_each show_entry es ?s = Inl Undefined
      else \<exists>buf. for_each show_entry es ?s = Inr ((), ?s\<lparr>messages := messages ?s @ concat (map failure es), file_buf := buf\<rparr>)"
      using Cons.IH [of ?s] Cons.prems(1) buf(2) by simp
    then show ?thesis using False buf(1) by (auto simp: seq_apply split: if_splits)
  qed
qed

section \<open>The property\<close>

text \<open>
  C29. The list of processes.  Suppose that every entry of \<open>/proc\<close> whose status file can be opened, read and closed has a
  text whose first line starts with \<open>Name:\<close>, has no zero byte, and ends within the 4096 bytes of the array that it is read into.  As
  soon as there is one process to list, an entry that is a directory, has a name of digits only, and whose file can be
  opened, read and closed, \<open>tps\<close> runs into undefined behaviour: \<open>PrintProcName\<close> writes the terminating zero
  behind the end of its array, or, for a number of five or more digits, declares an array whose size is not
  positive.  Without such a process it prints the header only, one message for each process whose file fails, in
  the order of the directory, and returns 0, or -1 with a message when closing the directory fails.
  If \<open>/proc\<close> itself cannot be opened it prints a message and returns 1.
\<close>
theorem tps_main_undefined:
  assumes "\<forall>e \<in> set es. regular e" "length (file_buf s) = MAX_BUFF"
  shows "tps_main None ok s = Inr (1, s\<lparr>messages := messages s @ [''Unable to open '/proc' directory.'']\<rparr>) \<and>
    (if \<exists>e \<in> set es. listed e then tps_main (Some es) ok s = Inl Undefined
     else \<exists>buf. tps_main (Some es) ok s = Inr (if ok then 0 else -1,
       s\<lparr>printed := printed s @ [''  PID CMD''],
         messages := messages s @ concat (map failure es) @ (if ok then [] else [''Unable to open status file.'']),
         file_buf := buf\<rparr>))"
proof -
  let ?s = "s\<lparr>printed := printed s @ [''  PID CMD'']\<rparr>"
  have loop: "if \<exists>e \<in> set es. listed e then for_each show_entry es ?s = Inl Undefined
      else \<exists>buf. for_each show_entry es ?s = Inr ((), ?s\<lparr>messages := messages ?s @ concat (map failure es), file_buf := buf\<rparr>)"
    using list_loop [OF assms(1), of ?s] assms(2) by simp
  show ?thesis
  proof (cases "\<exists>e \<in> set es. listed e")
    case True
    then show ?thesis using loop by (simp add: tps_main_def seq_apply tps_perror_def)
  next
    case False
    then obtain buf where "for_each show_entry es ?s =
        Inr ((), ?s\<lparr>messages := messages ?s @ concat (map failure es), file_buf := buf\<rparr>)"
      using loop by auto
    then have "tps_main (Some es) ok s = Inr (if ok then 0 else -1, s\<lparr>printed := printed s @ [''  PID CMD''],
         messages := messages s @ concat (map failure es) @ (if ok then [] else [''Unable to open status file.'']),
         file_buf := buf\<rparr>)"
      by (simp add: tps_main_def seq_apply tps_perror_def)
    then show ?thesis using False by (auto simp: tps_main_def seq_apply tps_perror_def)
  qed
qed

lemma tps_main_undefined_witness:
  "tps_main (Some [\<lparr>d_name = ''self'', is_dir = Some True, contents = Cannot_open\<rparr>,
      \<lparr>d_name = ''77'', is_dir = Some True, contents = Cannot_read\<rparr>,
      \<lparr>d_name = ''1'', is_dir = Some True, contents = Content (''Name:'' @ [tab] @ ''init'' @ [newline] @ ''State'') True\<rparr>]) True
    \<lparr>printed = [], messages = [], file_buf = replicate MAX_BUFF NUL\<rparr> = Inl Undefined \<and>
   (\<exists>s'. tps_main (Some [\<lparr>d_name = ''self'', is_dir = Some True, contents = Cannot_open\<rparr>,
      \<lparr>d_name = ''77'', is_dir = Some True, contents = Cannot_read\<rparr>]) False
    \<lparr>printed = [], messages = [], file_buf = replicate MAX_BUFF NUL\<rparr> = Inr (-1, s') \<and>
    printed s' = [''  PID CMD''] \<and> messages s' = [''Unable to read status file.'', ''Unable to open status file.''])"
proof -
  let ?f = "[\<lparr>d_name = ''self'', is_dir = Some True, contents = Cannot_open\<rparr>,
      \<lparr>d_name = ''77'', is_dir = Some True, contents = Cannot_read\<rparr>]"
  let ?e = "\<lparr>d_name = ''1'', is_dir = Some True, contents = Content (''Name:'' @ [tab] @ ''init'' @ [newline] @ ''State'') True\<rparr>"
  let ?s = "\<lparr>printed = [], messages = [], file_buf = replicate MAX_BUFF NUL\<rparr>"
  have "status_text (''Name:'' @ [tab] @ ''init'' @ [newline] @ ''State'')"
    unfolding status_text_def by (intro exI [of _ "[tab] @ ''init''"] exI [of _ "''State''"]) (simp add: MAX_BUFF_def)
  then have "regular ?e" by (simp add: regular_def)
  then have "\<forall>e \<in> set (?f @ [?e]). regular e" "\<forall>e \<in> set ?f. regular e" by (auto simp: regular_def)
  moreover have "listed ?e" by (simp add: listed_def numbered_def isdigit_def)
  moreover have "\<not> (\<exists>e \<in> set ?f. listed e)" by (simp add: listed_def)
  moreover have "concat (map failure ?f) = [''Unable to read status file.'']" by code_simp
  ultimately show ?thesis
    using tps_main_undefined [of "?f @ [?e]" ?s True] tps_main_undefined [of ?f ?s False] by auto
qed

end
