(* ===== verification/Spec2Isabelle.thy ===== *)
theory Spec2Isabelle
  imports Vms_Processes Pht_Properties Wut_Programs Wut_Cancel Ssp_Programs Tps_List
begin

text \<open>
  A verification library for the five user-space programs of this repository.

  \<^bold>\<open>The programs.\<close>
  \<^item> \<open>vms/\<close> simulates virtual memory: a mapping of 256 pages with a first-fit page allocator
    (\<open>pages.c\<close>), page table entries of 64 bits (\<open>pte.c\<close>, \<open>page_table.c\<close>), a memory management unit that walks
    tables of three levels for every read and write (\<open>mmu.c\<close>), and two ways to copy an
    address space, the second one on write, with a page fault handler (\<open>vms.c\<close>); \<open>main.c\<close> is a demo.
  \<^item> \<open>pht/\<close> has three hash tables, without locks (\<open>hash-table-base.c\<close>), with one mutex
    (\<open>hash-table-v1.c\<close>) and with a mutex for each bucket (\<open>hash-table-v2.c\<close>), and a tester that fills
    them from several threads (\<open>pht-tester.c\<close>).
  \<^item> \<open>wut/\<close> is a library of cooperative threads in user space (\<open>wut.c\<close>): a ready queue, an array of
    threads, and contexts that are switched by yield, join and exit.
  \<^item> \<open>ssp/\<close> is a library of subprocesses (\<open>ssp.c\<close>): a table of the processes created and the orphans adopted, with
    their statuses.
  \<^item> \<open>tps/\<close> lists the processes of \<open>/proc\<close> (\<open>main.c\<close>).

  \<^bold>\<open>How programs are modelled\<close> (\<open>Prelude\<close>).  A function that reads or changes state is a \<open>prog\<close>: from a state to
  either a result and the next state, or the reason why the process stops: a memory access that
  faults, behaviour that C leaves undefined, a failed assertion, \<open>exit\<close> with its status, or a wait
  that cannot end.  Programs are put together with \<open>bnd\<close>, \<open>seq\<close> and \<open>for_each\<close>; \<open>triple\<close> is the Hoare triple
  for them.  Machine integers keep their width (\<open>u8\<close>, \<open>u32\<close>, \<open>u64\<close>), an \<open>int\<close> of C is an \<open>int\<close> with
  the overflow written out where a program can reach it, and memory is bytes at addresses (\<open>vms\<close>), lists updated by index,
  or links between entries (\<open>wut\<close>).  The same definitions run on concrete inputs: every property with
  hypotheses is followed by an instance of it, a \<open>_witness\<close>, whose definitions are evaluated.

  \<^bold>\<open>Virtual memory.\<close>
  \<^item> \<open>Vms_Memory\<close>: the state \<open>vms\<close> (bytes, used pages, root table, reference counts), loads and
    stores of 4 and 8 bytes as instances of the locale \<open>typed_cell\<close>, \<open>memcpy\<close>, and regions that do not meet.
  \<^item> \<open>Vms_Pte\<close>: the functions of \<open>pte.c\<close>; each flag is an instance of the locale \<open>entry_flag\<close>.
  \<^item> \<open>Vms_Pages\<close>: \<open>pages.c\<close> and \<open>page_table.c\<close>; the locale \<open>page_allocator\<close> says what the other parts need of
    the allocator.
  \<^item> \<open>Vms_Mmu\<close>: \<open>mmu.c\<close> and \<open>page_fault_handler\<close>; \<open>resolve\<close> is the reference definition of \<open>mmu\<close>, a descent
    with one repair in each level, which \<open>mmu_resolves\<close> shows equal to the loop with its flag.
  \<^item> \<open>Vms_Space\<close>, \<open>Vms_Fault\<close>: tables by page number, reading back what was written, the outcomes of
    the fault handler, and accesses that end the process.
  \<^item> \<open>Vms_Copy\<close>, \<open>Vms_Fork\<close>, \<open>Vms_Cow\<close>: both ways of copying an address space.  The three nested loops are
    three instances of the locale \<open>copier\<close>, each proved from the one below, so that the
    tree of the child, its frame, and how the copy fails when the pages run out, come out of one induction.
    \<open>fork_copy_isolates\<close> and \<open>fork_cow_isolates\<close> are the purpose of the program for one write after a fork: it does not
    change what the other process reads.
    A copy is made of pages apart from each other (\<open>table_pages\<close>, \<open>kids_apart\<close>), which is part of the contract.
  \<^item> \<open>Vms_Demo\<close>, \<open>Vms_Properties\<close>: the demo, and the properties with their instances.
  \<^item> \<open>Vms_Lookup\<close>: the \<open>view\<close> of a root, a partial map from page numbers to the access that an entry gives and the
    bytes of the page, and \<open>vms_read\<close> and \<open>vms_write\<close> in terms of it.  The kinds of access are in order, as an
    instance of \<open>linorder\<close>: a write succeeds, given memory, from \<open>On_write\<close> on.
  \<^item> \<open>Vms_Layout\<close>, \<open>Vms_Spaces\<close>, \<open>Vms_Children\<close>: any number of processes on one memory.  \<open>processes_inv\<close> says that their
    tables lie apart, that a page that may be written has one owner and that no page has more owners than
    its count; writes, through the fault handler or not, and both forks keep it, and what each does to the views is
    \<open>write_space\<close>, \<open>fork_copy_space\<close> and \<open>fork_cow_space\<close>.
  \<^item> \<open>Vms_Processes\<close>: the specification, where every process has a private memory, and the refinement
    \<open>processes_have_private_memory\<close> for every interleaving of reads, writes and forks in which no access crosses the
    end of its page; one that does reaches the next page of the mapping (\<open>write_crosses_page\<close> in \<open>Vms_Space\<close>).  It also shows the page that is
    lost when a process that shares its pages is copied (\<open>copied_child_cannot_write\<close>).

  \<^bold>\<open>Hash tables.\<close>
  \<^item> \<open>Pht_Strings\<close>: C strings in the tester's buffer, \<open>strcmp\<close>, and \<open>bernstein_hash\<close> with signed characters.
  \<^item> \<open>Pht_Table\<close>: buckets, the table without locks, and the locales \<open>string_map\<close>, \<open>open_map\<close> and
    \<open>disposable_map\<close>: what a table promises, as a map from strings to numbers.
  \<^item> \<open>Pht_Locked\<close>: the tables with locks called from one thread, as instances of these locales.
  \<^item> \<open>Pht_Threads\<close>: their insertions interleaved.  \<open>add_step\<close> is one step of one thread (take the lock,
    search, link the new entry, publish it, release), \<open>run\<close> any interleaving of \<open>n\<close> threads, and
    the locale \<open>locking\<close>, with an instance for each way of choosing the lock, carries mutual exclusion,
    no lost entries and progress.
    \<open>run_steps\<close> counts the steps of a run: the threads end after at most five steps for each key.
  \<^item> \<open>Pht_Tester\<close>, \<open>Pht_Phases\<close>: command line numbers, the generation of the keys, and the phases
    of \<open>main\<close>; the phases with threads are relations, since their outcome depends on the interleaving.
  \<^item> \<open>Pht_Main\<close>, \<open>Pht_Properties\<close>: \<open>main\<close> as a whole (\<open>tester_main\<close>), from the options to the status it returns, with the calls of
    \<open>pthread_create\<close> and \<open>pthread_join\<close> that fail, and the properties.  What \<open>argp_parse\<close> hands on, \<open>rand\<close>,
    \<open>gettimeofday\<close> and the threads' calls answer is the record \<open>environment\<close>.

  \<^bold>\<open>User-level threads.\<close>
  \<^item> \<open>Wut_Queue\<close>: the \<open>TAILQ\<close> macros on links and on pointers to links, as an instance of the locale \<open>fifo\<close>.
  \<^item> \<open>Wut_Threads\<close>: the functions of \<open>wut.c\<close>.  A saved context is where its execution goes on (\<open>ctx\<close>), and a
    call that switches contexts returns which thread runs next and with what result (\<open>event\<close>).
  \<^item> \<open>Wut_Spec\<close>: an abstract scheduler, a queue of ids and a map from ids to jobs, its calls, and the
    invariant \<open>sched_inv\<close> that they keep.
  \<^item> \<open>Wut_Refine\<close>, \<open>Wut_Calls\<close>, \<open>Wut_Create\<close>: the functions implement the abstract calls, through the relation \<open>rep\<close>.
  \<^item> \<open>Wut_System\<close>, \<open>Wut_Join\<close>, \<open>Wut_Properties\<close>: the states that sequences of allowed calls reach from
    \<open>wut_init\<close>, and what holds in them: a well-formed queue of exactly the alive threads, round robin, least free ids,
    statuses that reach the thread that joins, and exactly when a call stops the process.  Allowed are
    all calls except two: to cancel a thread that waits in \<open>wut_join\<close>, and to create one without memory or beyond an \<open>int\<close>.
  \<^item> \<open>Wut_Cancel\<close>: what the first of these does to the queue, followed on the links themselves.
  \<^item> \<open>Wut_Programs\<close>: a whole program: any number of threads are created, run, exit and are joined (\<open>wut_fork_join\<close>).
    \<open>costs\<close> bounds what a call allocates: four allocations are enough for each thread.

  \<^bold>\<open>Subprocesses.\<close>
  \<^item> \<open>Ssp_Processes\<close>: the functions of \<open>ssp.c\<close>, over what the system keeps for the process (its children, their
    ends, its descriptors).  The endless loop of \<open>ssp_unknown\<close> has one round more than there are children as
    fuel, and \<open>unknown_result\<close> shows that this is enough.
  \<^item> \<open>Ssp_Table\<close>, \<open>Ssp_Calls\<close>: the invariant \<open>table_ok\<close>, and that every function keeps it.
  \<^item> \<open>Ssp_Wait\<close>, \<open>Ssp_Print\<close>, \<open>Ssp_Child\<close>: what the loops over the table and over the descriptors compute, and the
    lines that \<open>ssp_print\<close> prints.
  \<^item> \<open>Ssp_Properties\<close>: the states that calls, ends of children and orphans lead to after one call of \<open>ssp_init\<close>, and the
    properties.
  \<^item> \<open>Ssp_Programs\<close>: a whole program: any number of processes are created, waited for and asked for their
    status (\<open>ssp_create_wait_status\<close>).

  \<^bold>\<open>Process lister.\<close>  \<open>Tps_List\<close> has the string functions and the loop of \<open>tps/src/main.c\<close>.  Since \<open>PrintProcName\<close>
  stores behind the end of its array, a run that lists a process is undefined behaviour (\<open>tps_main_undefined\<close>).

  \<^bold>\<open>Assumptions.\<close>  The system calls and the C library do what POSIX says of them.  What the kernel decides
  (the address of the mapping, the result of \<open>fork\<close>, how a child ends, the entries of \<open>/proc\<close>, the numbers of
  \<open>rand\<close>, how many allocations succeed) is an argument or a field of the state.  \<open>char\<close> is signed and \<open>int\<close> has 32 bits.
  Threads of \<open>pht\<close> interleave step by step with a sequentially consistent memory; reads of a table while
  another thread inserts do not occur in the tester and are not modelled.

  \<^bold>\<open>Not modelled.\<close>  The parsing of options by \<open>argp\<close> itself (the tester gets its result), and the lines of a process that stops
  before its output is written; \<open>delete_stack\<close> of \<open>wut.c\<close>, which is not called; process numbers that the kernel uses again; what is on
  the screen besides the lines the programs print; the build files, the test programs with their Python graders, and the
  files CMake writes to identify the compiler, which are no part of the programs.
\<close>

end
